(* ===== verification/Usv_Prelude.thy ===== *)
theory Usv_Prelude
  imports Main "HOL-Library.Word" "HOL-Library.Signed_Division"
begin

text \<open>
  Shared vocabulary of the development: the machine integers of the STM32F103 (a 32-bit
  little-endian ARM Cortex-M3, where \<^verbatim>\<open>char\<close> is unsigned and \<^verbatim>\<open>int\<close> has 32 bits),
  undefined behaviour of C as an error value, bounds-checked arrays, unsigned timer
  arithmetic, and the generic lemmas the component theories use.

  A C \<^verbatim>\<open>int\<close> is a HOL \<open>int\<close> in the range of 32-bit two's complement; \<open>chk\<close> turns a
  result outside it into the error \<open>SignedOverflow\<close>, since signed overflow is undefined.
  A C unsigned integer is a \<open>word\<close>, whose arithmetic wraps.
\<close>

named_theorems res_simps \<open>evaluation of the error monad\<close>
named_theorems usv_defs \<open>definitions of the application's operations\<close>

type_synonym u8 = "8 word"
type_synonym u16 = "16 word"
type_synonym u32 = "32 word"
type_synonym tick = "32 word"

datatype c_error =
    OutOfBounds       \<comment> \<open>a write or read past the end of an array\<close>
  | SignedOverflow    \<comment> \<open>signed arithmetic leaves the range of int\<close>
  | FpInvalid         \<comment> \<open>a floating-point operation without a number as its result\<close>
  | Uninitialized     \<comment> \<open>an object is read before it is written\<close>
  | NullDeref         \<comment> \<open>a null pointer is dereferenced\<close>
  | AssertFailed      \<comment> \<open>RT_ASSERT does not hold\<close>

type_synonym 'a res = "c_error + 'a"

definition bind_res :: "'a res \<Rightarrow> ('a \<Rightarrow> 'b res) \<Rightarrow> 'b res" where
  "bind_res m f = (case m of Inl e \<Rightarrow> Inl e | Inr x \<Rightarrow> f x)"

definition int_min :: int where "int_min = - (2 ^ 31)"
definition int_max :: int where "int_max = 2 ^ 31 - 1"

definition chk :: "int \<Rightarrow> int res" where
  "chk x = (if int_min \<le> x \<and> x \<le> int_max then Inr x else Inl SignedOverflow)"

definition arr_put :: "'a list \<Rightarrow> nat \<Rightarrow> 'a \<Rightarrow> 'a list res" where
  "arr_put xs i v = (if i < length xs then Inr (xs[i := v]) else Inl OutOfBounds)"

definition arr_get :: "'a list \<Rightarrow> nat \<Rightarrow> 'a res" where
  "arr_get xs i = (if i < length xs then Inr (xs ! i) else Inl OutOfBounds)"

text \<open>The value of an unsigned 32-bit expression assigned to an \<^verbatim>\<open>int\<close>, and back.\<close>

definition u2i :: "u32 \<Rightarrow> int" where "u2i w = sint w"
definition i2u :: "int \<Rightarrow> u32" where "i2u x = word_of_int x"

text \<open>C division truncates towards zero and the remainder has the dividend's sign.\<close>

definition cdiv :: "int \<Rightarrow> int \<Rightarrow> int" where "cdiv a b = a sdiv b"
definition cmod :: "int \<Rightarrow> int \<Rightarrow> int" where "cmod a b = a smod b"

section \<open>Lemmas\<close>

lemma bind_res_simps [simp, res_simps]:
  "bind_res (Inl e) f = Inl e"
  "bind_res (Inr x) f = f x"
  by (simp_all add: bind_res_def)

lemma bind_res_Inr_iff:
  "bind_res m f = Inr y \<longleftrightarrow> (\<exists>x. m = Inr x \<and> f x = Inr y)"
  by (cases m) auto

lemma bind_resE: "bind_res x f = Inr y \<Longrightarrow> (\<And>a. x = Inr a \<Longrightarrow> f a = Inr y \<Longrightarrow> P) \<Longrightarrow> P"
  by (cases x) simp_all

lemma bind_res_assoc: "bind_res (bind_res m f) g = bind_res m (\<lambda>x. bind_res (f x) g)"
  by (cases m) auto

lemma chk_in_range [simp, res_simps]: "int_min \<le> x \<Longrightarrow> x \<le> int_max \<Longrightarrow> chk x = Inr x"
  by (simp add: chk_def)

lemma chk_abs: "\<bar>x\<bar> \<le> 2 ^ 30 \<Longrightarrow> chk x = Inr x"
  by (auto simp: chk_def int_min_def int_max_def)

lemma chk_Inr_iff: "chk x = Inr y \<longleftrightarrow> y = x \<and> int_min \<le> x \<and> x \<le> int_max"
  by (auto simp: chk_def)

lemma arr_put_ok [simp, res_simps]: "i < length xs \<Longrightarrow> arr_put xs i v = Inr (xs[i := v])"
  by (simp add: arr_put_def)

lemma arr_get_ok [simp, res_simps]: "i < length xs \<Longrightarrow> arr_get xs i = Inr (xs ! i)"
  by (simp add: arr_get_def)

lemma arr_put_past_end [res_simps]: "length xs \<le> i \<Longrightarrow> arr_put xs i v = Inl OutOfBounds"
  by (simp add: arr_put_def)

lemma arr_put_length: "arr_put xs i v = Inr ys \<Longrightarrow> length ys = length xs"
  by (auto simp: arr_put_def split: if_splits)

lemma u2i_i2u: "int_min \<le> x \<Longrightarrow> x \<le> int_max \<Longrightarrow> u2i (i2u x) = x"
  by (simp add: u2i_def i2u_def int_min_def int_max_def sint_sbintrunc' signed_take_bit_int_eq_self_iff)

lemma i2u_u2i [simp]: "i2u (u2i w) = w"
  by (simp add: u2i_def i2u_def)

lemma uint_i2u: "0 \<le> x \<Longrightarrow> x < 2 ^ 32 \<Longrightarrow> uint (i2u x) = x"
  by (simp add: i2u_def uint_word_of_int)

lemma unat_i2u: "0 \<le> x \<Longrightarrow> x < 2 ^ 32 \<Longrightarrow> unat (i2u x) = nat x"
  by (metis nat_uint_eq uint_i2u)

lemma cdiv_nonneg: "0 \<le> a \<Longrightarrow> 0 \<le> b \<Longrightarrow> cdiv a b = a div b"
  by (simp add: cdiv_def signed_divide_int_def sgn_if)

lemma cmod_nonneg: "0 \<le> a \<Longrightarrow> 0 \<le> b \<Longrightarrow> cmod a b = a mod b"
  by (simp add: cmod_def signed_modulo_int_def signed_divide_int_def sgn_if minus_div_mult_eq_mod)

lemma cdiv_abs: "\<bar>cdiv a b\<bar> = \<bar>a\<bar> div \<bar>b\<bar>"
proof -
  have "0 \<le> \<bar>a\<bar> div \<bar>b\<bar>"
    by (cases "b = 0") (simp_all add: pos_imp_zdiv_nonneg_iff)
  then show ?thesis
    by (auto simp: cdiv_def signed_divide_int_def abs_mult sgn_if)
qed

lemma cdiv_abs_le: "\<bar>cdiv a b\<bar> \<le> \<bar>a\<bar>"
proof (cases "b = 0")
  case True
  then show ?thesis by (simp add: cdiv_abs)
next
  case False
  then have "\<bar>a\<bar> div \<bar>b\<bar> \<le> \<bar>a\<bar> div 1"
    by (intro zdiv_mono2) auto
  then show ?thesis by (simp add: cdiv_abs)
qed

section \<open>Error codes of the kernel\<close>

definition RT_EOK :: int where "RT_EOK = 0"
definition RT_ERROR :: int where "RT_ERROR = 1"
definition RT_ETIMEOUT :: int where "RT_ETIMEOUT = 2"
definition RT_EFULL :: int where "RT_EFULL = 3"
definition RT_EEMPTY :: int where "RT_EEMPTY = 4"
definition RT_ENOMEM :: int where "RT_ENOMEM = 5"
definition RT_ENOSYS :: int where "RT_ENOSYS = 6"
definition RT_EBUSY :: int where "RT_EBUSY = 7"
definition RT_EIO :: int where "RT_EIO = 8"
definition RT_EINTR :: int where "RT_EINTR = 9"
definition RT_EINVAL :: int where "RT_EINVAL = 10"

lemmas rt_errors = RT_EOK_def RT_ERROR_def RT_ETIMEOUT_def RT_EFULL_def RT_EEMPTY_def RT_ENOMEM_def RT_ENOSYS_def
  RT_EBUSY_def RT_EIO_def RT_EINTR_def RT_EINVAL_def

end
