(* ===== verification/C_Float.thy ===== *)
theory C_Float
  imports Complex_Main Usv_Prelude
begin

text \<open>
  Floating-point arithmetic of the firmware.  A \<^verbatim>\<open>float\<close> (24 significant bits) or a
  \<^verbatim>\<open>double\<close> (53) is the real number it denotes, and every operation is the exact real
  operation followed by rounding to nearest, ties to even (\<open>fl\<close> and \<open>db\<close>), as IEEE 754
  prescribes.  The exponent range is unbounded: the program's values stay far from overflow
  and underflow.  A library function of \<^verbatim>\<open>math.h\<close> is the correctly rounded real function;
  an argument outside its domain, where C gives a NaN, is the error \<open>FpInvalid\<close>.
  \<^verbatim>\<open>float_t\<close> is \<^verbatim>\<open>float\<close> on this target.

  The lemmas are what the components need: rounding is monotone, exact on dyadic numbers with
  few enough bits, and off by at most half a unit in the last place.
\<close>

definition rne :: "real \<Rightarrow> int" where
  "rne x = (let f = \<lfloor>x\<rfloor>; d = x - of_int f in
     if d < 1 / 2 then f else if 1 / 2 < d then f + 1 else if even f then f else f + 1)"

definition expo :: "real \<Rightarrow> int" where
  "expo x = \<lfloor>log 2 \<bar>x\<bar>\<rfloor>"

definition ulp :: "nat \<Rightarrow> real \<Rightarrow> real" where
  "ulp p x = 2 powi (expo x - int p + 1)"

definition rnd :: "nat \<Rightarrow> real \<Rightarrow> real" where
  "rnd p x = (if x = 0 then 0 else of_int (rne (x / ulp p x)) * ulp p x)"

definition fl :: "real \<Rightarrow> real" where "fl x = rnd 24 x"
definition db :: "real \<Rightarrow> real" where "db x = rnd 53 x"

definition c_trunc :: "real \<Rightarrow> int" where
  "c_trunc x = (if 0 \<le> x then \<lfloor>x\<rfloor> else \<lceil>x\<rceil>)"

definition f2i :: "real \<Rightarrow> int res" where
  "f2i x = (let n = c_trunc x in if int_min \<le> n \<and> n \<le> int_max then Inr n else Inl FpInvalid)"

definition m_cos :: "real \<Rightarrow> real" where "m_cos x = db (cos x)"
definition m_sin :: "real \<Rightarrow> real" where "m_sin x = db (sin x)"
definition m_tan :: "real \<Rightarrow> real" where "m_tan x = db (tan x)"
definition m_exp :: "real \<Rightarrow> real" where "m_exp x = db (exp x)"

definition m_sqrt :: "real \<Rightarrow> real res" where
  "m_sqrt x = (if 0 \<le> x then Inr (db (sqrt x)) else Inl FpInvalid)"

definition m_asin :: "real \<Rightarrow> real res" where
  "m_asin x = (if \<bar>x\<bar> \<le> 1 then Inr (db (arcsin x)) else Inl FpInvalid)"

definition atan2r :: "real \<Rightarrow> real \<Rightarrow> real" where
  "atan2r y x =
     (if 0 < x then arctan (y / x)
      else if x < 0 then (if 0 \<le> y then arctan (y / x) + pi else arctan (y / x) - pi)
      else if 0 < y then pi / 2 else if y < 0 then - (pi / 2) else 0)"

definition m_atan2 :: "real \<Rightarrow> real \<Rightarrow> real" where "m_atan2 y x = db (atan2r y x)"

section \<open>Rounding to an integer\<close>

lemma rne_le: "of_int (rne x) \<le> x + 1 / 2"
  unfolding rne_def Let_def by (auto; linarith)

lemma rne_ge: "x - 1 / 2 \<le> of_int (rne x)"
  unfolding rne_def Let_def by (auto; linarith)

lemma rne_of_int [simp]: "rne (of_int n) = n"
  by (simp add: rne_def)

lemma rne_minus: "rne (- x) = - rne x"
proof -
  consider "x = of_int \<lfloor>x\<rfloor>" | "of_int \<lfloor>x\<rfloor> < x" by linarith
  then show ?thesis
  proof cases
    case 1
    have "rne (- x) = rne (of_int (- \<lfloor>x\<rfloor>))" using 1 by simp
    then show ?thesis by (metis 1 rne_of_int)
  next
    case 2
    then have c: "\<lfloor>- x\<rfloor> = - \<lfloor>x\<rfloor> - 1" by linarith
    show ?thesis unfolding rne_def Let_def c by auto
  qed
qed

lemma rne_mono:
  assumes "x \<le> y"
  shows "rne x \<le> rne y"
proof (cases "\<lfloor>x\<rfloor> = \<lfloor>y\<rfloor>")
  case True
  with assms show ?thesis by (auto simp: rne_def Let_def)
next
  case False
  then have lt: "\<lfloor>x\<rfloor> + 1 \<le> \<lfloor>y\<rfloor>" using floor_mono [OF assms] by linarith
  have "rne x \<le> \<lfloor>x\<rfloor> + 1" by (auto simp: rne_def Let_def)
  moreover have "\<lfloor>y\<rfloor> \<le> rne y" by (auto simp: rne_def Let_def)
  ultimately show ?thesis using lt by linarith
qed

section \<open>Rounding to a number of significant bits\<close>

lemma ulp_pos [simp]: "0 < ulp p x"
  by (simp add: ulp_def)

lemma expo_bounds:
  assumes "x \<noteq> 0"
  shows "2 powi expo x \<le> \<bar>x\<bar>" and "\<bar>x\<bar> < 2 powi (expo x + 1)"
proof -
  have e: "2 powr log 2 \<bar>x\<bar> = \<bar>x\<bar>" using assms by simp
  have "2 powr real_of_int (expo x) \<le> 2 powr log 2 \<bar>x\<bar>"
    unfolding expo_def by (intro powr_mono) auto
  then show "2 powi expo x \<le> \<bar>x\<bar>" using e by (simp add: powr_real_of_int')
  have "2 powr log 2 \<bar>x\<bar> < 2 powr real_of_int (expo x + 1)"
    unfolding expo_def by (intro powr_less_mono) (linarith, simp)
  then show "\<bar>x\<bar> < 2 powi (expo x + 1)"
    using e by (simp add: powr_real_of_int' del: of_int_add)
qed

lemma rnd_zero [simp]: "rnd p 0 = 0"
  by (simp add: rnd_def)

lemma rnd_minus: "rnd p (- x) = - rnd p x"
  by (simp add: rnd_def ulp_def expo_def rne_minus)

lemma rnd_error:
  shows "\<bar>rnd p x - x\<bar> \<le> ulp p x / 2"
proof (cases "x = 0")
  case True
  then show ?thesis by (simp add: less_imp_le)
next
  case False
  let ?u = "ulp p x"
  have q: "\<bar>of_int (rne (x / ?u)) - x / ?u\<bar> \<le> 1 / 2"
    using rne_le [of "x / ?u"] rne_ge [of "x / ?u"] by linarith
  have "rnd p x - x = (of_int (rne (x / ?u)) - x / ?u) * ?u"
    using False by (simp add: rnd_def left_diff_distrib less_imp_neq [OF ulp_pos, symmetric])
  then have "\<bar>rnd p x - x\<bar> = \<bar>of_int (rne (x / ?u)) - x / ?u\<bar> * ?u"
    by (simp add: abs_mult less_imp_le)
  also have "\<dots> \<le> 1 / 2 * ?u"
    using q by (intro mult_right_mono) (auto simp: less_imp_le)
  finally show ?thesis by simp
qed

lemma expo_less:
  assumes "x \<noteq> 0" and "\<bar>x\<bar> < 2 powi k"
  shows "expo x < k"
proof (rule ccontr)
  assume "\<not> expo x < k"
  then have "(2::real) powi k \<le> 2 powi expo x"
    by (intro power_int_increasing) auto
  with expo_bounds(1) [OF assms(1)] assms(2) show False by linarith
qed

lemma expo_mono:
  assumes "x \<noteq> 0" and "\<bar>x\<bar> \<le> \<bar>y\<bar>"
  shows "expo x \<le> expo y"
  using assms by (auto simp: expo_def intro!: floor_mono)

lemma rnd_exact_if_int:
  assumes "x = of_int n * ulp p x"
  shows "rnd p x = x"
proof (cases "x = 0")
  case False
  have "x / ulp p x = of_int n"
    using assms ulp_pos [of p x] by (metis nonzero_eq_divide_eq order_less_irrefl)
  then show ?thesis using False assms by (simp add: rnd_def)
qed simp

lemma rnd_dyadic_less:
  assumes "\<bar>m\<bar> < 2 ^ p"
  shows "rnd p (of_int m * 2 powi k) = of_int m * 2 powi k"
proof (cases "m = 0")
  case False
  let ?x = "of_int m * 2 powi k :: real"
  have "\<bar>?x\<bar> < 2 powi (k + int p)"
    using assms by (simp add: abs_mult power_int_add mult.commute flip: of_int_abs of_int_less_iff)
  then have e: "expo ?x < k + int p"
    using False by (intro expo_less) auto
  define j where "j = nat (k - (expo ?x - int p + 1))"
  have j: "k = (expo ?x - int p + 1) + int j" using e by (simp add: j_def)
  have "(2::real) powi k = 2 ^ j * ulp p ?x"
    unfolding ulp_def by (subst j) (simp add: power_int_add mult.commute)
  then have "?x = of_int (m * 2 ^ j) * ulp p ?x" by simp
  then show ?thesis by (rule rnd_exact_if_int)
qed simp

lemma rnd_dyadic:
  assumes "\<bar>m\<bar> \<le> 2 ^ p" and "0 < p"
  shows "rnd p (of_int m * 2 powi k) = of_int m * 2 powi k"
proof (cases "\<bar>m\<bar> < 2 ^ p")
  case True
  then show ?thesis by (rule rnd_dyadic_less)
next
  case False
  with assms(1) have "m = 2 ^ p * sgn m"
    by (metis linorder_not_le mult.commute mult_sgn_abs nle_le)
  then have "(of_int m :: real) = 2 ^ p * of_int (sgn m)"
    by (metis of_int_mult of_int_numeral of_int_power)
  then have eq: "of_int m * 2 powi k = of_int (sgn m) * (2::real) powi (k + int p)"
    by (simp add: power_int_add)
  have "\<bar>sgn m\<bar> < (2::int) ^ p" using assms(2)
    by (metis abs_sgn_eq one_less_numeral_iff one_less_power semiring_norm(76) zero_less_numeral zero_less_power)
  then show ?thesis unfolding eq by (rule rnd_dyadic_less)
qed

lemma rnd_of_int: "\<bar>m\<bar> \<le> 2 ^ p \<Longrightarrow> 0 < p \<Longrightarrow> rnd p (of_int m) = of_int m"
  using rnd_dyadic [of m p 0] by simp

lemma rnd_pow2: "0 < p \<Longrightarrow> rnd p (2 powi k) = 2 powi k"
  using rnd_dyadic [of 1 p k] by simp

lemma rnd_mono_pos:
  assumes "0 < x" "x \<le> y" "0 < p"
  shows "rnd p x \<le> rnd p y"
proof (cases "expo x = expo y")
  case True
  then have u: "ulp p y = ulp p x" by (simp add: ulp_def)
  have "rne (x / ulp p x) \<le> rne (y / ulp p x)"
    using assms(2) by (intro rne_mono divide_right_mono) (auto simp: less_imp_le)
  then show ?thesis using assms(1,2) u
    by (simp add: rnd_def mult_right_mono less_imp_le)
next
  case False
  then have lt: "expo x + 1 \<le> expo y" using expo_mono [of x y] assms(1,2) by auto
  have up: "rnd p x \<le> 2 powi (expo x + 1)" (is "_ \<le> ?b")
  proof -
    have eb: "?b = of_int (2 ^ p) * ulp p x"
      by (simp add: ulp_def flip: power_int_of_nat power_int_add)
    have "x / ulp p x \<le> of_int (2 ^ p)"
      using expo_bounds(2) [of x] assms(1) eb by (simp add: divide_le_eq)
    from rne_mono [OF this] have "rne (x / ulp p x) \<le> 2 ^ p"
      by (simp only: rne_of_int)
    then have "of_int (rne (x / ulp p x)) * ulp p x \<le> of_int (2 ^ p) * ulp p x"
      by (intro mult_right_mono) (auto simp: less_imp_le simp del: of_int_power)
    then show ?thesis using assms(1) eb by (simp add: rnd_def)
  qed
  have lo: "2 powi expo y \<le> rnd p y"
  proof -
    have eb: "2 powi expo y = of_int (2 ^ (p - 1)) * ulp p y"
      using assms(3) by (simp add: ulp_def of_nat_diff flip: power_int_of_nat power_int_add)
    have "of_int (2 ^ (p - 1)) \<le> y / ulp p y"
      using expo_bounds(1) [of y] assms(1,2) eb by (simp add: le_divide_eq)
    from rne_mono [OF this] have "2 ^ (p - 1) \<le> rne (y / ulp p y)"
      by (simp only: rne_of_int)
    then have "of_int (2 ^ (p - 1)) * ulp p y \<le> of_int (rne (y / ulp p y)) * ulp p y"
      by (intro mult_right_mono) (auto simp: less_imp_le simp del: of_int_power)
    then show ?thesis using assms(1,2) eb by (simp add: rnd_def)
  qed
  have "(2::real) powi (expo x + 1) \<le> 2 powi expo y"
    using lt by (intro power_int_increasing) auto
  with up lo show ?thesis by linarith
qed

lemma rnd_nonneg:
  assumes "0 \<le> x"
  shows "0 \<le> rnd p x"
proof -
  have "rne 0 \<le> rne (x / ulp p x)"
    using assms by (intro rne_mono) (simp add: less_imp_le)
  then show ?thesis using rne_of_int [of 0] by (simp add: rnd_def less_imp_le)
qed

lemma rnd_mono:
  assumes "x \<le> y" "0 < p"
  shows "rnd p x \<le> rnd p y"
proof -
  consider "0 < x" | "x \<le> 0" "0 \<le> y" | "y < 0" by linarith
  then show ?thesis
  proof cases
    case 1
    then show ?thesis using assms by (intro rnd_mono_pos)
  next
    case 2
    then have "0 \<le> rnd p (- x)" "0 \<le> rnd p y" by (auto intro: rnd_nonneg)
    then show ?thesis by (simp add: rnd_minus)
  next
    case 3
    then have "rnd p (- y) \<le> rnd p (- x)" using assms by (intro rnd_mono_pos) auto
    then show ?thesis by (simp add: rnd_minus)
  qed
qed

lemma rnd_abs: "\<bar>rnd p x\<bar> = rnd p \<bar>x\<bar>"
  using rnd_nonneg [of x p] rnd_nonneg [of "- x" p] rnd_minus [of p x]
  by (cases "0 \<le> x") auto

lemma rnd_rel_error:
  assumes "\<bar>x\<bar> < 2 powi k"
  shows "\<bar>rnd p x - x\<bar> \<le> 2 powi (k - int p - 1)"
proof (cases "x = 0")
  case False
  then have "expo x - int p + 1 \<le> k - int p"
    using expo_less [OF False assms] by simp
  then have "ulp p x \<le> 2 powi (k - int p)"
    unfolding ulp_def by (intro power_int_increasing) auto
  also have "\<dots> = 2 * 2 powi (k - int p - 1)"
    by (simp add: power_int_diff)
  finally show ?thesis using rnd_error [of p x] by linarith
qed simp

section \<open>Bounds through a chain of roundings\<close>

text \<open>A rounded value stays within every bound that is itself a dyadic number of few bits.\<close>

lemma rnd_le_dyadic:
  assumes "x \<le> of_int m * 2 powi k" "\<bar>m\<bar> \<le> 2 ^ p" "0 < p"
  shows "rnd p x \<le> of_int m * 2 powi k"
  using rnd_mono [OF assms(1,3)] rnd_dyadic [OF assms(2,3)] by simp

lemma rnd_ge_dyadic:
  assumes "of_int m * 2 powi k \<le> x" "\<bar>m\<bar> \<le> 2 ^ p" "0 < p"
  shows "of_int m * 2 powi k \<le> rnd p x"
  using rnd_mono [OF assms(1,3)] rnd_dyadic [OF assms(2,3)] by simp

lemma db_mono: "x \<le> y \<Longrightarrow> db x \<le> db y"
  by (simp add: db_def rnd_mono)

lemma fl_mono: "x \<le> y \<Longrightarrow> fl x \<le> fl y"
  by (simp add: fl_def rnd_mono)

lemma db_zero [simp]: "db 0 = 0" and fl_zero [simp]: "fl 0 = 0"
  by (simp_all add: db_def fl_def)

lemma db_minus: "db (- x) = - db x" and fl_minus: "fl (- x) = - fl x"
  by (simp_all add: db_def fl_def rnd_minus)

lemma db_of_int: "\<bar>m\<bar> \<le> 2 ^ 53 \<Longrightarrow> db (of_int m) = of_int m"
  by (simp add: db_def rnd_of_int)

lemma fl_of_int: "\<bar>m\<bar> \<le> 2 ^ 24 \<Longrightarrow> fl (of_int m) = of_int m"
  by (simp add: fl_def rnd_of_int)

lemma db_numeral [simp]: "numeral w \<le> (2::int) ^ 53 \<Longrightarrow> db (numeral w) = numeral w"
  using db_of_int [of "numeral w"] by simp

lemma fl_numeral [simp]: "numeral w \<le> (2::int) ^ 24 \<Longrightarrow> fl (numeral w) = numeral w"
  using fl_of_int [of "numeral w"] by simp

lemma db_one [simp]: "db 1 = 1" and fl_one [simp]: "fl 1 = 1"
  using db_of_int [of 1] fl_of_int [of 1] by simp_all

lemma db_le_int: "x \<le> of_int m \<Longrightarrow> \<bar>m\<bar> \<le> 2 ^ 53 \<Longrightarrow> db x \<le> of_int m"
  using db_mono [of x "of_int m"] by (simp add: db_of_int)

lemma db_ge_int: "of_int m \<le> x \<Longrightarrow> \<bar>m\<bar> \<le> 2 ^ 53 \<Longrightarrow> of_int m \<le> db x"
  using db_mono [of "of_int m" x] by (simp add: db_of_int)

lemma fl_le_int: "x \<le> of_int m \<Longrightarrow> \<bar>m\<bar> \<le> 2 ^ 24 \<Longrightarrow> fl x \<le> of_int m"
  using fl_mono [of x "of_int m"] by (simp add: fl_of_int)

lemma fl_ge_int: "of_int m \<le> x \<Longrightarrow> \<bar>m\<bar> \<le> 2 ^ 24 \<Longrightarrow> of_int m \<le> fl x"
  using fl_mono [of "of_int m" x] by (simp add: fl_of_int)

lemma db_abs_le_int: "\<bar>x\<bar> \<le> of_int m \<Longrightarrow> \<bar>m\<bar> \<le> 2 ^ 53 \<Longrightarrow> \<bar>db x\<bar> \<le> of_int m"
  using db_le_int [of "\<bar>x\<bar>" m] by (simp add: db_def rnd_abs)

lemma fl_abs_le_int: "\<bar>x\<bar> \<le> of_int m \<Longrightarrow> \<bar>m\<bar> \<le> 2 ^ 24 \<Longrightarrow> \<bar>fl x\<bar> \<le> of_int m"
  using fl_le_int [of "\<bar>x\<bar>" m] by (simp add: fl_def rnd_abs)

lemma db_nonneg: "0 \<le> x \<Longrightarrow> 0 \<le> db x" and fl_nonneg: "0 \<le> x \<Longrightarrow> 0 \<le> fl x"
  by (simp_all add: db_def fl_def rnd_nonneg)

lemma db_nonpos: "x \<le> 0 \<Longrightarrow> db x \<le> 0" and fl_nonpos: "x \<le> 0 \<Longrightarrow> fl x \<le> 0"
  using db_mono [of x 0] fl_mono [of x 0] by simp_all

lemma db_dyadic: "\<bar>m\<bar> \<le> 2 ^ 53 \<Longrightarrow> db (of_int m / 2 ^ k) = of_int m / 2 ^ k"
  using rnd_dyadic [of m 53 "- int k"] by (simp add: db_def power_int_minus divide_inverse)

lemma fl_dyadic: "\<bar>m\<bar> \<le> 2 ^ 24 \<Longrightarrow> fl (of_int m / 2 ^ k) = of_int m / 2 ^ k"
  using rnd_dyadic [of m 24 "- int k"] by (simp add: fl_def power_int_minus divide_inverse)

section \<open>Truncation\<close>

lemma c_trunc_of_int [simp]: "c_trunc (of_int n) = n"
  by (simp add: c_trunc_def)

lemma c_trunc_numeral [simp]: "c_trunc (numeral w) = numeral w" "c_trunc 0 = 0" "c_trunc 1 = 1"
  by (simp_all add: c_trunc_def)

lemma c_trunc_le: "x \<le> of_int n \<Longrightarrow> 0 \<le> n \<Longrightarrow> c_trunc x \<le> n"
  by (auto simp: c_trunc_def ceiling_le_iff) linarith

lemma c_trunc_ge: "of_int n \<le> x \<Longrightarrow> n \<le> 0 \<Longrightarrow> n \<le> c_trunc x"
  by (auto simp: c_trunc_def le_floor_iff) linarith

lemma c_trunc_abs_le: "\<bar>x\<bar> \<le> of_int n \<Longrightarrow> \<bar>c_trunc x\<bar> \<le> n"
  using c_trunc_le [of x n] c_trunc_ge [of "- n" x] by (auto simp: abs_le_iff)

lemma c_trunc_less: "x < of_int n \<Longrightarrow> 0 < n \<Longrightarrow> c_trunc x < n"
  by (auto simp: c_trunc_def) linarith+

lemma c_trunc_minus: "c_trunc (- x) = - c_trunc x"
  by (auto simp: c_trunc_def ceiling_def)

lemma f2i_ok: "\<bar>x\<bar> \<le> 2 ^ 30 \<Longrightarrow> f2i x = Inr (c_trunc x)"
  using c_trunc_abs_le [of x "2 ^ 30"] by (auto simp: f2i_def Let_def int_min_def int_max_def)

lemma m_cos_abs_le: "\<bar>m_cos x\<bar> \<le> 1" and m_sin_abs_le: "\<bar>m_sin x\<bar> \<le> 1"
  using db_abs_le_int [of "cos x" 1] db_abs_le_int [of "sin x" 1]
  by (simp_all add: m_cos_def m_sin_def)

lemma m_cos_zero [simp]: "m_cos 0 = 1" and m_sin_zero [simp]: "m_sin 0 = 0"
  by (simp_all add: m_cos_def m_sin_def)

lemma m_exp_nonneg: "0 \<le> m_exp x"
  by (simp add: m_exp_def db_nonneg)

lemma atan2r_abs_le: "\<bar>atan2r y x\<bar> \<le> pi"
proof -
  have b: "\<bar>arctan z\<bar> < pi / 2" for z
    using arctan_lbound [of z] arctan_ubound [of z] by linarith
  have s: "x < 0 \<Longrightarrow> 0 \<le> y \<Longrightarrow> arctan (y / x) \<le> 0" "x < 0 \<Longrightarrow> y < 0 \<Longrightarrow> 0 \<le> arctan (y / x)"
    by (simp_all add: divide_nonneg_neg divide_nonpos_neg)
  show ?thesis
    unfolding atan2r_def abs_le_iff using b [of "y / x"] s pi_ge_zero
    by (smt (verit) field_sum_of_halves)
qed

text \<open>A rational upper bound of \<open>pi\<close>, from the Taylor polynomial of the sine at a sixth of it.\<close>

lemma pi_less_101_32: "pi < 101 / 32"
proof (rule ccontr)
  assume "\<not> pi < 101 / 32"
  then have "sin (101 / 192 :: real) \<le> sin (pi / 6)"
    by (intro sin_monotone_2pi_le) auto
  then have le: "sin (101 / 192 :: real) \<le> 1 / 2" by (simp add: sin_30)
  have "\<bar>sin (101 / 192 :: real) - (\<Sum>m<5. sin_coeff m * (101 / 192) ^ m)\<bar>
      \<le> inverse (fact 5) * \<bar>101 / 192\<bar> ^ 5"
    by (rule Maclaurin_sin_bound)
  moreover have "(\<Sum>m<5. sin_coeff m * (101 / 192 :: real) ^ m) = 101 / 192 - (101 / 192) ^ 3 / 6"
  proof -
    have "{..<5 :: nat} = {0, 1, 2, 3, 4}" by auto
    then show ?thesis by (simp add: sin_coeff_def fact_numeral)
  qed
  ultimately have "101 / 192 - (101 / 192) ^ 3 / 6 - inverse (fact 5) * (101 / 192) ^ 5
      \<le> sin (101 / 192 :: real)" by linarith
  with le show False by (simp add: fact_numeral power_divide)
qed

end
