(* ===== verification/C_String.thy ===== *)
theory C_String
  imports Usv_Prelude
begin

text \<open>
  The parts of the C string library the firmware calls: NUL-terminated strings in character
  arrays, \<^verbatim>\<open>atoi\<close>, and \<^verbatim>\<open>sscanf\<close> for the directives that occur in its formats (ordinary
  characters, \<open>%s\<close>, \<open>%[set]\<close>, \<open>%[^set]\<close>, a maximum field width, assignment suppression).
  A conversion that would run past the end of its array, and a string without a terminating NUL
  inside its array, are the error \<open>OutOfBounds\<close>.  \<^verbatim>\<open>atoi\<close> saturates, as \<^verbatim>\<open>strtol\<close> does.
  \<open>itoa\<close> is the conversion \<open>%d\<close> of \<^verbatim>\<open>rt_kprintf\<close>.
\<close>

abbreviation NUL :: char where "NUL \<equiv> CHR 0x00"

definition is_space :: "char \<Rightarrow> bool" where
  "is_space c \<longleftrightarrow> c \<in> {CHR '' '', CHR 0x09, CHR 0x0A, CHR 0x0B, CHR 0x0C, CHR 0x0D}"

definition is_digit :: "char \<Rightarrow> bool" where
  "is_digit c \<longleftrightarrow> c \<in> set ''0123456789''"

definition digit_val :: "char \<Rightarrow> int" where
  "digit_val c = of_char c - 48"

fun read_nat :: "int \<Rightarrow> string \<Rightarrow> int" where
  "read_nat acc [] = acc"
| "read_nat acc (c # cs) = (if is_digit c then read_nat (10 * acc + digit_val c) cs else acc)"

definition read_signed :: "string \<Rightarrow> int" where
  "read_signed s = (case s of
      [] \<Rightarrow> 0
    | c # cs \<Rightarrow> if c = CHR ''-'' then - read_nat 0 cs
                else if c = CHR ''+'' then read_nat 0 cs
                else read_nat 0 s)"

definition atoi :: "string \<Rightarrow> int" where
  "atoi s = max int_min (min int_max (read_signed (dropWhile is_space s)))"

text \<open>Directives of a \<^verbatim>\<open>scanf\<close> format.\<close>

datatype directive =
    Lit char
  | Scan "nat option" "char \<Rightarrow> bool" bool   \<comment> \<open>width, accepted characters, assigned or suppressed\<close>
  | Str "nat option"                          \<comment> \<open>\<open>%s\<close>: skips white space, then non-white space\<close>

definition take_field :: "nat option \<Rightarrow> (char \<Rightarrow> bool) \<Rightarrow> string \<Rightarrow> string" where
  "take_field w ok s = takeWhile ok (case w of None \<Rightarrow> s | Some n \<Rightarrow> take n s)"

text \<open>
  \<open>sscanf fmt s\<close> is the list of the strings converted and assigned before the first matching
  failure or the end of the format, in the order of the arguments.
\<close>

fun sscanf :: "directive list \<Rightarrow> string \<Rightarrow> string list" where
  "sscanf [] s = []"
| "sscanf (Lit c # ds) s = (case s of [] \<Rightarrow> [] | x # xs \<Rightarrow> if x = c then sscanf ds xs else [])"
| "sscanf (Scan w ok assign # ds) s =
     (let f = take_field w ok s in
      if f = [] then []
      else if assign then f # sscanf ds (drop (length f) s) else sscanf ds (drop (length f) s))"
| "sscanf (Str w # ds) s =
     (let s' = dropWhile is_space s; f = take_field w (\<lambda>c. \<not> is_space c) s' in
      if f = [] then [] else f # sscanf ds (drop (length f) s'))"

definition digits_field :: directive where       \<comment> \<open>\<open>%[0-9]\<close>\<close>
  "digits_field = Scan None is_digit True"

definition upto_field :: "char \<Rightarrow> directive" where  \<comment> \<open>\<open>%[^c]\<close>\<close>
  "upto_field c = Scan None (\<lambda>x. x \<noteq> c) True"

text \<open>Storing a converted string with its NUL, and reading an array as a string.\<close>

definition put_str :: "char list \<Rightarrow> string \<Rightarrow> char list res" where
  "put_str arr s = (if length s < length arr
     then Inr (s @ [NUL] @ drop (Suc (length s)) arr) else Inl OutOfBounds)"

definition c_str :: "char list \<Rightarrow> string res" where
  "c_str arr = (if NUL \<in> set arr then Inr (takeWhile (\<lambda>c. c \<noteq> NUL) arr) else Inl OutOfBounds)"

text \<open>The assignments of one call: argument \<open>i\<close> receives conversion \<open>i\<close> if there is one.\<close>

fun put_args :: "char list list \<Rightarrow> string list \<Rightarrow> char list list res" where
  "put_args arrs [] = Inr arrs"
| "put_args [] (f # fs) = Inl OutOfBounds"
| "put_args (a # arrs) (f # fs) =
     bind_res (put_str a f) (\<lambda>a'. bind_res (put_args arrs fs) (\<lambda>as'. Inr (a' # as')))"

definition digit_char :: "nat \<Rightarrow> char" where
  "digit_char d = ''0123456789'' ! d"

fun show_nat :: "nat \<Rightarrow> string" where
  "show_nat n = (if n < 10 then [digit_char n] else show_nat (n div 10) @ [digit_char (n mod 10)])"

declare show_nat.simps [simp del]

definition itoa :: "int \<Rightarrow> string" where
  "itoa x = (if x < 0 then CHR ''-'' # show_nat (nat (- x)) else show_nat (nat x))"

section \<open>Digits\<close>

lemma digit_cases: "d < 10 \<Longrightarrow> d \<in> {0, 1, 2, 3, 4, 5, 6, 7, 8, 9 :: nat}"
  by auto

lemma is_digit_digit_char: "d < 10 \<Longrightarrow> is_digit (digit_char d)"
  by (drule digit_cases) (auto simp: is_digit_def digit_char_def)

lemma digit_val_digit_char: "d < 10 \<Longrightarrow> digit_val (digit_char d) = int d"
  by (drule digit_cases) (auto simp: digit_val_def digit_char_def)

lemma is_digit_iff: "is_digit c \<longleftrightarrow> c \<in> set ''0123456789''"
  by (rule is_digit_def)

lemma digit_not_special:
  "is_digit c \<Longrightarrow> \<not> is_space c \<and> c \<noteq> NUL \<and> c \<noteq> CHR ''-'' \<and> c \<noteq> CHR ''+'' \<and> c \<noteq> CHR '',''
     \<and> c \<noteq> CHR ''A'' \<and> c \<noteq> CHR ''H'' \<and> c \<noteq> CHR ''S'' \<and> c \<noteq> CHR ''Z''"
  by (auto simp: is_digit_iff is_space_def)

lemma digit_val_bounds: "is_digit c \<Longrightarrow> 0 \<le> digit_val c \<and> digit_val c \<le> 9"
  by (auto simp: is_digit_iff digit_val_def)

section \<open>Printing and reading decimal numbers\<close>

lemma show_nat_digits: "\<forall>c \<in> set (show_nat n). is_digit c"
proof (induction n rule: show_nat.induct)
  case (1 n)
  then show ?case by (subst show_nat.simps) (auto intro: is_digit_digit_char)
qed

lemma show_nat_nonempty [simp]: "show_nat n \<noteq> []"
  by (subst show_nat.simps) simp

lemma show_nat_length: "n < 10 ^ k \<Longrightarrow> 0 < k \<Longrightarrow> length (show_nat n) \<le> k"
proof (induction k arbitrary: n)
  case (Suc k)
  show ?case
  proof (cases "n < 10")
    case False
    then have "0 < k" using Suc.prems by (cases k) auto
    moreover have "n div 10 < 10 ^ k" using Suc.prems by (simp add: less_mult_imp_div_less)
    ultimately show ?thesis using False Suc.IH [of "n div 10"] by (subst show_nat.simps) simp
  qed (subst show_nat.simps, simp)
qed simp

lemma read_nat_append:
  "\<forall>c \<in> set xs. is_digit c \<Longrightarrow> read_nat acc (xs @ ys) = read_nat (read_nat acc xs) ys"
  by (induction xs arbitrary: acc) auto

lemma read_nat_show_nat: "read_nat 0 (show_nat n) = int n"
proof (induction n rule: show_nat.induct)
  case (1 n)
  show ?case
  proof (cases "n < 10")
    case True
    then show ?thesis
      by (subst show_nat.simps) (simp add: is_digit_digit_char digit_val_digit_char)
  next
    case False
    have "read_nat 0 (show_nat n) = 10 * int (n div 10) + int (n mod 10)"
      using False 1 show_nat_digits [of "n div 10"]
      by (subst show_nat.simps)
        (simp add: read_nat_append is_digit_digit_char digit_val_digit_char del: of_nat_div of_nat_mod)
    also have "\<dots> = int n" by presburger
    finally show ?thesis .
  qed
qed

lemma read_nat_bounds: "0 \<le> acc \<Longrightarrow> 0 \<le> read_nat acc s"
  by (induction s arbitrary: acc) (auto simp: digit_val_bounds)

lemma itoa_chars: "c \<in> set (itoa x) \<Longrightarrow> is_digit c \<or> c = CHR ''-''"
  using show_nat_digits by (auto simp: itoa_def split: if_splits)

lemma itoa_nonempty [simp]: "itoa x \<noteq> []"
  by (simp add: itoa_def)

lemma atoi_itoa:
  assumes "int_min \<le> x" "x \<le> int_max"
  shows "atoi (itoa x) = x"
proof -
  have d: "is_digit (hd (show_nat n))" for n
    using show_nat_digits [of n] by (cases "show_nat n") auto
  have "read_signed (dropWhile is_space (itoa x)) = x"
  proof (cases "x < 0")
    case True
    then show ?thesis
      by (simp add: itoa_def read_signed_def is_space_def read_nat_show_nat)
  next
    case False
    obtain c cs where s: "show_nat (nat x) = c # cs"
      by (cases "show_nat (nat x)") auto
    with d [of "nat x"] have "is_digit c" by simp
    then show ?thesis
      using False s read_nat_show_nat [of "nat x"]
      by (simp add: itoa_def read_signed_def digit_not_special del: read_nat.simps)
  qed
  then show ?thesis using assms by (simp add: atoi_def)
qed

lemma atoi_range: "int_min \<le> atoi s \<and> atoi s \<le> int_max"
  by (simp add: atoi_def int_min_def int_max_def)

lemma atoi_digits: "\<forall>c \<in> set s. is_digit c \<Longrightarrow> s \<noteq> [] \<Longrightarrow> atoi s = min int_max (read_nat 0 s)"
  using read_nat_bounds [of 0 s]
  by (cases s) (auto simp: atoi_def read_signed_def digit_not_special int_min_def int_max_def
      simp del: read_nat.simps)

section \<open>Strings in arrays\<close>

lemma put_str_ok [simp, res_simps]:
  "length s < length arr \<Longrightarrow> put_str arr s = Inr (s @ [NUL] @ drop (Suc (length s)) arr)"
  by (simp add: put_str_def)

lemma put_str_length: "put_str arr s = Inr arr' \<Longrightarrow> length arr' = length arr"
  by (auto simp: put_str_def split: if_splits)

lemma c_str_put_str:
  assumes "put_str arr s = Inr arr'" and "NUL \<notin> set s"
  shows "c_str arr' = Inr s"
proof -
  from assms(1) have a: "arr' = s @ NUL # drop (Suc (length s)) arr"
    by (simp add: put_str_def split: if_splits)
  have "takeWhile (\<lambda>c. c \<noteq> NUL) arr' = s"
    unfolding a by (subst takeWhile_append2) (use assms(2) in auto)
  then show ?thesis by (simp add: c_str_def a)
qed

lemma put_args_lengths:
  "put_args arrs fs = Inr arrs' \<Longrightarrow> map length arrs' = map length arrs"
proof (induction arrs fs arbitrary: arrs' rule: put_args.induct)
  case (3 a arrs f fs)
  then obtain a' as' where "put_str a f = Inr a'" "put_args arrs fs = Inr as'" "arrs' = a' # as'"
    by (auto simp only: put_args.simps bind_res_Inr_iff sum.inject)
  with "3.IH" show ?case by (auto dest: put_str_length)
qed simp_all

lemma put_args_ok:
  assumes "length fs \<le> length arrs"
    and "\<And>i. i < length fs \<Longrightarrow> length (fs ! i) < length (arrs ! i)"
  shows "\<exists>arrs'. put_args arrs fs = Inr arrs'"
  using assms
proof (induction arrs fs rule: put_args.induct)
  case (3 a arrs f fs)
  have "length f < length a" using "3.prems"(2) [of 0] by simp
  moreover from this have "\<exists>as'. put_args arrs fs = Inr as'"
    using "3.prems" by (intro "3.IH") fastforce+
  ultimately show ?case by auto
qed auto

definition assigning :: "directive \<Rightarrow> bool" where
  "assigning d = (case d of Lit _ \<Rightarrow> False | Scan _ _ a \<Rightarrow> a | Str _ \<Rightarrow> True)"

lemma sscanf_length: "length (sscanf ds s) \<le> length (filter assigning ds)"
proof (induction ds s rule: sscanf.induct)
  case (2 c ds s)
  then show ?case by (auto simp: assigning_def split: list.splits)
next
  case (3 w ok assign ds s)
  then show ?case by (auto simp: assigning_def Let_def)
next
  case (4 w ds s)
  then show ?case by (auto simp: assigning_def Let_def)
qed simp

lemma put_args_error:
  assumes "put_args arrs fs = Inl e" "length fs \<le> length arrs"
  shows "e = OutOfBounds \<and> (\<exists>i < length fs. length (arrs ! i) \<le> length (fs ! i))"
proof -
  have "e = OutOfBounds" using assms(1)
  proof (induction arrs fs rule: put_args.induct)
    case (3 a arrs f fs)
    then show ?case by (cases "put_args arrs fs") (auto simp: put_str_def split: if_splits)
  qed auto
  moreover have "\<exists>i < length fs. length (arrs ! i) \<le> length (fs ! i)"
    using assms put_args_ok [of fs arrs] by (metis not_le sum.distinct(1))
  ultimately show ?thesis by blast
qed

lemma put_args_nth:
  assumes "put_args arrs fs = Inr as" "i < length fs" "NUL \<notin> set (fs ! i)"
  shows "i < length as \<and> c_str (as ! i) = Inr (fs ! i)"
  using assms
proof (induction arrs fs arbitrary: as i rule: put_args.induct)
  case (3 a arrs f fs)
  obtain a' as' where s: "put_str a f = Inr a'" "put_args arrs fs = Inr as'" "as = a' # as'"
    using "3.prems"(1) by (auto elim!: bind_resE)
  show ?case
  proof (cases i)
    case 0
    then show ?thesis using s "3.prems" by (auto intro: c_str_put_str)
  next
    case (Suc j)
    then show ?thesis using s "3.IH" [OF s(2), of j] "3.prems" by simp
  qed
qed auto

lemma c_str_take:
  assumes "n < length b" "NUL \<notin> set (take n b)"
  shows "c_str (b[n := NUL]) = Inr (take n b)"
proof -
  have b: "b[n := NUL] = take n b @ NUL # drop (Suc n) b" using assms(1) by (rule upd_conv_take_nth_drop)
  have "takeWhile (\<lambda>c. c \<noteq> NUL) (b[n := NUL]) = take n b"
    unfolding b by (subst takeWhile_append2) (use assms(2) in auto)
  then show ?thesis by (simp add: c_str_def b)
qed

lemma take_field_all: "\<forall>c \<in> set f. ok c \<Longrightarrow> \<not> ok d \<Longrightarrow> take_field None ok (f @ d # s) = f"
  by (simp add: take_field_def takeWhile_append)

lemma sscanf_scan_step:
  assumes "\<forall>c \<in> set f. ok c" "\<not> ok d" "f \<noteq> []"
  shows "sscanf (Scan None ok True # ds) (f @ d # s) = f # sscanf ds (d # s)"
  using assms by (simp add: take_field_all)

end
