(* ===== verification/Drv_Pwm.thy ===== *)
theory Drv_Pwm
  imports Usv_Prelude
begin

text \<open>
  The PWM path below the application: \<^verbatim>\<open>rt_pwm_enable\<close>, \<^verbatim>\<open>rt_pwm_disable\<close> and
  \<^verbatim>\<open>rt_pwm_set\<close> of the device framework (\<^verbatim>\<open>misc/rt_drv_pwm.c\<close>) and the STM32 driver
  \<^verbatim>\<open>drivers/drv_pwm.c\<close> they dispatch to.  The state is the register block of one timer.
  The clock \<open>pclk1\<close> returned by \<^verbatim>\<open>HAL_RCC_GetPCLK1Freq\<close> is an argument; \<open>PCLK1\<close> is the value
  \<^verbatim>\<open>system_clock_config\<close> sets up (8 MHz crystal, PLL times 9, APB1 divider 2).

  The main lemma computes the registers \<^verbatim>\<open>drv_pwm_set\<close> writes without any wrap-around, from
  which the accuracy of the generated pulse follows.
\<close>

type_synonym u64 = "64 word"

record tim_regs =
  PSC :: u32
  ARR :: u32
  CCR :: "nat \<Rightarrow> u32"       \<comment> \<open>\<open>CCR1\<close> to \<open>CCR4\<close> at 1 to 4\<close>
  CNT :: u32
  CKD :: u32               \<comment> \<open>clock division field\<close>
  CH_ON :: "u32 \<Rightarrow> bool"    \<comment> \<open>channels started by \<^verbatim>\<open>HAL_TIM_PWM_Start\<close>\<close>

record pwm_conf =
  conf_channel :: u32
  conf_period :: u32
  conf_pulse :: u32

datatype pwm_cmd = PWM_CMD_ENABLE | PWM_CMD_DISABLE | PWM_CMD_SET | PWM_CMD_GET | PWM_CMD_OTHER


definition MAX_PERIOD :: u32 where "MAX_PERIOD = 65535"
definition MIN_PERIOD :: u32 where "MIN_PERIOD = 3"
definition MIN_PULSE :: u32 where "MIN_PULSE = 2"

definition PCLK1 :: u32 where "PCLK1 = 36000000"

definition hal_channel :: "u32 \<Rightarrow> u32" where
  "hal_channel ch = 4 * (ch - 1)"

definition ccr_index :: "u32 \<Rightarrow> nat" where
  "ccr_index channel = (if channel = 0 then 1 else if channel = 4 then 2
     else if channel = 8 then 3 else 4)"

definition drv_pwm_enable :: "tim_regs \<Rightarrow> pwm_conf \<Rightarrow> bool \<Rightarrow> int \<times> tim_regs" where
  "drv_pwm_enable htim conf enable =
     (let channel = hal_channel (conf_channel conf) in
      (RT_EOK, htim\<lparr>CH_ON := (CH_ON htim)(channel := enable)\<rparr>))"

definition drv_pwm_get :: "u32 \<Rightarrow> tim_regs \<Rightarrow> pwm_conf \<Rightarrow> int \<times> pwm_conf" where
  "drv_pwm_get pclk1 htim conf =
     (let channel = hal_channel (conf_channel conf);
          tim_clock = (ucast (pclk1 * 2) :: u64);
          tim_clock = (if CKD htim = 0x100 then tim_clock div 2
                       else if CKD htim = 0x200 then tim_clock div 4 else tim_clock);
          tim_clock = tim_clock div 1000000;
          period = ucast ((ucast ((ARR htim + 1) * (PSC htim + 1) * 1000) :: u64) div tim_clock);
          pulse = ucast ((ucast ((CCR htim (ccr_index channel) + 1) * (PSC htim + 1) * 1000) :: u64)
                    div tim_clock)
      in (RT_EOK, conf\<lparr>conf_period := period, conf_pulse := pulse\<rparr>))"

definition drv_pwm_set :: "u32 \<Rightarrow> tim_regs \<Rightarrow> pwm_conf \<Rightarrow> int \<times> tim_regs" where
  "drv_pwm_set pclk1 htim conf =
     (let channel = hal_channel (conf_channel conf);
          tim_clock = (ucast (pclk1 * 2) :: u64) div 1000000;
          period = (ucast ((ucast (conf_period conf) :: u64) * tim_clock div 1000) :: u32);
          psc = (ucast (period div MAX_PERIOD + 1) :: u64);
          period = (ucast ((ucast period :: u64) div psc) :: u32);
          htim = htim\<lparr>PSC := ucast (psc - 1)\<rparr>;
          period = (if period < MIN_PERIOD then MIN_PERIOD else period);
          htim = htim\<lparr>ARR := period - 1\<rparr>;
          pulse = (ucast ((ucast (conf_pulse conf) :: u64) * tim_clock div psc div 1000) :: u32);
          pulse = (if pulse < MIN_PULSE then MIN_PULSE else if period < pulse then period else pulse);
          htim = htim\<lparr>CCR := (CCR htim)(ccr_index channel := pulse - 1)\<rparr>;
          htim = htim\<lparr>CNT := 0\<rparr>
      in (RT_EOK, htim))"

definition drv_pwm_control ::
  "u32 \<Rightarrow> tim_regs \<Rightarrow> pwm_cmd \<Rightarrow> pwm_conf \<Rightarrow> int \<times> tim_regs \<times> pwm_conf" where
  "drv_pwm_control pclk1 htim cmd conf = (case cmd of
      PWM_CMD_ENABLE \<Rightarrow> (case drv_pwm_enable htim conf True of (r, h) \<Rightarrow> (r, h, conf))
    | PWM_CMD_DISABLE \<Rightarrow> (case drv_pwm_enable htim conf False of (r, h) \<Rightarrow> (r, h, conf))
    | PWM_CMD_SET \<Rightarrow> (case drv_pwm_set pclk1 htim conf of (r, h) \<Rightarrow> (r, h, conf))
    | PWM_CMD_GET \<Rightarrow> (case drv_pwm_get pclk1 htim conf of (r, c) \<Rightarrow> (r, htim, c))
    | PWM_CMD_OTHER \<Rightarrow> (RT_EINVAL, htim, conf))"

text \<open>
  The device handle is \<open>None\<close> when \<^verbatim>\<open>rt_device_find\<close> returned \<^verbatim>\<open>RT_NULL\<close>.
\<close>

definition rt_pwm_enable :: "u32 \<Rightarrow> tim_regs option \<Rightarrow> u32 \<Rightarrow> int \<times> tim_regs option" where
  "rt_pwm_enable pclk1 dev ch = (case dev of
      None \<Rightarrow> (- RT_EIO, None)
    | Some htim \<Rightarrow> (case drv_pwm_control pclk1 htim PWM_CMD_ENABLE
          \<lparr>conf_channel = ch, conf_period = 0, conf_pulse = 0\<rparr> of (r, h, _) \<Rightarrow> (r, Some h)))"

definition rt_pwm_disable :: "u32 \<Rightarrow> tim_regs option \<Rightarrow> u32 \<Rightarrow> int \<times> tim_regs option" where
  "rt_pwm_disable pclk1 dev ch = (case dev of
      None \<Rightarrow> (- RT_EIO, None)
    | Some htim \<Rightarrow> (case drv_pwm_control pclk1 htim PWM_CMD_DISABLE
          \<lparr>conf_channel = ch, conf_period = 0, conf_pulse = 0\<rparr> of (r, h, _) \<Rightarrow> (r, Some h)))"

definition rt_pwm_set :: "u32 \<Rightarrow> tim_regs option \<Rightarrow> u32 \<Rightarrow> u32 \<Rightarrow> u32 \<Rightarrow> int \<times> tim_regs option" where
  "rt_pwm_set pclk1 dev ch period pulse = (case dev of
      None \<Rightarrow> (- RT_EIO, None)
    | Some htim \<Rightarrow> (case drv_pwm_control pclk1 htim PWM_CMD_SET
          \<lparr>conf_channel = ch, conf_period = period, conf_pulse = pulse\<rparr> of (r, h, _) \<Rightarrow> (r, Some h)))"

text \<open>The same register values as natural numbers, with exact arithmetic.\<close>

definition psc_of :: "nat \<Rightarrow> nat" where
  "psc_of period_ns = period_ns * 72 div 1000 div 65535 + 1"

definition arr_of :: "nat \<Rightarrow> nat" where
  "arr_of period_ns = max 3 (period_ns * 72 div 1000 div psc_of period_ns)"

definition pulse_of :: "nat \<Rightarrow> nat \<Rightarrow> nat" where
  "pulse_of period_ns pulse_ns =
     max 2 (min (arr_of period_ns) (pulse_ns * 72 div psc_of period_ns div 1000))"

section \<open>Register values without wrap-around\<close>

lemma unat_ucast_le_u64: "unat (ucast (x::u32) :: u64) = unat x"
proof -
  have "unat x < 2 ^ 64" by (rule order_less_trans [OF unsigned_less]) simp
  then show ?thesis by (simp add: unsigned_ucast_eq take_bit_nat_eq_self)
qed

lemma unat_ucast_u32: "unat (y::u64) < 2 ^ 32 \<Longrightarrow> unat (ucast y :: u32) = unat y"
  by (simp add: unsigned_ucast_eq take_bit_nat_eq_self)

lemma unat_mult_u64: "unat (x::u64) * unat y < 2 ^ 64 \<Longrightarrow> unat (x * y) = unat x * unat y"
  using unat_mult_lem [of x y] by simp

lemma tim_clock_72: "(ucast (PCLK1 * 2) :: u64) div 1000000 = 72"
  by (simp add: PCLK1_def)

lemma unat_ns_to_ticks: "unat ((ucast (x::u32) :: u64) * 72) = unat x * 72"
  using unsigned_less [of x, where 'a = nat]
  by (subst unat_mult_u64) (simp_all add: unat_ucast_le_u64)

lemma unat_period_ticks:
  "unat (ucast ((ucast (x::u32) :: u64) * 72 div 1000) :: u32) = unat x * 72 div 1000"
  using unsigned_less [of x, where 'a = nat]
  by (subst unat_ucast_u32) (simp_all add: unat_div unat_ns_to_ticks)

lemma unat_psc:
  assumes "unat x * 72 div 1000 = unat (t::u32)"
  shows "unat (ucast (t div MAX_PERIOD + 1) :: u64) = psc_of (unat (x::u32))"
proof -
  have d: "unat (t div MAX_PERIOD) = unat t div 65535"
    by (simp add: MAX_PERIOD_def unat_div)
  have "unat t div 65535 < 65538"
    using unsigned_less [of t, where 'a = nat] by simp
  then have "unat (t div MAX_PERIOD + 1) = unat t div 65535 + 1"
    using unat_add_lem [of "t div MAX_PERIOD" 1] by (simp add: d)
  then show ?thesis using assms by (simp add: unat_ucast_le_u64 psc_of_def)
qed

lemma psc_of_bounds:
  assumes "P < 2 ^ 32"
  shows "0 < psc_of P" and "psc_of P < 2 ^ 32"
  using assms by (simp_all add: psc_of_def)

text \<open>The registers after \<^verbatim>\<open>drv_pwm_set\<close> on a 72 MHz timer clock.\<close>

lemma drv_pwm_set_regs:
  fixes conf :: pwm_conf and htim :: tim_regs
  defines "P \<equiv> unat (conf_period conf)" and "Q \<equiv> unat (conf_pulse conf)"
    and "h \<equiv> snd (drv_pwm_set PCLK1 htim conf)"
    and "i \<equiv> ccr_index (hal_channel (conf_channel conf))"
  shows "unat (PSC h) = psc_of P - 1"
    and "unat (ARR h) = arr_of P - 1"
    and "unat (CCR h i) = pulse_of P Q - 1"
    and "CCR h = (CCR htim)(i := CCR h i)" and "CNT h = 0"
    and "CH_ON h = CH_ON htim" and "CKD h = CKD htim"
proof -
  define t where "t = (ucast ((ucast (conf_period conf) :: u64) * 72 div 1000) :: u32)"
  define k where "k = (ucast (t div MAX_PERIOD + 1) :: u64)"
  define per where "per = (ucast ((ucast t :: u64) div k) :: u32)"
  define per' where "per' = (if per < MIN_PERIOD then MIN_PERIOD else per)"
  define q where "q = (ucast ((ucast (conf_pulse conf) :: u64) * 72 div k div 1000) :: u32)"
  define q' where "q' = (if q < MIN_PULSE then MIN_PULSE else if per' < q then per' else q)"
  have h: "h = htim\<lparr>PSC := ucast (k - 1), ARR := per' - 1,
      CCR := (CCR htim)(i := q' - 1), CNT := 0\<rparr>"
    unfolding h_def drv_pwm_set_def tim_clock_72 Let_def i_def q'_def q_def per'_def per_def k_def t_def
    by simp
  have P: "P < 2 ^ 32" and Q: "Q < 2 ^ 32"
    using unsigned_less [of "conf_period conf", where 'a = nat]
      unsigned_less [of "conf_pulse conf", where 'a = nat] by (simp_all add: P_def Q_def)
  have ut: "unat t = P * 72 div 1000" by (simp add: t_def P_def unat_period_ticks)
  have uk: "unat k = psc_of P" unfolding k_def P_def
    by (rule unat_psc) (simp add: t_def unat_period_ticks)
  have k0: "0 < psc_of P" "psc_of P < 2 ^ 32" using psc_of_bounds [OF P] by auto
  have uper: "unat per = P * 72 div 1000 div psc_of P"
    unfolding per_def using P k0 order_le_less_trans [OF div_le_dividend, of "unat t" "2 ^ 32"] ut
    by (subst unat_ucast_u32) (simp_all add: unat_div unat_ucast_le_u64 uk)
  have uper': "unat per' = arr_of P"
    by (auto simp: per'_def arr_of_def MIN_PERIOD_def word_less_nat_alt uper max_def)
  have uq: "unat q = Q * 72 div psc_of P div 1000"
  proof -
    have "Q * 72 div psc_of P div 1000 \<le> Q * 72 div 1000"
      by (intro div_le_mono div_le_dividend)
    also have "\<dots> < 2 ^ 32" using Q by simp
    finally show ?thesis unfolding q_def
      by (subst unat_ucast_u32) (simp_all add: unat_div unat_ns_to_ticks uk Q_def)
  qed
  have uq': "unat q' = pulse_of P Q"
    by (auto simp: q'_def pulse_of_def MIN_PULSE_def word_less_nat_alt uq uper' max_def min_def arr_of_def)
  have one: "unat (x - 1) = unat x - 1" if "0 < unat x" for x :: "'a::len word"
    using that by (subst unat_sub) (auto simp: word_le_nat_alt Suc_leI)
  have "unat (k - 1) = psc_of P - 1" using one [of k] k0 uk by simp
  then show "unat (PSC h) = psc_of P - 1" using k0 by (subst h) (simp add: unat_ucast_u32)
  show "unat (ARR h) = arr_of P - 1" using uper' by (simp add: h one arr_of_def)
  show "unat (CCR h i) = pulse_of P Q - 1" using uq' by (simp add: h one pulse_of_def)
qed (simp_all add: h_def drv_pwm_set_def Let_def i_def)

lemma pulse_of_within:
  assumes "Q \<le> P" and "2 \<le> Q * 72 div psc_of P div 1000"
  shows "pulse_of P Q = Q * 72 div psc_of P div 1000"
proof -
  have "Q * 72 div psc_of P div 1000 \<le> P * 72 div psc_of P div 1000"
    using assms(1) by (intro div_le_mono) simp
  also have "\<dots> = P * 72 div 1000 div psc_of P"
    by (simp add: div_mult2_eq [symmetric] mult.commute)
  finally show ?thesis using assms(2) by (simp add: pulse_of_def arr_of_def)
qed

lemma arr_of_bounds: "2 < arr_of P" "arr_of P \<le> 65535"
proof -
  show "2 < arr_of P" by (simp add: arr_of_def)
  let ?t = "P * 72 div 1000"
  have "?t < 65535 * (?t div 65535 + 1)"
    using div_mult_mod_eq [of ?t 65535] mod_less_divisor [of 65535 ?t] by simp
  then have "?t div psc_of P < 65535"
    by (simp add: psc_of_def less_mult_imp_div_less)
  then show "arr_of P \<le> 65535" by (simp add: arr_of_def)
qed

lemma pulse_of_bounds: "1 < pulse_of P Q" "pulse_of P Q \<le> arr_of P"
  using arr_of_bounds(1) [of P] by (auto simp: pulse_of_def)

lemma div_div_bounds:
  fixes q k :: nat
  assumes "0 < k"
  defines "n \<equiv> q div k div 1000"
  shows "n * k * 1000 \<le> q" and "q < (n + 1) * k * 1000"
proof -
  have n: "n = q div (k * 1000)" by (simp add: n_def div_mult2_eq)
  have d: "q = n * (k * 1000) + q mod (k * 1000)" unfolding n by (rule div_mult_mod_eq [symmetric])
  have "q mod (k * 1000) < k * 1000" using assms by simp
  with d show "n * k * 1000 \<le> q" and "q < (n + 1) * k * 1000"
    by (simp_all add: algebra_simps)
qed

section \<open>Properties\<close>

text \<open>
  C9. Driver accuracy: on the 72 MHz timer clock, for any requested period of at least three prescaled ticks and any
  pulse no longer than it and at least two prescaled ticks long, \<^verbatim>\<open>drv_pwm_set\<close> programs a prescaler \<open>k\<close>, a
  period of \<open>m\<close> ticks and a pulse of \<open>n\<close> ticks such that the requested period and the requested pulse width lie
  within one prescaled tick of the programmed ones.  The prescaler is no larger than the 16-bit counter needs, the
  pulse is not longer than the period, and the register values fit the 16-bit timer.
\<close>

theorem drv_pwm_set_accuracy:
  assumes h: "h = snd (drv_pwm_set PCLK1 htim conf)"
    and m: "m = unat (ARR h) + 1"
    and n: "n = unat (CCR h (ccr_index (hal_channel (conf_channel conf)))) + 1"
    and k: "k = unat (PSC h) + 1"
    and le: "conf_pulse conf \<le> conf_period conf"
    and two: "2 \<le> unat (conf_pulse conf) * 72 div k div 1000"
    and three: "3 \<le> unat (conf_period conf) * 72 div k div 1000"
    and per: "conf_period conf < 910000000"
  shows "m * k * 1000 \<le> unat (conf_period conf) * 72 \<and>
    unat (conf_period conf) * 72 < (m + 1) * k * 1000 \<and>
    (k - 1) * 65535 * 1000 \<le> unat (conf_period conf) * 72 \<and>
    n * k * 1000 \<le> unat (conf_pulse conf) * 72 \<and>
    unat (conf_pulse conf) * 72 < (n + 1) * k * 1000 \<and>
    unat (ARR h) < 65536 \<and> unat (PSC h) < 65536 \<and> n \<le> m"
proof -
  let ?P = "unat (conf_period conf)" and ?Q = "unat (conf_pulse conf)"
  note regs = drv_pwm_set_regs [of htim conf, folded h]
  have k': "k = psc_of ?P" "0 < psc_of ?P" using regs(1) by (simp_all add: k psc_of_def)
  have n': "n = pulse_of ?P ?Q"
    using regs(3) pulse_of_bounds(1) [of ?P ?Q] by (simp add: n)
  have m': "m = arr_of ?P" using regs(2) arr_of_bounds(1) [of ?P] by (simp add: m)
  have pq: "pulse_of ?P ?Q = ?Q * 72 div psc_of ?P div 1000"
    using le two by (intro pulse_of_within) (simp_all add: word_le_nat_alt k')
  have ap: "arr_of ?P = ?P * 72 div psc_of ?P div 1000"
    using three unfolding k'(1) by (simp add: arr_of_def div_mult2_eq [symmetric] mult.commute)
  have "n * k * 1000 \<le> ?Q * 72" "?Q * 72 < (n + 1) * k * 1000"
    unfolding n' pq k'(1) using div_div_bounds [OF k'(2), of "?Q * 72"] by simp_all
  moreover have "m * k * 1000 \<le> ?P * 72" "?P * 72 < (m + 1) * k * 1000"
    unfolding m' ap k'(1) using div_div_bounds [OF k'(2), of "?P * 72"] by simp_all
  moreover have "(k - 1) * 65535 * 1000 \<le> ?P * 72"
    unfolding k'(1) psc_of_def using div_div_bounds [of 65535 "?P * 72"]
    by (simp add: div_mult2_eq [symmetric])
  moreover have "unat (ARR h) < 65536" using regs(2) arr_of_bounds [of ?P] by simp
  moreover have "unat (PSC h) < 65536"
    using regs(1) per by (simp add: psc_of_def word_less_nat_alt)
  moreover have "n \<le> m" using pulse_of_bounds(2) [of ?P ?Q] by (simp add: n' m')
  ultimately show ?thesis by blast
qed

text \<open>
  Instance: the neutral motor pulse of 1.5 ms in a 20 ms period gives prescaler 22 a period of 65454
  ticks and a pulse of 4909.
\<close>

definition example_tim :: tim_regs where
  "example_tim = \<lparr>PSC = 0, ARR = 0, CCR = (\<lambda>_. 0), CNT = 7, CKD = 0, CH_ON = (\<lambda>_. False)\<rparr>"

definition example_conf :: pwm_conf where
  "example_conf = \<lparr>conf_channel = 1, conf_period = 20000000, conf_pulse = 1500000\<rparr>"

lemma example_conf_regs:
  "unat (CCR (snd (drv_pwm_set PCLK1 example_tim example_conf)) (ccr_index (hal_channel 1))) = 4908"
  "unat (PSC (snd (drv_pwm_set PCLK1 example_tim example_conf))) = 21"
  "unat (ARR (snd (drv_pwm_set PCLK1 example_tim example_conf))) = 65453"
  using drv_pwm_set_regs(1-3) [of example_tim example_conf]
  by (simp_all add: example_conf_def pulse_of_def arr_of_def psc_of_def)

theorem drv_pwm_set_accuracy_witness:
  "65454 * 22 * 1000 \<le> unat (conf_period example_conf) * 72 \<and>
   unat (conf_period example_conf) * 72 < (65454 + 1) * 22 * 1000 \<and>
   4909 * 22 * 1000 \<le> unat (conf_pulse example_conf) * 72 \<and>
   unat (conf_pulse example_conf) * 72 < (4909 + 1) * 22 * 1000"
proof -
  have c: "conf_channel example_conf = 1" by (simp add: example_conf_def)
  show ?thesis
    using drv_pwm_set_accuracy
      [of "snd (drv_pwm_set PCLK1 example_tim example_conf)" example_tim example_conf 65454 4909 22]
    unfolding c example_conf_regs by (simp add: example_conf_def)
qed

end
