(* ===== verification/Usv_State.thy ===== *)
theory Usv_State
  imports C_Float C_String Drv_Pwm
begin

text \<open>
  The shared state of the firmware: the global variables of \<^verbatim>\<open>applications/manager.c\<close>
  (declared for the other threads in \<^verbatim>\<open>manager.h\<close>), those of \<^verbatim>\<open>motor_pwm.c\<close>,
  \<^verbatim>\<open>gear_pwm.c\<close>, \<^verbatim>\<open>auto_cruise.c\<close>, \<^verbatim>\<open>energy_adc.c\<close> and \<^verbatim>\<open>raspberry.c\<close>, and the
  peripherals the threads drive: the GPIO levels and modes, the two PWM timers, the text sent to
  the server link and the watchdog.  Every thread is a function on this record; variables local to
  a thread are records of their own in the theory of the thread.
\<close>

datatype level = PIN_LOW | PIN_HIGH
datatype pin_mode = PIN_MODE_OUTPUT | PIN_MODE_INPUT | PIN_MODE_INPUT_PULLUP | PIN_MODE_INPUT_PULLDOWN
  | PIN_MODE_OUTPUT_OD

text \<open>The two fields of \<^verbatim>\<open>GPIO_InitTypeDef\<close> that depend on the mode.\<close>

datatype gpio_mode = GPIO_MODE_OUTPUT_PP | GPIO_MODE_INPUT | GPIO_MODE_OUTPUT_OD
datatype gpio_pull = GPIO_NOPULL | GPIO_PULLUP | GPIO_PULLDOWN

record usv =
  ship_id :: int
  is_connect :: int
  rec_server_tick :: tick
  lng :: real
  lat :: real
  speed :: int
  home_lng :: real
  home_lat :: real
  current_theta :: real
  is_auto :: int
  dump_energy :: real
  target_lng :: real
  target_lat :: real
  control_val :: int
  control_mode :: int
  network_backhome :: int
  energy_backhome :: int
  obstacle_avoid :: int
  hand_speed :: int
  auto_speed :: int
  pid :: "real list"
  compass_status :: int
  row :: u32
  col :: u32
  key :: "int list"
  rec_tick :: tick
  current_mode :: int
  angle_error :: int
  relay :: int
  draw_status :: int
  bottle_id :: int
  bottle_deep :: int
  bottle_amount :: int
  full_draw_time :: int
  dump_draw_time :: int
  max_draw_amount :: u32
  b_obstacle_avoid :: int
  target_id :: "int list"
  target_distance :: "int list"
  target_angle :: "int list"
  min_distance :: int
  obstacle_tick :: tick
  wt :: int
  ph :: int
  doDo :: int
  ec :: int
  td :: int
  left_pwm :: u32
  right_pwm :: u32
  remote_forward_pwm :: int
  remote_steer_pwm :: int
  draw_speed :: int
  draw_start_tick :: tick
  is_draw :: int
  max_geer_pwm :: u32
  min_geer_pwm :: u32
  deep_pwm :: int
  current_left_pwm :: u32
  current_right_pwm :: u32
  target_left_pwm :: u32
  target_right_pwm :: u32
  current_gear_pwm :: u32
  target_gear_pwm :: u32
  send_status_data :: int
  send_detect_data :: int
  send_confirm_data :: int
  server_buffer :: "char list"   \<comment> \<open>the global \<^verbatim>\<open>lora_buffer[50]\<close> of \<^verbatim>\<open>raspberry.c\<close>\<close>
  pins :: "nat \<Rightarrow> level"
  pin_modes :: "nat \<Rightarrow> (gpio_mode \<times> gpio_pull) option"
  pwm3 :: "tim_regs option"      \<comment> \<open>\<^verbatim>\<open>pwm_dev\<close>, the motor timer\<close>
  pwm5 :: "tim_regs option"      \<comment> \<open>\<^verbatim>\<open>gear_dev\<close>, the winch timer\<close>
  tx :: "string list"            \<comment> \<open>messages printed by \<^verbatim>\<open>rt_kprintf\<close>, newest last\<close>
  wdt_kicks :: nat               \<comment> \<open>number of watchdog refreshes\<close>

definition usv_init :: "tim_regs option \<Rightarrow> tim_regs option \<Rightarrow> usv" where
  "usv_init p3 p5 = \<lparr>
     ship_id = 8, is_connect = 0, rec_server_tick = 0, lng = 0, lat = 0, speed = 0,
     home_lng = 0, home_lat = 0, current_theta = 0, is_auto = 0, dump_energy = 0,
     target_lng = 0, target_lat = 0, control_val = -1, control_mode = 1,
     network_backhome = 0, energy_backhome = 0, obstacle_avoid = 0, hand_speed = 3, auto_speed = 3,
     pid = [fl (5 / 10), fl (1 / 100), 1], compass_status = 0, row = 50, col = 50,
     key = [0, 0, 0, 0, 0, 0, 0, 0], rec_tick = 0, current_mode = 2, angle_error = 0,
     relay = 0, draw_status = 0, bottle_id = 0, bottle_deep = 0, bottle_amount = 0,
     full_draw_time = 0, dump_draw_time = 0, max_draw_amount = 1000, b_obstacle_avoid = 0,
     target_id = replicate 10 0, target_distance = replicate 10 0, target_angle = replicate 10 0,
     min_distance = 10000, obstacle_tick = 0, wt = 0, ph = 0, doDo = 0, ec = 0, td = 0,
     left_pwm = 1500, right_pwm = 1500, remote_forward_pwm = 1500, remote_steer_pwm = 1500,
     draw_speed = 2000, draw_start_tick = 0, is_draw = 0, max_geer_pwm = 2400, min_geer_pwm = 800,
     deep_pwm = 800, current_left_pwm = 1500, current_right_pwm = 1500, target_left_pwm = 1500,
     target_right_pwm = 1500, current_gear_pwm = 1500, target_gear_pwm = 1500,
     send_status_data = 1, send_detect_data = 0, send_confirm_data = 0,
     server_buffer = replicate 50 NUL, pins = (\<lambda>_. PIN_LOW), pin_modes = (\<lambda>_. None),
     pwm3 = p3, pwm5 = p5, tx = [], wdt_kicks = 0\<rparr>"

text \<open>\<open>key[i] = v\<close> on the array of eight remote-control keys.\<close>

definition set_key :: "nat \<Rightarrow> int \<Rightarrow> usv \<Rightarrow> usv" where
  "set_key i v s = s\<lparr>key := (key s)[i := v]\<rparr>"

definition keys_wf :: "usv \<Rightarrow> bool" where
  "keys_wf s \<longleftrightarrow> length (key s) = 8"

lemma keys_wf_init [simp]: "keys_wf (usv_init p3 p5)"
  by (simp add: keys_wf_def usv_init_def)

lemma keys_wf_set_key [simp]: "keys_wf (set_key i v s) = keys_wf s"
  by (simp add: keys_wf_def set_key_def)

end
