(* ===== verification/Gpio.thy ===== *)
theory Gpio
  imports Usv_State
begin

text \<open>
  \<^verbatim>\<open>applications/gpio.c\<close>: the status LED, the pump relay and the eight sampling valves, over
  the pin device (\<^verbatim>\<open>rt_pin_mode\<close> and \<^verbatim>\<open>rt_pin_write\<close> of \<^verbatim>\<open>misc/pin.c\<close>, dispatched to
  \<^verbatim>\<open>stm32_pin_mode\<close> and \<^verbatim>\<open>stm32_pin_write\<close> of \<^verbatim>\<open>drivers/drv_gpio.c\<close>).  The STM32F103xE has
  the ports A to G, so the driver's pin table has 112 entries; a pin outside it is ignored.

  The safety property of the sampler is \<open>valves_safe\<close>: the pump runs only with exactly one valve
  open, and with the pump off every valve is shut.
\<close>

definition get_pin :: "nat \<Rightarrow> nat option" where
  "get_pin p = (if p mod 256 < 112 then Some (p mod 256) else None)"

definition stm32_pin_write :: "nat \<Rightarrow> level \<Rightarrow> usv \<Rightarrow> usv" where
  "stm32_pin_write pin value s = (case get_pin pin of None \<Rightarrow> s
     | Some i \<Rightarrow> s\<lparr>pins := (pins s)(i := value)\<rparr>)"

definition stm32_pin_mode :: "nat \<Rightarrow> pin_mode \<Rightarrow> usv \<Rightarrow> usv" where
  "stm32_pin_mode pin mode s = (case get_pin pin of None \<Rightarrow> s
     | Some i \<Rightarrow> s\<lparr>pin_modes := (pin_modes s)(i := Some
         (if mode = PIN_MODE_OUTPUT then (GPIO_MODE_OUTPUT_PP, GPIO_NOPULL)
          else if mode = PIN_MODE_INPUT then (GPIO_MODE_INPUT, GPIO_NOPULL)
          else if mode = PIN_MODE_INPUT_PULLUP then (GPIO_MODE_INPUT, GPIO_PULLUP)
          else if mode = PIN_MODE_INPUT_PULLDOWN then (GPIO_MODE_INPUT, GPIO_PULLDOWN)
          else if mode = PIN_MODE_OUTPUT_OD then (GPIO_MODE_OUTPUT_OD, GPIO_NOPULL)
          else (GPIO_MODE_OUTPUT_PP, GPIO_NOPULL)))\<rparr>)"

definition stm32_pin_read :: "nat \<Rightarrow> usv \<Rightarrow> level" where
  "stm32_pin_read pin s = (case get_pin pin of None \<Rightarrow> PIN_LOW | Some i \<Rightarrow> pins s i)"

definition rt_pin_write :: "nat \<Rightarrow> level \<Rightarrow> usv \<Rightarrow> usv" where
  "rt_pin_write pin value s = stm32_pin_write pin value s"

definition rt_pin_mode :: "nat \<Rightarrow> pin_mode \<Rightarrow> usv \<Rightarrow> usv" where
  "rt_pin_mode pin mode s = stm32_pin_mode pin mode s"

definition rt_pin_read :: "nat \<Rightarrow> usv \<Rightarrow> level" where
  "rt_pin_read pin s = stm32_pin_read pin s"

text \<open>Pin numbers: \<open>GET_PIN(port, n)\<close> is sixteen times the port number plus \<open>n\<close>.\<close>

definition GET_PIN :: "nat \<Rightarrow> nat \<Rightarrow> nat" where "GET_PIN port n = 16 * port + n"

abbreviation (input) PORT_B :: nat where "PORT_B \<equiv> 1"
abbreviation (input) PORT_C :: nat where "PORT_C \<equiv> 2"
abbreviation (input) PORT_D :: nat where "PORT_D \<equiv> 3"
abbreviation (input) PORT_E :: nat where "PORT_E \<equiv> 4"

definition LED1 :: nat where "LED1 = GET_PIN PORT_D 3"
definition LED2 :: nat where "LED2 = GET_PIN PORT_D 4"
definition LED3 :: nat where "LED3 = GET_PIN PORT_D 5"
definition MD0 :: nat where "MD0 = GET_PIN PORT_C 4"
definition MD1 :: nat where "MD1 = GET_PIN PORT_C 5"
definition PW_IN :: nat where "PW_IN = GET_PIN PORT_E 0"
definition PW_OUT :: nat where "PW_OUT = GET_PIN PORT_E 1"
definition relay1 :: nat where "relay1 = GET_PIN PORT_C 1"
definition relay2 :: nat where "relay2 = GET_PIN PORT_C 3"
definition relay3 :: nat where "relay3 = GET_PIN PORT_B 8"
definition relay4 :: nat where "relay4 = GET_PIN PORT_B 9"
definition valve1 :: nat where "valve1 = GET_PIN PORT_D 8"
definition valve2 :: nat where "valve2 = GET_PIN PORT_D 9"
definition valve3 :: nat where "valve3 = GET_PIN PORT_D 10"
definition valve4 :: nat where "valve4 = GET_PIN PORT_D 11"
definition valve5 :: nat where "valve5 = GET_PIN PORT_D 12"
definition valve6 :: nat where "valve6 = GET_PIN PORT_D 13"
definition valve7 :: nat where "valve7 = GET_PIN PORT_D 14"
definition valve8 :: nat where "valve8 = GET_PIN PORT_D 15"

lemmas pin_defs = GET_PIN_def LED1_def LED2_def LED3_def MD0_def MD1_def PW_IN_def PW_OUT_def
  relay1_def relay2_def relay3_def relay4_def valve1_def valve2_def valve3_def valve4_def
  valve5_def valve6_def valve7_def valve8_def

text \<open>A run of pin writes, in the order of the source.\<close>

fun writes :: "(nat \<times> level) list \<Rightarrow> usv \<Rightarrow> usv" where
  "writes [] s = s"
| "writes ((p, v) # ws) s = writes ws (rt_pin_write p v s)"

fun modes :: "(nat \<times> pin_mode) list \<Rightarrow> usv \<Rightarrow> usv" where
  "modes [] s = s"
| "modes ((p, m) # ms) s = modes ms (rt_pin_mode p m s)"

definition control_status_led :: "int \<Rightarrow> usv \<Rightarrow> usv" where
  "control_status_led status_code =
     (if status_code = 1 then writes [(LED1, PIN_LOW), (LED2, PIN_HIGH), (LED3, PIN_LOW)]
      else if status_code = 2 then writes [(LED1, PIN_HIGH), (LED2, PIN_LOW), (LED3, PIN_LOW)]
      else if status_code = 3 then writes [(LED1, PIN_LOW), (LED2, PIN_LOW), (LED3, PIN_HIGH)]
      else writes [(LED1, PIN_LOW), (LED2, PIN_LOW), (LED3, PIN_LOW)])"

definition init_gpio :: "usv \<Rightarrow> usv" where
  "init_gpio s =
     control_status_led 2 (writes [(MD0, PIN_LOW), (MD1, PIN_LOW)]
      (modes [(LED1, PIN_MODE_OUTPUT), (LED2, PIN_MODE_OUTPUT), (LED3, PIN_MODE_OUTPUT),
              (MD0, PIN_MODE_OUTPUT), (MD1, PIN_MODE_OUTPUT),
              (PW_IN, PIN_MODE_INPUT_PULLUP), (PW_OUT, PIN_MODE_OUTPUT),
              (relay1, PIN_MODE_OUTPUT), (relay2, PIN_MODE_OUTPUT),
              (relay3, PIN_MODE_OUTPUT), (relay4, PIN_MODE_OUTPUT),
              (valve1, PIN_MODE_OUTPUT), (valve2, PIN_MODE_OUTPUT), (valve3, PIN_MODE_OUTPUT),
              (valve4, PIN_MODE_OUTPUT), (valve5, PIN_MODE_OUTPUT), (valve6, PIN_MODE_OUTPUT),
              (valve7, PIN_MODE_OUTPUT), (valve8, PIN_MODE_OUTPUT)] s))"

text \<open>The ten writes of one case of \<^verbatim>\<open>draw\<close>: both relays, then the eight valves.\<close>

definition draw_writes :: "level list \<Rightarrow> usv \<Rightarrow> usv" where
  "draw_writes ls = writes (zip [relay1, relay2, valve1, valve2, valve3, valve4, valve5, valve6,
     valve7, valve8] ls)"

definition draw :: "int \<Rightarrow> usv \<Rightarrow> usv" where
  "draw bottle =
    (let L = PIN_LOW; H = PIN_HIGH in
     if bottle = 0 then draw_writes [L, L, L, L, L, L, L, L, L, L]
     else if bottle = 1 then draw_writes [H, L, H, L, L, L, L, L, L, L]
     else if bottle = 2 then draw_writes [H, L, L, H, L, L, L, L, L, L]
     else if bottle = 3 then draw_writes [H, L, L, L, H, L, L, L, L, L]
     else if bottle = 4 then draw_writes [H, L, L, L, L, H, L, L, L, L]
     else if bottle = 5 then draw_writes [H, L, L, L, L, L, H, L, L, L]
     else if bottle = 6 then draw_writes [H, L, L, L, L, L, L, H, L, L]
     else if bottle = 7 then draw_writes [H, L, L, L, L, L, L, L, H, L]
     else if bottle = 8 then draw_writes [H, L, L, L, L, L, L, L, L, H]
     else draw_writes [L, L, L, L, L, L, L, L, L, L])"

text \<open>Valve \<open>i\<close> (from 1 to 8) is on port D, pin \<open>7 + i\<close>.\<close>

definition valve :: "nat \<Rightarrow> nat" where "valve i = GET_PIN PORT_D (7 + i)"

definition open_valves :: "usv \<Rightarrow> nat list" where
  "open_valves s = filter (\<lambda>i. pins s (valve i) = PIN_HIGH) [1, 2, 3, 4, 5, 6, 7, 8]"

definition pump_on :: "usv \<Rightarrow> bool" where "pump_on s \<longleftrightarrow> pins s relay1 = PIN_HIGH"

definition valves_safe :: "usv \<Rightarrow> bool" where
  "valves_safe s \<longleftrightarrow> pins s relay2 = PIN_LOW \<and>
     length (open_valves s) = (if pump_on s then 1 else 0)"

section \<open>Lemmas\<close>

lemma rt_pin_write_pins:
  "p < 112 \<Longrightarrow> rt_pin_write p v s = s\<lparr>pins := (pins s)(p := v)\<rparr>"
  by (simp add: rt_pin_write_def stm32_pin_write_def get_pin_def)

lemma writes_frame: "\<exists>f. writes ws s = s\<lparr>pins := f\<rparr>"
proof (induction ws arbitrary: s)
  case Nil
  show ?case by (rule exI [of _ "pins s"]) simp
next
  case (Cons w ws)
  obtain p v where w: "w = (p, v)" by (cases w)
  show ?case
  proof (cases "get_pin p")
    case None
    then show ?thesis using Cons.IH [of s] by (simp add: w rt_pin_write_def stm32_pin_write_def)
  next
    case (Some i)
    obtain f where "writes ws (s\<lparr>pins := (pins s)(i := v)\<rparr>) = s\<lparr>pins := (pins s)(i := v)\<rparr>\<lparr>pins := f\<rparr>"
      using Cons.IH by blast
    then show ?thesis using Some
      by (intro exI [of _ f]) (simp add: w rt_pin_write_def stm32_pin_write_def)
  qed
qed

lemma control_status_led_frame: "\<exists>f. control_status_led c s = s\<lparr>pins := f\<rparr>"
  by (simp add: control_status_led_def writes_frame del: writes.simps)

lemma draw_frame: "\<exists>f. draw b s = s\<lparr>pins := f\<rparr>"
  by (simp add: draw_def draw_writes_def Let_def writes_frame del: writes.simps zip_Cons_Cons)

lemmas led_simps = control_status_led_def rt_pin_write_pins pin_defs

lemma control_status_led_other_pins:
  "p \<notin> {LED1, LED2, LED3} \<Longrightarrow> pins (control_status_led c s) p = pins s p"
  by (simp add: led_simps)

lemma control_status_led_one_hot:
  "c \<in> {1, 2, 3} \<Longrightarrow>
    length (filter (\<lambda>p. pins (control_status_led c s) p = PIN_HIGH) [LED1, LED2, LED3]) = 1"
  by (auto simp: led_simps)

lemma control_status_led_valves [simp]: "valves_safe (control_status_led c s) = valves_safe s"
  by (simp add: valves_safe_def open_valves_def pump_on_def control_status_led_other_pins valve_def
      pin_defs)

lemma draw_pins_bottle:
  assumes "1 \<le> b" "b \<le> 8"
  shows "pump_on (draw b s) \<and> pins (draw b s) relay2 = PIN_LOW \<and> open_valves (draw b s) = [nat b]"
proof -
  have "b \<in> {1, 2, 3, 4, 5, 6, 7, 8}" using assms by auto
  then show ?thesis
    by (auto simp: draw_def draw_writes_def Let_def rt_pin_write_pins pin_defs valve_def
        pump_on_def open_valves_def)
qed

lemma draw_pins_off:
  assumes "b < 1 \<or> 8 < b"
  shows "\<not> pump_on (draw b s) \<and> pins (draw b s) relay2 = PIN_LOW \<and> open_valves (draw b s) = []"
  using assms
  by (auto simp: draw_def draw_writes_def Let_def rt_pin_write_pins pin_defs valve_def
      pump_on_def open_valves_def)

lemma draw_safe: "valves_safe (draw b s)"
  using draw_pins_bottle [of b s] draw_pins_off [of b s]
  by (cases "1 \<le> b \<and> b \<le> 8") (auto simp: valves_safe_def)

lemma draw_led: "p \<in> {LED1, LED2, LED3} \<Longrightarrow> pins (draw b s) p = pins s p"
  by (auto simp: draw_def draw_writes_def Let_def rt_pin_write_pins pin_defs)

end
