(* ===== verification/Ramp.thy ===== *)
theory Ramp
  imports Usv_Prelude
begin

text \<open>
  The contract shared by the motor and the winch output loops: each iteration moves an output
  value a fixed number of microseconds towards its target.  The locale \<open>ramp\<close> states what the two
  loops promise of one iteration; the lemmas inside derive what a run of iterations does.  It is
  interpreted on the loops' own step functions in \<open>Motor_Pwm\<close> (step 2) and \<open>Gear_Pwm\<close> (step 1).
\<close>

definition dist :: "u32 \<Rightarrow> u32 \<Rightarrow> nat" where
  "dist c t = (if c < t then unat t - unat c else unat c - unat t)"

locale ramp =
  fixes step :: "u32 \<Rightarrow> u32 \<Rightarrow> u32"   \<comment> \<open>current value, target\<close>
    and d :: nat                        \<comment> \<open>microseconds per iteration\<close>
  assumes d_pos: "0 < d"
    and at_target: "step t t = t"
    and towards: "d \<le> dist c t \<Longrightarrow> dist (step c t) t = dist c t - d"
    and between: "d \<le> dist c t \<Longrightarrow> min c t \<le> step c t \<and> step c t \<le> max c t"
begin

lemma run_dist: "dist (((\<lambda>c. step c t) ^^ n) c) t = dist c t - n * d" if "n * d \<le> dist c t"
  using that
proof (induction n)
  case (Suc n)
  then have "dist (((\<lambda>c. step c t) ^^ n) c) t = dist c t - n * d" by simp
  with Suc.prems show ?case by (subst funpow.simps) (simp add: towards)
qed simp

lemma run_at_target: "((\<lambda>c. step c t) ^^ n) t = t"
  by (induction n) (simp_all add: at_target)

lemma dist_eq_0: "dist c t = 0 \<longleftrightarrow> c = t"
  by (auto simp: dist_def word_less_nat_alt intro: word_unat_eq_iff [THEN iffD2])

lemma run_reaches:
  assumes "d dvd dist c t" and "dist c t div d \<le> n"
  shows "((\<lambda>c. step c t) ^^ n) c = t"
proof -
  let ?k = "dist c t div d"
  have "dist (((\<lambda>c. step c t) ^^ ?k) c) t = 0"
    using assms(1) run_dist [of ?k c t] by simp
  then have k: "((\<lambda>c. step c t) ^^ ?k) c = t" by (simp add: dist_eq_0)
  have "((\<lambda>c. step c t) ^^ n) c = ((\<lambda>c. step c t) ^^ (n - ?k)) (((\<lambda>c. step c t) ^^ ?k) c)"
    using funpow_add [of "n - ?k" ?k "\<lambda>c. step c t"] assms(2) by (simp add: comp_def fun_eq_iff)
  then show ?thesis by (simp add: k run_at_target)
qed

lemma run_close: "dist (((\<lambda>c. step c t) ^^ (dist c t div d)) c) t = dist c t mod d"
  using run_dist [of "dist c t div d" c t] by (simp add: minus_div_mult_eq_mod)

end

section \<open>Steps of a fixed size on unsigned values\<close>

definition move :: "u32 \<Rightarrow> u32 \<Rightarrow> u32 \<Rightarrow> u32" where
  "move k c t = (if c = t then c else if t < c then c - k else c + k)"

lemma unat_add_less: "unat a + unat (b::u32) < 2 ^ 32 \<Longrightarrow> unat (a + b) = unat a + unat b"
  using unat_add_lem [of a b] by simp

lemma move_down:
  assumes "t < c" "unat k \<le> dist c t"
  shows "unat (move k c t) = unat c - unat k"
proof -
  have "\<not> c < t" using assms(1) by simp
  then have "k \<le> c" using assms(2) by (simp add: dist_def word_le_nat_alt)
  then show ?thesis using assms(1) by (auto simp: move_def unat_sub)
qed

lemma move_up:
  assumes "c < t" "unat k \<le> dist c t"
  shows "unat (move k c t) = unat c + unat k"
proof -
  have "unat c + unat k \<le> unat t"
    using assms by (simp add: dist_def word_less_nat_alt)
  also have "\<dots> < 2 ^ 32" using unsigned_less [of t, where 'a = nat] by simp
  finally have "unat (c + k) = unat c + unat k" by (rule unat_add_less)
  then show ?thesis using assms(1) by (auto simp: move_def)
qed

lemma move_ramp:
  assumes "0 < k"
  shows "ramp (move k) (unat k)"
proof
  have k: "0 < unat k" using assms by (simp add: word_less_nat_alt)
  then show "0 < unat k" .
  show "move k t t = t" for t by (simp add: move_def)
  fix c t assume le: "unat k \<le> dist c t"
  have "c \<noteq> t" using le k by (auto simp: dist_def)
  then consider (down) "t < c" | (up) "c < t" by (meson neqE)
  note cs = this
  show "dist (move k c t) t = dist c t - unat k"
  proof (cases rule: cs)
    case down
    then show ?thesis using move_down [OF down le] le by (auto simp: dist_def word_less_nat_alt)
  next
    case up
    then show ?thesis using move_up [OF up le] le by (auto simp: dist_def word_less_nat_alt)
  qed
  show "min c t \<le> move k c t \<and> move k c t \<le> max c t"
  proof (cases rule: cs)
    case down
    then show ?thesis using move_down [OF down le] le
      by (auto simp: dist_def word_less_nat_alt word_le_nat_alt min_def max_def)
  next
    case up
    then show ?thesis using move_up [OF up le] le
      by (auto simp: dist_def word_less_nat_alt word_le_nat_alt min_def max_def)
  qed
qed

end
