(* ===== verification/Gear_Pwm.thy ===== *)
theory Gear_Pwm
  imports Usv_State Ramp
begin

text \<open>
  \<^verbatim>\<open>applications/gear_pwm.c\<close>: the winch servo that lowers the sampling hose.  \<open>set_gear_pwm\<close> stores
  the target pulse width without any limit; the thread \<^verbatim>\<open>gear_pwm\<close> moves the output one microsecond
  every six milliseconds, an instance of the locale \<open>ramp\<close> with step 1.
\<close>

definition period5 :: u32 where "period5 = 20000000"
definition pulse5 :: u32 where "pulse5 = 1500000"
definition gear_dev_CHANNEL1 :: u32 where "gear_dev_CHANNEL1 = 1"
definition gear_dev_CHANNEL2 :: u32 where "gear_dev_CHANNEL2 = 2"
definition gear_change_pwm_ceil :: u32 where "gear_change_pwm_ceil = 1"

definition gear_out :: "u32 \<Rightarrow> u32 \<Rightarrow> usv \<Rightarrow> usv" where
  "gear_out channel pulse_ns s = s\<lparr>pwm5 := snd (rt_pwm_set PCLK1 (pwm5 s) channel period5 pulse_ns)\<rparr>"

definition init_gear_pwm :: "tim_regs option \<Rightarrow> usv \<Rightarrow> usv" where
  "init_gear_pwm found s =
     (let s = s\<lparr>pwm5 := found\<rparr>;
          s = (if found = None then s\<lparr>tx := tx s @ [''pwm sample run failed! can't find pwm5!'']\<rparr> else s);
          s = s\<lparr>tx := tx s @ [''pwm sample run ! find pwm5!'']\<rparr>;
          s = s\<lparr>pwm5 := snd (rt_pwm_enable PCLK1 (pwm5 s) gear_dev_CHANNEL1)\<rparr>;
          s = s\<lparr>pwm5 := snd (rt_pwm_enable PCLK1 (pwm5 s) gear_dev_CHANNEL2)\<rparr>;
          s = gear_out gear_dev_CHANNEL1 pulse5 s
      in gear_out gear_dev_CHANNEL2 pulse5 s)"

definition loop_change_gear :: "usv \<Rightarrow> usv \<times> nat" where
  "loop_change_gear s =
     (let s = (if current_gear_pwm s - target_gear_pwm s \<noteq> 0 then
                (if current_gear_pwm s \<noteq> target_gear_pwm s then
                  (let s = (if target_gear_pwm s < current_gear_pwm s
                            then s\<lparr>current_gear_pwm := current_gear_pwm s - gear_change_pwm_ceil\<rparr>
                            else s\<lparr>current_gear_pwm := current_gear_pwm s + gear_change_pwm_ceil\<rparr>)
                   in gear_out gear_dev_CHANNEL2 (current_gear_pwm s * 1000) s)
                 else s)
               else s)
      in (s, 6))"

definition set_gear_pwm :: "u32 \<Rightarrow> usv \<Rightarrow> usv" where
  "set_gear_pwm gear_pwm s = s\<lparr>target_gear_pwm := gear_pwm\<rparr>"

section \<open>Lemmas\<close>

lemma gear_out_select [simp]:
  "current_gear_pwm (gear_out c p s) = current_gear_pwm s"
  "target_gear_pwm (gear_out c p s) = target_gear_pwm s"
  by (simp_all add: gear_out_def)

lemma loop_gear: "current_gear_pwm (fst (loop_change_gear s)) =
    move gear_change_pwm_ceil (current_gear_pwm s) (target_gear_pwm s)"
  by (auto simp: loop_change_gear_def move_def Let_def)

lemma loop_gear_target [simp]: "target_gear_pwm (fst (loop_change_gear s)) = target_gear_pwm s"
  by (auto simp: loop_change_gear_def Let_def)

lemma loop_change_gear_frame:
  "\<exists>c p. fst (loop_change_gear s) = s\<lparr>current_gear_pwm := c, pwm5 := p\<rparr>"
proof -
  let ?t = "fst (loop_change_gear s)"
  have "?t = s\<lparr>current_gear_pwm := current_gear_pwm ?t, pwm5 := pwm5 ?t\<rparr>"
    by (auto simp: loop_change_gear_def gear_out_def Let_def)
  then show ?thesis by blast
qed

interpretation gear: ramp "move gear_change_pwm_ceil" 1
  using move_ramp [of gear_change_pwm_ceil] by (simp add: gear_change_pwm_ceil_def)

lemma run_gear_target [simp]:
  "target_gear_pwm (((fst \<circ> loop_change_gear) ^^ n) s) = target_gear_pwm s"
  by (induction n) simp_all

lemma run_gear: "current_gear_pwm (((fst \<circ> loop_change_gear) ^^ n) s) =
    ((\<lambda>c. move gear_change_pwm_ceil c (target_gear_pwm s)) ^^ n) (current_gear_pwm s)"
  by (induction n) (simp_all add: loop_gear run_gear_target [unfolded comp_def] comp_def)

text \<open>An iteration never takes the output out of the interval spanned by output and target.\<close>

lemma loop_gear_between:
  "min (current_gear_pwm s) (target_gear_pwm s) \<le> current_gear_pwm (fst (loop_change_gear s)) \<and>
   current_gear_pwm (fst (loop_change_gear s)) \<le> max (current_gear_pwm s) (target_gear_pwm s)"
proof (cases "current_gear_pwm s = target_gear_pwm s")
  case False
  then have "1 \<le> dist (current_gear_pwm s) (target_gear_pwm s)"
    using gear.dist_eq_0 [of "current_gear_pwm s" "target_gear_pwm s"] by linarith
  then show ?thesis by (simp add: loop_gear gear.between)
qed (simp add: loop_gear move_def)

section \<open>Properties\<close>

text \<open>
  The winch reaches every target: with the target unchanged, after as many iterations as there
  are microseconds between output and target the output equals the target, and it stays there.
\<close>

theorem gear_reaches_target:
  assumes "dist (current_gear_pwm s) (target_gear_pwm s) \<le> n"
  shows "current_gear_pwm (((fst \<circ> loop_change_gear) ^^ n) s) = target_gear_pwm s"
  using assms unfolding run_gear by (intro gear.run_reaches) simp_all

theorem gear_reaches_target_witness:
  "current_gear_pwm (((fst \<circ> loop_change_gear) ^^ 900) (set_gear_pwm 2400 (usv_init None None))) = 2400"
  using gear_reaches_target [of "set_gear_pwm 2400 (usv_init None None)" 900]
  by (simp add: set_gear_pwm_def usv_init_def dist_def)

end
