(* ===== verification/Motor_Pwm.thy ===== *)
theory Motor_Pwm
  imports Usv_State Ramp
begin

text \<open>
  \<^verbatim>\<open>applications/motor_pwm.c\<close>: the two thruster outputs.  \<open>set_pwm\<close> clamps and stores the target
  pulse widths (microseconds); the thread \<^verbatim>\<open>t_pwm\<close> runs \<open>loop_change_pwm\<close>, whose body moves the
  outputs towards the targets two microseconds at a time and writes them to the timer.

  The invariant \<open>motor_inv\<close> bounds targets and outputs; \<open>loop_change_pwm\<close> is an instance of the
  locale \<open>ramp\<close> with step 2.
\<close>

definition period :: u32 where "period = 20000000"
definition pulse :: u32 where "pulse = 1500000"
definition PWM_DEV_CHANNEL1 :: u32 where "PWM_DEV_CHANNEL1 = 1"
definition PWM_DEV_CHANNEL2 :: u32 where "PWM_DEV_CHANNEL2 = 2"
definition change_pwm_ceil :: u32 where "change_pwm_ceil = 2"

text \<open>\<^verbatim>\<open>rt_pwm_set\<close> on the motor timer; the result is ignored by the callers.\<close>

definition motor_out :: "u32 \<Rightarrow> u32 \<Rightarrow> usv \<Rightarrow> usv" where
  "motor_out channel pulse_ns s = s\<lparr>pwm3 := snd (rt_pwm_set PCLK1 (pwm3 s) channel period pulse_ns)\<rparr>"

definition init_motor_pwm :: "tim_regs option \<Rightarrow> usv \<Rightarrow> usv" where
  "init_motor_pwm found s =
     (let s = s\<lparr>pwm3 := found\<rparr>;
          s = (if found = None then s\<lparr>tx := tx s @ [''pwm sample run failed! can't find pwm4!'']\<rparr> else s);
          s = s\<lparr>tx := tx s @ [''pwm sample run ! find pwm4!'']\<rparr>;
          s = s\<lparr>pwm3 := snd (rt_pwm_enable PCLK1 (pwm3 s) PWM_DEV_CHANNEL1)\<rparr>;
          s = s\<lparr>pwm3 := snd (rt_pwm_enable PCLK1 (pwm3 s) PWM_DEV_CHANNEL2)\<rparr>;
          s = motor_out PWM_DEV_CHANNEL1 pulse s
      in motor_out PWM_DEV_CHANNEL2 pulse s)"

text \<open>One iteration of the thread: the new state and the delay in milliseconds.\<close>

definition loop_change_pwm :: "usv \<Rightarrow> usv \<times> nat" where
  "loop_change_pwm s =
     (if current_left_pwm s - target_left_pwm s \<noteq> 0 \<or> current_right_pwm s - target_right_pwm s \<noteq> 0
      then
        (let s = (if current_left_pwm s \<noteq> target_left_pwm s then
                    (let s = (if target_left_pwm s < current_left_pwm s
                              then s\<lparr>current_left_pwm := current_left_pwm s - change_pwm_ceil\<rparr>
                              else s\<lparr>current_left_pwm := current_left_pwm s + change_pwm_ceil\<rparr>)
                     in motor_out PWM_DEV_CHANNEL1 (current_left_pwm s * 1000) s)
                  else s);
             s = (if current_right_pwm s \<noteq> target_right_pwm s then
                    (let s = (if target_right_pwm s < current_right_pwm s
                              then s\<lparr>current_right_pwm := current_right_pwm s - change_pwm_ceil\<rparr>
                              else s\<lparr>current_right_pwm := current_right_pwm s + change_pwm_ceil\<rparr>)
                     in motor_out PWM_DEV_CHANNEL2 (current_right_pwm s * 1000) s)
                  else s)
         in (s, 2))
      else (s, 10))"

definition set_pwm :: "u32 \<Rightarrow> u32 \<Rightarrow> usv \<Rightarrow> usv" where
  "set_pwm left right s =
     (let left = (if 2000 \<le> left then 2000 else left);
          left = (if left \<le> 1000 then 1000 else left);
          right = (if 2000 \<le> right then 2000 else right);
          right = (if right \<le> 1000 then 1000 else right)
      in s\<lparr>target_left_pwm := left, target_right_pwm := right\<rparr>)"

text \<open>The range a thruster pulse width must stay in.\<close>

definition pwm_ok :: "u32 \<Rightarrow> bool" where "pwm_ok w \<longleftrightarrow> 1000 \<le> w \<and> w \<le> 2000"

definition motor_inv :: "usv \<Rightarrow> bool" where
  "motor_inv s \<longleftrightarrow> pwm_ok (target_left_pwm s) \<and> pwm_ok (target_right_pwm s) \<and>
     pwm_ok (current_left_pwm s) \<and> pwm_ok (current_right_pwm s) \<and>
     even (unat (current_left_pwm s)) \<and> even (unat (current_right_pwm s))"

text \<open>What the thread and its callers do to the outputs: an iteration (\<open>None\<close>) or a request.\<close>

definition motor_op :: "(u32 \<times> u32) option \<Rightarrow> usv \<Rightarrow> usv" where
  "motor_op request s = (case request of None \<Rightarrow> fst (loop_change_pwm s) | Some (left, right) \<Rightarrow> set_pwm left right s)"

text \<open>What the timer holds for an output of \<open>w\<close> microseconds.\<close>

definition shows_pulse :: "tim_regs \<Rightarrow> nat \<Rightarrow> u32 \<Rightarrow> bool" where
  "shows_pulse h i w \<longleftrightarrow> unat (PSC h) = 21 \<and> unat (ARR h) = 65453 \<and>
     unat (CCR h i) = unat w * 1000 * 72 div 22 div 1000 - 1"

section \<open>Lemmas\<close>

lemma motor_out_select [simp]:
  "current_left_pwm (motor_out c p s) = current_left_pwm s"
  "current_right_pwm (motor_out c p s) = current_right_pwm s"
  "target_left_pwm (motor_out c p s) = target_left_pwm s"
  "target_right_pwm (motor_out c p s) = target_right_pwm s"
  by (simp_all add: motor_out_def)

lemma loop_left: "current_left_pwm (fst (loop_change_pwm s)) =
    move change_pwm_ceil (current_left_pwm s) (target_left_pwm s)"
  by (auto simp: loop_change_pwm_def move_def Let_def)

lemma loop_right: "current_right_pwm (fst (loop_change_pwm s)) =
    move change_pwm_ceil (current_right_pwm s) (target_right_pwm s)"
  by (auto simp: loop_change_pwm_def move_def Let_def)

lemma loop_targets [simp]:
  "target_left_pwm (fst (loop_change_pwm s)) = target_left_pwm s"
  "target_right_pwm (fst (loop_change_pwm s)) = target_right_pwm s"
  by (auto simp: loop_change_pwm_def Let_def)

lemma loop_change_pwm_frame:
  "\<exists>l r p. fst (loop_change_pwm s) = s\<lparr>current_left_pwm := l, current_right_pwm := r, pwm3 := p\<rparr>"
proof -
  let ?t = "fst (loop_change_pwm s)"
  have "?t = s\<lparr>current_left_pwm := current_left_pwm ?t, current_right_pwm := current_right_pwm ?t,
      pwm3 := pwm3 ?t\<rparr>"
    by (auto simp: loop_change_pwm_def motor_out_def Let_def)
  then show ?thesis by blast
qed

interpretation motor: ramp "move change_pwm_ceil" 2
  using move_ramp [of change_pwm_ceil] by (simp add: change_pwm_ceil_def)

lemma set_pwm_ok: "pwm_ok (target_left_pwm (set_pwm l r s)) \<and> pwm_ok (target_right_pwm (set_pwm l r s))"
  by (auto simp: set_pwm_def pwm_ok_def Let_def word_le_nat_alt)

lemma set_pwm_inv: "motor_inv s \<Longrightarrow> motor_inv (set_pwm l r s)"
  using set_pwm_ok [of l r s] by (simp add: motor_inv_def set_pwm_def Let_def)

lemma set_pwm_in_range: "pwm_ok l \<Longrightarrow> pwm_ok r \<Longrightarrow>
    set_pwm l r s = s\<lparr>target_left_pwm := l, target_right_pwm := r\<rparr>"
  by (auto simp: set_pwm_def pwm_ok_def Let_def order.antisym)

text \<open>An even output stays even and in range, whatever the target is.\<close>

lemma move_two_ok:
  assumes "pwm_ok c" "pwm_ok t" "even (unat c)"
  shows "pwm_ok (move change_pwm_ceil c t) \<and> even (unat (move change_pwm_ceil c t))"
proof -
  have u: "unat (c - 2) = unat c - 2" "unat (c + 2) = unat c + 2"
    using assms(1) unat_sub [of 2 c] unat_add_less [of c 2]
    by (simp_all add: pwm_ok_def word_le_nat_alt)
  show ?thesis
    using assms unfolding move_def change_pwm_ceil_def pwm_ok_def word_le_nat_alt word_less_nat_alt
      word_unat_eq_iff [of c t]
    by (auto simp: u) presburger+
qed

lemma loop_change_pwm_inv: "motor_inv s \<Longrightarrow> motor_inv (fst (loop_change_pwm s))"
  by (simp add: motor_inv_def loop_left loop_right move_two_ok)

lemma run_motor_targets [simp]:
  "target_left_pwm (((fst \<circ> loop_change_pwm) ^^ n) s) = target_left_pwm s"
  "target_right_pwm (((fst \<circ> loop_change_pwm) ^^ n) s) = target_right_pwm s"
  by (induction n) simp_all

lemma run_motor:
  "current_left_pwm (((fst \<circ> loop_change_pwm) ^^ n) s) =
     ((\<lambda>c. move change_pwm_ceil c (target_left_pwm s)) ^^ n) (current_left_pwm s)"
  "current_right_pwm (((fst \<circ> loop_change_pwm) ^^ n) s) =
     ((\<lambda>c. move change_pwm_ceil c (target_right_pwm s)) ^^ n) (current_right_pwm s)"
  by (induction n) (simp_all add: loop_left loop_right)

lemma run_motor_inv: "motor_inv s \<Longrightarrow> motor_inv (((fst \<circ> loop_change_pwm) ^^ n) s)"
  by (induction n) (simp_all add: loop_change_pwm_inv)

lemma dist_even: "even (unat c) \<Longrightarrow> 2 dvd dist c t \<longleftrightarrow> even (unat t)"
  by (auto simp: dist_def word_less_nat_alt)

lemma dist_le_1000: "pwm_ok c \<Longrightarrow> pwm_ok t \<Longrightarrow> dist c t \<le> 1000"
  by (auto simp: dist_def pwm_ok_def word_le_nat_alt)

text \<open>Pulses the motor timer can be asked for.\<close>

lemma motor_out_shows:
  assumes "pwm_ok w" "pwm3 s = Some h" "i = (if channel = 1 then 1 else 2)" "channel \<in> {1, 2}"
  shows "\<exists>h'. pwm3 (motor_out channel (w * 1000) s) = Some h' \<and> shows_pulse h' i w"
proof -
  let ?c = "\<lparr>conf_channel = channel, conf_period = period, conf_pulse = w * 1000\<rparr>"
  have w: "unat (w * 1000) = unat w * 1000"
    using assms(1) unat_mult_lem [of w 1000] by (simp add: pwm_ok_def word_le_nat_alt)
  have i: "ccr_index (hal_channel channel) = i"
    using assms(3,4) by (auto simp: ccr_index_def hal_channel_def)
  have psc: "psc_of 20000000 = 22" "arr_of 20000000 = 65454"
    by (simp_all add: psc_of_def arr_of_def)
  have p: "pulse_of 20000000 (unat w * 1000) = unat w * 1000 * 72 div 22 div 1000"
    using assms(1) unfolding psc(1) [symmetric]
    by (intro pulse_of_within) (auto simp: psc pwm_ok_def word_le_nat_alt)
  have "shows_pulse (snd (drv_pwm_set PCLK1 h ?c)) i w"
    using drv_pwm_set_regs(1-3) [of h ?c] psc p
    by (simp add: shows_pulse_def period_def w i)
  then show ?thesis using assms(2)
    by (simp add: motor_out_def rt_pwm_set_def drv_pwm_control_def split_beta)
qed

lemma motor_out_keeps:
  assumes "pwm_ok w" "pwm3 s = Some h" "channel \<in> {1, 2}"
    and "j \<noteq> ccr_index (hal_channel channel)" "shows_pulse h j v"
  shows "\<exists>h'. pwm3 (motor_out channel (w * 1000) s) = Some h' \<and> shows_pulse h' j v"
proof -
  let ?c = "\<lparr>conf_channel = channel, conf_period = period, conf_pulse = w * 1000\<rparr>"
  let ?h = "snd (drv_pwm_set PCLK1 h ?c)"
  have j: "CCR ?h j = CCR h j"
    using drv_pwm_set_regs(4) [of h ?c] assms(4) by (metis fun_upd_other pwm_conf.select_convs(1))
  have "unat (PSC ?h) = 21" "unat (ARR ?h) = 65453"
    using drv_pwm_set_regs(1,2) [of h ?c] by (simp_all add: period_def psc_of_def arr_of_def)
  then have "shows_pulse ?h j v" using assms(5) by (simp add: shows_pulse_def j)
  then show ?thesis using assms(2)
    by (simp add: motor_out_def rt_pwm_set_def drv_pwm_control_def split_beta)
qed

text \<open>Both outputs on the timer, with their channels switched on.\<close>

definition motor_shows :: "usv \<Rightarrow> u32 \<Rightarrow> u32 \<Rightarrow> bool" where
  "motor_shows s left right \<longleftrightarrow>
     (case pwm3 s of
        None \<Rightarrow> False
      | Some h \<Rightarrow> shows_pulse h 1 left \<and> shows_pulse h 2 right \<and> CH_ON h 0 \<and> CH_ON h 4)"

lemma motor_out_on: "pwm3 s = Some h \<Longrightarrow> \<exists>h'. pwm3 (motor_out channel p s) = Some h' \<and> CH_ON h' = CH_ON h"
  by (simp add: motor_out_def rt_pwm_set_def drv_pwm_control_def split_beta drv_pwm_set_regs(6))

lemma motor_out_both:
  assumes "pwm_ok w" "motor_shows s left right"
  shows "motor_shows (motor_out 1 (w * 1000) s) w right" "motor_shows (motor_out 2 (w * 1000) s) left w"
proof -
  obtain h where h: "pwm3 s = Some h" "shows_pulse h 1 left" "shows_pulse h 2 right" "CH_ON h 0" "CH_ON h 4"
    using assms(2) by (auto simp: motor_shows_def split: option.splits)
  have c: "2 \<noteq> ccr_index (hal_channel 1)" "1 \<noteq> ccr_index (hal_channel 2)" by (simp_all add: ccr_index_def hal_channel_def)
  show "motor_shows (motor_out 1 (w * 1000) s) w right"
    using motor_out_shows [OF assms(1) h(1), of 1 1] motor_out_keeps [OF assms(1) h(1) _ c(1) h(3)]
      motor_out_on [OF h(1), of 1 "w * 1000"] h(4,5) by (auto simp: motor_shows_def)
  show "motor_shows (motor_out 2 (w * 1000) s) left w"
    using motor_out_shows [OF assms(1) h(1), of 2 2] motor_out_keeps [OF assms(1) h(1) _ c(2) h(2)]
      motor_out_on [OF h(1), of 2 "w * 1000"] h(4,5) by (auto simp: motor_shows_def)
qed

lemma loop_shows:
  assumes inv: "motor_inv s" and dev: "motor_shows s (current_left_pwm s) (current_right_pwm s)"
  defines "t \<equiv> fst (loop_change_pwm s)"
  shows "motor_shows t (current_left_pwm t) (current_right_pwm t)"
proof -
  let ?l = "move 2 (current_left_pwm s) (target_left_pwm s)" and ?r = "move 2 (current_right_pwm s) (target_right_pwm s)"
  define s1 where "s1 = (if current_left_pwm s \<noteq> target_left_pwm s
     then motor_out 1 (?l * 1000) (s\<lparr>current_left_pwm := ?l\<rparr>) else s)"
  define s2 where "s2 = (if current_right_pwm s \<noteq> target_right_pwm s
     then motor_out 2 (?r * 1000) (s1\<lparr>current_right_pwm := ?r\<rparr>) else s1)"
  have eq: "t = s2"
    unfolding t_def s2_def s1_def loop_change_pwm_def move_def change_pwm_ceil_def Let_def
      PWM_DEV_CHANNEL1_def PWM_DEV_CHANNEL2_def by (auto simp: motor_out_def)
  have ok: "pwm_ok ?l" "pwm_ok ?r" using inv move_two_ok by (auto simp: motor_inv_def change_pwm_ceil_def)
  have skip: "motor_shows (v\<lparr>current_left_pwm := x\<rparr>) = motor_shows v" "motor_shows (v\<lparr>current_right_pwm := x\<rparr>) = motor_shows v"
    for v x by (simp_all add: motor_shows_def fun_eq_iff)
  have "motor_shows s1 ?l (current_right_pwm s)"
    using motor_out_both(1) [OF ok(1), of "s\<lparr>current_left_pwm := ?l\<rparr>"] dev
    by (auto simp: s1_def skip) (simp add: move_def)
  then have "motor_shows s2 ?l ?r"
    using motor_out_both(2) [OF ok(2), of "s1\<lparr>current_right_pwm := ?r\<rparr>"]
    by (auto simp: s2_def skip) (simp add: move_def)
  then show ?thesis by (simp add: eq [symmetric]) (simp add: t_def loop_left loop_right change_pwm_ceil_def)
qed

lemma init_shows: "motor_shows (init_motor_pwm (Some h) s) 1500 1500"
proof -
  obtain s1 h1 where s1: "init_motor_pwm (Some h) s = motor_out 2 (1500 * 1000) (motor_out 1 (1500 * 1000) s1)"
    "pwm3 s1 = Some h1" "CH_ON h1 0" "CH_ON h1 4"
    by (simp add: init_motor_pwm_def Let_def rt_pwm_enable_def drv_pwm_control_def drv_pwm_enable_def hal_channel_def
        PWM_DEV_CHANNEL1_def PWM_DEV_CHANNEL2_def pulse_def)
  have ok: "pwm_ok 1500" by (simp add: pwm_ok_def)
  obtain h2 where h2: "pwm3 (motor_out 1 (1500 * 1000) s1) = Some h2" "shows_pulse h2 1 1500" "CH_ON h2 = CH_ON h1"
    using motor_out_shows [OF ok s1(2), of 1 1] motor_out_on [OF s1(2), of 1 "1500 * 1000"] by auto
  have c: "1 \<noteq> ccr_index (hal_channel 2)" by (simp add: ccr_index_def hal_channel_def)
  show ?thesis
    using motor_out_shows [OF ok h2(1), of 2 2] motor_out_keeps [OF ok h2(1) _ c h2(2)]
      motor_out_on [OF h2(1), of 2 "1500 * 1000"] h2(3) s1 by (auto simp: motor_shows_def)
qed

lemma motor_op_inv: "motor_inv s \<Longrightarrow> motor_inv (motor_op request s)"
  by (auto simp: motor_op_def loop_change_pwm_inv set_pwm_inv split: option.splits)

lemma motor_op_shows:
  assumes "motor_inv s" "motor_shows s (current_left_pwm s) (current_right_pwm s)"
  shows "motor_shows (motor_op request s) (current_left_pwm (motor_op request s)) (current_right_pwm (motor_op request s))"
proof (cases request)
  case None
  then show ?thesis using loop_shows [OF assms] by (simp add: motor_op_def)
next
  case (Some lr)
  then show ?thesis using assms(2) by (cases lr) (simp add: motor_op_def set_pwm_def Let_def motor_shows_def)
qed

lemma motor_run:
  assumes "motor_inv s" "motor_shows s (current_left_pwm s) (current_right_pwm s)"
  shows "motor_inv (fold motor_op requests s) \<and>
    motor_shows (fold motor_op requests s) (current_left_pwm (fold motor_op requests s)) (current_right_pwm (fold motor_op requests s))"
  using assms by (induction requests arbitrary: s) (simp_all add: motor_op_inv motor_op_shows)

text \<open>The ticks of an output: less than two prescaled ticks of 22/72 microseconds under it.\<close>

lemma shows_pulse_ticks:
  assumes "shows_pulse h i w" "pwm_ok w"
  shows "(unat (CCR h i) + 1) * 22 \<le> unat w * 72 \<and> unat w * 72 < (unat (CCR h i) + 2) * 22"
proof -
  define q where "q = unat w * 1000 * 72 div 22 div 1000"
  have "1000 * 1000 * 72 div 22 div 1000 \<le> q"
    unfolding q_def using assms(2) by (intro div_le_mono mult_le_mono) (simp_all add: pwm_ok_def word_le_nat_alt)
  then have "unat (CCR h i) + 1 = q" using assms(1) by (simp add: shows_pulse_def q_def)
  moreover have "q * 22 * 1000 \<le> unat w * 1000 * 72" "unat w * 1000 * 72 < (q + 1) * 22 * 1000"
    unfolding q_def using div_div_bounds [of 22 "unat w * 1000 * 72"] by simp_all
  ultimately show ?thesis by simp
qed

text \<open>Once within one microsecond, the output stays within one microsecond of its target.\<close>

lemma move_two_near:
  assumes "pwm_ok c" "pwm_ok t" "dist c t \<le> 1"
  shows "dist (move change_pwm_ceil c t) t = dist c t"
proof -
  have u: "unat (c - 2) = unat c - 2" "unat (c + 2) = unat c + 2"
    using assms(1) unat_sub [of 2 c] unat_add_less [of c 2]
    by (simp_all add: pwm_ok_def word_le_nat_alt)
  show ?thesis
    using assms unfolding move_def change_pwm_ceil_def pwm_ok_def dist_def word_le_nat_alt
      word_less_nat_alt word_unat_eq_iff [of c t]
    by (auto simp: u)
qed

lemma run_move_near:
  assumes "pwm_ok t" "pwm_ok c" "even (unat c)" "dist c t \<le> 1"
  shows "dist (((\<lambda>c. move change_pwm_ceil c t) ^^ n) c) t = dist c t"
    (is "dist (?r n) t = _")
proof -
  have "pwm_ok (?r n) \<and> even (unat (?r n)) \<and> dist (?r n) t = dist c t"
    using assms by (induction n) (simp_all add: move_two_ok move_two_near)
  then show ?thesis by simp
qed

lemma run_move_settles:
  assumes "pwm_ok t" "pwm_ok c" "even (unat c)" "500 \<le> n"
  shows "dist (((\<lambda>c. move change_pwm_ceil c t) ^^ n) c) t = unat t mod 2"
proof -
  let ?k = "dist c t div 2"
  let ?f = "\<lambda>c. move change_pwm_ceil c t"
  have "?k \<le> n" using dist_le_1000 [OF assms(2,1)] assms(4) by linarith
  then have split: "(?f ^^ n) c = (?f ^^ (n - ?k)) ((?f ^^ ?k) c)"
    using funpow_add [of "n - ?k" ?k ?f] by (simp add: comp_def fun_eq_iff)
  have ok: "pwm_ok ((?f ^^ m) c) \<and> even (unat ((?f ^^ m) c))" for m
    using assms(1-3) by (induction m) (simp_all add: move_two_ok)
  have close: "dist ((?f ^^ ?k) c) t = dist c t mod 2" by (rule motor.run_close)
  then have "dist ((?f ^^ n) c) t = dist c t mod 2"
    unfolding split using ok [of ?k] run_move_near [OF assms(1)] by simp
  also have "\<dots> = unat t mod 2"
    using dist_even [OF assms(3), of t] by (simp add: mod2_eq_if)
  finally show ?thesis .
qed

section \<open>Properties\<close>

text \<open>
  \<^verbatim>\<open>set_pwm\<close> stores exactly the requested pulse widths limited to 1000 to 2000 microseconds,
  for every unsigned request, and changes nothing else.
\<close>

theorem set_pwm_clamps:
  "set_pwm l r s = s\<lparr>target_left_pwm := max 1000 (min 2000 l),
     target_right_pwm := max 1000 (min 2000 r)\<rparr>"
proof -
  have "(if x \<le> 1000 then 1000 else x) = max 1000 x" "(if 2000 \<le> x then 2000 else x) = min 2000 x"
    for x :: u32 by (auto simp: max_def min_def intro: order.antisym)
  then show ?thesis by (simp only: set_pwm_def Let_def)
qed

text \<open>
  C7. Settling of the thrusters: from any state within the invariant and with the targets unchanged,
  after at most 500 iterations (of 2 ms) each output is as close to its target as it will ever get
  and stays so: it equals an even target, and an odd target is missed by exactly one microsecond
  forever, because the output moves in steps of two and never changes parity.
\<close>

theorem motor_settles:
  assumes "motor_inv s" and "500 \<le> n"
  shows "let t = ((fst \<circ> loop_change_pwm) ^^ n) s in
    dist (current_left_pwm t) (target_left_pwm s) = unat (target_left_pwm s) mod 2 \<and>
    dist (current_right_pwm t) (target_right_pwm s) = unat (target_right_pwm s) mod 2"
  using assms by (simp add: Let_def run_motor run_move_settles motor_inv_def)

lemma motor_inv_init: "motor_inv (usv_init p3 p5)"
  by (simp add: motor_inv_def usv_init_def pwm_ok_def)

theorem motor_settles_witness:
  "let s = set_pwm 1735 900 (usv_init None None); t = ((fst \<circ> loop_change_pwm) ^^ 500) s in
    dist (current_left_pwm t) 1735 = 1 \<and> dist (current_right_pwm t) 1000 = 0"
  using motor_settles [of "set_pwm 1735 900 (usv_init None None)" 500]
  by (simp add: set_pwm_inv motor_inv_init) (simp add: set_pwm_def Let_def)

text \<open>
  C8. End to end, down to the timer registers: once \<^verbatim>\<open>init_motor_pwm\<close> has found the timer, after any
  sequence of iterations of the motor thread and of requests to \<^verbatim>\<open>set_pwm\<close>, with any values, both channels are
  on, the prescaler and the period are those of a 50 Hz frame, and the compare value of each channel is the one of
  its output, which lies between 1000 and 2000 microseconds: the pulse of \<open>CCR\<close> ticks of 22/72 microseconds is
  shorter than the output by at least one tick and by less than two (0.62 microseconds).
\<close>

theorem motor_pulse_on_timer:
  assumes "motor_inv s" "current_left_pwm s = 1500" "current_right_pwm s = 1500"
    and t: "t = fold motor_op requests (init_motor_pwm (Some h) s)"
  shows "\<exists>h'. pwm3 t = Some h' \<and> unat (PSC h') = 21 \<and> unat (ARR h') = 65453 \<and> CH_ON h' 0 \<and> CH_ON h' 4 \<and>
    1000 \<le> current_left_pwm t \<and> current_left_pwm t \<le> 2000 \<and>
    (unat (CCR h' 1) + 1) * 22 \<le> unat (current_left_pwm t) * 72 \<and>
    unat (current_left_pwm t) * 72 < (unat (CCR h' 1) + 2) * 22 \<and>
    1000 \<le> current_right_pwm t \<and> current_right_pwm t \<le> 2000 \<and>
    (unat (CCR h' 2) + 1) * 22 \<le> unat (current_right_pwm t) * 72 \<and>
    unat (current_right_pwm t) * 72 < (unat (CCR h' 2) + 2) * 22"
proof -
  let ?s = "init_motor_pwm (Some h) s"
  have s: "current_left_pwm ?s = 1500" "current_right_pwm ?s = 1500" "motor_inv ?s"
    using assms(1-3) by (simp_all add: init_motor_pwm_def motor_inv_def Let_def)
  have run: "motor_inv t" "motor_shows t (current_left_pwm t) (current_right_pwm t)"
    using motor_run [OF s(3), of requests] init_shows [of h s] unfolding t s(1,2) by simp_all
  then obtain h' where h': "pwm3 t = Some h'" "shows_pulse h' 1 (current_left_pwm t)"
    "shows_pulse h' 2 (current_right_pwm t)" "CH_ON h' 0" "CH_ON h' 4"
    by (auto simp: motor_shows_def split: option.splits)
  have ok: "pwm_ok (current_left_pwm t)" "pwm_ok (current_right_pwm t)" using run(1) by (simp_all add: motor_inv_def)
  show ?thesis
    using h' ok shows_pulse_ticks [OF h'(2) ok(1)] shows_pulse_ticks [OF h'(3) ok(2)]
    by (simp add: shows_pulse_def pwm_ok_def)
qed

theorem motor_pulse_on_timer_witness:
  "\<exists>h'. pwm3 (fold motor_op [Some (1600, 5), None] (init_motor_pwm (Some example_tim) (usv_init None None))) = Some h' \<and>
    CH_ON h' 0 \<and> CH_ON h' 4 \<and> unat (PSC h') = 21"
proof -
  have "current_left_pwm (usv_init None None) = 1500" "current_right_pwm (usv_init None None) = 1500"
    by (simp_all add: usv_init_def)
  from motor_pulse_on_timer [OF motor_inv_init this refl] show ?thesis by blast
qed

end
