(* ===== verification/Auto_Cruise.thy ===== *)
theory Auto_Cruise
  imports Motor_Pwm
begin

text \<open>
  \<^verbatim>\<open>applications/auto_cruise.c\<close>: the heading controller of automatic cruise.  \<open>cruise\<close> holds its
  global variables; \<open>auto_cruise_pid\<close> is the function of that name, split at the places where the
  source has its stages: great-circle distance and bearing, heading error, PID, and the scaling of the
  two thrust components to \<^verbatim>\<open>max_control\<close>.  Note that \<^verbatim>\<open>abs\<close> is the integer function, so
  \<^verbatim>\<open>abs(Ek)\<close> truncates the heading error.
\<close>

record cruise =
  max_control :: int
  temp_forward_pwm :: int
  forward_pwm :: int
  steer_pwm :: int
  ALL_distance :: real
  targe_theta :: int
  Ek :: real
  Ekk :: real
  Kp :: real
  Ki :: real
  Kd :: real
  PID_value :: real
  integral :: real
  differential :: real

definition integral_limit :: real where "integral_limit = 1800"
definition radius_of_earth :: real where "radius_of_earth = db (6371580 / 1000)"
definition pi_7 :: real where "pi_7 = db (31415926 / 10000000)"
definition pi2degree :: real where "pi2degree = db (pi_7 / 180)"

definition cruise_init :: cruise where
  "cruise_init = \<lparr>max_control = 300, temp_forward_pwm = 0, forward_pwm = 0, steer_pwm = 0,
     ALL_distance = 0, targe_theta = 0, Ek = 0, Ekk = 0, Kp = fl (5 / 10), Ki = 0, Kd = 0,
     PID_value = 0, integral = 0, differential = 0\<rparr>"

text \<open>Lines 41 to 51: distance in metres and the raw bearing in degrees.\<close>

definition great_circle :: "real \<Rightarrow> real \<Rightarrow> real \<Rightarrow> real \<Rightarrow> (real \<times> int) res" where
  "great_circle x0 y0 x1 y1 =
     (let longitude_PI = db (x0 * pi2degree);
          latitude_PI = db (y0 * pi2degree);
          tragetLO_PI = db (x1 * pi2degree);
          trageLA_PI = db (y1 * pi2degree);
          longitude_difference = db (tragetLO_PI - longitude_PI);
          latitude_difference = db (trageLA_PI - latitude_PI);
          sq = (\<lambda>x. db (x * x));
          a = sq (m_sin (db (latitude_difference / 2)));
          b = db (db (m_cos trageLA_PI * m_cos latitude_PI) * sq (m_sin (db (longitude_difference / 2))))
      in bind_res (m_sqrt (db (a + b))) (\<lambda>r.
         bind_res (m_asin r) (\<lambda>as.
           let m = db (db (2000 * radius_of_earth) * as);
               y = db (m_sin longitude_difference * m_cos trageLA_PI);
               x = db (db (m_cos latitude_PI * m_sin trageLA_PI)
                     - db (db (m_sin latitude_PI * m_cos trageLA_PI) * m_cos longitude_difference))
           in bind_res (f2i (db (db (m_atan2 y x * 180) / pi_7))) (\<lambda>th. Inr (m, th)))))"

text \<open>Lines 60 to 76: the bearing as 0 to 360 counted to the left, and the error folded to one turn.\<close>

definition fold_bearing :: "int \<Rightarrow> int" where
  "fold_bearing th = (if 0 < th then 360 - th else \<bar>th\<bar>)"

definition heading_error :: "int \<Rightarrow> real \<Rightarrow> real res" where
  "heading_error th theta =
     (let e = fl (fl (of_int th) - theta) in
      bind_res (f2i e) (\<lambda>n.
        if 180 \<le> \<bar>n\<bar> then (if 0 < e then Inr (fl (e - 360)) else Inr (fl (e + 360))) else Inr e))"

text \<open>Lines 78 to 88: the distance that drives the forward component.\<close>

definition drive_distance :: "real \<Rightarrow> real \<Rightarrow> real res" where
  "drive_distance e d = bind_res (f2i e) (\<lambda>n.
     if 90 < \<bar>n\<bar> then Inr 0
     else (let d = (if 10 \<le> d then 10 else d) in Inr (db (d * m_cos (db (db (e * pi_7) / 180))))))"

text \<open>Lines 89 to 100: the incremental PID.\<close>

definition pid_step :: "cruise \<Rightarrow> real \<Rightarrow> cruise res" where
  "pid_step c e = bind_res (f2i e) (\<lambda>n.
     let i = (if \<bar>n\<bar> \<le> 90 then fl (integral c + e) else integral c);
         i = (if integral_limit < i then integral_limit
              else if i < - integral_limit then - integral_limit else i);
         df = fl (e - Ekk c);
         v = fl (fl (fl (Kp c * e) + fl (Ki c * i)) + fl (Kd c * df))
     in Inr (c\<lparr>Ek := e, integral := i, differential := df, PID_value := v, Ekk := e\<rparr>))"

definition logistic :: "real \<Rightarrow> real \<Rightarrow> real" where
  "logistic k x = db (db (db (1 / db (1 + m_exp (db (k * x)))) - 1 / 2) * 1000)"

text \<open>Lines 101 to 108: steering and forward components before scaling.\<close>

definition components :: "real \<Rightarrow> real \<Rightarrow> real \<Rightarrow> (int \<times> int) res" where
  "components v temp d =
     bind_res (f2i (logistic (- db (5 / 100)) v)) (\<lambda>steer.
     bind_res (if temp \<le> 11 / 2 then f2i (db (temp * 35)) else f2i (logistic (- db (4 / 10)) d)) (\<lambda>forward.
       Inr (forward, steer)))"

text \<open>Lines 110 to 115: scaling to \<^verbatim>\<open>max_control\<close>.\<close>

definition scale_components :: "int \<Rightarrow> int \<Rightarrow> int \<Rightarrow> (int \<times> int) res" where
  "scale_components mc forward steer =
     (let total = forward + \<bar>steer\<bar> in
      if mc < total then
        (if total = 0 then Inl FpInvalid else
         bind_res (f2i (fl (fl (fl (of_int mc) * fl (of_int forward)) / fl (of_int total)))) (\<lambda>f.
         bind_res (f2i (fl (fl (of_int mc) * fl (fl (of_int steer) / fl (of_int total))))) (\<lambda>st.
           Inr (f, st))))
      else Inr (forward, steer))"

text \<open>The whole function: the new globals and the two pulse widths written through the pointers.\<close>

definition auto_cruise_pid :: "cruise \<Rightarrow> usv \<Rightarrow> (cruise \<times> usv \<times> u32 \<times> u32) res" where
  "auto_cruise_pid c s =
     bind_res (chk (100 * auto_speed s)) (\<lambda>mc.
     bind_res (great_circle (lng s) (lat s) (target_lng s) (target_lat s)) (\<lambda>(d, th).
       let c = c\<lparr>max_control := mc, ALL_distance := d, targe_theta := th\<rparr>;
           temp = d
       in if d < 1 then Inr (c, s, 1500, 1500) else
       (let th = fold_bearing th; c = c\<lparr>targe_theta := th\<rparr> in
        bind_res (heading_error th (current_theta s)) (\<lambda>e.
        bind_res (f2i e) (\<lambda>ae.
          let s = s\<lparr>angle_error := ae\<rparr> in
          bind_res (drive_distance e d) (\<lambda>d.
          bind_res (pid_step (c\<lparr>ALL_distance := d\<rparr>) e) (\<lambda>c.
          bind_res (components (PID_value c) temp d) (\<lambda>(fw, st).
          let c = (if mc < fw + \<bar>st\<bar> then c\<lparr>temp_forward_pwm := fw\<rparr> else c) in
          bind_res (scale_components mc fw st) (\<lambda>(fw, st).
          bind_res (chk (1500 + fw - st)) (\<lambda>l.
          bind_res (chk (1500 + fw + st)) (\<lambda>r.
            Inr (c\<lparr>forward_pwm := fw, steer_pwm := st\<rparr>, s, i2u l, i2u r)))))))))))) "

section \<open>Bearing and heading error\<close>

lemma pi_7_bounds: "201 / 64 \<le> pi_7" "pi_7 \<le> 101 / 32"
  unfolding pi_7_def
  using rnd_ge_dyadic [of 201 "-6" "31415926 / 10000000" 53]
    rnd_le_dyadic [of "31415926 / 10000000" 101 "-5" 53]
  by (simp_all add: db_def power_int_minus)

lemma great_circle_bearing:
  assumes "great_circle a b c d = Inr (m, th)"
  shows "\<bar>th\<bar> \<le> 180"
proof -
  obtain y x where th: "f2i (db (db (m_atan2 y x * 180) / pi_7)) = Inr th"
    using assms by (auto simp: great_circle_def Let_def bind_res_Inr_iff)
  have "\<bar>m_atan2 y x\<bar> \<le> 101 / 32"
    using rnd_le_dyadic [of "\<bar>atan2r y x\<bar>" 101 "-5" 53] atan2r_abs_le [of y x] pi_less_101_32
    by (simp add: m_atan2_def db_def rnd_abs power_int_minus)
  then have "\<bar>db (m_atan2 y x * 180)\<bar> \<le> 4545 / 8"
    using rnd_le_dyadic [of "\<bar>m_atan2 y x * 180\<bar>" 4545 "-3" 53]
    by (simp add: db_def rnd_abs power_int_minus abs_mult)
  moreover have "\<bar>db (m_atan2 y x * 180)\<bar> / pi_7 \<le> \<bar>db (m_atan2 y x * 180)\<bar> / (201 / 64)"
    using pi_7_bounds by (intro divide_left_mono) auto
  ultimately have "\<bar>db (m_atan2 y x * 180) / pi_7\<bar> \<le> 2895 / 16"
    using pi_7_bounds by simp
  then have "\<bar>db (db (m_atan2 y x * 180) / pi_7)\<bar> \<le> 2895 / 16"
    using rnd_le_dyadic [of "\<bar>db (m_atan2 y x * 180) / pi_7\<bar>" 2895 "-4" 53]
    by (simp add: db_def rnd_abs power_int_minus)
  moreover from this have "th = c_trunc (db (db (m_atan2 y x * 180) / pi_7))"
    using th by (simp add: f2i_ok)
  ultimately show ?thesis by (auto simp: c_trunc_def) linarith+
qed

lemma fold_bearing_range: "\<bar>th\<bar> \<le> 180 \<Longrightarrow> 0 \<le> fold_bearing th \<and> fold_bearing th \<le> 359"
  by (auto simp: fold_bearing_def)

lemma heading_error_range:
  assumes "0 \<le> th" "th \<le> 359" "0 \<le> theta" "theta \<le> 360"
  shows "\<exists>e. heading_error th theta = Inr e \<and> \<bar>e\<bar> \<le> 180"
proof -
  define e where "e = fl (fl (of_int th) - theta)"
  have th: "fl (of_int th) = of_int th" using assms by (intro fl_of_int) simp
  have e: "\<bar>e\<bar> \<le> 360"
    using fl_abs_le_int [of "of_int th - theta" 360] assms by (simp add: e_def th)
  then have f: "f2i e = Inr (c_trunc e)" by (intro f2i_ok) simp
  show ?thesis
  proof (cases "180 \<le> \<bar>c_trunc e\<bar>")
    case False
    then have "\<bar>e\<bar> \<le> 180" by (auto simp: c_trunc_def split: if_splits) linarith+
    then show ?thesis using False f by (simp add: heading_error_def Let_def flip: e_def)
  next
    case True
    then consider "180 \<le> e" | "e \<le> - 180"
      by (auto simp: c_trunc_def split: if_splits) linarith+
    then show ?thesis
    proof cases
      case 1
      then have "\<bar>fl (e - 360)\<bar> \<le> 180"
        using e fl_abs_le_int [of "e - 360" 180] by simp
      then show ?thesis using 1 True f by (simp add: heading_error_def Let_def flip: e_def)
    next
      case 2
      then have "\<bar>fl (e + 360)\<bar> \<le> 180"
        using e fl_abs_le_int [of "e + 360" 180] by simp
      then show ?thesis using 2 True f by (simp add: heading_error_def Let_def flip: e_def)
    qed
  qed
qed

section \<open>Thrust components\<close>

lemma drive_distance_ok:
  assumes "\<bar>e\<bar> \<le> 180" "0 \<le> d"
  shows "\<exists>d'. drive_distance e d = Inr d' \<and> \<bar>d'\<bar> \<le> 10"
proof -
  let ?m = "if 10 \<le> d then 10 else d"
  let ?k = "m_cos (db (db (e * pi_7) / 180))"
  have "\<bar>?m * ?k\<bar> \<le> 10 * 1"
    unfolding abs_mult by (intro mult_mono m_cos_abs_le) (use assms in auto)
  then have "\<bar>db (?m * ?k)\<bar> \<le> 10"
    using db_abs_le_int [of "?m * ?k" 10] by simp
  moreover have "f2i e = Inr (c_trunc e)" using assms by (intro f2i_ok) simp
  ultimately show ?thesis by (simp add: drive_distance_def Let_def)
qed

lemma pid_step_ok:
  assumes "\<bar>e\<bar> \<le> 180"
  shows "\<exists>c'. pid_step c e = Inr c' \<and> Ek c' = e \<and> Kp c' = Kp c \<and> Ki c' = Ki c \<and> Kd c' = Kd c \<and>
    \<bar>integral c'\<bar> \<le> max 1800 \<bar>integral c\<bar>"
proof -
  have "f2i e = Inr (c_trunc e)" using assms by (intro f2i_ok) simp
  then show ?thesis by (auto simp: pid_step_def Let_def integral_limit_def)
qed

lemma logistic_abs_le: "\<bar>logistic k x\<bar> \<le> 500"
proof -
  define m where "m = db (1 + m_exp (db (k * x)))"
  have m: "1 \<le> m"
    using db_ge_int [of 1 "1 + m_exp (db (k * x))"] m_exp_nonneg by (simp add: m_def)
  have q: "0 \<le> db (1 / m)" "db (1 / m) \<le> 1"
    using m db_le_int [of "1 / m" 1] by (auto intro: db_nonneg)
  then have "db (1 / m) - 1 / 2 \<le> 1 / 2" "- (db (1 / m) - 1 / 2) \<le> 1 / 2" by simp_all
  then have "\<bar>db (1 / m) - 1 / 2\<bar> \<le> of_int 1 * 2 powi (- 1)"
    unfolding abs_le_iff by (simp add: power_int_minus)
  then have "\<bar>db (db (1 / m) - 1 / 2)\<bar> \<le> of_int 1 * 2 powi (- 1)"
    unfolding db_def rnd_abs by (rule rnd_le_dyadic) simp_all
  then have "\<bar>db (db (1 / m) - 1 / 2) * 1000\<bar> \<le> 500"
    by (simp add: power_int_minus abs_mult)
  then show ?thesis
    using db_abs_le_int [of "db (db (1 / m) - 1 / 2) * 1000" 500]
    by (simp add: logistic_def m_def)
qed

lemma components_ok:
  assumes "0 \<le> temp"
  shows "\<exists>fw st. components v temp d = Inr (fw, st) \<and> \<bar>fw\<bar> \<le> 500 \<and> \<bar>st\<bar> \<le> 500"
proof -
  have l: "f2i (logistic k x) = Inr (c_trunc (logistic k x))" "\<bar>c_trunc (logistic k x)\<bar> \<le> 500"
    for k x using logistic_abs_le [of k x] by (auto intro!: f2i_ok c_trunc_abs_le)
  show ?thesis
  proof (cases "temp \<le> 11 / 2")
    case True
    then have "\<bar>db (temp * 35)\<bar> \<le> 500"
      using db_abs_le_int [of "temp * 35" 500] assms by simp
    then have "f2i (db (temp * 35)) = Inr (c_trunc (db (temp * 35)))" "\<bar>c_trunc (db (temp * 35))\<bar> \<le> 500"
      by (auto intro!: f2i_ok c_trunc_abs_le)
    then show ?thesis using True l by (simp add: components_def)
  next
    case False
    then show ?thesis using l by (simp add: components_def)
  qed
qed

lemma fl_abs_twice: "\<bar>fl x\<bar> \<le> 2 * \<bar>x\<bar>"
proof (cases "x = 0")
  case False
  have "ulp 24 x \<le> 2 powi expo x" unfolding ulp_def by (intro power_int_increasing) auto
  also have "\<dots> \<le> \<bar>x\<bar>" by (rule expo_bounds(1) [OF False])
  finally show ?thesis using rnd_error [of 24 x] unfolding fl_def by linarith
qed simp

lemma scale_components_ok:
  assumes "0 \<le> mc" "mc \<le> 500" "\<bar>fw\<bar> \<le> 500" "\<bar>st\<bar> \<le> 500"
  shows "\<exists>f t. scale_components mc fw st = Inr (f, t) \<and> \<bar>f\<bar> \<le> 500 \<and> \<bar>t\<bar> \<le> 1000"
proof (cases "mc < fw + \<bar>st\<bar>")
  case True
  define T :: real where "T = of_int (fw + \<bar>st\<bar>)"
  have T: "of_int mc < T" "0 < T" "fl T = T"
    using True assms by (auto simp: T_def simp del: of_int_add intro!: fl_of_int)
  have fls: "fl (of_int mc) = of_int mc" "fl (of_int fw) = of_int fw" "fl (of_int st) = of_int st"
    using assms by (auto intro!: fl_of_int)
  have ratio: "of_int mc / T \<le> 1" using T by simp
  have pm: "\<bar>mc * fw\<bar> \<le> 2 ^ 24"
    using assms mult_mono [of mc 500 "\<bar>fw\<bar>" 500] by (simp add: abs_mult)
  then have "\<bar>fl (of_int mc * of_int fw) / T\<bar> \<le> 500"
    using fl_of_int [OF pm] mult_mono [OF ratio, of "\<bar>of_int fw\<bar>" 500] assms T
    by (simp add: abs_mult flip: of_int_abs)
  then have f: "\<bar>fl (fl (of_int mc * of_int fw) / T)\<bar> \<le> 500"
    using fl_abs_le_int [of "fl (of_int mc * of_int fw) / T" 500] by simp
  have "\<bar>of_int mc * fl (of_int st / T)\<bar> \<le> of_int mc * (2 * \<bar>of_int st / T\<bar>)"
    unfolding abs_mult using assms(1) by (intro mult_mono fl_abs_twice) auto
  also have "\<dots> = 2 * (of_int mc / T * \<bar>of_int st\<bar>)" using T by (simp add: abs_divide)
  also have "\<dots> \<le> 2 * (1 * 500)"
    using assms ratio T by (intro mult_left_mono mult_mono) (auto simp flip: of_int_abs)
  finally have t: "\<bar>fl (of_int mc * fl (of_int st / T))\<bar> \<le> 1000"
    using fl_abs_le_int [of "of_int mc * fl (of_int st / T)" 1000] by simp
  have "fw + \<bar>st\<bar> \<noteq> 0" using T by (auto simp: T_def)
  then show ?thesis
    using True f t T(3)
    by (simp add: scale_components_def Let_def fls f2i_ok c_trunc_abs_le flip: T_def of_int_add of_int_abs)
next
  case False
  then show ?thesis using assms by (simp add: scale_components_def)
qed

section \<open>The direction of the turn\<close>

lemma logistic_nonneg:
  assumes "k * x \<le> 0"
  shows "0 \<le> logistic k x"
proof -
  let ?m = "db (1 + m_exp (db (k * x)))"
  have "db (k * x) \<le> 0" using db_mono [OF assms] by simp
  then have "m_exp (db (k * x)) \<le> 1"
    using db_le_int [of "exp (db (k * x))" 1] by (simp add: m_exp_def)
  then have m: "?m \<le> 2" using db_le_int [of "1 + m_exp (db (k * x))" 2] by simp
  have "1 \<le> ?m" using db_ge_int [of 1 "1 + m_exp (db (k * x))"] m_exp_nonneg by simp
  with m have "1 / 2 \<le> 1 / ?m" by (simp add: field_simps)
  then have "of_int 1 * 2 powi (- 1) \<le> 1 / ?m" by (simp add: power_int_minus)
  then have "of_int 1 * 2 powi (- 1) \<le> db (1 / ?m)"
    unfolding db_def [of "1 / ?m"] by (rule rnd_ge_dyadic) simp_all
  then have "0 \<le> db (1 / ?m) - 1 / 2" by (simp add: power_int_minus)
  then show ?thesis by (simp add: logistic_def db_nonneg)
qed

lemma logistic_nonpos:
  assumes "0 \<le> k * x"
  shows "logistic k x \<le> 0"
proof -
  let ?m = "db (1 + m_exp (db (k * x)))"
  have "0 \<le> db (k * x)" using assms by (rule db_nonneg)
  then have "1 \<le> m_exp (db (k * x))"
    using db_ge_int [of 1 "exp (db (k * x))"] by (simp add: m_exp_def)
  then have m: "2 \<le> ?m" using db_ge_int [of 2 "1 + m_exp (db (k * x))"] by simp
  then have "1 / ?m \<le> 1 / 2" by (simp add: field_simps)
  then have "1 / ?m \<le> of_int 1 * 2 powi (- 1)" by (simp add: power_int_minus)
  then have "db (1 / ?m) \<le> of_int 1 * 2 powi (- 1)"
    unfolding db_def [of "1 / ?m"] by (rule rnd_le_dyadic) simp_all
  then have "db (1 / ?m) - 1 / 2 \<le> 0" by (simp add: power_int_minus)
  then have "db (db (1 / ?m) - 1 / 2) * 1000 \<le> 0" by (simp add: db_nonpos)
  then show ?thesis unfolding logistic_def by (rule db_nonpos)
qed

lemma c_trunc_sign: "0 \<le> x \<Longrightarrow> 0 \<le> c_trunc x" "x \<le> 0 \<Longrightarrow> c_trunc x \<le> 0"
  by (simp_all add: c_trunc_def)

lemma components_sign:
  assumes "components v temp d = Inr (fw, st)"
  shows "0 \<le> v \<Longrightarrow> 0 \<le> st" and "v \<le> 0 \<Longrightarrow> st \<le> 0"
proof -
  have k: "0 \<le> db (5 / 100)" by (simp add: db_nonneg)
  have "st = c_trunc (logistic (- db (5 / 100)) v)"
    using assms by (auto simp: components_def bind_res_Inr_iff f2i_def Let_def split: if_splits)
  then show "0 \<le> v \<Longrightarrow> 0 \<le> st" "v \<le> 0 \<Longrightarrow> st \<le> 0"
    using k by (auto intro!: c_trunc_sign logistic_nonneg logistic_nonpos simp: mult_nonneg_nonpos)
qed

lemma scale_components_sign:
  assumes "scale_components mc fw st = Inr (f, t)" "0 \<le> mc"
  shows "0 \<le> st \<Longrightarrow> 0 \<le> t" and "st \<le> 0 \<Longrightarrow> t \<le> 0"
proof -
  let ?T = "fl (of_int (fw + \<bar>st\<bar>))"
  have cs: "t = st \<or> 0 \<le> ?T \<and> t = c_trunc (fl (fl (of_int mc) * fl (fl (of_int st) / ?T)))"
  proof (cases "mc < fw + \<bar>st\<bar>")
    case True
    then have "0 \<le> ?T" using assms(2) by (intro fl_nonneg) (simp del: of_int_add)
    moreover have "t = c_trunc (fl (fl (of_int mc) * fl (fl (of_int st) / ?T)))"
      using assms(1) True
      by (auto simp: scale_components_def bind_res_Inr_iff f2i_def Let_def simp del: of_int_add
          split: if_splits)
    ultimately show ?thesis by blast
  next
    case False
    then show ?thesis using assms(1) by (simp add: scale_components_def)
  qed
  have m: "0 \<le> fl (of_int mc)" using assms(2) by (simp add: fl_nonneg)
  show "0 \<le> t" if "0 \<le> st"
    using cs that m by (auto intro!: c_trunc_sign fl_nonneg mult_nonneg_nonneg divide_nonneg_nonneg)
  show "t \<le> 0" if "st \<le> 0"
    using cs that m
    by (auto intro!: c_trunc_sign fl_nonpos mult_nonneg_nonpos divide_nonpos_nonneg)
qed

lemma pid_value_sign:
  assumes "pid_step c e = Inr c'" "Kp c = fl (5 / 10)" "Ki c = 0" "Kd c = 0"
  shows "0 \<le> e \<Longrightarrow> 0 \<le> PID_value c'" and "e \<le> 0 \<Longrightarrow> PID_value c' \<le> 0"
proof -
  have "PID_value c' = fl (fl (fl (fl (5 / 10) * e)))"
    using assms by (auto simp: pid_step_def bind_res_Inr_iff Let_def)
  moreover have "0 \<le> fl (5 / 10)" by (simp add: fl_nonneg)
  ultimately show "0 \<le> e \<Longrightarrow> 0 \<le> PID_value c'" "e \<le> 0 \<Longrightarrow> PID_value c' \<le> 0"
    by (auto intro!: fl_nonneg fl_nonpos mult_nonneg_nonneg mult_nonneg_nonpos)
qed

section \<open>The whole controller\<close>

definition cruise_inv :: "cruise \<Rightarrow> bool" where
  "cruise_inv c \<longleftrightarrow> \<bar>integral c\<bar> \<le> 1800 \<and> Kp c = fl (5 / 10) \<and> Ki c = 0 \<and> Kd c = 0"

lemma cruise_inv_init: "cruise_inv cruise_init"
  by (simp add: cruise_inv_def cruise_init_def)

lemma kp_half: "fl (5 / 10) = 1 / 2"
  using fl_dyadic [of 1 1] by simp

text \<open>What the controller does once distance and bearing are known and the target is not reached.\<close>

lemma auto_cruise_pid_far:
  assumes gc: "great_circle (lng s) (lat s) (target_lng s) (target_lat s) = Inr (d, th)"
    and far: "1 \<le> d" and inv: "cruise_inv c"
    and sp: "0 \<le> auto_speed s" "auto_speed s \<le> 5"
    and theta: "0 \<le> current_theta s" "current_theta s \<le> 360"
  shows "\<exists>c' e f t. auto_cruise_pid c s =
      Inr (c', s\<lparr>angle_error := c_trunc e\<rparr>, i2u (1500 + f - t), i2u (1500 + f + t)) \<and>
    cruise_inv c' \<and> \<bar>e\<bar> \<le> 180 \<and> Ek c' = e \<and> \<bar>f\<bar> \<le> 500 \<and> \<bar>t\<bar> \<le> 1000 \<and>
    (0 \<le> e \<longrightarrow> 0 \<le> t) \<and> (e \<le> 0 \<longrightarrow> t \<le> 0)"
proof -
  let ?th = "fold_bearing th"
  have mc: "chk (100 * auto_speed s) = Inr (100 * auto_speed s)"
    using sp by (intro chk_abs) simp
  obtain e where e: "heading_error ?th (current_theta s) = Inr e" "\<bar>e\<bar> \<le> 180"
    using heading_error_range [OF _ _ theta] fold_bearing_range [OF great_circle_bearing [OF gc]] by blast
  have fe: "f2i e = Inr (c_trunc e)" using e by (intro f2i_ok) simp
  obtain d' where d': "drive_distance e d = Inr d'"
    using drive_distance_ok [OF e(2), of d] far by auto
  let ?c0 = "c\<lparr>max_control := 100 * auto_speed s, targe_theta := ?th, ALL_distance := d'\<rparr>"
  obtain c1 where c1: "pid_step ?c0 e = Inr c1" "Ek c1 = e"
      "Kp c1 = Kp ?c0 \<and> Ki c1 = Ki ?c0 \<and> Kd c1 = Kd ?c0" "\<bar>integral c1\<bar> \<le> max 1800 \<bar>integral ?c0\<bar>"
    using pid_step_ok [OF e(2)] by blast
  obtain fw st where fs: "components (PID_value c1) d d' = Inr (fw, st)" "\<bar>fw\<bar> \<le> 500" "\<bar>st\<bar> \<le> 500"
    using components_ok [of d "PID_value c1" d'] far by auto
  obtain f t where ft: "scale_components (100 * auto_speed s) fw st = Inr (f, t)"
      "\<bar>f\<bar> \<le> 500" "\<bar>t\<bar> \<le> 1000"
    using scale_components_ok [of "100 * auto_speed s" fw st] fs sp by auto
  have ch: "chk (1500 + f - t) = Inr (1500 + f - t)" "chk (1500 + f + t) = Inr (1500 + f + t)"
    using ft by (auto intro!: chk_abs)
  define c2 where "c2 = (if 100 * auto_speed s < fw + \<bar>st\<bar> then c1\<lparr>temp_forward_pwm := fw\<rparr> else c1)"
  have "auto_cruise_pid c s = Inr (c2\<lparr>forward_pwm := f, steer_pwm := t\<rparr>,
      s\<lparr>angle_error := c_trunc e\<rparr>, i2u (1500 + f - t), i2u (1500 + f + t))"
    using far c1(1)
    by (simp add: auto_cruise_pid_def mc gc e fe d' fs ft ch Let_def c2_def)
  moreover have "cruise_inv (c2\<lparr>forward_pwm := f, steer_pwm := t\<rparr>)" "Ek (c2\<lparr>forward_pwm := f, steer_pwm := t\<rparr>) = e"
    using c1 inv by (auto simp: c2_def cruise_inv_def)
  moreover have "(0 \<le> e \<longrightarrow> 0 \<le> t) \<and> (e \<le> 0 \<longrightarrow> t \<le> 0)"
    using pid_value_sign [OF c1(1)] components_sign [OF fs(1)] scale_components_sign [OF ft(1)] inv sp
    by (simp add: cruise_inv_def)
  ultimately show ?thesis using e(2) ft by blast
qed

lemma auto_cruise_pid_near:
  assumes "great_circle (lng s) (lat s) (target_lng s) (target_lat s) = Inr (d, th)"
    and "d < 1" and "0 \<le> auto_speed s" "auto_speed s \<le> 5"
  shows "\<exists>c'. auto_cruise_pid c s = Inr (c', s, 1500, 1500) \<and>
    integral c' = integral c \<and> Kp c' = Kp c \<and> Ki c' = Ki c \<and> Kd c' = Kd c"
proof -
  have "chk (100 * auto_speed s) = Inr (100 * auto_speed s)"
    using assms by (intro chk_abs) simp
  then show ?thesis using assms by (simp add: auto_cruise_pid_def Let_def)
qed

section \<open>A concrete bearing: one degree due north\<close>

lemma pi2degree_bounds: "1 / 64 \<le> pi2degree" "pi2degree \<le> 1 / 32"
proof -
  have "1 / 64 \<le> pi_7 / 180" "pi_7 / 180 \<le> 1 / 32" using pi_7_bounds by auto
  then show "1 / 64 \<le> pi2degree" "pi2degree \<le> 1 / 32"
    unfolding pi2degree_def
    using rnd_ge_dyadic [of 1 "-6" "pi_7 / 180" 53] rnd_le_dyadic [of "pi_7 / 180" 1 "-5" 53]
    by (simp_all add: db_def power_int_minus)
qed

lemma sin_ge_half:
  assumes "0 \<le> x" "x \<le> (1::real)"
  shows "x / 2 \<le> sin x"
proof -
  have "\<bar>sin x - (\<Sum>m<3. sin_coeff m * x ^ m)\<bar> \<le> inverse (fact 3) * \<bar>x\<bar> ^ 3"
    by (rule Maclaurin_sin_bound)
  moreover have "(\<Sum>m<3. sin_coeff m * x ^ m) = x"
  proof -
    have "{..<3 :: nat} = {0, 1, 2}" by auto
    then show ?thesis by (simp add: sin_coeff_def)
  qed
  moreover have "x ^ 3 \<le> x"
    using assms power_le_one [of x 2] mult_left_le [of "x ^ 2" x] by (simp add: power3_eq_cube power2_eq_square)
  ultimately have "\<bar>sin x - x\<bar> \<le> x / 6" using assms by (simp add: fact_numeral)
  then have "- (sin x - x) \<le> x / 6" by (simp only: abs_le_iff)
  then show ?thesis using assms(1) by simp
qed

lemma great_circle_north: "\<exists>d th. great_circle 0 0 0 1 = Inr (d, th) \<and> 1 \<le> d"
proof -
  define y where "y = db (db pi2degree)"
  define sn where "sn = m_sin (db (y / 2))"
  define a where "a = db (sn * sn)"
  have y: "1 / 64 \<le> y" "y \<le> 1 / 32"
    unfolding y_def db_def using pi2degree_bounds
      rnd_ge_dyadic [of 1 "-6" pi2degree 53] rnd_le_dyadic [of pi2degree 1 "-5" 53]
      rnd_ge_dyadic [of 1 "-6" "rnd 53 pi2degree" 53] rnd_le_dyadic [of "rnd 53 pi2degree" 1 "-5" 53]
    by (simp_all add: power_int_minus)
  have h: "1 / 128 \<le> db (y / 2)" "db (y / 2) \<le> 1 / 64"
    using y rnd_ge_dyadic [of 1 "-7" "y / 2" 53] rnd_le_dyadic [of "y / 2" 1 "-6" 53]
    by (simp_all add: db_def power_int_minus)
  have "1 / 256 \<le> sin (db (y / 2))" using sin_ge_half [of "db (y / 2)"] h by linarith
  then have sn: "1 / 256 \<le> sn" "sn \<le> 1"
    using rnd_ge_dyadic [of 1 "-8" "sin (db (y / 2))" 53] m_sin_abs_le [of "db (y / 2)"]
    by (simp_all add: sn_def m_sin_def db_def power_int_minus)
  have "1 / 65536 \<le> sn * sn" "sn * sn \<le> 1"
    using sn mult_mono [of "1 / 256" sn "1 / 256" sn] mult_mono [of sn 1 sn 1] by auto
  then have a: "1 / 65536 \<le> a" "a \<le> 1"
    using rnd_ge_dyadic [of 1 "-16" "sn * sn" 53] rnd_le_dyadic [of "sn * sn" 1 0 53]
    by (simp_all add: a_def db_def power_int_minus)
  have da: "1 / 65536 \<le> db a" "db a \<le> 1"
    using a rnd_ge_dyadic [of 1 "-16" a 53] rnd_le_dyadic [of a 1 0 53]
    by (simp_all add: db_def power_int_minus)
  have "sqrt (1 / 65536) \<le> sqrt (db a)" "sqrt (db a) \<le> sqrt 1"
    using da by (simp_all only: real_sqrt_le_iff)
  then have r0: "1 / 256 \<le> sqrt (db a)" "sqrt (db a) \<le> 1"
    using real_sqrt_abs [of "1 / 256"] by (simp_all add: real_sqrt_divide power2_eq_square)
  define r where "r = db (sqrt (db a))"
  have r: "1 / 256 \<le> r" "r \<le> 1"
    using r0 rnd_ge_dyadic [of 1 "-8" "sqrt (db a)" 53] rnd_le_dyadic [of "sqrt (db a)" 1 0 53]
    by (simp_all add: r_def db_def power_int_minus)
  have "r \<le> arcsin r"
    using sin_x_le_x [of "arcsin r"] arcsin_le_arcsin [of 0 r] r by simp
  then have as: "1 / 256 \<le> db (arcsin r)"
    using r rnd_ge_dyadic [of 1 "-8" "arcsin r" 53] by (simp add: db_def power_int_minus)
  have R: "6000 \<le> radius_of_earth"
    using db_ge_int [of 6000 "6371580 / 1000"] by (simp add: radius_of_earth_def)
  then have R2: "12000000 \<le> db (2000 * radius_of_earth)"
    using db_ge_int [of 12000000 "2000 * radius_of_earth"] by simp
  have "1 \<le> db (2000 * radius_of_earth) * db (arcsin r)"
    using R2 as mult_mono [of 12000000 "db (2000 * radius_of_earth)" "1 / 256" "db (arcsin r)"] by simp
  then have d: "1 \<le> db (db (2000 * radius_of_earth) * db (arcsin r))"
    using db_ge_int [of 1] by simp
  have inv: "m_sqrt (db (a + 0)) = Inr r" "m_asin r = Inr (db (arcsin r))"
    using da r by (simp_all add: m_sqrt_def m_asin_def r_def)
  have f: "\<exists>n. f2i (db (db (m_atan2 p q * 180) / pi_7)) = Inr n" for p q
  proof -
    have "\<bar>m_atan2 p q\<bar> \<le> 4"
      using db_abs_le_int [of "atan2r p q" 4] atan2r_abs_le [of p q] pi_less_4 by (simp add: m_atan2_def)
    then have "\<bar>db (m_atan2 p q * 180)\<bar> \<le> 720"
      using db_abs_le_int [of "m_atan2 p q * 180" 720] by (simp add: abs_mult)
    then have "\<bar>db (m_atan2 p q * 180) / pi_7\<bar> \<le> 720 / 1"
      unfolding abs_divide using pi_7_bounds by (intro frac_le) auto
    then have "\<bar>db (db (m_atan2 p q * 180) / pi_7)\<bar> \<le> 720"
      using db_abs_le_int [of "db (m_atan2 p q * 180) / pi_7" 720] by simp
    then have "f2i (db (db (m_atan2 p q * 180) / pi_7)) = Inr (c_trunc (db (db (m_atan2 p q * 180) / pi_7)))"
      by (intro f2i_ok) simp
    then show ?thesis by blast
  qed
  obtain n where "f2i (db (db (m_atan2 0 (db (db (m_sin (db pi2degree)))) * 180) / pi_7)) = Inr n"
    using f by blast
  then show ?thesis
    unfolding great_circle_def Let_def
    using d inv by (auto simp flip: y_def sn_def a_def)
qed

section \<open>Properties\<close>

text \<open>
  C10. Automatic cruise is free of undefined behaviour and bounded: when the position and target have a
  distance and bearing, the speed setting is 0 to 5 and the compass reads 0 to 360 degrees, the controller
  returns, keeps its invariant (the integral within its limit), leaves a heading error of at most half a
  turn, and both pulse widths are between 0 and 3000, so that storing them in unsigned variables does not
  wrap before \<^verbatim>\<open>set_pwm\<close> limits them.
\<close>

theorem auto_cruise_bounded:
  assumes "great_circle (lng s) (lat s) (target_lng s) (target_lat s) = Inr (d, th)"
    and "1 \<le> d" and "cruise_inv c"
    and "0 \<le> auto_speed s" "auto_speed s \<le> 5"
    and "0 \<le> current_theta s" "current_theta s \<le> 360"
  shows "\<exists>c' s' l r. auto_cruise_pid c s = Inr (c', s', l, r) \<and> cruise_inv c' \<and>
    \<bar>angle_error s'\<bar> \<le> 180 \<and> unat l \<le> 3000 \<and> unat r \<le> 3000"
proof -
  obtain c' e f t where r: "auto_cruise_pid c s =
      Inr (c', s\<lparr>angle_error := c_trunc e\<rparr>, i2u (1500 + f - t), i2u (1500 + f + t))"
    "cruise_inv c'" "\<bar>e\<bar> \<le> 180" "\<bar>f\<bar> \<le> 500" "\<bar>t\<bar> \<le> 1000"
    using auto_cruise_pid_far [OF assms(1-3)] assms(4-7) by blast
  have "\<bar>c_trunc e\<bar> \<le> 180" using r(3) by (intro c_trunc_abs_le) simp
  moreover have "unat (i2u (1500 + f - t)) \<le> 3000" "unat (i2u (1500 + f + t)) \<le> 3000"
    using r(4,5) by (subst unat_i2u; simp)+
  ultimately show ?thesis using r(1,2) by force
qed

theorem auto_cruise_bounded_witness:
  "\<exists>c' s' l r. auto_cruise_pid cruise_init ((usv_init None None)\<lparr>target_lat := 1\<rparr>) = Inr (c', s', l, r) \<and>
    cruise_inv c' \<and> \<bar>angle_error s'\<bar> \<le> 180 \<and> unat l \<le> 3000 \<and> unat r \<le> 3000"
proof -
  let ?s = "(usv_init None None)\<lparr>target_lat := 1\<rparr>"
  obtain d th where g: "great_circle 0 0 0 1 = Inr (d, th)" "1 \<le> d" using great_circle_north by blast
  then have "great_circle (lng ?s) (lat ?s) (target_lng ?s) (target_lat ?s) = Inr (d, th)"
    by (simp add: usv_init_def)
  then show ?thesis
    by (rule auto_cruise_bounded [OF _ g(2) cruise_inv_init]) (simp_all add: usv_init_def)
qed



text \<open>
  Arrival: less than one metre from the target the controller asks for neutral thrust on both
  sides and leaves the shared state as it is.
\<close>

theorem auto_cruise_arrival:
  assumes "great_circle (lng s) (lat s) (target_lng s) (target_lat s) = Inr (d, th)"
    and "d < 1" and "0 \<le> auto_speed s" "auto_speed s \<le> 5"
  shows "\<exists>c'. auto_cruise_pid c s = Inr (c', s, 1500, 1500)"
  using auto_cruise_pid_near [OF assms] by blast

lemma great_circle_same: "great_circle 0 0 0 0 = Inr (0, 0)"
  by (simp add: great_circle_def Let_def m_sqrt_def m_asin_def m_atan2_def atan2r_def f2i_def
      int_min_def int_max_def)

theorem auto_cruise_arrival_witness:
  "\<exists>c'. auto_cruise_pid cruise_init (usv_init None None) = Inr (c', usv_init None None, 1500, 1500)"
  using auto_cruise_arrival [of "usv_init None None" 0 0 cruise_init] great_circle_same
  by (simp add: usv_init_def)

end
