(* ===== verification/Manager.thy ===== *)
theory Manager
  imports Gpio Gear_Pwm Auto_Cruise
begin

text \<open>
  \<^verbatim>\<open>applications/manager.c\<close>: the control thread.  One iteration of its endless loop is split at the
  places where the source changes topic: timeouts, status LED, choice of the control source, thrusters,
  winch and pump, watchdog.  \<open>manager_step\<close> composes the phases in the order of the loop.  The clock is
  read several times in an iteration and may advance in between, so every call of \<^verbatim>\<open>rt_tick_get\<close> is a
  field of \<open>tick_reads\<close> of its own.  Arithmetic on \<^verbatim>\<open>u_int\<close> variables wraps; conversions between
  \<^verbatim>\<open>int\<close> and \<^verbatim>\<open>u_int\<close> are \<open>u2i\<close> and \<open>i2u\<close>.
\<close>

record tick_reads =
  tk_obstacle :: tick   \<comment> \<open>line 88\<close>
  tk_rec :: tick        \<comment> \<open>line 92\<close>
  tk_server :: tick     \<comment> \<open>line 97\<close>
  tk_start :: tick      \<comment> \<open>lines 190 and 226\<close>
  tk_check :: tick      \<comment> \<open>lines 193 and 230\<close>
  tk_dump :: tick       \<comment> \<open>line 233\<close>

definition manager_timeouts :: "tick_reads \<Rightarrow> usv \<Rightarrow> usv" where
  "manager_timeouts tr s =
     (let s = (if 1500 < tk_obstacle tr - obstacle_tick s then s\<lparr>min_distance := 10000\<rparr> else s);
          s = (if 1500 < tk_rec tr - rec_tick s then set_key 0 0 s else s)
      in if 16000 < tk_server tr - rec_server_tick s then s\<lparr>is_connect := 0\<rparr> else s)"

definition manager_led :: "usv \<Rightarrow> usv" where
  "manager_led s =
     (if key s ! 0 = 1 then control_status_led 1 s
      else if network_backhome s = 1 \<or> energy_backhome s = 1 then control_status_led 2 s
      else if is_connect s = 1 then control_status_led 3 s
      else control_status_led 2 s)"

definition manager_mode :: "usv \<Rightarrow> usv" where
  "manager_mode s =
     (if key s ! 0 = 1 then s\<lparr>current_mode := 1\<rparr>
      else if 1 < target_lat s \<and> 1 < target_lng s \<and> control_mode s \<noteq> 4 then s\<lparr>current_mode := 3\<rparr>
      else s\<lparr>current_mode := 2\<rparr>)"

text \<open>Lines 127 to 136: joystick to thrust.\<close>

definition remote_drive :: "usv \<Rightarrow> usv res" where
  "remote_drive s =
     (let rf = u2i ((100 - col s) * 10 + 1000);
          rs = u2i (row s * 10 + 1000) in
      bind_res (chk (rf - 1500)) (\<lambda>a.
      bind_res (chk (rs - 1500)) (\<lambda>b.
      bind_res (chk (1500 + a)) (\<lambda>m.
      bind_res (chk (m + cdiv b 2)) (\<lambda>l.
      bind_res (chk (m - cdiv b 2)) (\<lambda>r.
        let s = s\<lparr>remote_forward_pwm := rf, remote_steer_pwm := rs, left_pwm := i2u l, right_pwm := i2u r\<rparr>
        in Inr (set_pwm (left_pwm s) (right_pwm s) s)))))))"

definition d2r :: real where "d2r = fl (db (db (314159 / 100000) / 180))"

definition angle_of :: "int \<Rightarrow> real" where "angle_of a = fl (fl (of_int a) * d2r)"

text \<open>Lines 137 to 168: the direction commanded by the server, as forward and steering components.\<close>

definition hand_components :: "int \<Rightarrow> int \<Rightarrow> (int \<times> int) res" where
  "hand_components sp cv =
     (if cv = -1 then Inr (0, 0)
      else if cv < 90 then
        bind_res (f2i (db (of_int sp * m_cos (angle_of cv)))) (\<lambda>f.
        bind_res (f2i (db (of_int sp * m_sin (angle_of cv)))) (\<lambda>t. Inr (f, -1 * t)))
      else if cv < 180 then
        bind_res (f2i (db (of_int sp * m_sin (angle_of (cv - 90))))) (\<lambda>f.
        bind_res (f2i (db (of_int sp * m_cos (angle_of (cv - 90))))) (\<lambda>t. Inr (-1 * f, t)))
      else if cv < 270 then
        bind_res (f2i (db (of_int sp * m_cos (angle_of (cv - 180))))) (\<lambda>f.
        bind_res (f2i (db (of_int sp * m_sin (angle_of (cv - 180))))) (\<lambda>t. Inr (-1 * f, -1 * t)))
      else
        bind_res (f2i (db (of_int sp * m_sin (angle_of (cv - 270))))) (\<lambda>f.
        bind_res (f2i (db (of_int sp * m_cos (angle_of (cv - 270))))) (\<lambda>t. Inr (f, t))))"

definition hand_drive :: "usv \<Rightarrow> usv res" where
  "hand_drive s =
     bind_res (chk (100 * hand_speed s)) (\<lambda>speed_pwm.
     bind_res (hand_components speed_pwm (control_val s)) (\<lambda>(f, t).
     bind_res (chk (1500 + f)) (\<lambda>m.
     bind_res (chk (m + t)) (\<lambda>l.
     bind_res (chk (m - t)) (\<lambda>r.
       let s = s\<lparr>left_pwm := i2u l, right_pwm := i2u r\<rparr>
       in Inr (set_pwm (left_pwm s) (right_pwm s) s))))))"

definition auto_drive :: "cruise \<Rightarrow> usv \<Rightarrow> (cruise \<times> usv) res" where
  "auto_drive c s =
     bind_res (auto_cruise_pid c s) (\<lambda>(c', s', l, r). Inr (c', set_pwm l r s'))"

definition manager_drive :: "cruise \<Rightarrow> usv \<Rightarrow> (cruise \<times> usv) res" where
  "manager_drive c s =
     (if current_mode s = 1 then bind_res (remote_drive s) (\<lambda>s. Inr (c, s))
      else if current_mode s = 2 then bind_res (hand_drive s) (\<lambda>s. Inr (c, s))
      else if current_mode s = 3 then auto_drive c s
      else Inr (c, s))"

text \<open>Lines 177 to 209: winch and pump from the remote control.\<close>

definition remote_sample :: "tick_reads \<Rightarrow> usv \<Rightarrow> usv res" where
  "remote_sample tr s =
     (let s = (if key s ! 1 = 1 then set_gear_pwm (min_geer_pwm s) s else set_gear_pwm (max_geer_pwm s) s) in
      if key s ! 2 = 1 \<and> is_draw s \<noteq> 1 then
        (let s = (if draw_start_tick s = 0 then s\<lparr>draw_start_tick := tk_start tr\<rparr> else s) in
         if draw_speed s = 0 then Inl FpInvalid else
         bind_res (f2i (db (db (60000 * of_int (uint (max_draw_amount s))) / of_int (draw_speed s)))) (\<lambda>limit.
           if tk_check tr - draw_start_tick s < i2u limit then Inr (draw 1 s)
           else Inr ((draw 0 s)\<lparr>is_draw := 1, draw_start_tick := 0\<rparr>)))
      else Inr ((draw 0 s)\<lparr>is_draw := 0, draw_start_tick := 0\<rparr>))"

text \<open>Lines 210 to 255: the sampling job sent by the server.\<close>

definition depth_pwm :: "usv \<Rightarrow> int" where
  "depth_pwm s = u2i (1400 - i2u (bottle_deep s) * (1400 - min_geer_pwm s) div 5)"

definition job_sample :: "tick_reads \<Rightarrow> usv \<Rightarrow> usv res" where
  "job_sample tr s =
     (if bottle_id s \<noteq> 0 \<and> draw_status s \<noteq> 4 then
        (let s = s\<lparr>deep_pwm := depth_pwm s\<rparr> in
         if current_gear_pwm s \<noteq> i2u (deep_pwm s) then
           Inr (set_gear_pwm (i2u (deep_pwm s)) (s\<lparr>draw_status := 1\<rparr>))
         else
           (let s = (if draw_start_tick s = 0 then s\<lparr>draw_start_tick := tk_start tr\<rparr> else s) in
            if draw_speed s = 0 then Inl FpInvalid else
            bind_res (f2i (db (db (600 * of_int (bottle_amount s)) / of_int (draw_speed s)))) (\<lambda>full.
            let s = s\<lparr>full_draw_time := full\<rparr> in
            bind_res (chk (full * 1000)) (\<lambda>ms.
              if tk_check tr - draw_start_tick s < i2u ms then
                Inr ((draw (bottle_id s)
                  (s\<lparr>dump_draw_time := u2i (i2u full - (tk_dump tr - draw_start_tick s) div 1000)\<rparr>))
                  \<lparr>draw_status := 2\<rparr>)
              else
                Inr ((draw 0 (s\<lparr>full_draw_time := 0, dump_draw_time := 0\<rparr>))
                  \<lparr>draw_start_tick := 0, draw_status := 4\<rparr>)))))
      else
        Inr (set_gear_pwm (max_geer_pwm s)
          ((draw 0 (s\<lparr>full_draw_time := 0, dump_draw_time := 0\<rparr>))\<lparr>draw_start_tick := 0\<rparr>)))"

definition manager_sample :: "tick_reads \<Rightarrow> usv \<Rightarrow> usv res" where
  "manager_sample tr s = (if key s ! 0 = 1 then remote_sample tr s else job_sample tr s)"

text \<open>Line 257: \<^verbatim>\<open>feed_dog\<close> of \<^verbatim>\<open>wdt_usv.c\<close> refreshes the watchdog.\<close>

definition feed_dog :: "usv \<Rightarrow> usv" where
  "feed_dog s = s\<lparr>wdt_kicks := Suc (wdt_kicks s)\<rparr>"

definition manager_step :: "tick_reads \<Rightarrow> cruise \<Rightarrow> usv \<Rightarrow> (cruise \<times> usv) res" where
  "manager_step tr c s =
     (let s = manager_mode (manager_led (manager_timeouts tr s)) in
      bind_res (manager_drive c s) (\<lambda>(c, s).
      bind_res (manager_sample tr s) (\<lambda>s. Inr (c, feed_dog s))))"

lemmas manager_defs = manager_timeouts_def manager_led_def manager_mode_def manager_drive_def
  remote_drive_def hand_drive_def auto_drive_def remote_sample_def job_sample_def manager_sample_def
  feed_dog_def manager_step_def set_key_def set_gear_pwm_def

section \<open>Timeouts and the choice of the control source\<close>

lemma manager_timeouts_key:
  "keys_wf s \<Longrightarrow> 1500 < tk_rec tr - rec_tick s \<Longrightarrow> key (manager_timeouts tr s) ! 0 = 0"
  by (simp add: manager_timeouts_def Let_def set_key_def keys_wf_def)

lemma manager_timeouts_wf [simp]: "keys_wf (manager_timeouts tr s) = keys_wf s"
  by (simp add: manager_timeouts_def Let_def set_key_def keys_wf_def)

lemma manager_led_frame: "\<exists>f. manager_led s = s\<lparr>pins := f\<rparr>"
  by (simp add: manager_led_def control_status_led_frame)

lemma manager_led_key [simp]: "key (manager_led s) = key s"
  using manager_led_frame [of s] by auto

lemma manager_mode_simps [simp]: "key (manager_mode s) = key s" "pins (manager_mode s) = pins s"
  by (simp_all add: manager_mode_def)

lemma manager_mode_range: "current_mode (manager_mode s) \<in> {1, 2, 3}"
  by (simp add: manager_mode_def)

text \<open>The state the thruster phase starts from.\<close>

definition decided :: "tick_reads \<Rightarrow> usv \<Rightarrow> usv" where
  "decided tr s = manager_mode (manager_led (manager_timeouts tr s))"

lemma decided_mode: "current_mode (decided tr s) =
    (if key (manager_timeouts tr s) ! 0 = 1 then 1
     else if 1 < target_lat s \<and> 1 < target_lng s \<and> control_mode s \<noteq> 4 then 3 else 2)"
proof -
  define t where "t = manager_timeouts tr s"
  obtain f where f: "manager_led t = t\<lparr>pins := f\<rparr>"
    using manager_led_frame by blast
  have t: "target_lat t = target_lat s" "target_lng t = target_lng s" "control_mode t = control_mode s"
    by (simp_all add: t_def manager_timeouts_def Let_def set_key_def)
  show ?thesis
    unfolding decided_def t_def [symmetric] f by (simp add: manager_mode_def t)
qed

lemma decided_frame:
  "\<exists>f m k i d. decided tr s = s\<lparr>current_mode := m, key := k, is_connect := i, min_distance := d, pins := f\<rparr>"
proof -
  define t where "t = manager_timeouts tr s"
  obtain f where f: "manager_led t = t\<lparr>pins := f\<rparr>"
    using manager_led_frame by blast
  have t: "t = s\<lparr>key := key t, is_connect := is_connect t, min_distance := min_distance t\<rparr>"
    by (simp add: t_def manager_timeouts_def Let_def set_key_def)
  have "decided tr s = t\<lparr>current_mode := current_mode (decided tr s), pins := f\<rparr>"
    unfolding decided_def t_def [symmetric] f by (simp add: manager_mode_def)
  with t show ?thesis
    by (intro exI [of _ f] exI [of _ "current_mode (decided tr s)"] exI [of _ "key t"]
        exI [of _ "is_connect t"] exI [of _ "min_distance t"]) (cases s, cases t, simp)
qed

section \<open>Thrust from the joystick and from the server\<close>

lemma u2i_of_int: "- 2147483648 \<le> x \<Longrightarrow> x < 2147483648 \<Longrightarrow> u2i (word_of_int x) = x"
  using u2i_i2u [of x] by (simp add: i2u_def int_min_def int_max_def)

lemma chk_small: "\<bar>x\<bar> \<le> 1073741824 \<Longrightarrow> chk x = Inr x"
  by (simp add: chk_abs)

lemma joystick_value:
  assumes "uint (w::u32) \<le> 1000000"
  shows "u2i ((100 - w) * 10 + 1000) = 2000 - 10 * uint w"
    and "u2i (w * 10 + 1000) = 10 * uint w + 1000"
proof -
  have w: "0 \<le> uint w" by simp
  have "(100 - w) * 10 + 1000 = word_of_int (2000 - 10 * uint w)"
    by (simp add: algebra_simps)
  moreover have "u2i (word_of_int (2000 - 10 * uint w)) = 2000 - 10 * uint w"
    using assms w by (intro u2i_of_int) linarith+
  ultimately show "u2i ((100 - w) * 10 + 1000) = 2000 - 10 * uint w" by (simp only:)
  have "w * 10 + 1000 = word_of_int (10 * uint w + 1000)"
    by (simp add: algebra_simps)
  moreover have "u2i (word_of_int (10 * uint w + 1000)) = 10 * uint w + 1000"
    using assms w by (intro u2i_of_int) linarith+
  ultimately show "u2i (w * 10 + 1000) = 10 * uint w + 1000" by (simp only:)
qed

text \<open>Thrust of the two sides for joystick positions, as integers.\<close>

definition joy_left :: "usv \<Rightarrow> int" where
  "joy_left s = 2000 - 10 * uint (col s) + cdiv (10 * uint (row s) - 500) 2"

definition joy_right :: "usv \<Rightarrow> int" where
  "joy_right s = 2000 - 10 * uint (col s) - cdiv (10 * uint (row s) - 500) 2"

lemma cdiv_2_abs: "\<bar>cdiv a 2\<bar> \<le> \<bar>a\<bar>"
  by (rule cdiv_abs_le)

lemma remote_drive_eq:
  assumes "uint (col s) \<le> 1000000" "uint (row s) \<le> 1000000"
  shows "remote_drive s = Inr (set_pwm (i2u (joy_left s)) (i2u (joy_right s))
    (s\<lparr>remote_forward_pwm := 2000 - 10 * uint (col s),
       remote_steer_pwm := 10 * uint (row s) + 1000,
       left_pwm := i2u (joy_left s), right_pwm := i2u (joy_right s)\<rparr>))"
proof -
  define b where "b = cdiv (10 * uint (row s) - 500) 2"
  have b: "\<bar>b\<bar> \<le> \<bar>10 * uint (row s) - 500\<bar>" "0 \<le> uint (row s)" "0 \<le> uint (col s)"
    by (simp_all add: b_def cdiv_2_abs)
  have "\<bar>500 - 10 * uint (col s)\<bar> \<le> 1073741824" "\<bar>10 * uint (row s) - 500\<bar> \<le> 1073741824"
    "\<bar>2000 - 10 * uint (col s)\<bar> \<le> 1073741824" "\<bar>2000 - 10 * uint (col s) + b\<bar> \<le> 1073741824"
    "\<bar>2000 - 10 * uint (col s) - b\<bar> \<le> 1073741824"
    using assms b by linarith+
  note this [THEN chk_small]
  then show ?thesis
    unfolding remote_drive_def joystick_value(1) [OF assms(1)] joystick_value(2) [OF assms(2)] Let_def
    by (simp add: joy_left_def joy_right_def b_def)
qed

lemma component_ok:
  assumes "0 \<le> sp" "sp \<le> 2 ^ 29" "\<bar>k\<bar> \<le> 1"
  shows "\<exists>n. f2i (db (of_int sp * k)) = Inr n \<and> \<bar>n\<bar> \<le> sp"
proof -
  have "\<bar>of_int sp * k\<bar> \<le> of_int sp * 1"
    unfolding abs_mult using assms by (intro mult_mono) auto
  then have b: "\<bar>db (of_int sp * k)\<bar> \<le> of_int sp"
    using assms by (intro db_abs_le_int) auto
  then have "f2i (db (of_int sp * k)) = Inr (c_trunc (db (of_int sp * k)))"
    using assms(2) by (intro f2i_ok) (auto intro: order_trans)
  then show ?thesis using c_trunc_abs_le [OF b] by blast
qed

lemma hand_components_ok:
  assumes "0 \<le> sp" "sp \<le> 2 ^ 29"
  shows "\<exists>f t. hand_components sp cv = Inr (f, t) \<and> \<bar>f\<bar> \<le> sp \<and> \<bar>t\<bar> \<le> sp"
proof -
  have "\<exists>n. f2i (db (of_int sp * m_cos x)) = Inr n \<and> \<bar>n\<bar> \<le> sp"
    "\<exists>n. f2i (db (of_int sp * m_sin x)) = Inr n \<and> \<bar>n\<bar> \<le> sp" for x
    using component_ok [OF assms] m_cos_abs_le m_sin_abs_le by blast+
  then obtain fc fs where fc: "\<And>x. f2i (db (of_int sp * m_cos x)) = Inr (fc x)" "\<And>x. \<bar>fc x\<bar> \<le> sp"
    and fs: "\<And>x. f2i (db (of_int sp * m_sin x)) = Inr (fs x)" "\<And>x. \<bar>fs x\<bar> \<le> sp"
    by metis
  show ?thesis using assms(1) by (simp add: hand_components_def fc fs)
qed

lemma hand_drive_ok:
  assumes "0 \<le> hand_speed s" "hand_speed s \<le> 10000"
  shows "\<exists>f t. hand_components (100 * hand_speed s) (control_val s) = Inr (f, t) \<and>
    \<bar>f\<bar> \<le> 100 * hand_speed s \<and> \<bar>t\<bar> \<le> 100 * hand_speed s \<and>
    hand_drive s = Inr (set_pwm (i2u (1500 + f + t)) (i2u (1500 + f - t))
      (s\<lparr>left_pwm := i2u (1500 + f + t), right_pwm := i2u (1500 + f - t)\<rparr>))"
proof -
  obtain f t where ft: "hand_components (100 * hand_speed s) (control_val s) = Inr (f, t)"
    "\<bar>f\<bar> \<le> 100 * hand_speed s" "\<bar>t\<bar> \<le> 100 * hand_speed s"
    using hand_components_ok [of "100 * hand_speed s" "control_val s"] assms by auto
  have "chk (100 * hand_speed s) = Inr (100 * hand_speed s)" "chk (1500 + f) = Inr (1500 + f)"
    "chk (1500 + f + t) = Inr (1500 + f + t)" "chk (1500 + f - t) = Inr (1500 + f - t)"
    using ft assms by (auto intro!: chk_abs)
  then show ?thesis using ft by (simp add: hand_drive_def Let_def)
qed

text \<open>Targets after a request that is not negative as an integer: the request limited to 1000 to 2000.\<close>

lemma set_pwm_i2u:
  assumes "0 \<le> l" "l \<le> 3000" "0 \<le> r" "r \<le> 3000"
  shows "uint (target_left_pwm (set_pwm (i2u l) (i2u r) s)) = max 1000 (min 2000 l) \<and>
    uint (target_right_pwm (set_pwm (i2u l) (i2u r) s)) = max 1000 (min 2000 r)"
proof -
  have "uint (i2u l) = l" "uint (i2u r) = r" using assms by (auto intro!: uint_i2u)
  then show ?thesis using assms
    by (simp add: set_pwm_def Let_def word_le_def max_def min_def)
qed

text \<open>A request below zero wraps to a large unsigned number, which is limited to full ahead.\<close>

lemma set_pwm_i2u_neg:
  assumes "- 2000000000 \<le> l" "l < 0" "- 2000000000 \<le> r" "r < 0"
  shows "target_left_pwm (set_pwm (i2u l) (i2u r) s) = 2000 \<and>
    target_right_pwm (set_pwm (i2u l) (i2u r) s) = 2000"
proof -
  have "uint (i2u x) = x + 4294967296" if "- 2000000000 \<le> x" "x < 0" for x
  proof -
    have "uint (i2u x) = x mod 4294967296" by (simp add: i2u_def uint_word_of_int)
    also have "\<dots> = (x + 4294967296) mod 4294967296" by simp
    also have "\<dots> = x + 4294967296" using that by (intro mod_pos_pos_trivial) auto
    finally show ?thesis .
  qed
  then have "2000 \<le> i2u l" "2000 \<le> i2u r" using assms by (auto simp: word_le_def)
  then show ?thesis by (simp add: set_pwm_def Let_def)
qed

section \<open>Frames of the phases\<close>

text \<open>
  What a phase leaves alone is stated with a projection that blanks the variables the phase owns.
\<close>

definition drive_rest :: "usv \<Rightarrow> usv" where
  "drive_rest s = s\<lparr>angle_error := 0, remote_forward_pwm := 0, remote_steer_pwm := 0, left_pwm := 0,
     right_pwm := 0, target_left_pwm := 0, target_right_pwm := 0\<rparr>"

definition sample_rest :: "usv \<Rightarrow> usv" where
  "sample_rest s = s\<lparr>target_gear_pwm := 0, draw_start_tick := 0, is_draw := 0, pins := (\<lambda>_. PIN_LOW),
     deep_pwm := 0, draw_status := 0, full_draw_time := 0, dump_draw_time := 0\<rparr>"

lemma drive_rest_simps [simp]:
  "drive_rest (set_pwm l r s) = drive_rest s"
  "drive_rest (s\<lparr>angle_error := e\<rparr>) = drive_rest s"
  "drive_rest (s\<lparr>left_pwm := x\<rparr>) = drive_rest s"
  "drive_rest (s\<lparr>right_pwm := x\<rparr>) = drive_rest s"
  "drive_rest (s\<lparr>remote_forward_pwm := y\<rparr>) = drive_rest s"
  "drive_rest (s\<lparr>remote_steer_pwm := y\<rparr>) = drive_rest s"
  by (simp_all add: drive_rest_def set_pwm_def Let_def)

lemma sample_rest_simps [simp]:
  "sample_rest (draw b s) = sample_rest s"
  "sample_rest (set_gear_pwm g s) = sample_rest s"
  "sample_rest (s\<lparr>draw_start_tick := x\<rparr>) = sample_rest s"
  "sample_rest (s\<lparr>is_draw := y\<rparr>) = sample_rest s"
  "sample_rest (s\<lparr>deep_pwm := y\<rparr>) = sample_rest s"
  "sample_rest (s\<lparr>draw_status := y\<rparr>) = sample_rest s"
  "sample_rest (s\<lparr>full_draw_time := y\<rparr>) = sample_rest s"
  "sample_rest (s\<lparr>dump_draw_time := y\<rparr>) = sample_rest s"
  using draw_frame [of b s] by (auto simp: sample_rest_def set_gear_pwm_def)

lemma auto_cruise_pid_rest:
  "auto_cruise_pid c s = Inr (c', s', l, r) \<Longrightarrow> drive_rest s' = drive_rest s"
  unfolding auto_cruise_pid_def Let_def
  by (auto elim!: bind_resE split: prod.splits if_splits)

lemma remote_drive_rest: "remote_drive s = Inr s' \<Longrightarrow> drive_rest s' = drive_rest s"
  by (auto simp: remote_drive_def bind_res_Inr_iff Let_def)

lemma hand_drive_rest: "hand_drive s = Inr s' \<Longrightarrow> drive_rest s' = drive_rest s"
  by (auto simp: hand_drive_def bind_res_Inr_iff Let_def)

lemma manager_drive_rest:
  "manager_drive c s = Inr (c', s') \<Longrightarrow> drive_rest s' = drive_rest s"
  by (auto simp: manager_drive_def auto_drive_def bind_res_Inr_iff auto_cruise_pid_rest
      remote_drive_rest hand_drive_rest split: if_splits)

lemma remote_sample_rest: "remote_sample tr s = Inr s' \<Longrightarrow> sample_rest s' = sample_rest s"
  by (auto simp: remote_sample_def bind_res_Inr_iff Let_def split: if_splits)

lemma job_sample_rest: "job_sample tr s = Inr s' \<Longrightarrow> sample_rest s' = sample_rest s"
  by (auto simp: job_sample_def bind_res_Inr_iff Let_def split: if_splits)

lemma manager_sample_rest: "manager_sample tr s = Inr s' \<Longrightarrow> sample_rest s' = sample_rest s"
  by (auto simp: manager_sample_def remote_sample_rest job_sample_rest split: if_splits)

lemma drive_rest_select:
  assumes "drive_rest t = drive_rest s"
  shows "key t = key s" "current_mode t = current_mode s" "pins t = pins s"
    "bottle_id t = bottle_id s" "draw_status t = draw_status s" "current_gear_pwm t = current_gear_pwm s"
  using arg_cong [OF assms, of key] arg_cong [OF assms, of current_mode] arg_cong [OF assms, of pins]
    arg_cong [OF assms, of bottle_id] arg_cong [OF assms, of draw_status]
    arg_cong [OF assms, of current_gear_pwm]
  by (simp_all add: drive_rest_def)

lemma sample_rest_select:
  assumes "sample_rest t = sample_rest s"
  shows "key t = key s" "current_mode t = current_mode s"
    "target_left_pwm t = target_left_pwm s" "target_right_pwm t = target_right_pwm s"
  using arg_cong [OF assms, of key] arg_cong [OF assms, of current_mode]
    arg_cong [OF assms, of target_left_pwm] arg_cong [OF assms, of target_right_pwm]
  by (simp_all add: sample_rest_def)

lemma decided_select:
  "keys_wf (decided tr s) = keys_wf s"
  "key (decided tr s) = key (manager_timeouts tr s)"
  "valves_safe (decided tr s) = valves_safe s"
proof -
  define t where "t = manager_timeouts tr s"
  have "valves_safe (manager_led t) = valves_safe t" by (simp add: manager_led_def)
  moreover have "valves_safe t = valves_safe s"
    by (simp add: t_def manager_timeouts_def Let_def set_key_def valves_safe_def open_valves_def pump_on_def)
  ultimately show "valves_safe (decided tr s) = valves_safe s"
    by (simp add: decided_def flip: t_def)
      (simp add: valves_safe_def open_valves_def pump_on_def)
  show "key (decided tr s) = key (manager_timeouts tr s)" by (simp add: decided_def)
  then show "keys_wf (decided tr s) = keys_wf s"
    using manager_timeouts_wf [of tr s] by (simp add: keys_wf_def)
qed

lemma manager_timeouts_key0:
  "keys_wf s \<Longrightarrow> key (manager_timeouts tr s) ! 0 =
    (if 1500 < tk_rec tr - rec_tick s then 0 else key s ! 0)"
  by (simp add: manager_timeouts_def Let_def set_key_def keys_wf_def)

lemma manager_stepE:
  assumes "manager_step tr c s = Inr (c', s')"
  obtains s1 s2 where "manager_drive c (decided tr s) = Inr (c', s1)" "manager_sample tr s1 = Inr s2"
    "s' = feed_dog s2"
  using assms by (auto simp: manager_step_def Let_def bind_res_Inr_iff simp flip: decided_def)

lemma feed_dog_select [simp]:
  "key (feed_dog s) = key s" "current_mode (feed_dog s) = current_mode s" "pins (feed_dog s) = pins s"
  "valves_safe (feed_dog s) = valves_safe s"
  by (simp_all add: feed_dog_def valves_safe_def open_valves_def pump_on_def)

lemma valves_safe_cong: "pins s = pins t \<Longrightarrow> valves_safe s = valves_safe t"
  by (simp add: valves_safe_def open_valves_def pump_on_def)

text \<open>The updates of the sampling phase outside \<^verbatim>\<open>draw\<close> leave the pins alone.\<close>

lemma valves_safe_updates [simp]:
  "valves_safe (s\<lparr>draw_start_tick := x\<rparr>) = valves_safe s"
  "valves_safe (s\<lparr>is_draw := y\<rparr>) = valves_safe s"
  "valves_safe (s\<lparr>draw_status := y\<rparr>) = valves_safe s"
  "valves_safe (s\<lparr>deep_pwm := y\<rparr>) = valves_safe s"
  "valves_safe (set_gear_pwm g s) = valves_safe s"
  by (rule valves_safe_cong, simp add: set_gear_pwm_def)+

lemma remote_sample_safe: "remote_sample tr s = Inr s' \<Longrightarrow> valves_safe s'"
  by (auto simp: remote_sample_def Let_def draw_safe elim!: bind_resE split: if_splits)

lemma job_sample_safe: "job_sample tr s = Inr s' \<Longrightarrow> valves_safe s \<Longrightarrow> valves_safe s'"
  by (auto simp: job_sample_def Let_def draw_safe elim!: bind_resE split: if_splits)

section \<open>An iteration completes\<close>

lemma sample_limit: "f2i (db (db (60000 * of_int (uint (1000::u32))) / of_int 2000)) = Inr 30000"
proof -
  have "db 60000000 = 60000000" "db 30000 = 30000" by (simp_all add: db_numeral)
  then show ?thesis by (simp add: f2i_def int_min_def int_max_def c_trunc_def)
qed

text \<open>The pumping time in seconds for an amount in units of ten millilitres.\<close>

lemma pump_seconds:
  assumes "0 \<le> b" "b \<le> 7000000"
  shows "f2i (db (db (600 * of_int b) / of_int 2000)) = Inr (3 * b div 10)"
proof -
  have "db (of_int (600 * b)) = of_int (600 * b)" using assms by (intro db_of_int) simp
  then have e: "db (600 * of_int b) / of_int 2000 = of_int (3 * b) / 10" by simp
  define q where "q = 3 * b div 10"
  have q: "10 * q \<le> 3 * b" "3 * b \<le> 10 * q + 9" "0 \<le> q" "q \<le> 2100000"
    using assms by (simp_all add: q_def)
  then have "of_int q \<le> (of_int (3 * b) / 10 :: real)" by simp
  then have lo: "of_int q \<le> db (of_int (3 * b) / 10)"
    using q by (intro db_ge_int) auto
  have "(of_int (3 * b) / 10 :: real) \<le> of_int (16 * q + 15) * 2 powi (- 4)"
    using q by (simp add: power_int_minus)
  then have hi: "db (of_int (3 * b) / 10) \<le> of_int (16 * q + 15) * 2 powi (- 4)"
    unfolding db_def using q by (intro rnd_le_dyadic) auto
  have "c_trunc (db (of_int (3 * b) / 10)) = q"
    using lo hi q by (auto simp: c_trunc_def power_int_minus) linarith+
  moreover have "f2i (db (of_int (3 * b) / 10)) = Inr (c_trunc (db (of_int (3 * b) / 10)))"
    using lo hi q by (intro f2i_ok) (auto simp: power_int_minus)
  ultimately show ?thesis by (simp only: e q_def)
qed

text \<open>Parameters within which every phase is free of undefined behaviour.\<close>

definition sampler_ok :: "usv \<Rightarrow> bool" where
  "sampler_ok s \<longleftrightarrow> draw_speed s = 2000 \<and> max_draw_amount s = 1000 \<and>
     0 \<le> bottle_amount s \<and> bottle_amount s \<le> 7000000"

definition drive_ok :: "usv \<Rightarrow> bool" where
  "drive_ok s \<longleftrightarrow> uint (col s) \<le> 1000000 \<and> uint (row s) \<le> 1000000 \<and>
     0 \<le> hand_speed s \<and> hand_speed s \<le> 10000 \<and> 0 \<le> auto_speed s \<and> auto_speed s \<le> 5 \<and>
     0 \<le> current_theta s \<and> current_theta s \<le> 360 \<and>
     (\<exists>d th. great_circle (lng s) (lat s) (target_lng s) (target_lat s) = Inr (d, th))"

lemma remote_sample_ok: "sampler_ok s \<Longrightarrow> \<exists>s'. remote_sample tr s = Inr s'"
  using sample_limit
  by (simp add: remote_sample_def Let_def sampler_ok_def set_gear_pwm_def)

lemma job_sample_ok:
  assumes "sampler_ok s"
  shows "\<exists>s'. job_sample tr s = Inr s'"
proof -
  define ms where "ms = 3 * bottle_amount s div 10 * 1000"
  have "\<bar>ms\<bar> \<le> 2147483647" using assms by (auto simp: ms_def sampler_ok_def)
  then have "chk ms = Inr ms" by (auto simp: chk_def int_min_def int_max_def)
  then show ?thesis
    using assms pump_seconds [of "bottle_amount s"]
    by (simp add: job_sample_def Let_def sampler_ok_def flip: ms_def)
qed

lemma sampler_ok_drive: "drive_rest t = drive_rest s \<Longrightarrow> sampler_ok t = sampler_ok s"
proof -
  have "sampler_ok (drive_rest u) = sampler_ok u" for u
    by (simp add: drive_rest_def sampler_ok_def)
  then show "drive_rest t = drive_rest s \<Longrightarrow> sampler_ok t = sampler_ok s" by metis
qed

lemma auto_drive_ok:
  assumes "cruise_inv c" "drive_ok s"
  shows "\<exists>c' s'. auto_drive c s = Inr (c', s') \<and> cruise_inv c'"
proof -
  obtain d th where g: "great_circle (lng s) (lat s) (target_lng s) (target_lat s) = Inr (d, th)"
    using assms(2) by (auto simp: drive_ok_def)
  show ?thesis
  proof (cases "1 \<le> d")
    case True
    obtain c' s' l r where "auto_cruise_pid c s = Inr (c', s', l, r)" "cruise_inv c'"
      using auto_cruise_pid_far [OF g True assms(1)] assms(2) unfolding drive_ok_def by blast
    then show ?thesis by (simp add: auto_drive_def)
  next
    case False
    obtain c' where "auto_cruise_pid c s = Inr (c', s, 1500, 1500)" "cruise_inv c'"
      using auto_cruise_pid_near [OF g, of c] False assms unfolding drive_ok_def cruise_inv_def by auto
    then show ?thesis by (simp add: auto_drive_def)
  qed
qed

lemma manager_drive_ok:
  assumes "cruise_inv c" "drive_ok s"
  shows "\<exists>c' s'. manager_drive c s = Inr (c', s') \<and> cruise_inv c'"
proof -
  have "\<exists>s'. remote_drive s = Inr s'" "\<exists>s'. hand_drive s = Inr s'"
    using remote_drive_eq [of s] hand_drive_ok [of s] assms(2) by (auto simp: drive_ok_def)
  then show ?thesis using auto_drive_ok [OF assms] assms(1) by (auto simp: manager_drive_def)
qed

lemma decided_ok: "drive_ok (decided tr s) = drive_ok s" "sampler_ok (decided tr s) = sampler_ok s"
  using decided_frame [of tr s] by (auto simp: drive_ok_def sampler_ok_def)

lemma manager_step_ok:
  assumes "cruise_inv c" "drive_ok s" "sampler_ok s"
  shows "\<exists>c' s'. manager_step tr c s = Inr (c', s') \<and> cruise_inv c'"
proof -
  obtain c' s1 where d: "manager_drive c (decided tr s) = Inr (c', s1)" "cruise_inv c'"
    using manager_drive_ok [of c "decided tr s"] assms by (auto simp: decided_ok)
  then have "sampler_ok s1"
    using sampler_ok_drive [OF manager_drive_rest [OF d(1)]] assms(3) by (simp add: decided_ok)
  then obtain s2 where "manager_sample tr s1 = Inr s2"
    using remote_sample_ok [of s1 tr] job_sample_ok [of s1 tr] by (cases "key s1 ! 0 = 1") (auto simp: manager_sample_def)
  then show ?thesis using d by (simp add: manager_step_def Let_def flip: decided_def)
qed

lemma init_ok: "drive_ok (usv_init p q)" "sampler_ok (usv_init p q)"
  by (simp_all add: drive_ok_def sampler_ok_def usv_init_def great_circle_same)

lemma manager_valves:
  assumes "valves_safe s" "manager_step tr c s = Inr (c', s')"
  shows "valves_safe s'"
proof -
  obtain s1 s2 where st: "manager_drive c (decided tr s) = Inr (c', s1)" "manager_sample tr s1 = Inr s2"
    "s' = feed_dog s2" by (rule manager_stepE [OF assms(2)])
  have "valves_safe s1"
    using valves_safe_cong [OF drive_rest_select(3) [OF manager_drive_rest [OF st(1)]]] assms(1)
    by (simp add: decided_select)
  then have "valves_safe s2"
    using st(2) remote_sample_safe job_sample_safe by (auto simp: manager_sample_def split: if_splits)
  then show ?thesis by (simp add: st(3))
qed

lemma manager_source:
  assumes "keys_wf s" and "manager_step tr c s = Inr (c', s')"
  shows "key s' ! 0 = (if 1500 < tk_rec tr - rec_tick s then 0 else key s ! 0) \<and>
    current_mode s' =
     (if key s ! 0 = 1 \<and> tk_rec tr - rec_tick s \<le> 1500 then 1
      else if 1 < target_lat s \<and> 1 < target_lng s \<and> control_mode s \<noteq> 4 then 3 else 2)"
proof -
  obtain s1 s2 where st: "manager_drive c (decided tr s) = Inr (c', s1)" "manager_sample tr s1 = Inr s2"
    "s' = feed_dog s2" by (rule manager_stepE [OF assms(2)])
  note d = drive_rest_select(1,2) [OF manager_drive_rest [OF st(1)]]
  note m = sample_rest_select(1,2) [OF manager_sample_rest [OF st(2)]]
  have "key s' ! 0 = key (manager_timeouts tr s) ! 0" "current_mode s' = current_mode (decided tr s)"
    using st(3) d m by (simp_all add: decided_select)
  then show ?thesis
    by (auto simp: decided_mode manager_timeouts_key0 [OF assms(1)] not_less)
qed

section \<open>Properties of an iteration\<close>

text \<open>
  C2. Control source and fail-safe.  After an iteration the remote control is in charge exactly when its
  enable key is set and a frame of it arrived within the last 1500 ticks; otherwise its enable key is
  cleared when the frames stopped, and the boat follows the target point if one is set and the server did
  not ask for mode 4, and the server's direction in all other cases.
\<close>

theorem manager_control_source:
  assumes "keys_wf s" and "manager_step tr c s = Inr (c', s')"
  shows "key s' ! 0 = (if 1500 < tk_rec tr - rec_tick s then 0 else key s ! 0) \<and>
    current_mode s' =
     (if key s ! 0 = 1 \<and> tk_rec tr - rec_tick s \<le> 1500 then 1
      else if 1 < target_lat s \<and> 1 < target_lng s \<and> control_mode s \<noteq> 4 then 3 else 2)"
  using assms by (rule manager_source)

theorem manager_control_source_witness:
  "\<exists>c' s'. manager_step (tick_reads.make 0 2000 0 0 0 0) cruise_init
      ((usv_init None None)\<lparr>key := [1, 0, 0, 0, 0, 0, 0, 0]\<rparr>) = Inr (c', s') \<and>
    key s' ! 0 = 0 \<and> current_mode s' = 2"
proof -
  let ?s = "(usv_init None None)\<lparr>key := [1, 0, 0, 0, 0, 0, 0, 0]\<rparr>"
  let ?tr = "tick_reads.make 0 2000 0 0 0 0"
  have "drive_ok ?s" "sampler_ok ?s"
    using init_ok [of None None] by (simp_all add: drive_ok_def sampler_ok_def)
  then obtain c' s' where m: "manager_step ?tr cruise_init ?s = Inr (c', s')"
    using manager_step_ok [OF cruise_inv_init] by blast
  have "keys_wf ?s" by (simp add: keys_wf_def)
  from manager_control_source [OF this m] have "key s' ! 0 = 0 \<and> current_mode s' = 2"
    by (simp add: usv_init_def tick_reads.defs)
  with m show ?thesis by blast
qed

text \<open>
  C4. Sampler safety.  Every iteration keeps the sampler safe: the drain relay stays off, the pump runs
  only with exactly one valve open, and every valve is shut while the pump is off.
\<close>

theorem manager_keeps_valves_safe:
  assumes "valves_safe s" and "manager_step tr c s = Inr (c', s')"
  shows "valves_safe s'"
  using assms by (rule manager_valves)

theorem manager_keeps_valves_safe_witness:
  "\<exists>c' s'. manager_step (tick_reads.make 0 0 0 0 0 0) cruise_init
      (draw 3 (usv_init None None)) = Inr (c', s') \<and> valves_safe s'"
proof -
  let ?s = "draw 3 (usv_init None None)" and ?tr = "tick_reads.make 0 0 0 0 0 0"
  have "drive_ok ?s" "sampler_ok ?s"
    using init_ok [of None None] draw_frame [of 3 "usv_init None None"]
    by (auto simp: drive_ok_def sampler_ok_def)
  then obtain c' s' where m: "manager_step ?tr cruise_init ?s = Inr (c', s')"
    using manager_step_ok [OF cruise_inv_init] by blast
  from manager_keeps_valves_safe [OF draw_safe m] m show ?thesis by blast
qed

text \<open>
  C6. An iteration of the control thread completes: with the pump constants of the source, a sampling
  amount of at most 70 cubic metres, speed settings of at most 10000 (direct) and 5 (automatic), a heading
  in range and positions whose distance is defined, no operation overflows or divides by zero, the
  controller's invariant is kept, and the watchdog is refreshed exactly once.
\<close>

theorem manager_step_completes:
  assumes "cruise_inv c" "drive_ok s" "sampler_ok s"
  shows "\<exists>c' s'. manager_step tr c s = Inr (c', s') \<and> cruise_inv c' \<and>
    wdt_kicks s' = Suc (wdt_kicks s)"
proof -
  obtain c' s' where m: "manager_step tr c s = Inr (c', s')" "cruise_inv c'"
    using manager_step_ok [OF assms] by blast
  obtain s1 s2 where st: "manager_drive c (decided tr s) = Inr (c', s1)" "manager_sample tr s1 = Inr s2"
    "s' = feed_dog s2" by (rule manager_stepE [OF m(1)])
  have "wdt_kicks (drive_rest u) = wdt_kicks u" "wdt_kicks (sample_rest u) = wdt_kicks u" for u
    by (simp_all add: drive_rest_def sample_rest_def)
  then have "wdt_kicks s2 = wdt_kicks (decided tr s)"
    using manager_drive_rest [OF st(1)] manager_sample_rest [OF st(2)] by metis
  also have "\<dots> = wdt_kicks s" using decided_frame [of tr s] by auto
  finally have "wdt_kicks s' = Suc (wdt_kicks s)" by (simp add: st(3) feed_dog_def)
  then show ?thesis using m by blast
qed

theorem manager_step_completes_witness:
  "\<exists>c' s'. manager_step (tick_reads.make 0 0 0 0 0 0) cruise_init (usv_init None None) = Inr (c', s') \<and>
    cruise_inv c' \<and> wdt_kicks s' = Suc (wdt_kicks (usv_init None None))"
  by (rule manager_step_completes [OF cruise_inv_init init_ok])

text \<open>
  C12. Driving by the joystick.  For stick positions from 0 to 100 the thrust of each side is the forward
  component (2000 at column 0, 1000 at column 100) plus or minus half the steering component, limited to
  1000 to 2000; nothing wraps.
\<close>

theorem remote_drive_targets:
  assumes "uint (col s) \<le> 100" "uint (row s) \<le> 100"
  shows "\<exists>s'. remote_drive s = Inr s' \<and>
    uint (target_left_pwm s') = max 1000 (min 2000
      (2000 - 10 * uint (col s) + cdiv (10 * uint (row s) - 500) 2)) \<and>
    uint (target_right_pwm s') = max 1000 (min 2000
      (2000 - 10 * uint (col s) - cdiv (10 * uint (row s) - 500) 2))"
proof -
  have "\<bar>cdiv (10 * uint (row s) - 500) 2\<bar> \<le> \<bar>10 * uint (row s) - 500\<bar>" by (rule cdiv_2_abs)
  moreover have "0 \<le> uint (row s)" "0 \<le> uint (col s)" by simp_all
  ultimately have "0 \<le> joy_left s" "joy_left s \<le> 3000" "0 \<le> joy_right s" "joy_right s \<le> 3000"
    using assms unfolding joy_left_def joy_right_def by linarith+
  note t = set_pwm_i2u [OF this]
  have "uint (col s) \<le> 1000000" "uint (row s) \<le> 1000000" using assms by auto
  from remote_drive_eq [OF this] t show ?thesis by (simp add: joy_left_def joy_right_def)
qed

theorem remote_drive_targets_witness:
  "\<exists>s'. remote_drive ((usv_init None None)\<lparr>col := 0, row := 100\<rparr>) = Inr s' \<and>
    uint (target_left_pwm s') = 2000 \<and> uint (target_right_pwm s') = 1750"
  using remote_drive_targets [of "(usv_init None None)\<lparr>col := 0, row := 100\<rparr>"]
  by (simp add: cdiv_def)

lemma hand_components_ahead: "0 \<le> sp \<Longrightarrow> sp \<le> 2 ^ 29 \<Longrightarrow> hand_components sp 0 = Inr (sp, 0)"
  using db_of_int [of sp]
  by (simp add: hand_components_def angle_of_def m_cos_def m_sin_def f2i_def int_min_def int_max_def
      c_trunc_def db_numeral)

text \<open>
  Driving by direction.  For speed settings from 0 to 5 the two sides get 1500 plus the forward
  component plus or minus the steering component, both bounded by 100 times the setting, limited to 1000 to
  2000; nothing wraps.  Without a commanded direction (-1) both are neutral, and dead ahead (0) drives both
  at 1500 plus 100 times the setting.
\<close>

theorem hand_drive_targets:
  assumes "0 \<le> hand_speed s" "hand_speed s \<le> 5"
  shows "\<exists>f t s'. hand_drive s = Inr s' \<and> \<bar>f\<bar> \<le> 100 * hand_speed s \<and> \<bar>t\<bar> \<le> 100 * hand_speed s \<and>
    uint (target_left_pwm s') = max 1000 (min 2000 (1500 + f + t)) \<and>
    uint (target_right_pwm s') = max 1000 (min 2000 (1500 + f - t)) \<and>
    (control_val s = -1 \<longrightarrow> f = 0 \<and> t = 0) \<and>
    (control_val s = 0 \<longrightarrow> f = 100 * hand_speed s \<and> t = 0)"
proof -
  obtain f t where ft: "hand_components (100 * hand_speed s) (control_val s) = Inr (f, t)"
    "\<bar>f\<bar> \<le> 100 * hand_speed s" "\<bar>t\<bar> \<le> 100 * hand_speed s"
    and e: "hand_drive s = Inr (set_pwm (i2u (1500 + f + t)) (i2u (1500 + f - t))
      (s\<lparr>left_pwm := i2u (1500 + f + t), right_pwm := i2u (1500 + f - t)\<rparr>))"
    using hand_drive_ok [of s] assms by auto
  have "control_val s = -1 \<longrightarrow> f = 0 \<and> t = 0" using ft(1) by (auto simp: hand_components_def)
  moreover have "control_val s = 0 \<longrightarrow> f = 100 * hand_speed s \<and> t = 0"
    using ft(1) hand_components_ahead [of "100 * hand_speed s"] assms by auto
  moreover have "0 \<le> 1500 + f + t" "1500 + f + t \<le> 3000" "0 \<le> 1500 + f - t" "1500 + f - t \<le> 3000"
    using ft(2,3) assms by linarith+
  note set_pwm_i2u [OF this]
  ultimately show ?thesis using e ft(2,3) by blast
qed

theorem hand_drive_targets_witness:
  "\<exists>s'. hand_drive ((usv_init None None)\<lparr>control_val := 0\<rparr>) = Inr s' \<and>
    uint (target_left_pwm s') = 1800 \<and> uint (target_right_pwm s') = 1800"
  using hand_drive_targets [of "(usv_init None None)\<lparr>control_val := 0\<rparr>"]
  by (auto simp: usv_init_def)

lemma hand_components_astern: "0 \<le> sp \<Longrightarrow> sp \<le> 2 ^ 29 \<Longrightarrow> hand_components sp 180 = Inr (- sp, 0)"
  using db_of_int [of sp]
  by (simp add: hand_components_def angle_of_def m_cos_def m_sin_def f2i_def int_min_def int_max_def
      c_trunc_def db_numeral)

text \<open>
  Reverse turns into full ahead.  The server's speed setting is not limited: from 16 on, a command to go
  straight astern (180 degrees) makes the pulse width negative, the conversion to the unsigned variable
  wraps, and the limiter of \<^verbatim>\<open>set_pwm\<close> turns it into full ahead on both sides.
\<close>

theorem hand_drive_astern_wraps:
  assumes "16 \<le> hand_speed s" "hand_speed s \<le> 10000" "control_val s = 180"
  shows "\<exists>s'. hand_drive s = Inr s' \<and> target_left_pwm s' = 2000 \<and> target_right_pwm s' = 2000"
proof -
  obtain f t where ft: "hand_components (100 * hand_speed s) (control_val s) = Inr (f, t)"
    and e: "hand_drive s = Inr (set_pwm (i2u (1500 + f + t)) (i2u (1500 + f - t))
      (s\<lparr>left_pwm := i2u (1500 + f + t), right_pwm := i2u (1500 + f - t)\<rparr>))"
    using hand_drive_ok [of s] assms by auto
  have "f = - (100 * hand_speed s)" "t = 0"
    using ft hand_components_astern [of "100 * hand_speed s"] assms by auto
  then have "- 2000000000 \<le> 1500 + f + t" "1500 + f + t < 0" "- 2000000000 \<le> 1500 + f - t" "1500 + f - t < 0"
    using assms by auto
  note set_pwm_i2u_neg [OF this]
  then show ?thesis using e by blast
qed

theorem hand_drive_astern_wraps_witness:
  "\<exists>s'. hand_drive ((usv_init None None)\<lparr>hand_speed := 16, control_val := 180\<rparr>) = Inr s' \<and>
    target_left_pwm s' = 2000 \<and> target_right_pwm s' = 2000"
  by (rule hand_drive_astern_wraps) simp_all

section \<open>Properties of the sampler\<close>

lemma depth_pwm_u32:
  assumes "min_geer_pwm s = 800" "0 \<le> bottle_deep s" "bottle_deep s \<le> 3000000"
  shows "1400 - i2u (bottle_deep s) * (1400 - min_geer_pwm s) div 5 = word_of_int (1400 - 120 * bottle_deep s)"
proof -
  have "uint (i2u (bottle_deep s)) = bottle_deep s" using assms by (intro uint_i2u) auto
  then have "uint (i2u (bottle_deep s) * 600) = 600 * bottle_deep s"
    using assms by (simp add: uint_word_ariths)
  then have "uint (i2u (bottle_deep s) * 600 div 5) = 120 * bottle_deep s"
    by (simp add: uint_div_distrib)
  then have "i2u (bottle_deep s) * 600 div 5 = word_of_int (120 * bottle_deep s)"
    by (metis word_of_int_uint)
  then show ?thesis using assms(1) by simp
qed

text \<open>
  The sampling depth.  With the winch limit of the source, a depth from 0 to 11 (tenths of a metre)
  gives the winch position 1400 minus 120 per unit; from 12 on the position is negative, and as the
  unsigned target of the winch it becomes a number above four thousand million, so that the winch is
  wound the wrong way.
\<close>

theorem depth_pwm_value:
  assumes "min_geer_pwm s = 800" "0 \<le> bottle_deep s" "bottle_deep s \<le> 3000000"
  shows "depth_pwm s = 1400 - 120 * bottle_deep s \<and>
    uint (i2u (depth_pwm s)) =
      (if bottle_deep s \<le> 11 then 1400 - 120 * bottle_deep s else 2 ^ 32 + 1400 - 120 * bottle_deep s)"
proof -
  have d: "depth_pwm s = 1400 - 120 * bottle_deep s"
    unfolding depth_pwm_def depth_pwm_u32 [OF assms] using assms by (intro u2i_of_int) auto
  have "(1400 - 120 * bottle_deep s) mod 4294967296 = 4294968696 - 120 * bottle_deep s"
    if "12 \<le> bottle_deep s"
  proof -
    have "(1400 - 120 * bottle_deep s) mod 4294967296 = (4294968696 - 120 * bottle_deep s) mod 4294967296"
      by (simp add: mod_eq_dvd_iff)
    also have "\<dots> = 4294968696 - 120 * bottle_deep s"
      using that assms by (intro mod_pos_pos_trivial) auto
    finally show ?thesis .
  qed
  moreover have "(1400 - 120 * bottle_deep s) mod 4294967296 = 1400 - 120 * bottle_deep s"
    if "bottle_deep s \<le> 11"
    using that assms by (intro mod_pos_pos_trivial) auto
  moreover have "uint (i2u (depth_pwm s)) = (1400 - 120 * bottle_deep s) mod 4294967296"
    unfolding d i2u_def uint_word_of_int by simp
  ultimately show ?thesis using d by auto
qed

theorem depth_pwm_value_witness:
  "depth_pwm ((usv_init None None)\<lparr>bottle_deep := 5\<rparr>) = 800 \<and>
    uint (i2u (depth_pwm ((usv_init None None)\<lparr>bottle_deep := 5\<rparr>))) = 800"
proof -
  have "min_geer_pwm ((usv_init None None)\<lparr>bottle_deep := 5\<rparr>) = 800" by (simp add: usv_init_def)
  from depth_pwm_value [OF this] show ?thesis by auto
qed

text \<open>
  C13. A sampling job at its depth.  With the winch at the commanded depth, a bottle from 1 to 8 and a start
  time already taken, the pump runs into exactly the valve of the bottle while less than 3 seconds per ten
  units of the amount have passed (rounded down to whole seconds), and the job reports status 2; from then
  on pump and valves are off, the start time is cleared and the job reports status 4.
\<close>

theorem job_sample_at_depth:
  assumes "sampler_ok s" and "1 \<le> bottle_id s" "bottle_id s \<le> 8" and "draw_status s \<noteq> 4"
    and "current_gear_pwm s = i2u (depth_pwm s)" and "draw_start_tick s \<noteq> 0"
  shows "\<exists>s'. job_sample tr s = Inr s' \<and>
    (if unat (tk_check tr - draw_start_tick s) < nat (3 * bottle_amount s div 10) * 1000
     then pump_on s' \<and> open_valves s' = [nat (bottle_id s)] \<and> draw_status s' = 2
     else \<not> pump_on s' \<and> open_valves s' = [] \<and> draw_start_tick s' = 0 \<and> draw_status s' = 4)"
proof -
  define q where "q = 3 * bottle_amount s div 10"
  have b: "0 \<le> bottle_amount s" "bottle_amount s \<le> 7000000" "draw_speed s = 2000"
    using assms(1) by (simp_all add: sampler_ok_def)
  then have q: "0 \<le> q" "q \<le> 2100000" by (simp_all add: q_def)
  then have c: "chk (q * 1000) = Inr (q * 1000)" by (simp add: chk_def int_min_def int_max_def)
  have u: "unat (i2u (q * 1000)) = nat q * 1000"
    using q by (subst unat_i2u) (auto simp: nat_mult_distrib)
  have "depth_pwm (s\<lparr>deep_pwm := depth_pwm s\<rparr>) = depth_pwm s" by (simp add: depth_pwm_def)
  then have j: "job_sample tr s =
     (let s = s\<lparr>deep_pwm := depth_pwm s, full_draw_time := q\<rparr> in
      if tk_check tr - draw_start_tick s < i2u (q * 1000) then
        Inr ((draw (bottle_id s)
          (s\<lparr>dump_draw_time := u2i (i2u q - (tk_dump tr - draw_start_tick s) div 1000)\<rparr>))
          \<lparr>draw_status := 2\<rparr>)
      else Inr ((draw 0 (s\<lparr>full_draw_time := 0, dump_draw_time := 0\<rparr>))
          \<lparr>draw_start_tick := 0, draw_status := 4\<rparr>))"
    using assms b pump_seconds [OF b(1,2)] c
    by (simp add: job_sample_def Let_def flip: q_def)
  have pins: "pump_on (t\<lparr>draw_status := x\<rparr>) = pump_on t" "open_valves (t\<lparr>draw_status := x\<rparr>) = open_valves t"
    "pump_on (t\<lparr>draw_start_tick := y\<rparr>) = pump_on t" "open_valves (t\<lparr>draw_start_tick := y\<rparr>) = open_valves t"
    for t x y by (simp_all add: pump_on_def open_valves_def)
  show ?thesis
    using draw_pins_bottle [OF assms(2,3)] draw_pins_off [of 0]
    by (simp add: j Let_def word_less_nat_alt u pins flip: q_def)
qed

theorem job_sample_at_depth_witness:
  "\<exists>s'. job_sample (tick_reads.make 0 0 0 0 700000 0) ((usv_init None None)\<lparr>bottle_id := 3, bottle_deep := 5,
      bottle_amount := 500, current_gear_pwm := i2u (depth_pwm ((usv_init None None)\<lparr>bottle_deep := 5\<rparr>)),
      draw_start_tick := 560000\<rparr>) = Inr s' \<and>
    pump_on s' \<and> open_valves s' = [3] \<and> draw_status s' = 2"
proof -
  let ?s = "(usv_init None None)\<lparr>bottle_id := 3, bottle_deep := 5,
      bottle_amount := 500, current_gear_pwm := i2u (depth_pwm ((usv_init None None)\<lparr>bottle_deep := 5\<rparr>)),
      draw_start_tick := 560000\<rparr>"
  have "sampler_ok ?s" using init_ok(2) [of None None] by (simp add: sampler_ok_def)
  moreover have "draw_status ?s \<noteq> 4" by (simp add: usv_init_def)
  moreover have "current_gear_pwm ?s = i2u (depth_pwm ?s)" by (simp add: depth_pwm_def)
  ultimately show ?thesis
    using job_sample_at_depth [of ?s "tick_reads.make 0 0 0 0 700000 0"]
    by (simp add: tick_reads.defs)
qed

text \<open>
  The pump is not switched off when the winch has to move: as long as the winch is not at the commanded
  depth, a job changes no pin, so a pump that was started by the remote control, or by the job before, keeps
  running while the hose travels.
\<close>

theorem job_sample_travelling_keeps_pins:
  assumes "bottle_id s \<noteq> 0" "draw_status s \<noteq> 4" "current_gear_pwm s \<noteq> i2u (depth_pwm s)"
  shows "\<exists>s'. job_sample tr s = Inr s' \<and> pins s' = pins s \<and> pump_on s' = pump_on s \<and>
    draw_status s' = 1 \<and> target_gear_pwm s' = i2u (depth_pwm s)"
  using assms by (simp add: job_sample_def Let_def set_gear_pwm_def pump_on_def depth_pwm_def)

theorem job_sample_travelling_keeps_pins_witness:
  "\<exists>s'. job_sample (tick_reads.make 0 0 0 0 0 0)
      (draw 1 ((usv_init None None)\<lparr>bottle_id := 2, draw_status := 2, current_gear_pwm := 2400\<rparr>)) = Inr s' \<and>
    pump_on s' \<and> draw_status s' = 1"
proof -
  let ?u = "(usv_init None None)\<lparr>bottle_id := 2, draw_status := 2, current_gear_pwm := 2400\<rparr>"
  obtain f where f: "draw 1 ?u = ?u\<lparr>pins := f\<rparr>" using draw_frame by blast
  have "bottle_deep ?u = 0" "min_geer_pwm ?u = 800" by (simp_all add: usv_init_def)
  then have "current_gear_pwm (draw 1 ?u) \<noteq> i2u (depth_pwm (draw 1 ?u))"
    by (simp add: f depth_pwm_def i2u_def u2i_def)
  moreover have "pump_on (draw 1 ?u)" using draw_pins_bottle [of 1 ?u] by simp
  ultimately show ?thesis using job_sample_travelling_keeps_pins [of "draw 1 ?u"] f by auto
qed

lemma remote_sample_cases:
  assumes "sampler_ok s"
  shows "\<exists>s'. remote_sample tr s = Inr s' \<and> sampler_ok s' \<and> key s' = key s \<and>
    (if key s ! 2 = 1 \<and> is_draw s \<noteq> 1 then
       (let start = (if draw_start_tick s = 0 then tk_start tr else draw_start_tick s) in
        if tk_check tr - start < 30000
        then pump_on s' \<and> open_valves s' = [1] \<and> draw_start_tick s' = start \<and> is_draw s' = is_draw s
        else \<not> pump_on s' \<and> open_valves s' = [] \<and> is_draw s' = 1 \<and> draw_start_tick s' = 0)
     else \<not> pump_on s' \<and> open_valves s' = [] \<and> is_draw s' = 0 \<and> draw_start_tick s' = 0)"
proof -
  have lim: "i2u 30000 = 30000" by (simp add: i2u_def)
  have pins: "pump_on (t\<lparr>is_draw := x\<rparr>) = pump_on t" "open_valves (t\<lparr>is_draw := x\<rparr>) = open_valves t"
    "pump_on (t\<lparr>draw_start_tick := y\<rparr>) = pump_on t" "open_valves (t\<lparr>draw_start_tick := y\<rparr>) = open_valves t"
    for t x y by (simp_all add: pump_on_def open_valves_def)
  have d: "draw_start_tick (draw b t) = draw_start_tick t" "is_draw (draw b t) = is_draw t" "key (draw b t) = key t"
    "draw_speed (draw b t) = draw_speed t" "max_draw_amount (draw b t) = max_draw_amount t"
    "bottle_amount (draw b t) = bottle_amount t" for b t
    using draw_frame [of b t] by auto
  show ?thesis
    using assms sample_limit draw_pins_bottle [of 1] draw_pins_off [of 0]
    by (simp add: remote_sample_def Let_def sampler_ok_def set_gear_pwm_def lim pins d)
qed

text \<open>
  The pump key of the remote control.  With the key held and the pump not locked, the pump runs into
  valve 1 while less than 30000 ticks have passed since the start time, which is taken on the first
  iteration; after that pump and valves are off and \<^verbatim>\<open>is_draw\<close> is set.  In every other case the
  iteration switches off and clears both the start time and \<^verbatim>\<open>is_draw\<close>.
\<close>

theorem remote_sample_pump:
  assumes "sampler_ok s"
  shows "\<exists>s'. remote_sample tr s = Inr s' \<and>
    (if key s ! 2 = 1 \<and> is_draw s \<noteq> 1 then
       (let start = (if draw_start_tick s = 0 then tk_start tr else draw_start_tick s) in
        if tk_check tr - start < 30000
        then pump_on s' \<and> open_valves s' = [1] \<and> draw_start_tick s' = start \<and> is_draw s' = is_draw s
        else \<not> pump_on s' \<and> open_valves s' = [] \<and> is_draw s' = 1 \<and> draw_start_tick s' = 0)
     else \<not> pump_on s' \<and> open_valves s' = [] \<and> is_draw s' = 0 \<and> draw_start_tick s' = 0)"
  using remote_sample_cases [OF assms, of tr] by blast

theorem remote_sample_pump_witness:
  "\<exists>s'. remote_sample (tick_reads.make 0 0 0 5 40 0) ((usv_init None None)\<lparr>key := [1, 0, 1, 0, 0, 0, 0, 0]\<rparr>) =
      Inr s' \<and> pump_on s' \<and> open_valves s' = [1] \<and> draw_start_tick s' = 5"
proof -
  let ?s = "(usv_init None None)\<lparr>key := [1, 0, 1, 0, 0, 0, 0, 0]\<rparr>"
  have "sampler_ok ?s" using init_ok(2) [of None None] by (simp add: sampler_ok_def)
  moreover have "is_draw ?s = 0" "draw_start_tick ?s = 0" by (simp_all add: usv_init_def)
  ultimately show ?thesis
    using remote_sample_pump [of ?s "tick_reads.make 0 0 0 5 40 0"] by (auto simp: tick_reads.defs)
qed

text \<open>
  C14. The limit of the pump key lasts one iteration only.  Once the limit is reached with the key held, the
  next iteration clears \<^verbatim>\<open>is_draw\<close> although the key was never released, and the one after it starts the
  pump again for another 30000 ticks.
\<close>

theorem remote_pump_restarts:
  assumes "sampler_ok s" and "key s ! 2 = 1" "is_draw s \<noteq> 1" and "draw_start_tick s \<noteq> 0"
    and "30000 \<le> tk_check tr1 - draw_start_tick s" and "tk_check tr3 - tk_start tr3 < 30000"
  shows "\<exists>s1 s2 s3. remote_sample tr1 s = Inr s1 \<and> remote_sample tr2 s1 = Inr s2 \<and>
    remote_sample tr3 s2 = Inr s3 \<and> \<not> pump_on s1 \<and> is_draw s1 = 1 \<and> \<not> pump_on s2 \<and> is_draw s2 = 0 \<and>
    pump_on s3 \<and> key s3 = key s"
proof -
  obtain s1 where s1: "remote_sample tr1 s = Inr s1" "sampler_ok s1" "key s1 = key s" "\<not> pump_on s1" "is_draw s1 = 1"
    using remote_sample_cases [OF assms(1), of tr1] assms by (auto simp: Let_def not_less [symmetric])
  obtain s2 where s2: "remote_sample tr2 s1 = Inr s2" "sampler_ok s2" "key s2 = key s" "\<not> pump_on s2" "is_draw s2 = 0"
    "draw_start_tick s2 = 0"
    using remote_sample_cases [OF s1(2), of tr2] s1 by auto
  obtain s3 where "remote_sample tr3 s2 = Inr s3" "key s3 = key s" "pump_on s3"
    using remote_sample_cases [OF s2(2), of tr3] s2 assms(2,6) by (auto simp: Let_def)
  then show ?thesis using s1 s2 by blast
qed

theorem remote_pump_restarts_witness:
  "\<exists>s1 s2 s3. remote_sample (tick_reads.make 0 0 0 30005 30005 0)
      ((usv_init None None)\<lparr>key := [1, 0, 1, 0, 0, 0, 0, 0], draw_start_tick := 5\<rparr>) = Inr s1 \<and>
    remote_sample (tick_reads.make 0 0 0 30045 30045 0) s1 = Inr s2 \<and>
    remote_sample (tick_reads.make 0 0 0 30085 30085 0) s2 = Inr s3 \<and> \<not> pump_on s1 \<and> is_draw s1 = 1 \<and>
    \<not> pump_on s2 \<and> is_draw s2 = 0 \<and> pump_on s3 \<and> key s3 = [1, 0, 1, 0, 0, 0, 0, 0]"
proof -
  let ?s = "(usv_init None None)\<lparr>key := [1, 0, 1, 0, 0, 0, 0, 0], draw_start_tick := 5\<rparr>"
  have "sampler_ok ?s" using init_ok(2) [of None None] by (simp add: sampler_ok_def)
  moreover have "is_draw ?s \<noteq> 1" by (simp add: usv_init_def)
  ultimately show ?thesis
    using remote_pump_restarts [of ?s "tick_reads.make 0 0 0 30005 30005 0" "tick_reads.make 0 0 0 30085 30085 0"
        "tick_reads.make 0 0 0 30045 30045 0"]
    by (simp add: tick_reads.defs)
qed

end
