(* ===== verification/Receiver.thy ===== *)
theory Receiver
  imports Usv_Prelude
begin

text \<open>
  Every serial thread of the firmware (\<^verbatim>\<open>lora.c\<close>, \<^verbatim>\<open>raspberry.c\<close>, \<^verbatim>\<open>gps.c\<close>,
  \<^verbatim>\<open>compass.c\<close>, \<^verbatim>\<open>water.c\<close>) is an endless loop that takes one byte from a UART and updates its
  frame buffer and the shared variables.  The interface they share: a step per byte and an invariant that
  every completed step keeps (\<open>byte_receiver\<close>), and, where no byte can make the step fail, totality
  (\<open>total_receiver\<close>).  What follows for streams of bytes is proved here once.
\<close>

fun run_bytes :: "('b \<Rightarrow> 'st \<Rightarrow> 'st res) \<Rightarrow> 'b list \<Rightarrow> 'st \<Rightarrow> 'st res" where
  "run_bytes step [] s = Inr s"
| "run_bytes step (b # bs) s = bind_res (step b s) (run_bytes step bs)"

lemma run_bytes_Nil: "run_bytes step [] = Inr"
  by (rule ext) simp

lemma run_bytes_append:
  "run_bytes step (as @ bs) s = bind_res (run_bytes step as s) (run_bytes step bs)"
proof (induction as arbitrary: s)
  case (Cons a as)
  then show ?case by (cases "step a s") simp_all
qed simp

lemma run_bytes_append_ok:
  "run_bytes step as s = Inr t \<Longrightarrow> run_bytes step (as @ bs) s = run_bytes step bs t"
  by (simp add: run_bytes_append)

locale byte_receiver =
  fixes step :: "'b \<Rightarrow> 'st \<Rightarrow> 'st res"
    and inv :: "'st \<Rightarrow> bool"
  assumes keeps: "inv s \<Longrightarrow> step b s = Inr s' \<Longrightarrow> inv s'"
begin

lemma run_keeps: "inv s \<Longrightarrow> run_bytes step bs s = Inr s' \<Longrightarrow> inv s'"
proof (induction bs arbitrary: s)
  case (Cons b bs)
  then show ?case using keeps by (auto elim!: bind_resE)
qed simp

text \<open>A stream that fails has a first byte on which the step itself fails, from a state within the invariant.\<close>

lemma run_error:
  assumes "inv s" and "run_bytes step bs s = Inl e"
  shows "\<exists>as b cs t. bs = as @ b # cs \<and> run_bytes step as s = Inr t \<and> inv t \<and> step b t = Inl e"
  using assms
proof (induction bs arbitrary: s)
  case (Cons b bs)
  show ?case
  proof (cases "step b s")
    case (Inl e')
    then show ?thesis using Cons.prems by (intro exI [of _ "[]"]) auto
  next
    case (Inr s1)
    then obtain as b' cs t where "bs = as @ b' # cs" "run_bytes step as s1 = Inr t" "inv t" "step b' t = Inl e"
      using Cons.IH [of s1] Cons.prems keeps by auto
    then show ?thesis using Inr by (intro exI [of _ "b # as"]) auto
  qed
qed simp

end

locale total_receiver = byte_receiver +
  assumes total: "inv s \<Longrightarrow> \<exists>s'. step b s = Inr s'"
begin

lemma run_total: "inv s \<Longrightarrow> \<exists>s'. run_bytes step bs s = Inr s' \<and> inv s'"
proof (induction bs arbitrary: s)
  case (Cons b bs)
  then obtain s1 where "step b s = Inr s1" "inv s1" using total keeps by blast
  then show ?case using Cons.IH [of s1] by simp
qed simp

end

section \<open>Frames of fixed length\<close>

text \<open>
  The GPS and the water-quality receivers have the same loop: a start byte opens a frame in an array of 128
  \<^verbatim>\<open>int\<close>, bytes are appended while a frame is open, and at a fixed number of bytes the frame is handled and
  the index returns to zero.  The byte is read into the low byte of a zero \<^verbatim>\<open>int\<close>, so it is at most 255.
\<close>

record frame_buf =
  fb_index :: nat
  fb_data :: "int list"

definition frame_start :: frame_buf where
  "frame_start = \<lparr>fb_index = 0, fb_data = replicate 128 0\<rparr>"

definition frame_step ::
  "int \<Rightarrow> nat \<Rightarrow> (int list \<Rightarrow> 's \<Rightarrow> 's res) \<Rightarrow> u8 \<Rightarrow> frame_buf \<times> 's \<Rightarrow> (frame_buf \<times> 's) res" where
  "frame_step start n handle byte = (\<lambda>(f, s).
     let r_hex = uint byte in
     bind_res
       (if r_hex = start \<or> fb_index f \<noteq> 0 then
          bind_res (arr_put (fb_data f) (fb_index f) r_hex) (\<lambda>d.
            Inr (f\<lparr>fb_data := d, fb_index := fb_index f + 1\<rparr>))
        else Inr f) (\<lambda>f.
     bind_res
       (if fb_index f = n then bind_res (handle (fb_data f) s) (\<lambda>s. Inr (f\<lparr>fb_index := 0\<rparr>, s)) else Inr (f, s))
       (\<lambda>(f, s). Inr (if n < fb_index f then f\<lparr>fb_index := 0\<rparr> else f, s))))"

definition byte_list :: "int list \<Rightarrow> bool" where
  "byte_list xs \<longleftrightarrow> (\<forall>x \<in> set xs. 0 \<le> x \<and> x \<le> 255)"

definition frame_inv :: "nat \<Rightarrow> frame_buf \<Rightarrow> bool" where
  "frame_inv n f \<longleftrightarrow> length (fb_data f) = 128 \<and> fb_index f < n \<and> byte_list (fb_data f)"

lemma frame_inv_start: "0 < n \<Longrightarrow> frame_inv n frame_start"
  by (simp add: frame_inv_def frame_start_def byte_list_def)

lemma uint_u8: "0 \<le> uint (b::u8) \<and> uint b \<le> 255"
  using uint_bounded [of b] by simp

lemma byte_list_put: "byte_list d \<Longrightarrow> byte_list (d[i := uint (b::u8)])"
  using uint_u8 [of b] by (auto simp: byte_list_def dest!: subsetD [OF set_update_subset_insert])

lemma byte_at: "byte_list d \<Longrightarrow> i < length d \<Longrightarrow> 0 \<le> d ! i \<and> d ! i \<le> 255"
  by (simp add: byte_list_def)

text \<open>The three outcomes of a step: nothing, one more byte, a complete frame.\<close>

lemma frame_step_cases:
  assumes "frame_inv n f" "n \<le> 128"
  shows "frame_step start n handle b (f, s) =
    (let i = fb_index f; d = (fb_data f)[i := uint b] in
     if uint b = start \<or> i \<noteq> 0 then
       (if Suc i = n then bind_res (handle d s) (\<lambda>s. Inr (f\<lparr>fb_data := d, fb_index := 0\<rparr>, s))
        else Inr (f\<lparr>fb_data := d, fb_index := Suc i\<rparr>, s))
     else Inr (f, s))"
proof (cases "uint b = start \<or> fb_index f \<noteq> 0")
  case True
  let ?d = "(fb_data f)[fb_index f := uint b]"
  have "fb_index f < length (fb_data f)" "Suc (fb_index f) \<le> n" using assms by (auto simp: frame_inv_def)
  then show ?thesis using True by (cases "handle ?d s") (auto simp: frame_step_def Let_def)
next
  case False
  then show ?thesis using assms by (auto simp: frame_step_def frame_inv_def)
qed

lemma frame_step_inv:
  assumes "frame_inv n f" "n \<le> 128" "0 < n" "frame_step start n handle b (f, s) = Inr (f', s')"
  shows "frame_inv n f' \<and> (s' = s \<or> (\<exists>d. byte_list d \<and> length d = 128 \<and> handle d s = Inr s'))"
proof -
  let ?d = "(fb_data f)[fb_index f := uint b]"
  have d: "byte_list ?d" "length ?d = 128" "fb_index f < n"
    using assms(1) byte_list_put by (auto simp: frame_inv_def)
  show ?thesis
    using assms(4) d assms(1,3) unfolding frame_step_cases [OF assms(1,2)] Let_def
    by (auto simp: frame_inv_def split: if_splits elim!: bind_resE)
qed

lemma frame_step_total:
  assumes "frame_inv n f" "n \<le> 128"
    and "\<And>d. byte_list d \<Longrightarrow> length d = 128 \<Longrightarrow> \<exists>s'. handle d s = Inr s'"
  shows "\<exists>st'. frame_step start n handle b (f, s) = Inr st'"
proof -
  define d where "d = (fb_data f)[fb_index f := uint b]"
  have "byte_list d" "length d = 128" using assms(1) byte_list_put by (auto simp: d_def frame_inv_def)
  then obtain s' where "handle d s = Inr s'" using assms(3) by blast
  then show ?thesis unfolding frame_step_cases [OF assms(1,2)] Let_def d_def [symmetric] by auto
qed

text \<open>A run of bytes that fits: the array holds them in order.\<close>

lemma frame_collect:
  assumes "frame_inv n f" "n \<le> 128" "fb_index f \<noteq> 0 \<or> (bs \<noteq> [] \<longrightarrow> uint (hd bs) = start)"
    and "fb_index f + length bs < n"
  shows "\<exists>d. run_bytes (frame_step start n handle) bs (f, s) =
      Inr (f\<lparr>fb_data := d, fb_index := fb_index f + length bs\<rparr>, s) \<and> length d = 128 \<and> byte_list d \<and>
      take (fb_index f + length bs) d = take (fb_index f) (fb_data f) @ map uint bs"
  using assms
proof (induction bs arbitrary: f)
  case Nil
  then show ?case by (intro exI [of _ "fb_data f"]) (simp add: frame_inv_def)
next
  case (Cons b bs)
  let ?i = "fb_index f"
  let ?d = "(fb_data f)[?i := uint b]"
  let ?f = "f\<lparr>fb_data := ?d, fb_index := Suc ?i\<rparr>"
  have d: "byte_list ?d" "length ?d = 128" "?i < 128"
    using Cons.prems byte_list_put by (auto simp: frame_inv_def)
  have step: "frame_step start n handle b (f, s) = Inr (?f, s)"
    unfolding frame_step_cases [OF Cons.prems(1,2)] Let_def using Cons.prems(3,4) by auto
  have t: "take (Suc ?i) ?d = take ?i (fb_data f) @ [uint b]"
    using d by (simp add: take_Suc_conv_app_nth)
  have "frame_inv n ?f" using Cons.prems d by (simp add: frame_inv_def)
  then obtain e where e: "run_bytes (frame_step start n handle) bs (?f, s) =
      Inr (?f\<lparr>fb_data := e, fb_index := Suc ?i + length bs\<rparr>, s)" "length e = 128" "byte_list e"
      "take (Suc ?i + length bs) e = take (Suc ?i) ?d @ map uint bs"
    using Cons.IH [of ?f] Cons.prems by auto
  then show ?case using step t by (intro exI [of _ e]) simp
qed

text \<open>A complete frame from the idle receiver is handled, in order.\<close>

lemma frame_complete:
  assumes "frame_inv n f" "n \<le> 128" "fb_index f = 0" "length bs = n" "0 < n" "uint (hd bs) = start"
  shows "\<exists>d. run_bytes (frame_step start n handle) bs (f, s) =
      bind_res (handle d s) (\<lambda>s. Inr (f\<lparr>fb_data := d, fb_index := 0\<rparr>, s)) \<and>
      length d = 128 \<and> byte_list d \<and> take n d = map uint bs"
proof -
  obtain as b where bs: "bs = as @ [b]" using assms(4,5) by (cases bs rule: rev_cases) auto
  have l: "Suc (length as) = n" using assms(4) bs by simp
  obtain d where d: "run_bytes (frame_step start n handle) as (f, s) = Inr (f\<lparr>fb_data := d, fb_index := length as\<rparr>, s)"
      "length d = 128" "byte_list d" "take (length as) d = map uint as"
    using frame_collect [OF assms(1,2), of as start handle s] assms(3,4,6) bs by (cases as) auto
  let ?f = "f\<lparr>fb_data := d, fb_index := length as\<rparr>"
  let ?d = "d[length as := uint b]"
  have inv: "frame_inv n ?f" using d l by (simp add: frame_inv_def)
  have "uint b = start \<or> length as \<noteq> 0" using assms(6) bs by (cases as) auto
  then have "frame_step start n handle b (?f, s) = bind_res (handle ?d s) (\<lambda>s. Inr (f\<lparr>fb_data := ?d, fb_index := 0\<rparr>, s))"
    unfolding frame_step_cases [OF inv assms(2)] Let_def using l by simp
  then have "run_bytes (frame_step start n handle) bs (f, s) =
      bind_res (bind_res (handle ?d s) (\<lambda>s. Inr (f\<lparr>fb_data := ?d, fb_index := 0\<rparr>, s))) Inr"
    by (simp add: bs run_bytes_append d(1) run_bytes_Nil)
  also have "\<dots> = bind_res (handle ?d s) (\<lambda>s. Inr (f\<lparr>fb_data := ?d, fb_index := 0\<rparr>, s))"
    by (cases "handle ?d s") simp_all
  finally have r: "run_bytes (frame_step start n handle) bs (f, s) =
      bind_res (handle ?d s) (\<lambda>s. Inr (f\<lparr>fb_data := ?d, fb_index := 0\<rparr>, s))" .
  have "length as < length d" using d(2) l assms(2) by simp
  then have "take (Suc (length as)) ?d = take (length as) d @ [uint b]"
    by (simp add: take_Suc_conv_app_nth)
  then have "take n ?d = map uint bs" using l d(4) by (simp add: bs)
  then show ?thesis using r d(2) byte_list_put [OF d(3)] by (intro exI [of _ ?d]) simp
qed

end
