(* ===== verification/Lora.thy ===== *)
theory Lora
  imports Usv_State Receiver
begin

text \<open>
  \<^verbatim>\<open>applications/lora.c\<close>: the receiver of the remote control.  Frames are \<open>A<col>,<row>Z\<close> with the
  stick position and \<open>H<keys>Z\<close> with the keys.  The record holds the locals of \<^verbatim>\<open>lora_rec\<close>, which
  live as long as the thread; \<open>lora_rec\<close> is one turn of its loop, for the byte read and the tick at which a
  complete frame is stamped.
\<close>

record lora =
  lora_buffer :: "char list"       \<comment> \<open>\<^verbatim>\<open>char lora_buffer[32]\<close>\<close>
  lora_buffer_index :: nat
  row_s :: "char list"             \<comment> \<open>\<^verbatim>\<open>char row_s[5]\<close>\<close>
  col_s :: "char list"             \<comment> \<open>\<^verbatim>\<open>char col_s[5]\<close>\<close>
  key_s :: "char list"             \<comment> \<open>\<^verbatim>\<open>char key_s[6]\<close>\<close>
  data_type :: int

definition lora_start :: lora where
  "lora_start = \<lparr>lora_buffer = replicate 32 NUL, lora_buffer_index = 0, row_s = replicate 5 NUL,
     col_s = replicate 5 NUL, key_s = replicate 6 NUL, data_type = 1\<rparr>"

text \<open>Lines 80 to 98: a start character restarts the buffer, another one is appended inside a frame.\<close>

definition lora_store :: "char \<Rightarrow> lora \<Rightarrow> lora res" where
  "lora_store ch l =
     (if ch = CHR ''A'' \<or> ch = CHR ''H'' then
        bind_res (arr_put (lora_buffer l) 0 ch) (\<lambda>b.
          Inr (l\<lparr>lora_buffer := b, lora_buffer_index := 1,
                 data_type := (if ch = CHR ''A'' then 1 else 2)\<rparr>))
      else if lora_buffer_index l \<noteq> 0 then
        bind_res (arr_put (lora_buffer l) (lora_buffer_index l) ch) (\<lambda>b.
          Inr (l\<lparr>lora_buffer := b, lora_buffer_index := lora_buffer_index l + 1\<rparr>))
      else Inr l)"

text \<open>Lines 109 and 110: the dead band of the stick.\<close>

definition dead_band :: "u32 \<Rightarrow> u32" where
  "dead_band v = (if 45 < v \<and> v < 55 then 50 else v)"

definition stick_format :: "directive list" where    \<comment> \<open>\<^verbatim>\<open>"A%[0-9],%[0-9]Z,"\<close>\<close>
  "stick_format = [Lit CHR ''A'', digits_field, Lit CHR '','', digits_field, Lit CHR ''Z'', Lit CHR '','']"

definition key_format :: "directive list" where      \<comment> \<open>\<^verbatim>\<open>"H%[0-9]Z,"\<close>\<close>
  "key_format = [Lit CHR ''H'', digits_field, Lit CHR ''Z'', Lit CHR '','']"

definition lora_stick :: "lora \<times> usv \<Rightarrow> (lora \<times> usv) res" where
  "lora_stick = (\<lambda>(l, s).
     bind_res (c_str (lora_buffer l)) (\<lambda>text.
     bind_res (put_args [col_s l, row_s l] (sscanf stick_format text)) (\<lambda>as.
     let l = l\<lparr>col_s := as ! 0, row_s := as ! 1\<rparr> in
     bind_res (c_str (col_s l)) (\<lambda>c.
     bind_res (c_str (row_s l)) (\<lambda>r.
       Inr (l, s\<lparr>col := dead_band (i2u (atoi c)), row := dead_band (i2u (atoi r))\<rparr>))))))"

text \<open>
  Lines 114 to 167: the keys.  Each digit is copied into a string of its own; the third one is converted
  and not used.
\<close>

definition digit_key :: "char \<Rightarrow> int" where
  "digit_key c = atoi (takeWhile (\<lambda>x. x \<noteq> NUL) [c, NUL])"

definition lora_keys :: "lora \<times> usv \<Rightarrow> (lora \<times> usv) res" where
  "lora_keys = (\<lambda>(l, s).
     bind_res (c_str (lora_buffer l)) (\<lambda>text.
     bind_res (put_args [key_s l] (sscanf key_format text)) (\<lambda>as.
     let l = l\<lparr>key_s := as ! 0\<rparr>;
         key1 = digit_key (key_s l ! 0);
         key2 = digit_key (key_s l ! 1);
         s = set_key 0 (if cmod key1 2 = 1 then 1 else 0) s;
         s = set_key 1 (if cmod key1 3 = 1 then 1 else 0) s;
         s = set_key 2 (if cmod key2 3 = 1 then 1 else 0) s
     in Inr (l, s))))"

definition lora_frame :: "tick \<Rightarrow> lora \<times> usv \<Rightarrow> (lora \<times> usv) res" where
  "lora_frame now = (\<lambda>(l, s).
     bind_res (arr_put (lora_buffer l) (lora_buffer_index l) NUL) (\<lambda>b.
     let l = l\<lparr>lora_buffer := b\<rparr> in
     bind_res (if data_type l = 1 then lora_stick (l, s) else Inr (l, s)) (\<lambda>(l, s).
     bind_res (if data_type l = 2 then lora_keys (l, s) else Inr (l, s)) (\<lambda>(l, s).
       Inr (l\<lparr>lora_buffer_index := 0\<rparr>, s\<lparr>rec_tick := now\<rparr>)))))"

definition lora_rec :: "tick \<Rightarrow> char \<Rightarrow> lora \<times> usv \<Rightarrow> (lora \<times> usv) res" where
  "lora_rec now ch = (\<lambda>(l, s).
     bind_res (lora_store ch l) (\<lambda>l.
     bind_res (if ch = CHR ''Z'' \<and> lora_buffer_index l \<noteq> 0 then lora_frame now (l, s) else Inr (l, s))
       (\<lambda>(l, s). Inr (if 20 < lora_buffer_index l then l\<lparr>lora_buffer_index := 0\<rparr> else l, s))))"

definition lora_inv :: "lora \<Rightarrow> bool" where
  "lora_inv l \<longleftrightarrow> length (lora_buffer l) = 32 \<and> lora_buffer_index l \<le> 20 \<and>
     length (col_s l) = 5 \<and> length (row_s l) = 5 \<and> length (key_s l) = 6 \<and>
     NUL \<in> set (col_s l) \<and> NUL \<in> set (row_s l) \<and> data_type l \<in> {1, 2}"

lemma lora_inv_start [simp]: "lora_inv lora_start"
  by (simp add: lora_inv_def lora_start_def)

section \<open>The invariant\<close>

lemma lora_store_ok:
  assumes "lora_inv l"
  shows "\<exists>b i d. lora_store ch l = Inr (l\<lparr>lora_buffer := b, lora_buffer_index := i, data_type := d\<rparr>) \<and>
    length b = 32 \<and> i \<le> 21 \<and> d \<in> {1, 2}"
proof -
  consider (start) "ch = CHR ''A'' \<or> ch = CHR ''H''"
    | (inside) "ch \<noteq> CHR ''A''" "ch \<noteq> CHR ''H''" "lora_buffer_index l \<noteq> 0"
    | (outside) "ch \<noteq> CHR ''A''" "ch \<noteq> CHR ''H''" "lora_buffer_index l = 0" by blast
  then show ?thesis
  proof cases
    case start
    then show ?thesis using assms
      by (intro exI [of _ "(lora_buffer l)[0 := ch]"] exI [of _ 1] exI [of _ "if ch = CHR ''A'' then 1 else 2"])
        (simp add: lora_store_def lora_inv_def)
  next
    case inside
    then show ?thesis using assms
      by (intro exI [of _ "(lora_buffer l)[lora_buffer_index l := ch]"] exI [of _ "lora_buffer_index l + 1"]
          exI [of _ "data_type l"]) (simp add: lora_store_def lora_inv_def)
  next
    case outside
    then show ?thesis using assms
      by (intro exI [of _ "lora_buffer l"] exI [of _ "lora_buffer_index l"] exI [of _ "data_type l"])
        (simp add: lora_store_def lora_inv_def)
  qed
qed

text \<open>Between the byte and the end of the turn the index may be one higher.\<close>

definition lora_mid :: "lora \<Rightarrow> bool" where
  "lora_mid l \<longleftrightarrow> lora_buffer_index l \<le> 21 \<and> lora_inv (l\<lparr>lora_buffer_index := 0\<rparr>)"

lemma NUL_put_str: "put_str a f = Inr b \<Longrightarrow> NUL \<in> set b"
  by (auto simp: put_str_def split: if_splits)

lemma put_args_terminated:
  assumes "put_args arrs fs = Inr arrs'" "\<forall>a \<in> set arrs. NUL \<in> set a"
  shows "\<forall>a \<in> set arrs'. NUL \<in> set a"
  using assms
proof (induction arrs fs arbitrary: arrs' rule: put_args.induct)
  case (3 a arrs f fs)
  then show ?case by (auto elim!: bind_resE dest!: NUL_put_str)
qed auto

lemma put_args_two:
  assumes "put_args [a, b] fs = Inr as"
  obtains a' b' where "as = [a', b']" "length a' = length a" "length b' = length b"
  using put_args_lengths [OF assms] by (auto simp: length_Suc_conv map_eq_Cons_conv)

lemma put_args_one:
  assumes "put_args [a] fs = Inr as"
  obtains a' where "as = [a']" "length a' = length a"
  using put_args_lengths [OF assms] by auto

lemma lora_stickE:
  assumes "lora_stick (l, s) = Inr (l', s')"
  obtains str as c r where "put_args [col_s l, row_s l] (sscanf stick_format str) = Inr as"
    "c_str (lora_buffer l) = Inr str" "c_str (as ! 0) = Inr c" "c_str (as ! 1) = Inr r"
    "l' = l\<lparr>col_s := as ! 0, row_s := as ! 1\<rparr>"
    "s' = s\<lparr>col := dead_band (i2u (atoi c)), row := dead_band (i2u (atoi r))\<rparr>"
  using assms unfolding lora_stick_def prod.case Let_def
  by (elim bind_resE) (rule that; force)

lemma lora_stick_inv:
  assumes "lora_stick (l, s) = Inr (l', s')" "lora_mid l"
  shows "lora_mid l' \<and> data_type l' = data_type l \<and> key s' = key s"
proof -
  obtain str as c r where as: "put_args [col_s l, row_s l] (sscanf stick_format str) = Inr as"
    "c_str (lora_buffer l) = Inr str" "c_str (as ! 0) = Inr c" "c_str (as ! 1) = Inr r"
    and l': "l' = l\<lparr>col_s := as ! 0, row_s := as ! 1\<rparr>"
    "s' = s\<lparr>col := dead_band (i2u (atoi c)), row := dead_band (i2u (atoi r))\<rparr>"
    by (rule lora_stickE [OF assms(1)])
  obtain a b where ab: "as = [a, b]" "length a = length (col_s l)" "length b = length (row_s l)"
    by (rule put_args_two [OF as(1)])
  have "NUL \<in> set (col_s l)" "NUL \<in> set (row_s l)"
    using assms(2) by (simp_all add: lora_mid_def lora_inv_def)
  then have "\<forall>x \<in> set as. NUL \<in> set x"
    by (intro put_args_terminated [OF as(1)]) simp
  then show ?thesis using assms(2) l' ab by (simp add: lora_mid_def lora_inv_def)
qed

lemma lora_keysE:
  assumes "lora_keys (l, s) = Inr (l', s')"
  obtains str as a b c where "put_args [key_s l] (sscanf key_format str) = Inr as"
    "c_str (lora_buffer l) = Inr str" "l' = l\<lparr>key_s := as ! 0\<rparr>"
    "s' = set_key 2 c (set_key 1 b (set_key 0 a s))"
  using assms unfolding lora_keys_def prod.case Let_def
  by (elim bind_resE) (rule that; force)

lemma lora_keys_inv:
  assumes "lora_keys (l, s) = Inr (l', s')" "lora_mid l"
  shows "lora_mid l' \<and> length (key s') = length (key s)"
proof -
  obtain str as x y z where as: "put_args [key_s l] (sscanf key_format str) = Inr as"
    "c_str (lora_buffer l) = Inr str"
    and l': "l' = l\<lparr>key_s := as ! 0\<rparr>" "s' = set_key 2 z (set_key 1 y (set_key 0 x s))"
    by (rule lora_keysE [OF assms(1)])
  obtain a where "as = [a]" "length a = length (key_s l)" by (rule put_args_one [OF as(1)])
  then show ?thesis using assms(2) l' by (simp add: lora_mid_def lora_inv_def set_key_def)
qed

lemma lora_frame_inv:
  assumes "lora_frame now (l, s) = Inr (l', s')" "lora_mid l"
  shows "lora_inv l' \<and> lora_buffer_index l' = 0 \<and> length (key s') = length (key s)"
proof -
  obtain b l1 s1 l2 s2 where st: "arr_put (lora_buffer l) (lora_buffer_index l) NUL = Inr b"
    "(if data_type l = 1 then lora_stick (l\<lparr>lora_buffer := b\<rparr>, s) else Inr (l\<lparr>lora_buffer := b\<rparr>, s)) = Inr (l1, s1)"
    "(if data_type l1 = 2 then lora_keys (l1, s1) else Inr (l1, s1)) = Inr (l2, s2)"
    "l' = l2\<lparr>lora_buffer_index := 0\<rparr>" "s' = s2\<lparr>rec_tick := now\<rparr>"
    using assms(1) unfolding lora_frame_def prod.case Let_def
    by (elim bind_resE) (force elim!: bind_resE split: prod.splits)
  have "lora_mid (l\<lparr>lora_buffer := b\<rparr>)"
    using assms(2) arr_put_length [OF st(1)] by (simp add: lora_mid_def lora_inv_def)
  then have 1: "lora_mid l1" "length (key s1) = length (key s)"
    using st(2) lora_stick_inv [of "l\<lparr>lora_buffer := b\<rparr>" s l1 s1] by (auto split: if_splits)
  then have "lora_mid l2" "length (key s2) = length (key s)"
    using st(3) lora_keys_inv [of l1 s1 l2 s2] by (auto split: if_splits)
  then show ?thesis using st(4,5) by (simp add: lora_mid_def)
qed

definition lora_ok :: "lora \<times> usv \<Rightarrow> bool" where
  "lora_ok = (\<lambda>(l, s). lora_inv l \<and> keys_wf s)"

lemma lora_store_mid: "lora_inv l \<Longrightarrow> \<exists>l'. lora_store ch l = Inr l' \<and> lora_mid l'"
  using lora_store_ok [of l ch] by (auto simp: lora_mid_def lora_inv_def)

lemma lora_mid_end: "lora_mid l \<Longrightarrow>
    lora_inv (if 20 < lora_buffer_index l then l\<lparr>lora_buffer_index := 0\<rparr> else l)"
  by (auto simp: lora_mid_def lora_inv_def)

lemma lora_rec_keeps:
  assumes "lora_ok st" "lora_rec now ch st = Inr st'"
  shows "lora_ok st'"
proof -
  obtain l s where st: "st = (l, s)" by (cases st)
  obtain l1 where l1: "lora_store ch l = Inr l1" "lora_mid l1"
    using lora_store_mid assms(1) by (auto simp: st lora_ok_def)
  show ?thesis
  proof (cases "ch = CHR ''Z'' \<and> lora_buffer_index l1 \<noteq> 0")
    case True
    then obtain l2 s2 where f: "lora_frame now (l1, s) = Inr (l2, s2)"
      using assms(2) l1 by (cases "lora_frame now (l1, s)") (auto simp: st lora_rec_def)
    show ?thesis
      using True f lora_frame_inv [OF f l1(2)] assms l1
      by (auto simp: st lora_rec_def lora_ok_def keys_wf_def)
  next
    case False
    then show ?thesis using assms l1 lora_mid_end [OF l1(2)]
      by (auto simp: st lora_rec_def lora_ok_def)
  qed
qed

text \<open>One input of the thread: the byte and the time at which it is handled.\<close>

definition lora_input :: "tick \<times> char \<Rightarrow> lora \<times> usv \<Rightarrow> (lora \<times> usv) res" where
  "lora_input = (\<lambda>(now, ch). lora_rec now ch)"

interpretation lora: byte_receiver lora_input lora_ok
  by unfold_locales (auto simp: lora_input_def intro: lora_rec_keeps)

section \<open>Frames\<close>

definition body_char :: "char \<Rightarrow> bool" where
  "body_char c \<longleftrightarrow> c \<notin> {CHR ''A'', CHR ''H'', CHR ''Z'', NUL}"

text \<open>The characters between start and end of a frame are collected in the buffer.\<close>

lemma lora_collect:
  assumes "lora_inv l" "lora_buffer_index l \<noteq> 0" "\<forall>c \<in> set xs. body_char c"
    and "lora_buffer_index l + length xs \<le> 20"
  shows "\<exists>b. run_bytes (lora_rec now) xs (l, s) =
      Inr (l\<lparr>lora_buffer := b, lora_buffer_index := lora_buffer_index l + length xs\<rparr>, s) \<and> length b = 32 \<and>
      take (lora_buffer_index l + length xs) b = take (lora_buffer_index l) (lora_buffer l) @ xs"
  using assms
proof (induction xs arbitrary: l)
  case Nil
  then show ?case by (intro exI [of _ "lora_buffer l"]) (simp add: lora_inv_def)
next
  case (Cons x xs)
  let ?i = "lora_buffer_index l" and ?b = "lora_buffer l"
  let ?l = "l\<lparr>lora_buffer := ?b[?i := x], lora_buffer_index := ?i + 1\<rparr>"
  have x: "x \<noteq> CHR ''A''" "x \<noteq> CHR ''H''" "x \<noteq> CHR ''Z''" and i: "?i < 20" "length ?b = 32"
    using Cons.prems by (auto simp: body_char_def lora_inv_def)
  have step: "lora_rec now x (l, s) = Inr (?l, s)"
    using x i Cons.prems(2) by (simp add: lora_rec_def lora_store_def)
  have t: "take (Suc ?i) (?b[?i := x]) = take ?i ?b @ [x]"
    using i by (simp add: take_Suc_conv_app_nth)
  have "lora_inv ?l" using Cons.prems(1) i by (simp add: lora_inv_def)
  then obtain b where b: "run_bytes (lora_rec now) xs (?l, s) =
      Inr (?l\<lparr>lora_buffer := b, lora_buffer_index := Suc ?i + length xs\<rparr>, s)" "length b = 32"
      "take (Suc ?i + length xs) b = take (Suc ?i) (?b[?i := x]) @ xs"
    using Cons.IH [of ?l] Cons.prems by auto
  then show ?case using step t by (intro exI [of _ b]) (simp del: lora.update_convs)
qed

text \<open>Start, body and the end character: the frame is handed over as a string.\<close>

lemma lora_collect_frame:
  assumes "lora_inv l" "ch = CHR ''A'' \<or> ch = CHR ''H''" "\<forall>c \<in> set xs. body_char c" "length xs \<le> 18"
  shows "\<exists>l'. run_bytes (lora_rec now) (ch # xs @ [CHR ''Z'']) (l, s) = lora_frame now (l', s) \<and>
    lora_mid l' \<and> data_type l' = (if ch = CHR ''A'' then 1 else 2) \<and>
    col_s l' = col_s l \<and> row_s l' = row_s l \<and> key_s l' = key_s l \<and> lora_buffer_index l' = length xs + 2 \<and>
    c_str ((lora_buffer l')[lora_buffer_index l' := NUL]) = Inr (ch # xs @ [CHR ''Z''])"
proof -
  let ?d = "if ch = CHR ''A'' then 1 else 2"
  let ?l = "l\<lparr>lora_buffer := (lora_buffer l)[0 := ch], lora_buffer_index := 1, data_type := ?d\<rparr>"
  have lb: "length (lora_buffer l) = 32" using assms(1) by (simp add: lora_inv_def)
  have step: "lora_rec now ch (l, s) = Inr (?l, s)"
    using assms(2) lb by (auto simp: lora_rec_def lora_store_def)
  have "lora_inv ?l" using assms(1) by (simp add: lora_inv_def)
  then obtain b where b: "run_bytes (lora_rec now) xs (?l, s) =
      Inr (?l\<lparr>lora_buffer := b, lora_buffer_index := 1 + length xs\<rparr>, s)" "length b = 32"
      "take (Suc (length xs)) b = ch # xs"
    using lora_collect [of ?l xs now s] assms(3,4) lb by (auto simp: take_Suc_conv_app_nth)
  let ?m = "?l\<lparr>lora_buffer := b[Suc (length xs) := CHR ''Z''], lora_buffer_index := length xs + 2\<rparr>"
  have st: "lora_store CHR ''Z'' (?l\<lparr>lora_buffer := b, lora_buffer_index := 1 + length xs\<rparr>) = Inr ?m"
    using b(2) assms(4) by (simp add: lora_store_def)
  have t: "take (length xs + 2) (b[Suc (length xs) := CHR ''Z'']) = ch # xs @ [CHR ''Z'']"
    using b(2,3) assms(4) by (simp add: take_Suc_conv_app_nth)
  have "NUL \<notin> set (ch # xs @ [CHR ''Z''])" using assms(2,3) by (auto simp: body_char_def)
  then have c: "c_str ((b[Suc (length xs) := CHR ''Z''])[length xs + 2 := NUL]) = Inr (ch # xs @ [CHR ''Z''])"
    using c_str_take [of "length xs + 2" "b[Suc (length xs) := CHR ''Z'']"] t b(2) assms(4) by simp
  have mid: "lora_mid ?m" using assms(1,4) b(2) by (simp add: lora_mid_def lora_inv_def)
  have e: "lora_rec now CHR ''Z'' (?l\<lparr>lora_buffer := b, lora_buffer_index := 1 + length xs\<rparr>, s) =
      bind_res (lora_frame now (?m, s)) (\<lambda>(l, s). Inr (if 20 < lora_buffer_index l then l\<lparr>lora_buffer_index := 0\<rparr> else l, s))"
    unfolding lora_rec_def prod.case st by simp
  also have "\<dots> = lora_frame now (?m, s)"
  proof (cases "lora_frame now (?m, s)")
    case (Inr p)
    then show ?thesis using lora_frame_inv [of now ?m s "fst p" "snd p"] mid
      by (cases p) (simp del: lora.update_convs)
  qed simp
  finally have "run_bytes (lora_rec now) (ch # xs @ [CHR ''Z'']) (l, s) = lora_frame now (?m, s)"
    using step b(1) by (cases "lora_frame now (?m, s)") (simp_all add: run_bytes_append_ok del: lora.update_convs)
  then show ?thesis using mid c by (intro exI [of _ ?m]) simp
qed

lemma sscanf_stick:
  assumes "\<forall>c \<in> set cs. is_digit c" "cs \<noteq> []" "\<forall>c \<in> set rs. is_digit c" "rs \<noteq> []"
  shows "sscanf stick_format (CHR ''A'' # (cs @ CHR '','' # rs) @ [CHR ''Z'']) = [cs, rs]"
proof -
  have n: "\<not> is_digit CHR '',''" "\<not> is_digit CHR ''Z''" by (simp_all add: is_digit_iff)
  show ?thesis
    using sscanf_scan_step [OF assms(1) n(1) assms(2)] sscanf_scan_step [OF assms(3) n(2) assms(4)]
    by (simp add: stick_format_def digits_field_def)
qed

lemma sscanf_keys:
  assumes "\<forall>c \<in> set ds. is_digit c" "ds \<noteq> []"
  shows "sscanf key_format (CHR ''H'' # ds @ [CHR ''Z'']) = [ds]"
proof -
  have n: "\<not> is_digit CHR ''Z''" by (simp add: is_digit_iff)
  show ?thesis
    using sscanf_scan_step [OF assms(1) n assms(2)] by (simp add: key_format_def digits_field_def)
qed

lemma digits_body: "\<forall>c \<in> set ds. is_digit c \<Longrightarrow> \<forall>c \<in> set ds. body_char c"
  by (auto simp: body_char_def digit_not_special)

lemma digits_no_NUL: "\<forall>c \<in> set ds. is_digit c \<Longrightarrow> NUL \<notin> set ds"
  using digit_not_special by blast

lemma lora_stick_result:
  assumes "c_str (lora_buffer l) = Inr (CHR ''A'' # (cs @ CHR '','' # rs) @ [CHR ''Z''])"
    and cs: "\<forall>c \<in> set cs. is_digit c" "cs \<noteq> []" and rs: "\<forall>c \<in> set rs. is_digit c" "rs \<noteq> []"
    and len: "length (col_s l) = 5" "length (row_s l) = 5"
  shows "if length cs \<le> 4 \<and> length rs \<le> 4
     then \<exists>l'. lora_stick (l, s) = Inr (l', s\<lparr>col := dead_band (i2u (atoi cs)), row := dead_band (i2u (atoi rs))\<rparr>) \<and>
       data_type l' = data_type l
     else lora_stick (l, s) = Inl OutOfBounds"
proof (cases "length cs \<le> 4 \<and> length rs \<le> 4")
  case True
  obtain a where a: "put_str (col_s l) cs = Inr a" using True len by simp
  obtain b where b: "put_str (row_s l) rs = Inr b" using True len by simp
  have "c_str a = Inr cs" "c_str b = Inr rs"
    using c_str_put_str [OF a digits_no_NUL [OF cs(1)]] c_str_put_str [OF b digits_no_NUL [OF rs(1)]] by auto
  then show ?thesis
    using True a b assms(1) by (simp add: lora_stick_def sscanf_stick [OF cs rs, simplified])
next
  case False
  then have "put_args [col_s l, row_s l] [cs, rs] = Inl OutOfBounds"
    using len by (auto simp: put_str_def)
  then show ?thesis
    using False assms(1) by (simp add: lora_stick_def sscanf_stick [OF cs rs, simplified] del: put_args.simps)
qed

text \<open>A whole stick frame, from any state of the receiver.\<close>

lemma lora_stick_run:
  assumes "lora_inv l"
    and cs: "\<forall>c \<in> set cs. is_digit c" "cs \<noteq> []" and rs: "\<forall>c \<in> set rs. is_digit c" "rs \<noteq> []"
    and "length cs + length rs \<le> 17"
  shows "if length cs \<le> 4 \<and> length rs \<le> 4
     then \<exists>l'. run_bytes (lora_rec now) (''A'' @ cs @ '','' @ rs @ ''Z'') (l, s) =
       Inr (l', s\<lparr>col := dead_band (i2u (atoi cs)), row := dead_band (i2u (atoi rs)), rec_tick := now\<rparr>) \<and>
       lora_inv l' \<and> lora_buffer_index l' = 0
     else run_bytes (lora_rec now) (''A'' @ cs @ '','' @ rs @ ''Z'') (l, s) = Inl OutOfBounds"
proof -
  have "\<forall>c \<in> set (cs @ CHR '','' # rs). body_char c"
    using digits_body [OF cs(1)] digits_body [OF rs(1)] by (auto simp: body_char_def)
  then obtain m where run: "run_bytes (lora_rec now) (''A'' @ cs @ '','' @ rs @ ''Z'') (l, s) = lora_frame now (m, s)"
    and m: "lora_mid m" "data_type m = 1" "lora_buffer_index m \<le> 20"
      "c_str ((lora_buffer m)[lora_buffer_index m := NUL]) = Inr (CHR ''A'' # (cs @ CHR '','' # rs) @ [CHR ''Z''])"
    using lora_collect_frame [OF assms(1), of "CHR ''A''" "cs @ CHR '','' # rs" now s] assms(6) by auto
  let ?b = "(lora_buffer m)[lora_buffer_index m := NUL]"
  have put: "arr_put (lora_buffer m) (lora_buffer_index m) NUL = Inr ?b"
    using m(1,3) by (simp add: lora_mid_def lora_inv_def)
  have "length (col_s m) = 5" "length (row_s m) = 5" using m(1) by (simp_all add: lora_mid_def lora_inv_def)
  note r = lora_stick_result [of "m\<lparr>lora_buffer := ?b\<rparr>", simplified, OF m(4) [simplified] cs rs this, of s]
  show ?thesis
  proof (cases "length cs \<le> 4 \<and> length rs \<le> 4")
    case True
    then obtain l' where l': "lora_frame now (m, s) = Inr (l',
        s\<lparr>col := dead_band (i2u (atoi cs)), row := dead_band (i2u (atoi rs)), rec_tick := now\<rparr>)"
      using r put m(2) by (auto simp: lora_frame_def)
    with lora_frame_inv [OF l' m(1)] True run show ?thesis by auto
  next
    case False
    then show ?thesis using r run put m(2) by (auto simp: lora_frame_def)
  qed
qed

text \<open>The keys encoded by the first two digits of a key frame.\<close>

definition keys_of :: "string \<Rightarrow> int list \<Rightarrow> int list" where
  "keys_of ds ks =
     (let k1 = digit_val (ds ! 0); k2 = (if 2 \<le> length ds then digit_val (ds ! 1) else 0) in
      ks[0 := k1 mod 2, 1 := (if k1 mod 3 = 1 then 1 else 0), 2 := (if k2 mod 3 = 1 then 1 else 0)])"

lemma digit_key_digit: "is_digit c \<Longrightarrow> digit_key c = digit_val c"
proof -
  assume d: "is_digit c"
  then have n: "c \<noteq> NUL" using digit_not_special by blast
  have "atoi [c] = min int_max (read_nat 0 [c])" using d by (intro atoi_digits) auto
  also have "\<dots> = digit_val c" using d digit_val_bounds [OF d] by (simp add: int_max_def)
  finally show ?thesis using n by (simp add: digit_key_def)
qed

lemma digit_key_NUL: "digit_key NUL = 0"
  by (simp add: digit_key_def atoi_def read_signed_def int_min_def int_max_def)

lemma keys_cmod:
  assumes "is_digit c"
  shows "(if cmod (digit_val c) 2 = 1 then 1 else 0) = digit_val c mod 2"
    "cmod (digit_val c) 3 = digit_val c mod 3"
  using digit_val_bounds [OF assms] by (auto simp: cmod_nonneg)

lemma lora_keys_result:
  assumes "c_str (lora_buffer l) = Inr (CHR ''H'' # ds @ [CHR ''Z''])"
    and ds: "\<forall>c \<in> set ds. is_digit c" "ds \<noteq> []" "length ds \<le> 5" and len: "length (key_s l) = 6"
  shows "\<exists>l'. lora_keys (l, s) = Inr (l', s\<lparr>key := keys_of ds (key s)\<rparr>)"
proof -
  let ?a = "ds @ [NUL] @ drop (Suc (length ds)) (key_s l)"
  have put: "put_args [key_s l] [ds] = Inr [?a]" using ds len by simp
  have 0: "?a ! 0 = ds ! 0" "is_digit (ds ! 0)" using ds(1,2) by (auto simp: nth_append)
  have 1: "digit_key (?a ! 1) = (if 2 \<le> length ds then digit_val (ds ! 1) else 0)"
  proof (cases "2 \<le> length ds")
    case True
    then have "is_digit (ds ! 1)" "?a ! 1 = ds ! 1" using ds(1) by (auto simp: nth_append)
    then show ?thesis using True by (simp add: digit_key_digit)
  next
    case False
    then have "length ds = 1" using ds(2) by (cases ds; cases "tl ds") auto
    then have "?a ! 1 = NUL" by (simp add: nth_append)
    then show ?thesis using False by (simp add: digit_key_NUL)
  qed
  have "cmod (if 2 \<le> length ds then digit_val (ds ! 1) else 0) 3 =
      (if 2 \<le> length ds then digit_val (ds ! 1) else 0) mod 3"
    using ds(1) digit_val_bounds [of "ds ! 1"] by (auto simp: cmod_nonneg)
  then show ?thesis
    using assms(1) put 0 keys_cmod [OF 0(2)] digit_key_digit [OF 0(2)] 1
    by (simp add: lora_keys_def sscanf_keys [OF ds(1,2), simplified] keys_of_def set_key_def Let_def
        del: put_args.simps)
qed

lemma lora_keys_run:
  assumes "lora_inv l" and ds: "\<forall>c \<in> set ds. is_digit c" "ds \<noteq> []" "length ds \<le> 5"
  shows "\<exists>l'. run_bytes (lora_rec now) (''H'' @ ds @ ''Z'') (l, s) =
      Inr (l', s\<lparr>key := keys_of ds (key s), rec_tick := now\<rparr>) \<and> lora_inv l' \<and> lora_buffer_index l' = 0"
proof -
  obtain m where run: "run_bytes (lora_rec now) (''H'' @ ds @ ''Z'') (l, s) = lora_frame now (m, s)"
    and m: "lora_mid m" "data_type m = 2" "lora_buffer_index m \<le> 20"
      "c_str ((lora_buffer m)[lora_buffer_index m := NUL]) = Inr (CHR ''H'' # ds @ [CHR ''Z''])"
    using lora_collect_frame [OF assms(1), of "CHR ''H''" ds now s] digits_body [OF ds(1)] ds(3) by auto
  let ?b = "(lora_buffer m)[lora_buffer_index m := NUL]"
  have put: "arr_put (lora_buffer m) (lora_buffer_index m) NUL = Inr ?b"
    using m(1,3) by (simp add: lora_mid_def lora_inv_def)
  have "length (key_s m) = 6" using m(1) by (simp add: lora_mid_def lora_inv_def)
  with lora_keys_result [of "m\<lparr>lora_buffer := ?b\<rparr>" ds s] m(4) ds
  obtain l' where l': "lora_frame now (m, s) = Inr (l', s\<lparr>key := keys_of ds (key s), rec_tick := now\<rparr>)"
    using put m(2) by (auto simp: lora_frame_def)
  with lora_frame_inv [OF l' m(1)] run show ?thesis by auto
qed

section \<open>The only failure\<close>

lemma lora_rec_error:
  assumes "lora_ok (l, s)" "lora_rec now ch (l, s) = Inl e"
  shows "\<exists>l1. ch = CHR ''Z'' \<and> lora_store ch l = Inr l1 \<and> lora_mid l1 \<and> lora_frame now (l1, s) = Inl e"
proof -
  obtain l1 where l1: "lora_store ch l = Inr l1" "lora_mid l1"
    using lora_store_mid assms(1) by (auto simp: lora_ok_def)
  show ?thesis
    using assms(2) l1 by (cases "lora_frame now (l1, s)")
      (auto simp: lora_rec_def split: if_splits)
qed

text \<open>A frame text with a number too long for its array.\<close>

definition oversized :: "string \<Rightarrow> bool" where
  "oversized str \<longleftrightarrow> (\<exists>f \<in> set (sscanf stick_format str). 5 \<le> length f) \<or>
     (\<exists>f \<in> set (sscanf key_format str). 6 \<le> length f)"

lemma c_str_terminated: "NUL \<in> set a \<Longrightarrow> \<exists>str. c_str a = Inr str"
  by (simp add: c_str_def)

lemma scan_lengths: "length (sscanf stick_format str) \<le> 2" "length (sscanf key_format str) \<le> 1"
  using sscanf_length [of stick_format str] sscanf_length [of key_format str]
  by (simp_all add: stick_format_def key_format_def digits_field_def assigning_def)

lemma lora_stick_error:
  assumes "lora_stick (l, s) = Inl e" "lora_mid l" "c_str (lora_buffer l) = Inr str"
  shows "e = OutOfBounds \<and> oversized str"
proof (cases "put_args [col_s l, row_s l] (sscanf stick_format str)")
  case (Inl e')
  have len: "length (col_s l) = 5" "length (row_s l) = 5" using assms(2) by (simp_all add: lora_mid_def lora_inv_def)
  obtain i where i: "i < length (sscanf stick_format str)" "e' = OutOfBounds"
    "length ([col_s l, row_s l] ! i) \<le> length (sscanf stick_format str ! i)"
    using put_args_error [OF Inl] scan_lengths(1) [of str] by auto
  then have "i < 2" using scan_lengths(1) [of str] by simp
  then have "5 \<le> length (sscanf stick_format str ! i)" using i(3) len by (auto simp: less_2_cases_iff)
  then have "oversized str" using i(1) nth_mem unfolding oversized_def by blast
  then show ?thesis using assms(1,3) Inl i(2) by (simp add: lora_stick_def)
next
  case (Inr as)
  obtain a b where ab: "as = [a, b]" "length a = length (col_s l)" "length b = length (row_s l)"
    by (rule put_args_two [OF Inr])
  have "NUL \<in> set (col_s l)" "NUL \<in> set (row_s l)"
    using assms(2) by (simp_all add: lora_mid_def lora_inv_def)
  then have "\<forall>x \<in> set as. NUL \<in> set x"
    by (intro put_args_terminated [OF Inr]) simp
  then obtain x y where "c_str a = Inr x" "c_str b = Inr y"
    using c_str_terminated [of a] c_str_terminated [of b] ab(1) by auto
  then show ?thesis using assms(1,3) Inr ab(1) by (simp add: lora_stick_def)
qed

lemma lora_keys_error:
  assumes "lora_keys (l, s) = Inl e" "lora_mid l" "c_str (lora_buffer l) = Inr str"
  shows "e = OutOfBounds \<and> oversized str"
proof -
  have e: "put_args [key_s l] (sscanf key_format str) = Inl e"
    using assms(1,3) by (cases "put_args [key_s l] (sscanf key_format str)") (auto simp: lora_keys_def Let_def)
  have len: "length (key_s l) = 6" using assms(2) by (simp add: lora_mid_def lora_inv_def)
  obtain i where i: "i < length (sscanf key_format str)" "e = OutOfBounds"
    "length ([key_s l] ! i) \<le> length (sscanf key_format str ! i)"
    using put_args_error [OF e] scan_lengths(2) [of str] by auto
  then have "i = 0" using scan_lengths(2) [of str] by simp
  then show ?thesis using i len nth_mem unfolding oversized_def by fastforce
qed

lemma lora_frame_error:
  assumes "lora_frame now (l, s) = Inl e" "lora_mid l"
  shows "e = OutOfBounds \<and> (\<exists>str. c_str ((lora_buffer l)[lora_buffer_index l := NUL]) = Inr str \<and> oversized str)"
proof -
  let ?l = "l\<lparr>lora_buffer := (lora_buffer l)[lora_buffer_index l := NUL]\<rparr>"
  have b: "lora_buffer_index l < length (lora_buffer l)" and mid: "lora_mid ?l"
    using assms(2) by (simp_all add: lora_mid_def lora_inv_def)
  then have "NUL \<in> set (lora_buffer ?l)" by (simp add: set_update_memI)
  then obtain str where str: "c_str (lora_buffer ?l) = Inr str" using c_str_terminated by blast
  consider "data_type l = 1" | "data_type l = 2"
    using assms(2) by (auto simp: lora_mid_def lora_inv_def)
  then have "e = OutOfBounds \<and> oversized str"
  proof cases
    case 1
    have "lora_stick (?l, s) = Inl e"
    proof (cases "lora_stick (?l, s)")
      case (Inr p)
      then have "data_type (fst p) = 1" using lora_stick_inv [of ?l s "fst p" "snd p"] mid 1 by simp
      then show ?thesis using assms(1) b 1 Inr by (cases p) (simp add: lora_frame_def)
    qed (use assms(1) b 1 in \<open>simp add: lora_frame_def\<close>)
    then show ?thesis using mid str by (rule lora_stick_error)
  next
    case 2
    have "lora_keys (?l, s) = Inl e"
    proof (cases "lora_keys (?l, s)")
      case (Inr p)
      then show ?thesis using assms(1) b 2 by (cases p) (simp add: lora_frame_def)
    qed (use assms(1) b 2 in \<open>simp add: lora_frame_def\<close>)
    then show ?thesis using mid str by (rule lora_keys_error)
  qed
  then show ?thesis using str by simp
qed

lemma lora_input_map: "run_bytes lora_input (map (Pair now) xs) st = run_bytes (lora_rec now) xs st"
proof (induction xs arbitrary: st)
  case (Cons x xs)
  then show ?case by (cases "lora_rec now x st") (simp_all add: lora_input_def)
qed simp

section \<open>Properties\<close>

text \<open>
  C15. No stream of bytes from the remote control, handled at any times, makes the receiver write outside its
  frame buffer.  When a stream fails at all, it fails on the end character of a frame in which a number is
  too long for the digit array it is scanned into; up to there the receiver is within its invariant.
\<close>

theorem lora_only_overflow:
  assumes "lora_ok st" and "run_bytes lora_input bs st = Inl e"
  shows "e = OutOfBounds \<and> (\<exists>as now cs l s l1 str. bs = as @ (now, CHR ''Z'') # cs \<and>
    run_bytes lora_input as st = Inr (l, s) \<and> lora_ok (l, s) \<and> lora_store CHR ''Z'' l = Inr l1 \<and>
    c_str ((lora_buffer l1)[lora_buffer_index l1 := NUL]) = Inr str \<and> oversized str)"
proof -
  obtain as b cs l s where r: "bs = as @ b # cs" "run_bytes lora_input as st = Inr (l, s)" "lora_ok (l, s)"
    "lora_input b (l, s) = Inl e"
    using lora.run_error [OF assms] by (metis surj_pair)
  obtain now ch where b: "b = (now, ch)" by (cases b)
  have "lora_rec now ch (l, s) = Inl e" using r(4) by (simp add: lora_input_def b)
  then obtain l1 where l1: "ch = CHR ''Z''" "lora_store ch l = Inr l1" "lora_mid l1" "lora_frame now (l1, s) = Inl e"
    using lora_rec_error [OF r(3)] by blast
  show ?thesis using lora_frame_error [OF l1(4,3)] l1 r b by blast
qed

theorem lora_only_overflow_witness:
  "run_bytes lora_input (map (Pair 7) ''A12345,50Z'') (lora_start, usv_init None None) = Inl OutOfBounds \<and>
   (\<exists>as now cs l s l1 str. map (Pair 7) ''A12345,50Z'' = as @ (now, CHR ''Z'') # cs \<and>
    run_bytes lora_input as (lora_start, usv_init None None) = Inr (l, s) \<and> lora_ok (l, s) \<and>
    lora_store CHR ''Z'' l = Inr l1 \<and>
    c_str ((lora_buffer l1)[lora_buffer_index l1 := NUL]) = Inr str \<and> oversized str)"
proof -
  have "run_bytes (lora_rec 7) (''A'' @ ''12345'' @ '','' @ ''50'' @ ''Z'') (lora_start, usv_init None None) =
      Inl OutOfBounds"
    using lora_stick_run [OF lora_inv_start, of "''12345''" "''50''" 7 "usv_init None None"]
    by (simp add: is_digit_iff)
  then have "run_bytes lora_input (map (Pair 7) ''A12345,50Z'') (lora_start, usv_init None None) = Inl OutOfBounds"
    unfolding lora_input_map by (simp only: append.simps)
  moreover have "lora_ok (lora_start, usv_init None None)" by (simp add: lora_ok_def)
  ultimately show ?thesis using lora_only_overflow by blast
qed

lemma itoa_digits: "0 \<le> x \<Longrightarrow> (\<forall>c \<in> set (itoa x). is_digit c) \<and> atoi (itoa x) = min int_max x"
  using show_nat_digits [of "nat x"] atoi_digits [of "show_nat (nat x)"]
  by (simp add: itoa_def read_nat_show_nat)

text \<open>
  C16. Stick frames arrive: whatever the receiver had collected before, the frame that prints a stick position
  of at most 9999 in both directions sets exactly \<^verbatim>\<open>col\<close> and \<^verbatim>\<open>row\<close> to that position, with the dead band
  from 46 to 54 mapped to the centre, and stamps the time of reception.
\<close>

theorem lora_stick_roundtrip:
  assumes "lora_inv l" "0 \<le> c" "c \<le> 9999" "0 \<le> r" "r \<le> 9999"
  shows "\<exists>l'. run_bytes (lora_rec now) (''A'' @ itoa c @ '','' @ itoa r @ ''Z'') (l, s) =
    Inr (l', s\<lparr>col := (if 46 \<le> c \<and> c \<le> 54 then 50 else i2u c),
      row := (if 46 \<le> r \<and> r \<le> 54 then 50 else i2u r), rec_tick := now\<rparr>) \<and> lora_inv l'"
proof -
  have len: "length (itoa x) \<le> 4" if "0 \<le> x" "x \<le> 9999" for x
    using show_nat_length [of "nat x" 4] that by (simp add: itoa_def nat_less_iff)
  have d: "dead_band (i2u x) = (if 46 \<le> x \<and> x \<le> 54 then 50 else i2u x)" if "0 \<le> x" "x \<le> 9999" for x
    using uint_i2u [of x] that by (auto simp: dead_band_def word_less_def)
  have a: "atoi (itoa x) = x" if "0 \<le> x" "x \<le> 9999" for x
    using itoa_digits [of x] that by (simp add: int_max_def)
  have "\<exists>l'. run_bytes (lora_rec now) (''A'' @ itoa c @ '','' @ itoa r @ ''Z'') (l, s) =
       Inr (l', s\<lparr>col := dead_band (i2u (atoi (itoa c))), row := dead_band (i2u (atoi (itoa r))), rec_tick := now\<rparr>) \<and>
       lora_inv l' \<and> lora_buffer_index l' = 0"
    using lora_stick_run [OF assms(1), of "itoa c" "itoa r" now s] itoa_digits [of c] itoa_digits [of r]
      len [of c] len [of r] assms(2-5) by simp
  then show ?thesis using assms(2-5) by (auto simp: a d)
qed

theorem lora_stick_roundtrip_witness:
  "\<exists>l'. run_bytes (lora_rec 9) (''A'' @ itoa 87 @ '','' @ itoa 52 @ ''Z'') (lora_start, usv_init None None) =
    Inr (l', (usv_init None None)\<lparr>col := i2u 87, row := 50, rec_tick := 9\<rparr>) \<and> lora_inv l'"
  using lora_stick_roundtrip [OF lora_inv_start, of 87 52 9 "usv_init None None"] by simp

text \<open>
  Key frames arrive: from any state of the receiver, a frame with one to five digits sets the three keys
  the first two digits encode (enable: first digit odd; winch: first digit 1 modulo 3; pump: second digit 1
  modulo 3, released when there is no second digit), stamps the time, and touches nothing else.
\<close>

theorem lora_keys_frame:
  assumes "lora_inv l" "\<forall>c \<in> set ds. is_digit c" "ds \<noteq> []" "length ds \<le> 5"
  shows "\<exists>l'. run_bytes (lora_rec now) (''H'' @ ds @ ''Z'') (l, s) =
    Inr (l', s\<lparr>key := keys_of ds (key s), rec_tick := now\<rparr>) \<and> lora_inv l'"
  using lora_keys_run [OF assms, of now s] by auto

theorem lora_keys_frame_witness:
  "\<exists>l'. run_bytes (lora_rec 9) (''H'' @ ''31000'' @ ''Z'') (lora_start, usv_init None None) =
    Inr (l', (usv_init None None)\<lparr>key := [1, 0, 1, 0, 0, 0, 0, 0], rec_tick := 9\<rparr>) \<and> lora_inv l'"
proof -
  have "keys_of ''31000'' (key (usv_init None None)) = [1, 0, 1, 0, 0, 0, 0, 0]"
    by (simp add: keys_of_def usv_init_def digit_val_def)
  then show ?thesis
    using lora_keys_frame [OF lora_inv_start, of "''31000''" 9 "usv_init None None"] by (simp add: is_digit_iff)
qed

end
