(* ===== verification/Kprintf.thy ===== *)
theory Kprintf
  imports C_String
begin

unbundle bit_operations_syntax

text \<open>
  The formatted output of the kernel, \<^verbatim>\<open>src/rt-thread/src/kservice.c\<close>: \<^verbatim>\<open>rt_vsnprintf\<close> with its helpers, the
  wrappers \<^verbatim>\<open>rt_snprintf\<close>, \<^verbatim>\<open>rt_sprintf\<close> and \<^verbatim>\<open>rt_kprintf\<close>.  It is compiled with \<^verbatim>\<open>RT_PRINTF_PRECISION\<close> and without
  \<^verbatim>\<open>RT_PRINTF_LONGLONG\<close> and \<^verbatim>\<open>RT_PRINTF_SPECIAL\<close>, so \<^verbatim>\<open>#\<close> has no effect.

  The output is a pair: the distance of \<^verbatim>\<open>str\<close> from the start of the buffer, and the memory from there on; \<^verbatim>\<open>end\<close>
  is a distance too.  The format is the list of its characters before the terminating NUL.  The
  arguments are a list of words (\<^verbatim>\<open>int\<close>, \<^verbatim>\<open>unsigned\<close>, pointers as their address) and of pointers to
  characters, null or to an array; an argument that is missing or of the wrong kind is \<open>Uninitialized\<close>.
\<close>

section \<open>The code\<close>

type_synonym out = "nat \<times> char list"

datatype arg = ArgInt u32 | ArgStr "char list option"

definition ZEROPAD :: u8 where "ZEROPAD = 1"
definition SIGN :: u8 where "SIGN = 2"
definition PLUS :: u8 where "PLUS = 4"
definition SPACE :: u8 where "SPACE = 8"
definition LEFT :: u8 where "LEFT = 16"
definition SPECIAL :: u8 where "SPECIAL = 32"
definition LARGE :: u8 where "LARGE = 64"

definition flag_set :: "u8 \<Rightarrow> u8 \<Rightarrow> bool" where
  "flag_set flags f \<longleftrightarrow> flags AND f \<noteq> 0"

text \<open>\<^verbatim>\<open>if (str < end) *str = c; ++ str;\<close>\<close>

definition emit :: "nat \<Rightarrow> char \<Rightarrow> out \<Rightarrow> out res" where
  "emit e c = (\<lambda>(p, a). bind_res (if p < e then arr_put a p c else Inr a) (\<lambda>a. Inr (Suc p, a)))"

text \<open>\<^verbatim>\<open>while (size-- > 0)\<close> with the output of one character in the body.\<close>

function pad :: "nat \<Rightarrow> char \<Rightarrow> int \<Rightarrow> out \<Rightarrow> (int \<times> out) res" where
  "pad e c sz st =
     (if 0 < sz then bind_res (emit e c st) (pad e c (sz - 1))
      else bind_res (chk (sz - 1)) (\<lambda>sz. Inr (sz, st)))"
  by auto
termination by (relation "measure (\<lambda>(e, c, sz, st). nat sz)") auto

declare pad.simps [simp del]

definition small_digits :: string where "small_digits = ''0123456789abcdef''"
definition large_digits :: string where "large_digits = ''0123456789ABCDEF''"

text \<open>One division step: the digit and the quotient.  Every base but 10 divides by 16.\<close>

definition divide_digit :: "u32 \<Rightarrow> int \<Rightarrow> nat \<times> u32" where
  "divide_digit n base = (if base = 10 then (unat (n mod 10), n div 10) else (unat (n mod 16), n div 16))"

text \<open>\<^verbatim>\<open>while (num != 0) tmp[i++] = digits[divide(&num, base)];\<close> with \<^verbatim>\<open>char tmp[16]\<close>; the list holds \<^verbatim>\<open>tmp[0..i)\<close>.\<close>

lemma word_div_less: "n \<noteq> 0 \<Longrightarrow> 1 < d \<Longrightarrow> unat (n div d) < unat n" for n d :: u32
  by (simp add: unat_div_distrib word_less_nat_alt unat_gt_0)

function number_digits :: "string \<Rightarrow> int \<Rightarrow> string \<Rightarrow> u32 \<Rightarrow> string res" where
  "number_digits digits base tmp num =
     (if num = 0 then Inr tmp
      else if 16 \<le> length tmp then Inl OutOfBounds
      else number_digits digits base (tmp @ [digits ! fst (divide_digit num base)]) (snd (divide_digit num base)))"
  by auto
termination
  by (relation "measure (\<lambda>(digits, base, tmp, num). unat num)") (auto simp: divide_digit_def word_div_less)

declare number_digits.simps [simp del]

text \<open>\<^verbatim>\<open>while (i-- > 0 && (precision_bak != 0))\<close>: the digits from the last one down.\<close>

fun put_digits :: "nat \<Rightarrow> string \<Rightarrow> int \<Rightarrow> out \<Rightarrow> out res" where
  "put_digits e [] precision_bak st = Inr st"
| "put_digits e (d # ds) precision_bak st =
     (if precision_bak \<noteq> 0 then bind_res (emit e d st) (put_digits e ds precision_bak) else Inr st)"

definition print_number :: "nat \<Rightarrow> int \<Rightarrow> int \<Rightarrow> int \<Rightarrow> int \<Rightarrow> u8 \<Rightarrow> out \<Rightarrow> out res" where
  "print_number e num base s precision type st =
     (let precision_bak = precision;
          sz = s;
          digits = (if flag_set type LARGE then large_digits else small_digits);
          type = (if flag_set type LEFT then type AND NOT ZEROPAD else type);
          c = (if flag_set type ZEROPAD then CHR ''0'' else CHR '' '');
          sign = (if flag_set type SIGN then
                    (if num < 0 then Some CHR ''-''
                     else if flag_set type PLUS then Some CHR ''+''
                     else if flag_set type SPACE then Some CHR '' '' else None)
                  else None)
      in bind_res (if flag_set type SIGN \<and> num < 0 then chk (- num) else Inr num) (\<lambda>num.
         bind_res (if num = 0 then Inr [CHR ''0''] else number_digits digits base [] (i2u num)) (\<lambda>tmp.
         let i = int (length tmp);
             precision = (if precision < i then i else precision)
         in bind_res (chk (sz - precision)) (\<lambda>sz.
         bind_res
           (if \<not> flag_set type (ZEROPAD OR LEFT)
            then pad e CHR '' '' (if sign \<noteq> None \<and> 0 < sz then sz - 1 else sz) st
            else Inr (sz, st)) (\<lambda>(sz, st).
         bind_res
           (case sign of None \<Rightarrow> Inr (sz, st)
            | Some ch \<Rightarrow> bind_res (emit e ch st) (\<lambda>st. bind_res (chk (sz - 1)) (\<lambda>sz. Inr (sz, st)))) (\<lambda>(sz, st).
         bind_res (if \<not> flag_set type LEFT then pad e c sz st else Inr (sz, st)) (\<lambda>(sz, st).
         bind_res (pad e CHR ''0'' (precision - i) st) (\<lambda>(_, st).
         bind_res (put_digits e (rev tmp) precision_bak st) (\<lambda>st.
         bind_res (pad e CHR '' '' sz st) (\<lambda>(_, st). Inr st))))))))))"

text \<open>The character at the format pointer; NUL at the end.\<close>

definition fmt_at :: "string \<Rightarrow> char" where
  "fmt_at fmt = (case fmt of [] \<Rightarrow> NUL | c # _ \<Rightarrow> c)"

text \<open>The flags; the format pointer is already past the \<^verbatim>\<open>%\<close>.\<close>

fun parse_flags :: "u8 \<Rightarrow> string \<Rightarrow> u8 \<times> string" where
  "parse_flags flags [] = (flags, [])"
| "parse_flags flags (c # fmt) =
     (if c = CHR ''-'' then parse_flags (flags OR LEFT) fmt
      else if c = CHR ''+'' then parse_flags (flags OR PLUS) fmt
      else if c = CHR '' '' then parse_flags (flags OR SPACE) fmt
      else if c = CHR ''#'' then parse_flags (flags OR SPECIAL) fmt
      else if c = CHR ''0'' then parse_flags (flags OR ZEROPAD) fmt
      else (flags, c # fmt))"

fun skip_atoi :: "int \<Rightarrow> string \<Rightarrow> (int \<times> string) res" where
  "skip_atoi i [] = Inr (i, [])"
| "skip_atoi i (c # fmt) =
     (if is_digit c then bind_res (chk (i * 10 + of_char c)) (\<lambda>x. skip_atoi (x - 48) fmt) else Inr (i, c # fmt))"

text \<open>\<^verbatim>\<open>va_arg\<close> for a word and for a pointer to characters.\<close>

fun arg_int :: "arg list \<Rightarrow> (u32 \<times> arg list) res" where
  "arg_int (ArgInt w # args) = Inr (w, args)"
| "arg_int _ = Inl Uninitialized"

fun arg_str :: "arg list \<Rightarrow> (char list option \<times> arg list) res" where
  "arg_str (ArgStr s # args) = Inr (s, args)"
| "arg_str _ = Inl Uninitialized"

definition parse_width :: "u8 \<Rightarrow> string \<Rightarrow> arg list \<Rightarrow> (u8 \<times> int \<times> string \<times> arg list) res" where
  "parse_width flags fmt args =
     (if is_digit (fmt_at fmt) then bind_res (skip_atoi 0 fmt) (\<lambda>(field_width, fmt). Inr (flags, field_width, fmt, args))
      else if fmt_at fmt = CHR ''*'' then
        bind_res (arg_int args) (\<lambda>(w, args).
          if u2i w < 0 then bind_res (chk (- u2i w)) (\<lambda>field_width. Inr (flags OR LEFT, field_width, tl fmt, args))
          else Inr (flags, u2i w, tl fmt, args))
      else Inr (flags, -1, fmt, args))"

definition parse_precision :: "string \<Rightarrow> arg list \<Rightarrow> (int \<times> string \<times> arg list) res" where
  "parse_precision fmt args =
     (if fmt_at fmt = CHR ''.'' then
        bind_res
          (if is_digit (fmt_at (tl fmt)) then bind_res (skip_atoi 0 (tl fmt)) (\<lambda>(precision, fmt). Inr (precision, fmt, args))
           else if fmt_at (tl fmt) = CHR ''*'' then
             bind_res (arg_int args) (\<lambda>(w, args). Inr (u2i w, tl (tl fmt), args))
           else Inr (-1, tl fmt, args))
          (\<lambda>(precision, fmt, args). Inr (if precision < 0 then 0 else precision, fmt, args))
      else Inr (-1, fmt, args))"

definition parse_qualifier :: "string \<Rightarrow> char \<times> string" where
  "parse_qualifier fmt = (if fmt_at fmt = CHR ''h'' \<or> fmt_at fmt = CHR ''l'' then (fmt_at fmt, tl fmt) else (NUL, fmt))"

text \<open>\<^verbatim>\<open>while (--field_width > 0)\<close> and \<^verbatim>\<open>while (len < field_width--)\<close> with the output of a space in the body.\<close>

function pad_pre :: "nat \<Rightarrow> int \<Rightarrow> out \<Rightarrow> (int \<times> out) res" where
  "pad_pre e w st =
     (if 0 < w - 1 then bind_res (emit e CHR '' '' st) (pad_pre e (w - 1))
      else bind_res (chk (w - 1)) (\<lambda>w. Inr (w, st)))"
  by auto
termination by (relation "measure (\<lambda>(e, w, st). nat w)") auto

function pad_upto :: "nat \<Rightarrow> int \<Rightarrow> int \<Rightarrow> out \<Rightarrow> (int \<times> out) res" where
  "pad_upto e len w st =
     (if len < w then bind_res (emit e CHR '' '' st) (pad_upto e len (w - 1))
      else bind_res (chk (w - 1)) (\<lambda>w. Inr (w, st)))"
  by auto
termination by (relation "measure (\<lambda>(e, len, w, st). nat (w - len))") auto

declare pad_pre.simps [simp del] pad_upto.simps [simp del]

fun put_chars :: "nat \<Rightarrow> string \<Rightarrow> out \<Rightarrow> out res" where
  "put_chars e [] st = Inr st"
| "put_chars e (c # cs) st = bind_res (emit e c st) (put_chars e cs)"

text \<open>The argument of an integer conversion, converted to \<^verbatim>\<open>long\<close>.\<close>

definition number_arg :: "char \<Rightarrow> u8 \<Rightarrow> u32 \<Rightarrow> int" where
  "number_arg qualifier flags w =
     (if qualifier = CHR ''h''
      then u2i (if flag_set flags SIGN then scast (ucast w :: u16) else ucast (ucast w :: u16))
      else u2i w)"

definition convert_char :: "nat \<Rightarrow> u8 \<Rightarrow> int \<Rightarrow> char \<Rightarrow> out \<Rightarrow> out res" where
  "convert_char e flags field_width c st =
     bind_res (if \<not> flag_set flags LEFT then pad_pre e field_width st else Inr (field_width, st)) (\<lambda>(field_width, st).
     bind_res (emit e c st) (\<lambda>st.
     bind_res (pad_pre e field_width st) (\<lambda>(_, st). Inr st)))"

definition convert_string :: "nat \<Rightarrow> u8 \<Rightarrow> int \<Rightarrow> int \<Rightarrow> char list option \<Rightarrow> out \<Rightarrow> out res" where
  "convert_string e flags field_width precision s st =
     bind_res (c_str (case s of None \<Rightarrow> ''(NULL)'' @ [NUL] | Some arr \<Rightarrow> arr)) (\<lambda>s.
     let len = int (length s);
         len = (if 0 < precision \<and> precision < len then precision else len)
     in bind_res (if \<not> flag_set flags LEFT then pad_upto e len field_width st else Inr (field_width, st)) (\<lambda>(field_width, st).
        bind_res (put_chars e (take (nat len) s) st) (\<lambda>st.
        bind_res (pad_upto e len field_width st) (\<lambda>(_, st). Inr st))))"

text \<open>The \<^verbatim>\<open>switch\<close>; the result holds the format after the conversion, the remaining arguments and the output.\<close>

definition convert :: "nat \<Rightarrow> u8 \<Rightarrow> int \<Rightarrow> int \<Rightarrow> char \<Rightarrow> string \<Rightarrow> arg list \<Rightarrow> out \<Rightarrow> (string \<times> arg list \<times> out) res" where
  "convert e flags field_width precision qualifier fmt args st =
     (let ch = fmt_at fmt in
      if ch = CHR ''c'' then
        bind_res (arg_int args) (\<lambda>(w, args).
        bind_res (convert_char e flags field_width (char_of (unat (ucast w :: u8))) st) (\<lambda>st. Inr (tl fmt, args, st)))
      else if ch = CHR ''s'' then
        bind_res (arg_str args) (\<lambda>(s, args).
        bind_res (convert_string e flags field_width precision s st) (\<lambda>st. Inr (tl fmt, args, st)))
      else if ch = CHR ''p'' then
        bind_res (arg_int args) (\<lambda>(w, args).
        bind_res
          (if field_width = -1 then print_number e (u2i w) 16 8 precision (flags OR ZEROPAD) st
           else print_number e (u2i w) 16 field_width precision flags st) (\<lambda>st. Inr (tl fmt, args, st)))
      else if ch = CHR ''%'' then bind_res (emit e CHR ''%'' st) (\<lambda>st. Inr (tl fmt, args, st))
      else if ch \<in> set ''oXxdiu'' then
        (let base = (if ch = CHR ''o'' then 8 else if ch = CHR ''X'' \<or> ch = CHR ''x'' then 16 else 10);
             flags = (if ch = CHR ''X'' then flags OR LARGE
                      else if ch = CHR ''d'' \<or> ch = CHR ''i'' then flags OR SIGN else flags)
         in bind_res (arg_int args) (\<lambda>(w, args).
            bind_res (print_number e (number_arg qualifier flags w) base field_width precision flags st)
              (\<lambda>st. Inr (tl fmt, args, st))))
      else
        bind_res (emit e CHR ''%'' st) (\<lambda>st.
          if ch \<noteq> NUL then bind_res (emit e ch st) (\<lambda>st. Inr (tl fmt, args, st)) else Inr (fmt, args, st)))"

definition conversion :: "nat \<Rightarrow> string \<Rightarrow> arg list \<Rightarrow> out \<Rightarrow> (string \<times> arg list \<times> out) res" where
  "conversion e fmt args st =
     (let (flags, fmt) = parse_flags 0 fmt in
      bind_res (parse_width flags fmt args) (\<lambda>(flags, field_width, fmt, args).
      bind_res (parse_precision fmt args) (\<lambda>(precision, fmt, args).
      let (qualifier, fmt) = parse_qualifier fmt in
      convert e flags field_width precision qualifier fmt args st)))"

lemma bind_res_cong [fundef_cong]:
  "m = m' \<Longrightarrow> (\<And>x. m' = Inr x \<Longrightarrow> f x = f' x) \<Longrightarrow> bind_res m f = bind_res m' f'"
  by (cases m') auto

lemma length_parse_flags: "length (snd (parse_flags flags fmt)) \<le> length fmt"
  by (induction flags fmt rule: parse_flags.induct) auto

lemma length_skip_atoi: "skip_atoi i fmt = Inr (x, fmt') \<Longrightarrow> length fmt' \<le> length fmt"
proof (induction i fmt rule: skip_atoi.induct)
  case (2 i c fmt)
  then show ?case by (force elim!: bind_resE split: if_splits)
qed simp

lemma length_conversion: "conversion e fmt args st = Inr (fmt', args', st') \<Longrightarrow> length fmt' \<le> length fmt"
proof -
  obtain flags f1 where 1: "parse_flags 0 fmt = (flags, f1)" by fastforce
  then have l1: "length f1 \<le> length fmt" using length_parse_flags [of 0 fmt] by simp
  have l2: "length f2 \<le> length f1" if "parse_width flags f1 args = Inr (fl, w, f2, args2)" for fl w f2 args2
    using that by (auto simp: parse_width_def elim!: bind_resE dest!: length_skip_atoi split: if_splits)
  have l3: "length f3 \<le> length f2" if "parse_precision f2 args2 = Inr (w, f3, args3)" for f2 args2 w f3 args3
    using that by (auto simp: parse_precision_def elim!: bind_resE dest!: length_skip_atoi split: if_splits)
  have l4: "length (snd (parse_qualifier f)) \<le> length f" for f by (simp add: parse_qualifier_def)
  have l5: "length f' \<le> length f" if "convert e fl w pr q f args2 st = Inr (f', args3, st3)" for fl w pr q f args2 f' args3 st3
    using that by (auto simp: convert_def Let_def elim!: bind_resE split: if_splits)
  assume "conversion e fmt args st = Inr (fmt', args', st')"
  then show ?thesis unfolding conversion_def 1
    by (auto elim!: bind_resE dest!: l2 l3 l5 split: prod.splits) (metis l1 l4 le_trans snd_conv)
qed

function vformat :: "nat \<Rightarrow> string \<Rightarrow> arg list \<Rightarrow> out \<Rightarrow> out res" where
  "vformat e [] args st = Inr st"
| "vformat e (c # fmt) args st =
     (if c \<noteq> CHR ''%'' then bind_res (emit e c st) (vformat e fmt args)
      else bind_res (conversion e fmt args st) (\<lambda>(fmt, args, st). vformat e fmt args st))"
  by pat_completeness auto
termination by (relation "measure (\<lambda>(e, fmt, args, st). length fmt)") (auto dest!: length_conversion)

text \<open>
  \<^verbatim>\<open>rt_vsnprintf\<close> for a buffer at the address \<open>b\<close> with the memory \<open>arr\<close> from there on.  The result is the value
  returned and the memory.  The first two lines keep \<^verbatim>\<open>end\<close> above \<^verbatim>\<open>buf\<close> when the sum wraps.
\<close>

definition rt_vsnprintf :: "u32 \<Rightarrow> u32 \<Rightarrow> char list \<Rightarrow> string \<Rightarrow> arg list \<Rightarrow> (int \<times> char list) res" where
  "rt_vsnprintf b n arr fmt args =
     (let n = (if b + n < b then - 1 - b else n); e = unat n in
      bind_res (vformat e fmt args (0, arr)) (\<lambda>(p, arr).
      bind_res (if 0 < n then (if p < e then arr_put arr p NUL else arr_put arr (e - 1) NUL) else Inr arr) (\<lambda>arr.
      Inr (int p, arr))))"

definition rt_snprintf :: "u32 \<Rightarrow> u32 \<Rightarrow> char list \<Rightarrow> string \<Rightarrow> arg list \<Rightarrow> (int \<times> char list) res" where
  "rt_snprintf b n arr fmt args = rt_vsnprintf b n arr fmt args"

definition rt_vsprintf :: "u32 \<Rightarrow> char list \<Rightarrow> string \<Rightarrow> arg list \<Rightarrow> (int \<times> char list) res" where
  "rt_vsprintf b arr fmt args = rt_vsnprintf b (- 1) arr fmt args"

definition rt_sprintf :: "u32 \<Rightarrow> char list \<Rightarrow> string \<Rightarrow> arg list \<Rightarrow> (int \<times> char list) res" where
  "rt_sprintf b arr fmt args = rt_vsprintf b arr fmt args"

text \<open>
  \<^verbatim>\<open>rt_kprintf\<close>: the text goes through the static buffer of \<^verbatim>\<open>RT_CONSOLEBUF_SIZE\<close> characters at address \<open>b\<close>; the
  result is the text handed to the console device and the buffer afterwards.
\<close>

definition RT_CONSOLEBUF_SIZE :: u32 where "RT_CONSOLEBUF_SIZE = 256"

definition rt_kprintf_write :: "u32 \<Rightarrow> char list \<Rightarrow> string \<Rightarrow> arg list \<Rightarrow> (string \<times> char list) res" where
  "rt_kprintf_write b log_buf fmt args =
     bind_res (rt_vsnprintf b (RT_CONSOLEBUF_SIZE - 1) log_buf fmt args) (\<lambda>(len, log_buf).
       let len = i2u len;
           len = (if RT_CONSOLEBUF_SIZE - 1 < len then RT_CONSOLEBUF_SIZE - 1 else len)
       in if unat len \<le> length log_buf then Inr (take (unat len) log_buf, log_buf) else Inl OutOfBounds)"

section \<open>The text is independent of the buffer\<close>

text \<open>The output after writing \<open>t\<close>: what fits below \<open>e\<close> is stored, the rest only counted.\<close>

definition emitted :: "nat \<Rightarrow> string \<Rightarrow> out \<Rightarrow> out" where
  "emitted e t st = foldl (\<lambda>(p, a) c. (Suc p, if p < e then a[p := c] else a)) st t"

lemma emitted_length: "length (snd (emitted e t st)) = length (snd st) \<and> fst (emitted e t st) = fst st + length t"
proof (induction t arbitrary: st)
  case (Cons c t)
  then show ?case by (cases st) (simp add: emitted_def)
qed (simp add: emitted_def)

lemma emitted_simps [simp]:
  "emitted e [] st = st" "emitted e (t @ u) st = emitted e u (emitted e t st)"
  "length (snd (emitted e t st)) = length (snd st)" "fst (emitted e t st) = fst st + length t"
  using emitted_length by (simp_all add: emitted_def)

lemma emitted_Cons: "emitted e (c # t) st = emitted e t (emitted e [c] st)"
  using emitted_simps(2) [of e "[c]" t st] by simp

lemma emitted_0: "e \<le> length a \<Longrightarrow> emitted e t (0, a) = (length t, take e t @ drop (min e (length t)) a)"
proof (induction t rule: rev_induct)
  case (snoc c t)
  then have "emitted e (t @ [c]) (0, a) =
      (Suc (length t), if length t < e then (take e t @ drop (min e (length t)) a)[length t := c]
        else take e t @ drop (min e (length t)) a)"
    by (simp add: emitted_def)
  then show ?case using snoc.prems by (auto simp: list_update_append upd_conv_take_nth_drop)
qed simp

text \<open>
  An operation that writes text: whether it fails, the value it returns and the text it appends depend neither on the
  buffer nor on its length.  \<open>k\<close> pairs the value with the output.
\<close>

definition prints :: "('v \<Rightarrow> out \<Rightarrow> 'b) \<Rightarrow> (nat \<Rightarrow> out \<Rightarrow> 'b res) \<Rightarrow> bool" where
  "prints k f \<longleftrightarrow> (\<exists>r. \<forall>e st. e \<le> length (snd st) \<longrightarrow>
     f e st = (case r of Inl x \<Rightarrow> Inl x | Inr (v, t) \<Rightarrow> Inr (k v (emitted e t st))))"

abbreviation "prints0 \<equiv> prints (\<lambda>_ :: unit. \<lambda>st. st)"
abbreviation "prints1 \<equiv> prints Pair"
abbreviation "prints2 \<equiv> prints (\<lambda>(u, v) st. (u, v, st))"

lemma prints_fail: "prints k (\<lambda>e st. Inl x)"
  unfolding prints_def by (rule exI [of _ "Inl x"]) simp

lemma prints_return: "prints k (\<lambda>e st. Inr (k v st))"
  unfolding prints_def by (rule exI [of _ "Inr (v, [])"]) simp

lemma prints_if: "prints k f \<Longrightarrow> prints k g \<Longrightarrow> prints k (\<lambda>e st. if b then f e st else g e st)"
  by (cases b) auto

lemma prints_pure: "(\<And>x. prints k (\<lambda>e st. f x e st)) \<Longrightarrow> prints k (\<lambda>e st. bind_res m (\<lambda>x. f x e st))"
  by (cases m) (auto intro: prints_fail)

lemma prints_bind:
  assumes "prints k f" "\<And>v. prints k' (\<lambda>e st. g e (k v st))"
  shows "prints k' (\<lambda>e st. bind_res (f e st) (g e))"
proof -
  obtain r where f: "\<And>e st. e \<le> length (snd st) \<Longrightarrow> f e st = (case r of Inl x \<Rightarrow> Inl x | Inr (v, t) \<Rightarrow> Inr (k v (emitted e t st)))"
    using assms(1) unfolding prints_def by blast
  show ?thesis
  proof (cases r)
    case (Inl x)
    then show ?thesis by (auto simp: f prints_def intro: exI [of _ "Inl x"])
  next
    case (Inr vt)
    then obtain v t where r: "r = Inr (v, t)" by (cases vt) simp
    obtain r' where g: "\<And>e st. e \<le> length (snd st) \<Longrightarrow>
        g e (k v st) = (case r' of Inl x \<Rightarrow> Inl x | Inr (v, t) \<Rightarrow> Inr (k' v (emitted e t st)))"
      using assms(2) [of v] unfolding prints_def by blast
    show ?thesis unfolding prints_def
      by (rule exI [of _ "case r' of Inl x \<Rightarrow> Inl x | Inr (v', t') \<Rightarrow> Inr (v', t @ t')"]) (auto simp: f r g split: sum.splits)
  qed
qed

lemmas prints_return0 = prints_return [of "\<lambda>_ :: unit. \<lambda>st. st" "()"]
lemmas prints_return1 = prints_return [of Pair]

lemma prints_return2: "prints2 (\<lambda>e st. Inr (u, v, st))"
  using prints_return [of "\<lambda>(u, v) st. (u, v, st)" "(u, v)"] by simp

lemma prints_bind0: "prints0 f \<Longrightarrow> prints k g \<Longrightarrow> prints k (\<lambda>e st. bind_res (f e st) (g e))"
  using prints_bind [of "\<lambda>_ :: unit. \<lambda>st. st" f k g] by simp

lemma prints_bind1:
  "prints1 f \<Longrightarrow> (\<And>v. prints k (g v)) \<Longrightarrow> prints k (\<lambda>e st. bind_res (f e st) (\<lambda>(v, st). g v e st))"
  using prints_bind [of Pair f k "\<lambda>e (v, st). g v e st"] by simp

lemma prints_bind2:
  "prints2 f \<Longrightarrow> (\<And>u v. prints k (g u v)) \<Longrightarrow> prints k (\<lambda>e st. bind_res (f e st) (\<lambda>(u, v, st). g u v e st))"
  using prints_bind [of "\<lambda>(u, v) st. (u, v, st)" f k "\<lambda>e (u, v, st). g u v e st"] by auto

lemma emit_eq: "e \<le> length (snd st) \<Longrightarrow> emit e c st = Inr (emitted e [c] st)"
  by (cases st) (simp add: emit_def emitted_def)

lemma prints_emit: "prints0 (\<lambda>e. emit e c)"
  unfolding prints_def by (rule exI [of _ "Inr ((), [c])"]) (simp add: emit_eq)

lemma prints_emitted:
  "(\<And>e st. e \<le> length (snd st) \<Longrightarrow> f e st = bind_res m (\<lambda>v. Inr (k v (emitted e (t v) st)))) \<Longrightarrow> prints k f"
  unfolding prints_def by (rule exI [of _ "bind_res m (\<lambda>v. Inr (v, t v))"]) (cases m; simp)

lemma replicate_nat: "0 < n \<Longrightarrow> replicate (nat n) c = c # replicate (nat (n - 1)) c"
  by (cases "nat n") (auto simp: nat_diff_distrib)

lemma emitted_replicate:
  "0 < n \<Longrightarrow> emitted e (replicate (nat n) c) st = emitted e (replicate (nat (n - 1)) c) (emitted e [c] st)"
  by (simp only: replicate_nat emitted_Cons [of e c "replicate _ _"])

lemma pad_eq:
  "e \<le> length (snd st) \<Longrightarrow>
     pad e c n st = bind_res (chk (min n 0 - 1)) (\<lambda>v. Inr (v, emitted e (replicate (nat n) c) st))"
proof (induction "nat n" arbitrary: n st)
  case 0
  then show ?case by (subst pad.simps) (simp add: min_def)
next
  case (Suc m)
  then have n: "0 < n" "min n 0 = 0" "min (n - 1) 0 = 0" by linarith+
  have "pad e c (n - 1) (emitted e [c] st) =
      bind_res (chk (min (n - 1) 0 - 1)) (\<lambda>v. Inr (v, emitted e (replicate (nat (n - 1)) c) (emitted e [c] st)))"
    using Suc.hyps(2) Suc.prems by (intro Suc.hyps(1)) auto
  then show ?case using n Suc.prems by (subst pad.simps) (simp add: emit_eq emitted_replicate)
qed

lemma pad_pre_eq:
  "e \<le> length (snd st) \<Longrightarrow>
     pad_pre e w st = bind_res (chk (min (w - 1) 0)) (\<lambda>v. Inr (v, emitted e (replicate (nat (w - 1)) CHR '' '') st))"
proof (induction "nat (w - 1)" arbitrary: w st)
  case 0
  then show ?case by (subst pad_pre.simps) (simp add: min_def)
next
  case (Suc m)
  then have n: "0 < w - 1" "min (w - 1) 0 = 0" "min (w - 1 - 1) 0 = 0" by linarith+
  have "pad_pre e (w - 1) (emitted e '' '' st) =
      bind_res (chk (min (w - 1 - 1) 0)) (\<lambda>v. Inr (v, emitted e (replicate (nat (w - 1 - 1)) CHR '' '') (emitted e '' '' st)))"
    using Suc.hyps(2) Suc.prems by (intro Suc.hyps(1)) auto
  then show ?case unfolding emitted_replicate [OF n(1)] n(2,3)
    using n(1) Suc.prems by (subst pad_pre.simps) (simp add: emit_eq)
qed

lemma pad_upto_eq:
  "e \<le> length (snd st) \<Longrightarrow> pad_upto e len w st =
     bind_res (chk (min w len - 1)) (\<lambda>v. Inr (v, emitted e (replicate (nat (w - len)) CHR '' '') st))"
proof (induction "nat (w - len)" arbitrary: w st)
  case 0
  then show ?case by (subst pad_upto.simps) (simp add: min_def)
next
  case (Suc m)
  then have n: "0 < w - len" "min w len = len" "min (w - 1) len = len" "w - 1 - len = w - len - 1" by linarith+
  have "pad_upto e len (w - 1) (emitted e '' '' st) =
      bind_res (chk (min (w - 1) len - 1)) (\<lambda>v. Inr (v, emitted e (replicate (nat (w - 1 - len)) CHR '' '') (emitted e '' '' st)))"
    using Suc.hyps(2) Suc.prems by (intro Suc.hyps(1)) auto
  then show ?case unfolding emitted_replicate [OF n(1)] n(2,3,4)
    using n(1) Suc.prems by (subst pad_upto.simps) (simp add: emit_eq)
qed

lemma prints_pad: "prints1 (\<lambda>e. pad e c n)"
  by (rule prints_emitted) (rule pad_eq)

lemma prints_pad_pre: "prints1 (\<lambda>e. pad_pre e w)"
  by (rule prints_emitted) (rule pad_pre_eq)

lemma prints_pad_upto: "prints1 (\<lambda>e. pad_upto e len w)"
  by (rule prints_emitted) (rule pad_upto_eq)

lemma put_chars_eq: "e \<le> length (snd st) \<Longrightarrow> put_chars e t st = Inr (emitted e t st)"
proof (induction t arbitrary: st)
  case (Cons c t)
  then show ?case by (subst emitted_Cons) (simp add: emit_eq)
qed simp

lemma put_digits_eq:
  "e \<le> length (snd st) \<Longrightarrow> put_digits e ds precision_bak st = Inr (emitted e (if precision_bak = 0 then [] else ds) st)"
proof (induction ds arbitrary: st)
  case (Cons c t)
  then show ?case using emitted_Cons [of e c t] by (auto simp: emit_eq)
qed simp

lemma prints_put_chars: "prints0 (\<lambda>e. put_chars e t)"
  using prints_emitted [of "\<lambda>e. put_chars e t" "Inr ()" "\<lambda>_ :: unit. \<lambda>st. st" "\<lambda>_. t"] by (simp add: put_chars_eq)

lemma prints_put_digits: "prints0 (\<lambda>e. put_digits e ds precision_bak)"
  using prints_emitted [of "\<lambda>e. put_digits e ds precision_bak" "Inr ()" "\<lambda>_ :: unit. \<lambda>st. st"
      "\<lambda>_. if precision_bak = 0 then [] else ds"]
  by (simp add: put_digits_eq)

lemma prints_let: "(\<And>x. prints k (f x)) \<Longrightarrow> prints k (\<lambda>e st. let x = v in f x e st)"
  by simp

lemma prints_case_prod: "(\<And>x y. prints k (f x y)) \<Longrightarrow> prints k (\<lambda>e st. case m of (x, y) \<Rightarrow> f x y e st)"
  by (cases m) simp

lemma prints_case_option:
  "prints k f \<Longrightarrow> (\<And>x. prints k (g x)) \<Longrightarrow> prints k (\<lambda>e st. case m of None \<Rightarrow> f e st | Some x \<Rightarrow> g x e st)"
  by (cases m) auto

lemmas prints_rules = prints_return0 prints_return1 prints_return2 prints_fail prints_if prints_let prints_case_prod
  prints_case_option prints_pure prints_emit prints_pad prints_pad_pre prints_pad_upto prints_put_chars prints_put_digits
  prints_bind0 prints_bind1 prints_bind2

lemma prints_print_number: "prints0 (\<lambda>e. print_number e num base s precision type)"
  unfolding print_number_def by (rule prints_rules)+

lemma prints_convert_char: "prints0 (\<lambda>e. convert_char e flags w c)"
  unfolding convert_char_def by (rule prints_rules)+

lemma prints_convert_string: "prints0 (\<lambda>e. convert_string e flags w pr s)"
  unfolding convert_string_def by (rule prints_rules)+

lemma prints_convert: "prints2 (\<lambda>e. convert e flags w pr q fmt args)"
  unfolding convert_def by (rule prints_rules prints_print_number prints_convert_char prints_convert_string)+

lemma prints_conversion: "prints2 (\<lambda>e. conversion e fmt args)"
  unfolding conversion_def by (rule prints_rules prints_convert)+

lemma prints0E:
  assumes "prints0 f"
  obtains x where "\<And>e st. e \<le> length (snd st) \<Longrightarrow> f e st = Inl x"
  | t where "\<And>e st. e \<le> length (snd st) \<Longrightarrow> f e st = Inr (emitted e t st)"
proof -
  obtain r where "\<forall>e st. e \<le> length (snd st) \<longrightarrow> f e st = (case r of Inl x \<Rightarrow> Inl x | Inr (v :: unit, t) \<Rightarrow> Inr (emitted e t st))"
    using assms unfolding prints_def by auto
  then show ?thesis using that by (cases r) (auto split: prod.splits)
qed

lemma prints2E:
  assumes "prints2 f"
  obtains x where "\<And>e st. e \<le> length (snd st) \<Longrightarrow> f e st = Inl x"
  | u v t where "\<And>e st. e \<le> length (snd st) \<Longrightarrow> f e st = Inr (u, v, emitted e t st)"
proof -
  obtain r where "\<forall>e st. e \<le> length (snd st) \<longrightarrow> f e st = (case r of Inl x \<Rightarrow> Inl x
      | Inr (v, t) \<Rightarrow> Inr ((\<lambda>(u, v) st. (u, v, st)) v (emitted e t st)))"
    using assms unfolding prints_def by auto
  then show ?thesis using that by (cases r) (auto split: prod.splits)
qed

lemma prints_vformat: "prints0 (\<lambda>e. vformat e fmt args)"
proof (induction fmt arbitrary: args rule: length_induct)
  case (1 fmt)
  show ?case
  proof (cases fmt)
    case Nil
    then show ?thesis by (simp add: prints_return0)
  next
    case (Cons c fs)
    show ?thesis
    proof (cases "c = CHR ''%''")
      case False
      have "prints0 (\<lambda>e st. bind_res (emit e c st) (vformat e fs args))"
        by (rule prints_bind0 prints_emit)+ (use 1 Cons in simp)
      then show ?thesis using Cons False by simp
    next
      case True
      have eq: "vformat e fmt args st = bind_res (conversion e fs args st) (\<lambda>(fmt, args, st). vformat e fmt args st)" for e st
        using Cons True by simp
      show ?thesis
      proof (rule prints2E [OF prints_conversion [of fs args]])
        show ?thesis if "\<And>e st. e \<le> length (snd st) \<Longrightarrow> conversion e fs args st = Inl x" for x
          by (rule prints_emitted [of _ "Inl x"]) (simp add: eq that)
        fix f' a' t
        assume c: "\<And>e st. e \<le> length (snd st) \<Longrightarrow> conversion e fs args st = Inr (f', a', emitted e t st)"
        have "length f' \<le> length fs" using length_conversion [of 0 fs args "(0, [])"] c [of 0 "(0, [])"] by simp
        then have "prints0 (\<lambda>e. vformat e f' a')" using 1 Cons by simp
        then show ?thesis
        proof (rule prints0E)
          show ?thesis if "\<And>e st. e \<le> length (snd st) \<Longrightarrow> vformat e f' a' st = Inl x" for x
            by (rule prints_emitted [of _ "Inl x"]) (simp add: eq c that)
          show ?thesis if "\<And>e st. e \<le> length (snd st) \<Longrightarrow> vformat e f' a' st = Inr (emitted e t' st)" for t'
            by (rule prints_emitted [of _ "Inr ()" _ "\<lambda>_. t @ t'"]) (simp add: eq c that)
        qed
      qed
    qed
  qed
qed

text \<open>The contents of a buffer of \<open>n\<close> characters after a text was written to it, with its terminating NUL.\<close>

definition buffer_with :: "nat \<Rightarrow> string \<Rightarrow> char list \<Rightarrow> char list" where
  "buffer_with n t arr = take (n - 1) t @ NUL # drop (Suc (min (n - 1) (length t))) arr"

lemma vsnprintf_emitted:
  assumes "vformat (unat n) fmt args (0, arr) = Inr (emitted (unat n) t (0, arr))"
    and "n \<noteq> 0" "unat n \<le> length arr" "b \<le> b + n"
  shows "rt_vsnprintf b n arr fmt args = Inr (int (length t), buffer_with (unat n) t arr)"
proof -
  have n: "0 < unat n" using assms(2) by (simp add: unat_gt_0)
  have e: "emitted (unat n) t (0, arr) = (length t, take (unat n) t @ drop (min (unat n) (length t)) arr)"
    using assms(3) by (rule emitted_0)
  have "\<not> b + n < b" using assms(4) by simp
  then have "rt_vsnprintf b n arr fmt args =
      (let a = take (unat n) t @ drop (min (unat n) (length t)) arr
       in Inr (int (length t), if length t < unat n then a[length t := NUL] else a[unat n - 1 := NUL]))"
    using assms n by (auto simp: rt_vsnprintf_def Let_def e word_gt_0)
  also have "\<dots> = Inr (int (length t), buffer_with (unat n) t arr)"
  proof (cases "length t < unat n")
    case True
    then have "drop (length t) arr = arr ! length t # drop (Suc (length t)) arr"
      using assms(3) by (simp add: Cons_nth_drop_Suc)
    then show ?thesis using True by (simp add: buffer_with_def list_update_append)
  next
    case False
    then obtain m where m: "unat n = Suc m" "m < length t" using n by (cases "unat n") auto
    then have "take (unat n) t = take m t @ [t ! m]" by (simp add: take_Suc_conv_app_nth)
    then show ?thesis using m False by (simp add: buffer_with_def list_update_append min_def)
  qed
  finally show ?thesis .
qed



section \<open>Decimal numbers\<close>

lemma digits_decimal: "d < 10 \<Longrightarrow> small_digits ! d = digit_char d \<and> large_digits ! d = digit_char d"
  by (drule digit_cases) (auto simp: small_digits_def large_digits_def digit_char_def)

lemma number_digits_0: "number_digits digits base tmp 0 = Inr tmp"
  by (subst number_digits.simps) simp

lemma number_digits_decimal:
  assumes "digits \<in> {small_digits, large_digits}"
  shows "n \<noteq> 0 \<Longrightarrow> length tmp + length (show_nat (unat n)) \<le> 16 \<Longrightarrow>
    number_digits digits 10 tmp n = Inr (tmp @ rev (show_nat (unat n)))"
proof (induction "unat n" arbitrary: n tmp rule: less_induct)
  case less
  have m: "unat (n mod 10) = unat n mod 10" "unat (n div 10) = unat n div 10"
    by (simp_all add: unat_mod_distrib unat_div_distrib)
  have d: "digits ! (unat n mod 10) = digit_char (unat n mod 10)" using assms digits_decimal [of "unat n mod 10"] by auto
  have l: "length tmp < 16" using less.prems(2) by (cases "show_nat (unat n)") auto
  have step: "number_digits digits 10 tmp n = number_digits digits 10 (tmp @ [digit_char (unat n mod 10)]) (n div 10)"
    using less.prems(1) l by (subst number_digits.simps) (simp add: divide_digit_def m d)
  show ?case
  proof (cases "unat n < 10")
    case True
    then have "n div 10 = 0" by (metis m(2) div_less unat_eq_zero)
    moreover have "show_nat (unat n) = [digit_char (unat n)]" using True by (subst show_nat.simps) simp
    ultimately show ?thesis using True by (simp add: step number_digits_0)
  next
    case False
    then have s: "show_nat (unat n) = show_nat (unat (n div 10)) @ [digit_char (unat n mod 10)]"
      unfolding m(2) by (subst show_nat.simps) simp
    have "unat (n div 10) \<noteq> 0" using False unfolding m(2) by linarith
    then have "n div 10 \<noteq> 0" by (metis unat_0)
    then have "number_digits digits 10 (tmp @ [digit_char (unat n mod 10)]) (n div 10) =
        Inr ((tmp @ [digit_char (unat n mod 10)]) @ rev (show_nat (unat (n div 10))))"
      using less.prems by (intro less.hyps word_div_less) (simp_all add: s)
    then show ?thesis by (simp add: step s)
  qed
qed

lemma show_nat_word: "length (show_nat (unat (n :: u32))) \<le> 10"
proof -
  have "unat n < 2 ^ 32" using unsigned_less [of n, where 'a = nat] by simp
  then have "unat n < 10 ^ 10" by simp
  then show ?thesis by (rule show_nat_length) simp
qed

text \<open>The printed magnitude of a number: \<^verbatim>\<open>tmp\<close> never overflows.\<close>

lemma decimal_tmp:
  assumes "0 \<le> x" "x \<le> int_max" "digits \<in> {small_digits, large_digits}"
  shows "(if x = 0 then Inr [CHR ''0''] else number_digits digits 10 [] (i2u x)) = Inr (rev (show_nat (nat x)))"
proof (cases "x = 0")
  case True
  moreover have "show_nat 0 = [CHR ''0'']" by (subst show_nat.simps) (simp add: digit_char_def)
  ultimately show ?thesis by simp
next
  case False
  have x: "unat (i2u x) = nat x" using assms by (intro unat_i2u) (simp_all add: int_max_def)
  have "i2u x \<noteq> 0"
  proof
    assume "i2u x = 0"
    then have "nat x = 0" using x by simp
    then show False using False assms(1) by simp
  qed
  moreover have "length (show_nat (unat (i2u x))) \<le> 10" by (rule show_nat_word)
  ultimately have "number_digits digits 10 [] (i2u x) = Inr ([] @ rev (show_nat (unat (i2u x))))"
    by (intro number_digits_decimal [OF assms(3)]) simp_all
  then show ?thesis using False x by simp
qed

lemma has_SIGN [simp]: "flag_set SIGN SIGN" "\<not> flag_set SIGN LEFT" "\<not> flag_set SIGN ZEROPAD" "\<not> flag_set SIGN PLUS" "\<not> flag_set SIGN SPACE"
  "\<not> flag_set SIGN LARGE" "\<not> flag_set SIGN (ZEROPAD OR LEFT)" "0 OR SIGN = SIGN"
  by (simp_all add: flag_set_def SIGN_def LEFT_def ZEROPAD_def PLUS_def SPACE_def LARGE_def)

lemma print_number_d:
  assumes "int_min < x" "x \<le> int_max" "e \<le> length (snd st)"
  shows "print_number e x 10 (-1) (-1) SIGN st = Inr (emitted e (itoa x) st)"
proof -
  define y where "y = \<bar>x\<bar>"
  define ds where "ds = show_nat (nat y)"
  have y: "0 \<le> y" "y \<le> int_max" "chk (- x) = (Inr (- x) :: int res)"
    using assms by (auto simp: y_def int_min_def int_max_def chk_def)
  have t: "(if y = 0 then Inr [CHR ''0''] else number_digits small_digits 10 [] (i2u y)) = Inr (rev ds)"
    unfolding ds_def by (rule decimal_tmp [OF y(1,2)]) simp
  have l: "0 < length ds" "length ds \<le> 10"
    using show_nat_word [of "i2u y"] y by (simp_all add: ds_def unat_i2u int_max_def)
  have c: "chk (-1) = Inr (-1)" "chk (-1 - int (length ds)) = Inr (-1 - int (length ds))" "chk (-1 - int (length ds) - 1) = Inr (-2 - int (length ds))"
    "chk (-2 - int (length ds) - 1) = Inr (-3 - int (length ds))" "chk (-3 - int (length ds) - 1) = Inr (-4 - int (length ds))"
    "chk (-4 - int (length ds) - 1) = Inr (-5 - int (length ds))"
    using l by (auto simp: chk_def int_min_def int_max_def)
  have i: "emitted e (itoa x) st = (if x < 0 then emitted e ds (emitted e [CHR ''-''] st) else emitted e ds st)"
    unfolding emitted_Cons [of e "CHR ''-''" ds st, symmetric] by (simp add: itoa_def ds_def y_def)
  consider "x < 0" "y = - x" | "x = 0" "y = 0" | "0 < x" "y = x" unfolding y_def by linarith
  then show ?thesis
  proof cases
    case 1
    then show ?thesis
      using t c l assms(3) unfolding i by (simp add: print_number_def Let_def y(3) pad_eq emit_eq put_digits_eq)
  next
    case 2
    then have "ds = [CHR ''0'']" using t by simp
    then show ?thesis
      using 2 c assms(3) unfolding i by (simp add: print_number_def Let_def pad_eq emit_eq put_digits_eq)
  next
    case 3
    then show ?thesis
      using t c l assms(3) unfolding i by (simp add: print_number_def Let_def pad_eq put_digits_eq)
  qed
qed

section \<open>Formats of the application\<close>

lemma itoa_length: "int_min \<le> x \<Longrightarrow> x \<le> int_max \<Longrightarrow> length (itoa x) \<le> 11"
proof -
  assume "int_min \<le> x" "x \<le> int_max"
  then have "\<bar>x\<bar> < 10 ^ 10" by (simp add: int_min_def int_max_def)
  then have "nat \<bar>x\<bar> < 10 ^ 10" by (simp add: nat_less_iff)
  then have "length (show_nat (nat \<bar>x\<bar>)) \<le> 10" by (rule show_nat_length) simp
  then show ?thesis by (auto simp: itoa_def split: if_splits)
qed

lemma vformat_plain:
  "CHR ''%'' \<notin> set fmt \<Longrightarrow> e \<le> length (snd st) \<Longrightarrow> vformat e fmt args st = Inr (emitted e fmt st)"
proof (induction fmt arbitrary: st)
  case (Cons c fmt)
  then have "c \<noteq> CHR ''%''" by auto
  then show ?case using Cons by (simp add: emit_eq emitted_Cons [of e c fmt])
qed simp

lemma vformat_char: "c \<noteq> CHR ''%'' \<Longrightarrow> e \<le> length (snd st) \<Longrightarrow>
  vformat e (c # fmt) args st = vformat e fmt args (emitted e [c] st)"
  by (simp add: emit_eq)

text \<open>The conversion \<^verbatim>\<open>%d\<close> prints what \<open>itoa\<close> says.\<close>

lemma vformat_d:
  assumes "int_min < x" "x \<le> int_max" "e \<le> length (snd st)"
  shows "vformat e (''%d'' @ fmt) (ArgInt (i2u x) # args) st = vformat e fmt args (emitted e (itoa x) st)"
proof -
  have "number_arg NUL SIGN (i2u x) = x" using assms by (simp add: number_arg_def u2i_i2u)
  then have "conversion e (CHR ''d'' # fmt) (ArgInt (i2u x) # args) st = Inr (fmt, args, emitted e (itoa x) st)"
    using print_number_d [OF assms]
    by (simp add: conversion_def parse_width_def parse_precision_def parse_qualifier_def convert_def fmt_at_def is_digit_def)
  then show ?thesis by simp
qed

text \<open>What \<^verbatim>\<open>rt_kprintf\<close> hands to the console for a text: beyond 254 characters, the first 254 and a NUL.\<close>

definition kprintf_text :: "string \<Rightarrow> string" where
  "kprintf_text t = (if length t < 255 then t else take 254 t @ [NUL])"

lemma kprintf_emitted:
  assumes "vformat 255 fmt args (0, buf) = Inr (emitted 255 t (0, buf))"
    and "length buf = 256" "b \<le> b + 255" "length t < 2 ^ 32"
  shows "\<exists>buf'. rt_kprintf_write b buf fmt args = Inr (kprintf_text t, buf') \<and> length buf' = 256"
proof -
  have n: "unat (RT_CONSOLEBUF_SIZE - 1) = 255" "RT_CONSOLEBUF_SIZE - 1 = 255" by (simp_all add: RT_CONSOLEBUF_SIZE_def)
  have "rt_vsnprintf b (RT_CONSOLEBUF_SIZE - 1) buf fmt args = Inr (int (length t), buffer_with 255 t buf)"
    unfolding n(1) [symmetric] using assms(1-3) by (intro vsnprintf_emitted) (simp_all add: n)
  moreover have l: "unat (i2u (int (length t))) = length t" using assms(4) by (simp add: unat_i2u)
  then have "(if RT_CONSOLEBUF_SIZE - 1 < i2u (int (length t)) then RT_CONSOLEBUF_SIZE - 1 else i2u (int (length t))) =
      i2u (int (min (length t) 255))"
    by (auto simp: n word_less_nat_alt min_def i2u_def)
  moreover have "unat (i2u (int (min (length t) 255))) = min (length t) 255" by (simp add: unat_i2u)
  moreover have "length (buffer_with 255 t buf) = 256" using assms(2) by (simp add: buffer_with_def)
  moreover have "take (min (length t) 255) (buffer_with 255 t buf) = kprintf_text t"
    by (auto simp: buffer_with_def kprintf_text_def min_def)
  ultimately show ?thesis by (simp add: rt_kprintf_write_def Let_def)
qed

text \<open>
  A number printed with \<^verbatim>\<open>%d\<close> and read back with \<^verbatim>\<open>atoi\<close> is the same number, for every \<^verbatim>\<open>int\<close> but the least,
  whose negation overflows; twelve characters are room enough.
\<close>

theorem print_then_read:
  assumes "int_min < x" "x \<le> int_max" "12 \<le> length arr" "b \<le> b + 12"
  shows "\<exists>k arr' t. rt_snprintf b 12 arr ''%d'' [ArgInt (i2u x)] = Inr (k, arr') \<and> c_str arr' = Inr t \<and>
     atoi t = x \<and> k = int (length t)"
proof -
  have u: "unat (12 :: u32) = 12" by simp
  have l: "length (itoa x) \<le> 11" using assms by (intro itoa_length) simp_all
  have "vformat 12 ''%d'' [ArgInt (i2u x)] (0, arr) = Inr (emitted 12 (itoa x) (0, arr))"
    using vformat_d [OF assms(1,2), of 12 "(0, arr)" "[]" "[]"] assms(3) by simp
  then have "rt_snprintf b 12 arr ''%d'' [ArgInt (i2u x)] = Inr (int (length (itoa x)), buffer_with 12 (itoa x) arr)"
    unfolding rt_snprintf_def u [symmetric] using assms(3,4) by (intro vsnprintf_emitted) simp_all
  moreover have "c_str (buffer_with 12 (itoa x) arr) = Inr (itoa x)"
  proof -
    have "NUL \<notin> set (itoa x)" using itoa_chars digit_not_special by fastforce
    moreover have "buffer_with 12 (itoa x) arr = itoa x @ NUL # drop (Suc (length (itoa x))) arr"
      using l by (simp add: buffer_with_def min_def)
    ultimately show ?thesis by (auto simp: c_str_def takeWhile_append)
  qed
  ultimately show ?thesis using atoi_itoa [of x] assms by auto
qed

theorem print_then_read_witness:
  "\<exists>k arr' t. rt_snprintf 0x20000000 12 (replicate 12 NUL) ''%d'' [ArgInt (i2u (-1500))] = Inr (k, arr') \<and>
     c_str arr' = Inr t \<and> atoi t = -1500 \<and> k = int (length t)"
  by (rule print_then_read) (simp_all add: int_min_def int_max_def)

text \<open>The least \<^verbatim>\<open>int\<close> overflows in \<^verbatim>\<open>num = -num\<close>.\<close>

lemma print_least_int: "rt_snprintf 0x20000000 12 (replicate 12 NUL) ''%d'' [ArgInt 0x80000000] = Inl SignedOverflow"
  by code_simp

text \<open>
  A text of 255 or more characters reaches the console as its first 254 characters and a NUL: the formatter gets
  one character less than the buffer has, and the limit of the length counts its NUL as text.
\<close>

theorem kprintf_cuts:
  assumes "CHR ''%'' \<notin> set t" "255 \<le> length t" "length t < 2 ^ 32" "length buf = 256" "b \<le> b + 255"
  shows "\<exists>buf'. rt_kprintf_write b buf t [] = Inr (take 254 t @ [NUL], buf')"
  using kprintf_emitted [OF vformat_plain [OF assms(1)] assms(4,5,3)] assms(2,4) by (auto simp: kprintf_text_def)

theorem kprintf_cuts_witness:
  "\<exists>buf'. rt_kprintf_write 0x20000000 (replicate 256 NUL) (replicate 300 CHR ''x'') [] =
     Inr (take 254 (replicate 300 CHR ''x'') @ [NUL], buf')"
  by (rule kprintf_cuts) simp_all

text \<open>
  \<^verbatim>\<open>%o\<close> prints hexadecimal: \<^verbatim>\<open>divide\<close> takes every base but 10 for 16, so the number 64 becomes \<^verbatim>\<open>40\<close>
  instead of \<^verbatim>\<open>100\<close>.
\<close>

theorem octal_prints_hex:
  "rt_snprintf b n arr (''%o'' @ fmt) args = rt_snprintf b n arr (''%x'' @ fmt) args \<and>
   rt_snprintf 0x20000000 4 ''____'' ''%o'' [ArgInt 64] = Inr (2, ''40'' @ [NUL] @ ''_'')"
proof
  have d: "divide_digit m 8 = divide_digit m 16" for m by (simp add: divide_digit_def)
  have nd: "number_digits ds 8 tmp m = number_digits ds 16 tmp m" for ds tmp m
  proof (induction "unat m" arbitrary: m tmp rule: less_induct)
    case less
    then show ?case
      by (subst (1 2) number_digits.simps) (auto simp: d divide_digit_def word_div_less)
  qed
  have "print_number e x 8 w pr fl st = print_number e x 16 w pr fl st" for e x w pr fl st
    by (simp only: print_number_def nd)
  then have "conversion e (CHR ''o'' # fmt) args st = conversion e (CHR ''x'' # fmt) args st" for e st
    by (simp add: conversion_def parse_width_def parse_precision_def parse_qualifier_def convert_def fmt_at_def is_digit_def)
  then show "rt_snprintf b n arr (''%o'' @ fmt) args = rt_snprintf b n arr (''%x'' @ fmt) args"
    by (simp add: rt_snprintf_def rt_vsnprintf_def)
  show "rt_snprintf 0x20000000 4 ''____'' ''%o'' [ArgInt 64] = Inr (2, ''40'' @ [NUL] @ ''_'')"
    by code_simp
qed

end
