(* ===== verification/Raspberry.thy ===== *)
theory Raspberry
  imports Usv_State Receiver Kprintf
begin

text \<open>
  \<^verbatim>\<open>applications/raspberry.c\<close>: the link to the server.  \<open>server_rec\<close> is one turn of the receiving
  thread (\<^verbatim>\<open>lora_rec\<close>), for the byte read and the two ticks it may read; \<open>server_send\<close> is one turn of the
  sending thread (\<^verbatim>\<open>lora_send\<close>).  The frame buffer is the global \<open>server_buffer\<close>, shared by both.

  Three things the code leaves to its surroundings are parameters: the six arrays \<^verbatim>\<open>c1\<close> to \<^verbatim>\<open>c6\<close> are not
  initialised, so their contents at the start of the thread are part of the initial record; \<^verbatim>\<open>atoi(&lora_char)\<close>
  reads on past the single character, so the bytes that follow it in memory are the argument \<open>stk\<close>; and
  the received text is used as a format of \<^verbatim>\<open>rt_kprintf\<close>, which is modelled for texts without \<open>%\<close> and is
  the error \<open>Uninitialized\<close> (a conversion of an argument that was never passed) for others.
\<close>

record rasp =
  rasp_index :: nat
  info_type :: int
  cfields :: "char list list"      \<comment> \<open>\<^verbatim>\<open>char c1[20], \<dots>, c6[20]\<close>\<close>

definition rasp_start :: "char list list \<Rightarrow> rasp" where
  "rasp_start garbage = \<lparr>rasp_index = 0, info_type = 0, cfields = garbage\<rparr>"

text \<open>Formats \<^verbatim>\<open>"S%[^,],%[^,],%[^Z]Z"\<close> with \<open>n\<close> conversions.\<close>

definition server_format :: "nat \<Rightarrow> directive list" where
  "server_format n = Lit CHR ''S'' # concat (replicate (n - 1) [upto_field CHR '','', Lit CHR '','']) @
     [upto_field CHR ''Z'', Lit CHR ''Z'']"

definition scan_fields :: "nat \<Rightarrow> rasp \<Rightarrow> usv \<Rightarrow> rasp res" where
  "scan_fields n r s =
     bind_res (c_str (server_buffer s)) (\<lambda>text.
     bind_res (put_args (cfields r) (sscanf (server_format n) text)) (\<lambda>as. Inr (r\<lparr>cfields := as\<rparr>)))"

definition int_field :: "rasp \<Rightarrow> nat \<Rightarrow> int res" where
  "int_field r i = bind_res (arr_get (cfields r) i) (\<lambda>a. bind_res (c_str a) (\<lambda>t. Inr (atoi t)))"

definition confirm :: "usv \<Rightarrow> usv" where
  "confirm s = s\<lparr>send_status_data := 0, send_confirm_data := 1\<rparr>"

definition degrees :: "int \<Rightarrow> real" where "degrees x = fl (db (of_int x / 1000000))"

definition percent :: "int \<Rightarrow> real" where "percent x = fl (db (of_int x / 100))"

text \<open>Lines 143 to 202: the messages, by type.\<close>

definition msg_target :: "rasp \<times> usv \<Rightarrow> (rasp \<times> usv) res" where
  "msg_target = (\<lambda>(r, s).
     bind_res (scan_fields 3 r s) (\<lambda>r.
     bind_res (int_field r 1) (\<lambda>x. bind_res (int_field r 2) (\<lambda>y.
       Inr (r, confirm (s\<lparr>target_lng := degrees x, target_lat := degrees y\<rparr>))))))"

definition msg_bottle :: "rasp \<times> usv \<Rightarrow> (rasp \<times> usv) res" where
  "msg_bottle = (\<lambda>(r, s).
     bind_res (scan_fields 4 r s) (\<lambda>r.
     bind_res (int_field r 1) (\<lambda>b. bind_res (int_field r 2) (\<lambda>d. bind_res (int_field r 3) (\<lambda>a.
       Inr (r, confirm (s\<lparr>bottle_id := b, bottle_deep := d, bottle_amount := a, draw_status := 0\<rparr>)))))))"

definition msg_control :: "rasp \<times> usv \<Rightarrow> (rasp \<times> usv) res" where
  "msg_control = (\<lambda>(r, s).
     bind_res (scan_fields 3 r s) (\<lambda>r.
     bind_res (int_field r 1) (\<lambda>v. bind_res (int_field r 2) (\<lambda>m.
       let s = s\<lparr>control_val := v, control_mode := m\<rparr> in
       Inr (r, if control_mode s = 3 then s\<lparr>target_lat := 0, target_lat := 0\<rparr> else s)))))"

definition msg_settings :: "rasp \<times> usv \<Rightarrow> (rasp \<times> usv) res" where
  "msg_settings = (\<lambda>(r, s).
     bind_res (scan_fields 6 r s) (\<lambda>r.
     bind_res (int_field r 1) (\<lambda>n. bind_res (int_field r 2) (\<lambda>e. bind_res (int_field r 3) (\<lambda>o'.
     bind_res (int_field r 4) (\<lambda>h. bind_res (int_field r 5) (\<lambda>a.
       Inr (r, confirm (s\<lparr>network_backhome := n, energy_backhome := e, obstacle_avoid := o',
         hand_speed := h, auto_speed := a\<rparr>)))))))))"

definition msg_pid :: "rasp \<times> usv \<Rightarrow> (rasp \<times> usv) res" where
  "msg_pid = (\<lambda>(r, s).
     bind_res (scan_fields 4 r s) (\<lambda>r.
     bind_res (int_field r 1) (\<lambda>p. bind_res (int_field r 2) (\<lambda>i. bind_res (int_field r 3) (\<lambda>d.
       Inr (r, confirm (s\<lparr>pid := (pid s)[0 := percent p, 1 := percent i, 2 := percent d]\<rparr>)))))))"

definition msg_compass :: "rasp \<times> usv \<Rightarrow> (rasp \<times> usv) res" where
  "msg_compass = (\<lambda>(r, s).
     bind_res (scan_fields 2 r s) (\<lambda>r.
     bind_res (int_field r 1) (\<lambda>c. Inr (r, confirm (s\<lparr>compass_status := c\<rparr>)))))"

definition server_message :: "tick \<Rightarrow> rasp \<times> usv \<Rightarrow> (rasp \<times> usv) res" where
  "server_message now = (\<lambda>(r, s).
     if info_type r = 1 then msg_target (r, s)
     else if info_type r = 2 then msg_bottle (r, s)
     else if info_type r = 3 then msg_control (r, s)
     else if info_type r = 4 then msg_settings (r, s)
     else if info_type r = 5 then msg_pid (r, s)
     else if info_type r = 6 then msg_compass (r, s)
     else if info_type r = 8 then Inr (r, s\<lparr>is_connect := 1, rec_server_tick := now\<rparr>)
     else Inr (r, s))"

text \<open>Lines 125 to 138: the byte goes into the buffer; the one after the first start character is the type.\<close>

definition server_store :: "string \<Rightarrow> char \<Rightarrow> rasp \<times> usv \<Rightarrow> (rasp \<times> usv) res" where
  "server_store stk ch = (\<lambda>(r, s).
     if ch = CHR ''S'' \<or> rasp_index r \<noteq> 0 then
       bind_res (arr_put (server_buffer s) (rasp_index r) ch) (\<lambda>b.
         Inr (r\<lparr>rasp_index := rasp_index r + 1,
           info_type := (if ch \<noteq> CHR ''S'' \<and> rasp_index r = 1 then atoi (ch # stk) else info_type r)\<rparr>,
           s\<lparr>server_buffer := b\<rparr>))
     else Inr (r, s))"

definition server_rec :: "tick \<Rightarrow> tick \<Rightarrow> string \<Rightarrow> char \<Rightarrow> rasp \<times> usv \<Rightarrow> (rasp \<times> usv) res" where
  "server_rec now now2 stk ch = (\<lambda>(r, s).
     bind_res (server_store stk ch (r, s\<lparr>rec_server_tick := now\<rparr>)) (\<lambda>(r, s).
     bind_res
       (if ch = CHR ''Z'' \<and> rasp_index r \<noteq> 0 then
          bind_res (arr_put (server_buffer s) (rasp_index r) NUL) (\<lambda>b.
          bind_res (server_message now2 (r, s\<lparr>server_buffer := b\<rparr>)) (\<lambda>(r, s).
            Inr (r\<lparr>rasp_index := 0\<rparr>, s)))
        else Inr (r, s))
       (\<lambda>(r, s). Inr (if 49 \<le> rasp_index r then r\<lparr>rasp_index := 0\<rparr> else r, s))))"

section \<open>Sending\<close>

text \<open>
  \<^verbatim>\<open>rt_kprintf\<close> by the text of the message; \<open>server_messages_printed\<close> shows that the formatter makes this text
  of each of the formats below.
\<close>

definition rt_kprintf :: "string \<Rightarrow> usv \<Rightarrow> usv" where
  "rt_kprintf str s = s\<lparr>tx := tx s @ [kprintf_text str]\<rparr>"

text \<open>A message: a letter, numbers separated by commas, \<^verbatim>\<open>Z\<close> and a line feed.\<close>

fun commas :: "int list \<Rightarrow> string" where
  "commas [] = []"
| "commas [x] = itoa x"
| "commas (x # xs) = itoa x @ '','' @ commas xs"

definition message :: "char \<Rightarrow> int list \<Rightarrow> string" where
  "message ch xs = ch # commas xs @ [CHR ''Z'', CHR 0x0A]"

function send_obstacles :: "nat \<Rightarrow> usv \<Rightarrow> usv" where
  "send_obstacles i s =
     (if 10 \<le> i then s
      else send_obstacles (Suc i)
        (if target_id s ! i = 1
         then rt_kprintf (message CHR ''D'' [ship_id s, int i, target_angle s ! i, target_distance s ! i]) s
         else s))"
  by auto
termination by (relation "measure (\<lambda>(i, s). 10 - i)") auto

declare send_obstacles.simps [simp del]

text \<open>One turn of \<^verbatim>\<open>lora_send\<close>; \<open>t1\<close> and \<open>t2\<close> are the two readings of the clock.\<close>

definition server_send :: "tick \<Rightarrow> tick \<Rightarrow> tick \<times> usv \<Rightarrow> (tick \<times> usv) res" where
  "server_send t1 t2 = (\<lambda>(draw_send_tick, s).
     if send_status_data s = 1 then
       (let (draw_send_tick, s) =
              (if 1000 < t1 - draw_send_tick
               then (t2, rt_kprintf (message CHR ''C'' [ship_id s, bottle_id s, draw_status s, dump_draw_time s,
                       full_draw_time s]) s)
               else (draw_send_tick, s));
            s = (if draw_status s = 4
                 then rt_kprintf (message CHR ''B'' [ship_id s, wt s, ph s, doDo s, ec s, td s]) s else s);
            s = (if min_distance s < 1500 then send_obstacles 0 s else s)
        in bind_res (f2i (fl (lng s * 1000000))) (\<lambda>x.
           bind_res (f2i (fl (lat s * 1000000))) (\<lambda>y.
           bind_res (f2i (dump_energy s)) (\<lambda>e.
           bind_res (f2i (current_theta s)) (\<lambda>th.
             Inr (draw_send_tick, rt_kprintf (message CHR ''A'' [ship_id s, x, y, e, th, current_mode s,
               angle_error s, speed s]) s))))))
     else if send_confirm_data s = 1 then
       bind_res (c_str (server_buffer s)) (\<lambda>text.
         if CHR ''%'' \<in> set text then Inl Uninitialized
         else Inr (draw_send_tick, (rt_kprintf text s)\<lparr>send_status_data := 1, send_detect_data := 0\<rparr>))
     else Inr (draw_send_tick, s))"

definition rasp_inv :: "rasp \<times> usv \<Rightarrow> bool" where
  "rasp_inv = (\<lambda>(r, s). rasp_index r \<le> 48 \<and> length (server_buffer s) = 50 \<and>
     map length (cfields r) = replicate 6 20 \<and> length (pid s) = 3)"

section \<open>The invariant\<close>

definition rasp_mid :: "rasp \<times> usv \<Rightarrow> bool" where
  "rasp_mid = (\<lambda>(r, s). rasp_index r \<le> 49 \<and> rasp_inv (r\<lparr>rasp_index := 0\<rparr>, s))"

lemma scan_fields_frame:
  assumes "scan_fields n r s = Inr r'"
  shows "\<exists>as. r' = r\<lparr>cfields := as\<rparr> \<and> map length as = map length (cfields r)"
  using assms unfolding scan_fields_def
  by (elim bind_resE) (force dest: put_args_lengths)

lemma scan_fields_mid:
  assumes "scan_fields n r s = Inr r'" "rasp_mid (r, s)"
  shows "rasp_mid (r', s) \<and> rasp_index r' = rasp_index r \<and> info_type r' = info_type r"
proof -
  obtain as where "r' = r\<lparr>cfields := as\<rparr>" "map length as = map length (cfields r)"
    using scan_fields_frame [OF assms(1)] by blast
  then show ?thesis
    using assms(2) by (simp add: rasp_mid_def rasp_inv_def)
qed

text \<open>What a message leaves alone, as far as the invariant is concerned.\<close>

definition scanned :: "nat \<Rightarrow> rasp \<times> usv \<Rightarrow> rasp \<times> usv \<Rightarrow> bool" where
  "scanned n = (\<lambda>(r, s) (r', s'). scan_fields n r s = Inr r' \<and> server_buffer s' = server_buffer s \<and>
     length (pid s') = length (pid s))"

lemma msgs_scanned:
  "msg_target st = Inr st' \<Longrightarrow> scanned 3 st st'"
  "msg_bottle st = Inr st' \<Longrightarrow> scanned 4 st st'"
  "msg_control st = Inr st' \<Longrightarrow> scanned 3 st st'"
  "msg_settings st = Inr st' \<Longrightarrow> scanned 6 st st'"
  "msg_pid st = Inr st' \<Longrightarrow> scanned 4 st st'"
  "msg_compass st = Inr st' \<Longrightarrow> scanned 2 st st'"
  by (cases st; cases st'; simp add: msg_target_def msg_bottle_def msg_control_def msg_settings_def
      msg_pid_def msg_compass_def bind_res_Inr_iff Let_def;
      clarsimp simp: scanned_def confirm_def)+

lemma server_message_keeps:
  assumes "server_message now (r, s) = Inr (r', s')" "rasp_mid (r, s)"
  shows "rasp_mid (r', s') \<and> rasp_index r' = rasp_index r"
proof -
  consider n where "scanned n (r, s) (r', s')"
    | "r' = r" "server_buffer s' = server_buffer s" "pid s' = pid s"
    using assms(1) msgs_scanned [of "(r, s)" "(r', s')"]
    unfolding server_message_def prod.case by (auto split: if_splits)
  then show ?thesis
  proof cases
    case 1
    then show ?thesis using scan_fields_mid [OF _ assms(2), of n r']
      by (simp add: scanned_def rasp_mid_def rasp_inv_def)
  next
    case 2
    then show ?thesis using assms(2) by (simp add: rasp_mid_def rasp_inv_def)
  qed
qed

lemma server_store_ok:
  assumes "rasp_inv (r, s)"
  shows "\<exists>r' s'. server_store stk ch (r, s) = Inr (r', s') \<and> rasp_mid (r', s')"
  using assms by (auto simp: server_store_def rasp_inv_def rasp_mid_def)

lemma server_rec_keeps:
  assumes "rasp_inv st" "server_rec now now2 stk ch st = Inr st'"
  shows "rasp_inv st'"
proof -
  obtain r s where st: "st = (r, s)" by (cases st)
  have "rasp_inv (r, s\<lparr>rec_server_tick := now\<rparr>)" using assms(1) by (simp add: st rasp_inv_def)
  then obtain r1 s1 where 1: "server_store stk ch (r, s\<lparr>rec_server_tick := now\<rparr>) = Inr (r1, s1)" "rasp_mid (r1, s1)"
    using server_store_ok by blast
  show ?thesis
  proof (cases "ch = CHR ''Z'' \<and> rasp_index r1 \<noteq> 0")
    case True
    let ?b = "(server_buffer s1)[rasp_index r1 := NUL]"
    have b: "arr_put (server_buffer s1) (rasp_index r1) NUL = Inr ?b" "rasp_mid (r1, s1\<lparr>server_buffer := ?b\<rparr>)"
      using 1(2) by (simp_all add: rasp_mid_def rasp_inv_def)
    then obtain r2 s2 where m: "server_message now2 (r1, s1\<lparr>server_buffer := ?b\<rparr>) = Inr (r2, s2)"
      "st' = (r2\<lparr>rasp_index := 0\<rparr>, s2)"
      using assms(2) True 1(1)
      by (cases "server_message now2 (r1, s1\<lparr>server_buffer := ?b\<rparr>)") (auto simp: st server_rec_def)
    show ?thesis using server_message_keeps [OF m(1) b(2)] m(2) by (simp add: rasp_mid_def rasp_inv_def)
  next
    case False
    then have "st' = (if 49 \<le> rasp_index r1 then r1\<lparr>rasp_index := 0\<rparr> else r1, s1)"
      using assms(2) 1(1) by (auto simp: st server_rec_def)
    then show ?thesis using 1(2) by (auto simp: rasp_mid_def rasp_inv_def)
  qed
qed

text \<open>One input of the thread: the two readings of the clock, the bytes after the character, the character.\<close>

definition server_input :: "tick \<times> tick \<times> string \<times> char \<Rightarrow> rasp \<times> usv \<Rightarrow> (rasp \<times> usv) res" where
  "server_input = (\<lambda>(now, now2, stk, ch). server_rec now now2 stk ch)"

interpretation server: byte_receiver server_input rasp_inv
  by unfold_locales (auto simp: server_input_def intro: server_rec_keeps)

section \<open>A message is collected and scanned\<close>

definition server_tail :: "nat \<Rightarrow> directive list" where
  "server_tail k = concat (replicate k [upto_field CHR '','', Lit CHR '','']) @ [upto_field CHR ''Z'', Lit CHR ''Z'']"

definition plain :: "string \<Rightarrow> bool" where
  "plain f \<longleftrightarrow> f \<noteq> [] \<and> CHR '','' \<notin> set f \<and> CHR ''Z'' \<notin> set f \<and> NUL \<notin> set f"

definition with_commas :: "string list \<Rightarrow> string" where
  "with_commas fs = concat (map (\<lambda>f. CHR '','' # f) fs)"

lemma sscanf_tail:
  assumes "\<forall>f \<in> set (f0 # fs). plain f" "length fs = k"
  shows "sscanf (server_tail k) (f0 @ with_commas fs @ ''Z'') = f0 # fs"
  using assms
proof (induction k arbitrary: f0 fs)
  case 0
  then have "sscanf (Scan None (\<lambda>x. x \<noteq> CHR ''Z'') True # [Lit CHR ''Z'']) (f0 @ CHR ''Z'' # []) =
      f0 # sscanf [Lit CHR ''Z''] (CHR ''Z'' # [])"
    by (intro sscanf_scan_step) (auto simp: plain_def)
  then show ?case using 0 by (simp add: server_tail_def upto_field_def with_commas_def)
next
  case (Suc k)
  then obtain f1 fs' where fs: "fs = f1 # fs'" "length fs' = k" by (cases fs) auto
  have "sscanf (Scan None (\<lambda>x. x \<noteq> CHR '','') True # Lit CHR '','' # server_tail k)
      (f0 @ CHR '','' # (f1 @ with_commas fs' @ ''Z'')) =
      f0 # sscanf (Lit CHR '','' # server_tail k) (CHR '','' # (f1 @ with_commas fs' @ ''Z''))"
    using Suc.prems by (intro sscanf_scan_step) (auto simp: plain_def)
  moreover have "sscanf (server_tail k) (f1 @ with_commas fs' @ ''Z'') = f1 # fs'"
    using Suc.IH [of f1 fs'] Suc.prems fs by simp
  moreover have "server_tail (Suc k) = Scan None (\<lambda>x. x \<noteq> CHR '','') True # Lit CHR '','' # server_tail k"
    by (simp add: server_tail_def upto_field_def)
  ultimately show ?case by (simp add: fs with_commas_def)
qed

lemma sscanf_server:
  assumes "\<forall>f \<in> set (f0 # fs). plain f" "length fs = k"
  shows "sscanf (server_format (Suc k)) (CHR ''S'' # f0 @ with_commas fs @ ''Z'') = f0 # fs"
  using sscanf_tail [OF assms] by (simp add: server_format_def server_tail_def)

lemma server_collect:
  assumes "rasp_index r \<noteq> 0" "rasp_index r \<noteq> 1" "CHR ''Z'' \<notin> set xs"
    and "rasp_index r + length xs \<le> 48" "length (server_buffer s) = 50" "rec_server_tick s = now"
  shows "\<exists>b. run_bytes (server_rec now now2 stk) xs (r, s) =
      Inr (r\<lparr>rasp_index := rasp_index r + length xs\<rparr>, s\<lparr>server_buffer := b\<rparr>) \<and> length b = 50 \<and>
      take (rasp_index r + length xs) b = take (rasp_index r) (server_buffer s) @ xs"
  using assms
proof (induction xs arbitrary: r s)
  case Nil
  then show ?case by (intro exI [of _ "server_buffer s"]) simp
next
  case (Cons x xs)
  let ?i = "rasp_index r" and ?b = "server_buffer s"
  let ?r = "r\<lparr>rasp_index := ?i + 1\<rparr>" and ?s = "s\<lparr>server_buffer := ?b[?i := x]\<rparr>"
  have i: "?i < 48" using Cons.prems by simp
  have x: "x \<noteq> CHR ''Z''" and s: "s\<lparr>rec_server_tick := now\<rparr> = s" using Cons.prems(3,6) by auto
  have step: "server_rec now now2 stk x (r, s) = Inr (?r, ?s)"
    using i Cons.prems(1,2,5) x unfolding server_rec_def prod.case s by (simp add: server_store_def)
  have t: "take (Suc ?i) (?b[?i := x]) = take ?i ?b @ [x]"
    using i Cons.prems(5) by (simp add: take_Suc_conv_app_nth)
  obtain b where b: "run_bytes (server_rec now now2 stk) xs (?r, ?s) =
      Inr (?r\<lparr>rasp_index := Suc ?i + length xs\<rparr>, ?s\<lparr>server_buffer := b\<rparr>)" "length b = 50"
      "take (Suc ?i + length xs) b = take (Suc ?i) (?b[?i := x]) @ xs"
    using Cons.IH [of ?r ?s] Cons.prems by auto
  then show ?case using step t by (intro exI [of _ b]) simp
qed

text \<open>A whole message from the idle receiver: the type is read, the text is complete in the buffer.\<close>

lemma server_collect_frame:
  assumes "rasp_inv (r, s)" "rasp_index r = 0" "kch \<noteq> CHR ''S''" "kch \<noteq> CHR ''Z''" "kch \<noteq> NUL"
    and "CHR ''Z'' \<notin> set w" "NUL \<notin> set w" "length w \<le> 45"
  shows "\<exists>b. run_bytes (server_rec now now2 stk) (CHR ''S'' # kch # w @ ''Z'') (r, s) =
      bind_res (server_message now2 (r\<lparr>rasp_index := length w + 3, info_type := atoi (kch # stk)\<rparr>,
        s\<lparr>rec_server_tick := now, server_buffer := b\<rparr>)) (\<lambda>(r, s). Inr (r\<lparr>rasp_index := 0\<rparr>, s)) \<and>
      length b = 50 \<and> c_str b = Inr (CHR ''S'' # kch # w @ ''Z'')"
proof -
  let ?b1 = "(server_buffer s)[0 := CHR ''S'']"
  let ?b2 = "?b1[1 := kch]"
  let ?r1 = "r\<lparr>rasp_index := 1\<rparr>" and ?s1 = "s\<lparr>rec_server_tick := now, server_buffer := ?b1\<rparr>"
  let ?r2 = "r\<lparr>rasp_index := 2, info_type := atoi (kch # stk)\<rparr>"
  let ?s2 = "s\<lparr>rec_server_tick := now, server_buffer := ?b2\<rparr>"
  have lb: "length (server_buffer s) = 50" using assms(1) by (simp add: rasp_inv_def)
  have 1: "server_rec now now2 stk CHR ''S'' (r, s) = Inr (?r1, ?s1)"
    using assms(2) lb by (simp add: server_rec_def server_store_def)
  have 2: "server_rec now now2 stk kch (?r1, ?s1) = Inr (?r2, ?s2)"
    using assms(3,4) lb by (simp add: server_rec_def server_store_def)
  obtain b where b: "run_bytes (server_rec now now2 stk) w (?r2, ?s2) =
      Inr (?r2\<lparr>rasp_index := 2 + length w\<rparr>, ?s2\<lparr>server_buffer := b\<rparr>)" "length b = 50"
      "take (2 + length w) b = take 2 ?b2 @ w"
    using server_collect [of ?r2 w ?s2 now now2 stk] assms(6,8) lb by auto
  let ?b3 = "b[2 + length w := CHR ''Z'']"
  let ?b4 = "?b3[length w + 3 := NUL]"
  let ?r3 = "r\<lparr>rasp_index := length w + 3, info_type := atoi (kch # stk)\<rparr>"
  let ?s3 = "s\<lparr>rec_server_tick := now, server_buffer := ?b4\<rparr>"
  have t2: "take 2 ?b2 = [CHR ''S'', kch]" using lb by (simp add: take_Suc_conv_app_nth numeral_2_eq_2)
  have t: "take (length w + 3) ?b3 = CHR ''S'' # kch # w @ ''Z''"
    using b(2,3) t2 assms(8) by (simp add: take_Suc_conv_app_nth numeral_3_eq_3)
  have "NUL \<notin> set (CHR ''S'' # kch # w @ ''Z'')" using assms(5,7) by auto
  then have c: "c_str ?b4 = Inr (CHR ''S'' # kch # w @ ''Z'')"
    using c_str_take [of "length w + 3" ?b3] t b(2) assms(8) by simp
  have 3: "server_rec now now2 stk CHR ''Z'' (?r2\<lparr>rasp_index := 2 + length w\<rparr>, ?s2\<lparr>server_buffer := b\<rparr>) =
      bind_res (server_message now2 (?r3, ?s3)) (\<lambda>(r, s). Inr (r\<lparr>rasp_index := 0\<rparr>, s))"
    using b(2) assms(8)
    by (cases "server_message now2 (?r3, ?s3)") (auto simp: server_rec_def server_store_def numeral_3_eq_3)
  have "run_bytes (server_rec now now2 stk) (CHR ''S'' # kch # w @ ''Z'') (r, s) =
      run_bytes (server_rec now now2 stk) (w @ ''Z'') (?r2, ?s2)"
    by (simp only: run_bytes.simps 1 2 bind_res_simps)
  also have "\<dots> = run_bytes (server_rec now now2 stk) ''Z'' (?r2\<lparr>rasp_index := 2 + length w\<rparr>, ?s2\<lparr>server_buffer := b\<rparr>)"
    by (rule run_bytes_append_ok [OF b(1)])
  also have "\<dots> = bind_res (server_message now2 (?r3, ?s3)) (\<lambda>(r, s). Inr (r\<lparr>rasp_index := 0\<rparr>, s))"
    unfolding run_bytes.simps 3 by (cases "server_message now2 (?r3, ?s3)") auto
  finally show ?thesis using c b(2) by (intro exI [of _ ?b4]) simp
qed

section \<open>Commands\<close>

text \<open>
  The abstract interface of the link: a command, its text, and its effect on the shared state.
\<close>

datatype command =
    Target int int
  | Bottle int int int
  | Control int int
  | Settings int int int int int
  | Pid int int int
  | Compass int
  | Heartbeat

fun command_type :: "command \<Rightarrow> nat" where
  "command_type (Target _ _) = 1"
| "command_type (Bottle _ _ _) = 2"
| "command_type (Control _ _) = 3"
| "command_type (Settings _ _ _ _ _) = 4"
| "command_type (Pid _ _ _) = 5"
| "command_type (Compass _) = 6"
| "command_type Heartbeat = 8"

fun arguments :: "command \<Rightarrow> int list" where
  "arguments (Target x y) = [x, y]"
| "arguments (Bottle b d a) = [b, d, a]"
| "arguments (Control v m) = [v, m]"
| "arguments (Settings n e a h v) = [n, e, a, h, v]"
| "arguments (Pid p i d) = [p, i, d]"
| "arguments (Compass c) = [c]"
| "arguments Heartbeat = []"

definition encode :: "command \<Rightarrow> string" where
  "encode c = CHR ''S'' # digit_char (command_type c) # with_commas (map itoa (arguments c)) @ ''Z''"

fun perform :: "tick \<Rightarrow> command \<Rightarrow> usv \<Rightarrow> usv" where
  "perform now (Target x y) s = confirm (s\<lparr>target_lng := degrees x, target_lat := degrees y\<rparr>)"
| "perform now (Bottle b d a) s =
     confirm (s\<lparr>bottle_id := b, bottle_deep := d, bottle_amount := a, draw_status := 0\<rparr>)"
| "perform now (Control v m) s =
     s\<lparr>control_val := v, control_mode := m, target_lat := (if m = 3 then 0 else target_lat s)\<rparr>"
| "perform now (Settings n e a h v) s =
     confirm (s\<lparr>network_backhome := n, energy_backhome := e, obstacle_avoid := a, hand_speed := h, auto_speed := v\<rparr>)"
| "perform now (Pid p i d) s = confirm (s\<lparr>pid := (pid s)[0 := percent p, 1 := percent i, 2 := percent d]\<rparr>)"
| "perform now (Compass c) s = confirm (s\<lparr>compass_status := c\<rparr>)"
| "perform now Heartbeat s = s\<lparr>is_connect := 1, rec_server_tick := now\<rparr>"

definition in_range :: "command \<Rightarrow> bool" where
  "in_range c \<longleftrightarrow> (\<forall>x \<in> set (arguments c). int_min \<le> x \<and> x \<le> int_max)"

lemma itoa_plain: "plain (itoa x)"
  using itoa_chars [of _ x] digit_not_special by (fastforce simp: plain_def)

lemma digit_char_plain: "d < 10 \<Longrightarrow> plain [digit_char d] \<and> digit_char d \<noteq> CHR ''S''"
  using is_digit_digit_char [of d] digit_not_special [of "digit_char d"] by (auto simp: plain_def)

lemma command_type_lt: "command_type c < 10"
  by (cases c) simp_all

text \<open>Scanning the text of a command leaves its arguments in the arrays.\<close>

lemma scan_command:
  assumes "c_str (server_buffer s) = Inr (encode c)" "map length (cfields r) = replicate 6 20" "in_range c"
    and "arguments c \<noteq> []" and "n = Suc (length (arguments c))"
  shows "\<exists>r'. scan_fields n r s = Inr r' \<and>
    (\<forall>i < length (arguments c). int_field r' (Suc i) = Inr (arguments c ! i))"
proof -
  define fs where "fs = [digit_char (command_type c)] # map itoa (arguments c)"
  have plain: "\<forall>f \<in> set fs. plain f"
    using digit_char_plain [OF command_type_lt] itoa_plain by (auto simp: fs_def)
  then have sc: "sscanf (server_format n) (encode c) = fs"
    using sscanf_server [of "[digit_char (command_type c)]" "map itoa (arguments c)" "length (arguments c)"]
    by (simp add: fs_def encode_def assms(5))
  have la: "length (cfields r) = 6" "\<And>i. i < 6 \<Longrightarrow> length (cfields r ! i) = 20"
    using assms(2) by (metis length_map length_replicate, metis length_map length_replicate nth_map nth_replicate)
  have lf: "length fs \<le> 6" by (cases c) (simp_all add: fs_def)
  have "length (fs ! i) < length (cfields r ! i)" if "i < length fs" for i
  proof -
    have "length (fs ! i) \<le> 11"
      using that assms(3) itoa_length by (auto simp: fs_def in_range_def nth_Cons' nth_mem)
    then show ?thesis using la(2) [of i] that lf by simp
  qed
  then obtain as where as: "put_args (cfields r) fs = Inr as"
    using put_args_ok [of fs "cfields r"] la lf by auto
  have "int_field (r\<lparr>cfields := as\<rparr>) (Suc i) = Inr (arguments c ! i)" if "i < length (arguments c)" for i
  proof -
    have "Suc i < length fs" "NUL \<notin> set (fs ! Suc i)" "fs ! Suc i = itoa (arguments c ! i)"
      using that plain by (auto simp: fs_def plain_def)
    moreover have "atoi (itoa (arguments c ! i)) = arguments c ! i"
      using that assms(3) by (intro atoi_itoa) (auto simp: in_range_def)
    ultimately show ?thesis using put_args_nth [OF as, of "Suc i"] by (simp add: int_field_def)
  qed
  then show ?thesis using assms(1) as sc by (simp add: scan_fields_def)
qed

lemma perform_command:
  assumes "c_str (server_buffer s) = Inr (encode c)" "map length (cfields r) = replicate 6 20" "in_range c"
    and "info_type r = int (command_type c)"
  shows "\<exists>r'. server_message now (r, s) = Inr (r', perform now c s)"
proof (cases "c = Heartbeat")
  case True
  then show ?thesis using assms(4) by (simp add: server_message_def)
next
  case False
  then have "arguments c \<noteq> []" by (cases c) auto
  then obtain r' where r': "scan_fields (Suc (length (arguments c))) r s = Inr r'"
    "\<forall>i < length (arguments c). int_field r' (Suc i) = Inr (arguments c ! i)"
    using scan_command [OF assms(1-3)] by blast
  show ?thesis
  proof (cases c)
    case (Target x y)
    then show ?thesis using r' assms(4)
      by (auto simp: server_message_def msg_target_def All_less_Suc numeral_2_eq_2 numeral_3_eq_3)
  next
    case (Bottle b d a)
    then show ?thesis using r' assms(4)
      by (auto simp: server_message_def msg_bottle_def All_less_Suc eval_nat_numeral)
  next
    case (Control v m)
    then show ?thesis using r' assms(4)
      by (auto simp: server_message_def msg_control_def Let_def All_less_Suc eval_nat_numeral)
  next
    case (Settings n e a h v)
    then show ?thesis using r' assms(4)
      by (auto simp: server_message_def msg_settings_def All_less_Suc eval_nat_numeral)
  next
    case (Pid p i d)
    then show ?thesis using r' assms(4)
      by (auto simp: server_message_def msg_pid_def All_less_Suc eval_nat_numeral)
  next
    case (Compass x)
    then show ?thesis using r' assms(4)
      by (auto simp: server_message_def msg_compass_def All_less_Suc eval_nat_numeral)
  qed (use False in simp)
qed

lemma atoi_digit_char:
  assumes "d < 10" "stk = [] \<or> \<not> is_digit (hd stk)"
  shows "atoi (digit_char d # stk) = int d"
proof -
  have c: "is_digit (digit_char d)" "digit_val (digit_char d) = int d"
    using assms(1) by (simp_all add: is_digit_digit_char digit_val_digit_char)
  have "read_nat (int d) stk = int d" using assms(2) by (cases stk) auto
  then show ?thesis
    using c assms(1) digit_not_special [OF c(1)]
    by (simp add: atoi_def read_signed_def int_min_def int_max_def)
qed

lemma with_commas_chars:
  "CHR ''Z'' \<notin> set (with_commas (map itoa xs)) \<and> NUL \<notin> set (with_commas (map itoa xs)) \<and>
   CHR ''%'' \<notin> set (with_commas (map itoa xs))"
proof -
  have "c \<noteq> CHR ''Z'' \<and> c \<noteq> NUL \<and> c \<noteq> CHR ''%''" if "c \<in> set (itoa x)" for c x
    using itoa_chars [OF that] by (auto simp: is_digit_iff)
  then show ?thesis by (auto simp: with_commas_def)
qed

text \<open>The arrays and the buffer after the uninitialised start.\<close>

lemma rasp_inv_start: "map length garbage = replicate 6 20 \<Longrightarrow> rasp_inv (rasp_start garbage, usv_init p q)"
  by (simp add: rasp_inv_def rasp_start_def usv_init_def)

lemma server_run_command:
  assumes "rasp_inv (r, s)" "rasp_index r = 0" "in_range c" "length (encode c) \<le> 48"
    and "stk = [] \<or> \<not> is_digit (hd stk)"
  shows "\<exists>r' b. run_bytes (server_rec now now2 stk) (encode c) (r, s) =
      Inr (r', perform now2 c (s\<lparr>rec_server_tick := now, server_buffer := b\<rparr>)) \<and>
      rasp_index r' = 0 \<and> length b = 50 \<and> c_str b = Inr (encode c)"
proof -
  let ?k = "digit_char (command_type c)" and ?w = "with_commas (map itoa (arguments c))"
  have e: "encode c = CHR ''S'' # ?k # ?w @ ''Z''" by (simp add: encode_def)
  have k: "?k \<noteq> CHR ''S''" "?k \<noteq> CHR ''Z''" "?k \<noteq> NUL"
    using digit_char_plain [OF command_type_lt, of c] by (auto simp: plain_def)
  obtain b where b: "run_bytes (server_rec now now2 stk) (encode c) (r, s) =
      bind_res (server_message now2 (r\<lparr>rasp_index := length ?w + 3, info_type := atoi (?k # stk)\<rparr>,
        s\<lparr>rec_server_tick := now, server_buffer := b\<rparr>)) (\<lambda>(r, s). Inr (r\<lparr>rasp_index := 0\<rparr>, s))"
      "length b = 50" "c_str b = Inr (encode c)"
    unfolding e using server_collect_frame [OF assms(1,2) k, of ?w now now2 stk] with_commas_chars assms(4)
    by (auto simp: e)
  have "map length (cfields r) = replicate 6 20" using assms(1) by (simp add: rasp_inv_def)
  moreover have "atoi (?k # stk) = int (command_type c)" using command_type_lt assms(5) by (rule atoi_digit_char)
  ultimately obtain r' where "server_message now2 (r\<lparr>rasp_index := length ?w + 3, info_type := atoi (?k # stk)\<rparr>,
      s\<lparr>rec_server_tick := now, server_buffer := b\<rparr>) = Inr (r', perform now2 c (s\<lparr>rec_server_tick := now, server_buffer := b\<rparr>))"
    using perform_command [of "s\<lparr>rec_server_tick := now, server_buffer := b\<rparr>" c
        "r\<lparr>rasp_index := length ?w + 3, info_type := atoi (?k # stk)\<rparr>" now2] b(3) assms(3) by auto
  then show ?thesis using b by (intro exI [of _ "r'\<lparr>rasp_index := 0\<rparr>"] exI [of _ b]) simp
qed

section \<open>Properties\<close>

text \<open>
  C17. Commands arrive as they were sent.  From the idle receiver, for every command whose numbers fit an
  \<^verbatim>\<open>int\<close> and whose text has at most 48 characters, receiving its text has exactly the effect of the command
  on the shared state (apart from the time of reception and the text kept in the buffer), whatever the
  uninitialised arrays held, and the receiver is idle again.  It relies on the byte that follows the
  character in memory not being a digit, since the type is read with \<^verbatim>\<open>atoi\<close> on a single character.
  The effect of a control message shows that mode 3 clears the target latitude and not the longitude.
\<close>

theorem server_command_effect:
  assumes "rasp_inv (r, s)" "rasp_index r = 0" "in_range c" "length (encode c) \<le> 48"
    and "stk = [] \<or> \<not> is_digit (hd stk)"
  shows "\<exists>r' b. run_bytes (server_rec now now2 stk) (encode c) (r, s) =
      Inr (r', perform now2 c (s\<lparr>rec_server_tick := now, server_buffer := b\<rparr>)) \<and>
      rasp_index r' = 0 \<and> c_str b = Inr (encode c)"
  using server_run_command [OF assms, of now now2] by blast

theorem server_command_effect_witness:
  "\<exists>r' b. run_bytes (server_rec 5 6 [NUL]) (encode (Bottle 3 5 500))
      (rasp_start (replicate 6 (replicate 20 CHR ''x'')), usv_init None None) =
      Inr (r', perform 6 (Bottle 3 5 500) ((usv_init None None)\<lparr>rec_server_tick := 5, server_buffer := b\<rparr>)) \<and>
      rasp_index r' = 0 \<and> c_str b = Inr (encode (Bottle 3 5 500))"
proof -
  have "length (encode (Bottle 3 5 500)) \<le> 48"
    by (simp add: encode_def with_commas_def itoa_def show_nat.simps)
  then show ?thesis
    by (intro server_command_effect rasp_inv_start)
      (simp_all add: rasp_start_def in_range_def int_min_def int_max_def is_digit_iff)
qed



text \<open>
  The server link never overruns its frame buffer: for any bytes at any times, from a receiver within its
  invariant, storing a byte succeeds; a turn can fail only while a complete message is decoded, and every turn
  that completes keeps the invariant.
\<close>

theorem server_rec_safe:
  assumes "rasp_inv (r, s)"
  shows "\<exists>r1 s1. server_store stk ch (r, s\<lparr>rec_server_tick := now\<rparr>) = Inr (r1, s1) \<and> rasp_index r1 \<le> 49 \<and>
    length (server_buffer s1) = 50 \<and>
    (case server_rec now now2 stk ch (r, s) of
       Inl e \<Rightarrow> ch = CHR ''Z'' \<and> server_message now2
         (r1, s1\<lparr>server_buffer := (server_buffer s1)[rasp_index r1 := NUL]\<rparr>) = Inl e
     | Inr st' \<Rightarrow> rasp_inv st')"
proof -
  have "rasp_inv (r, s\<lparr>rec_server_tick := now\<rparr>)" using assms by (simp add: rasp_inv_def)
  then obtain r1 s1 where 1: "server_store stk ch (r, s\<lparr>rec_server_tick := now\<rparr>) = Inr (r1, s1)" "rasp_mid (r1, s1)"
    using server_store_ok by blast
  have b: "rasp_index r1 \<le> 49" "length (server_buffer s1) = 50" using 1(2) by (simp_all add: rasp_mid_def rasp_inv_def)
  let ?s = "s1\<lparr>server_buffer := (server_buffer s1)[rasp_index r1 := NUL]\<rparr>"
  have "ch = CHR ''Z'' \<and> server_message now2 (r1, ?s) = Inl e" if "server_rec now now2 stk ch (r, s) = Inl e" for e
    using that 1(1) b by (cases "server_message now2 (r1, ?s)") (auto simp: server_rec_def split: if_splits)
  then show ?thesis
    using 1 b server_rec_keeps [OF assms, of now now2 stk ch] by (auto split: sum.splits)
qed

theorem server_rec_safe_witness:
  "\<exists>r1 s1. server_store [] CHR ''S'' (rasp_start (replicate 6 (replicate 20 CHR ''x'')),
      (usv_init None None)\<lparr>rec_server_tick := 3\<rparr>) = Inr (r1, s1) \<and> rasp_index r1 \<le> 49 \<and>
    length (server_buffer s1) = 50 \<and>
    (case server_rec 3 4 [] CHR ''S'' (rasp_start (replicate 6 (replicate 20 CHR ''x'')), usv_init None None) of
       Inl e \<Rightarrow> CHR ''S'' = CHR ''Z'' \<and> server_message 4
         (r1, s1\<lparr>server_buffer := (server_buffer s1)[rasp_index r1 := NUL]\<rparr>) = Inl e
     | Inr st' \<Rightarrow> rasp_inv st')"
  by (intro server_rec_safe rasp_inv_start) simp

text \<open>
  A start character inside a message does not restart it.  After a message whose first byte is doubled
  (a retransmission, or a message whose end was lost), the type character is never read, so the text is
  decoded with the type of the message before.
\<close>

theorem server_double_start:
  assumes "rasp_inv (r, s)" "rasp_index r = 0"
  shows "\<exists>r' s'. run_bytes (server_rec now now2 stk) (''SS'' @ [digit_char (command_type c)]) (r, s) = Inr (r', s') \<and>
    rasp_index r' = 3 \<and> info_type r' = info_type r"
proof -
  let ?k = "digit_char (command_type c)"
  have k: "?k \<noteq> CHR ''S''" "?k \<noteq> CHR ''Z''"
    using digit_char_plain [OF command_type_lt, of c] by (auto simp: plain_def)
  have "length (server_buffer s) = 50" using assms(1) by (simp add: rasp_inv_def)
  then show ?thesis using assms(2) k by (simp add: server_rec_def server_store_def)
qed

theorem server_double_start_witness:
  "\<exists>r' s'. run_bytes (server_rec 1 2 []) (''SS'' @ [digit_char (command_type Heartbeat)])
      (rasp_start (replicate 6 (replicate 20 CHR ''x'')), usv_init None None) = Inr (r', s') \<and>
    rasp_index r' = 3 \<and> info_type r' = 0"
proof -
  have "rasp_inv (rasp_start (replicate 6 (replicate 20 CHR ''x'')), usv_init None None)"
    by (rule rasp_inv_start) simp
  moreover have "rasp_index (rasp_start g) = 0" "info_type (rasp_start g) = 0" for g by (simp_all add: rasp_start_def)
  ultimately show ?thesis using server_double_start by metis
qed

text \<open>
  Precision of a target: coordinates arrive in millionths of a degree and are stored in single precision.
  Within 180 degrees the stored value is off by at most 2 to the minus 16 of a degree, about 1.7 metres of
  latitude.
\<close>

theorem degrees_precision:
  assumes "\<bar>x\<bar> \<le> 180000000"
  shows "\<bar>degrees x - of_int x / 1000000\<bar> \<le> 1 / 65536"
proof -
  let ?q = "of_int x / 1000000 :: real"
  have q: "\<bar>?q\<bar> \<le> 180" using assms by linarith
  then have "\<bar>?q\<bar> < 2 powi 8" by simp
  from rnd_rel_error [OF this, of 53] have d: "\<bar>db ?q - ?q\<bar> \<le> 1 / 70368744177664"
    by (simp add: db_def power_int_minus divide_simps)
  then have "\<bar>db ?q\<bar> < 256" using q by linarith
  then have "\<bar>db ?q\<bar> < 2 powi 8" by simp
  from rnd_rel_error [OF this, of 24] have "\<bar>fl (db ?q) - db ?q\<bar> \<le> 1 / 131072"
    by (simp add: fl_def power_int_minus divide_simps)
  then show ?thesis using d unfolding degrees_def by linarith
qed

theorem degrees_precision_witness: "\<bar>degrees 114123456 - 114123456 / 1000000\<bar> \<le> 1 / 65536"
  using degrees_precision [of 114123456] by simp

section \<open>The messages go through the formatter\<close>

fun fields_format :: "nat \<Rightarrow> string" where
  "fields_format 0 = []"
| "fields_format (Suc 0) = ''%d''"
| "fields_format (Suc n) = ''%d,'' @ fields_format n"

lemma vformat_fields:
  "\<forall>x \<in> set xs. int_min < x \<and> x \<le> int_max \<Longrightarrow> e \<le> length (snd st) \<Longrightarrow>
     vformat e (fields_format (length xs) @ fmt) (map (ArgInt \<circ> i2u) xs) st = vformat e fmt [] (emitted e (commas xs) st)"
proof (induction xs arbitrary: st rule: commas.induct)
  case (2 x)
  then show ?case using vformat_d [of x e st fmt "[]"] by simp
next
  case (3 x y ys)
  then have "vformat e (fields_format (length (x # y # ys)) @ fmt) (map (ArgInt \<circ> i2u) (x # y # ys)) st =
      vformat e ('','' @ fields_format (length (y # ys)) @ fmt) (map (ArgInt \<circ> i2u) (y # ys)) (emitted e (itoa x) st)"
    using vformat_d [of x e st] by simp
  also have "\<dots> = vformat e (fields_format (length (y # ys)) @ fmt) (map (ArgInt \<circ> i2u) (y # ys))
      (emitted e [CHR '',''] (emitted e (itoa x) st))"
    using 3 vformat_char [of "CHR '',''"] by simp
  also have "\<dots> = vformat e fmt [] (emitted e (commas (x # y # ys)) st)"
    using 3 emitted_Cons [of e "CHR '',''" "commas (y # ys)"] by (subst "3.IH") auto
  finally show ?case .
qed simp

lemma kprintf_message:
  assumes "\<forall>x \<in> set xs. int_min < x \<and> x \<le> int_max" "ch \<noteq> CHR ''%''" "length buf = 256" "b \<le> b + 255"
    and "length (message ch xs) < 2 ^ 32"
  shows "\<exists>buf'. rt_kprintf_write b buf (ch # fields_format (length xs) @ ''Z'' @ [CHR 0x0A]) (map (ArgInt \<circ> i2u) xs) =
    Inr (kprintf_text (message ch xs), buf') \<and> length buf' = 256"
proof (rule kprintf_emitted [OF _ assms(3-5)])
  have "vformat 255 (ch # fields_format (length xs) @ ''Z'' @ [CHR 0x0A]) (map (ArgInt \<circ> i2u) xs) (0, buf) =
      vformat 255 (fields_format (length xs) @ ''Z'' @ [CHR 0x0A]) (map (ArgInt \<circ> i2u) xs) (emitted 255 [ch] (0, buf))"
    by (rule vformat_char) (use assms in simp_all)
  also have "\<dots> = vformat 255 (''Z'' @ [CHR 0x0A]) [] (emitted 255 (commas xs) (emitted 255 [ch] (0, buf)))"
    by (rule vformat_fields) (use assms in simp_all)
  also have "\<dots> = Inr (emitted 255 (''Z'' @ [CHR 0x0A]) (emitted 255 (commas xs) (emitted 255 [ch] (0, buf))))"
    using assms(3) by (intro vformat_plain) simp_all
  also have "\<dots> = Inr (emitted 255 (message ch xs) (0, buf))"
    unfolding message_def emitted_Cons [of 255 ch "commas xs @ [CHR ''Z'', CHR 0x0A]"] by simp
  finally show "vformat 255 (ch # fields_format (length xs) @ ''Z'' @ [CHR 0x0A]) (map (ArgInt \<circ> i2u) xs) (0, buf) = \<dots>" .
qed

lemma length_message:
  assumes "\<forall>x \<in> set xs. int_min \<le> x \<and> x \<le> int_max"
  shows "length (message ch xs) \<le> 3 + 12 * length xs"
proof -
  have "length (commas xs) \<le> 12 * length xs" using assms
  proof (induction xs rule: commas.induct)
    case (3 x y ys)
    then show ?case using itoa_length [of x] by simp
  next
    case (2 x)
    then show ?case using itoa_length [of x] by simp
  qed simp
  then show ?thesis by (simp add: message_def)
qed

text \<open>
  C26. Every message of the server link leaves the boat as its letter, its numbers in decimal separated by commas,
  \<^verbatim>\<open>Z\<close> and a line feed, uncut: the formatter makes exactly this of the four formats in \<^verbatim>\<open>lora_send\<close>, for any values
  above the least \<^verbatim>\<open>int\<close>.  An echoed command without \<^verbatim>\<open>%\<close> is printed as it is.
\<close>

theorem server_messages_printed:
  assumes "\<forall>x \<in> {a1, a2, a3, a4, a5, a6, a7, a8}. int_min < x \<and> x \<le> int_max"
    and "length buf = 256" "b \<le> b + 255" "CHR ''%'' \<notin> set echo" "length echo < 255"
  shows "\<exists>c1 c2 c3 c4 c5.
    rt_kprintf_write b buf (''A%d,%d,%d,%d,%d,%d,%d,%dZ'' @ [CHR 0x0A]) (map (ArgInt \<circ> i2u) [a1, a2, a3, a4, a5, a6, a7, a8]) =
      Inr (message CHR ''A'' [a1, a2, a3, a4, a5, a6, a7, a8], c1) \<and>
    rt_kprintf_write b buf (''B%d,%d,%d,%d,%d,%dZ'' @ [CHR 0x0A]) (map (ArgInt \<circ> i2u) [a1, a2, a3, a4, a5, a6]) =
      Inr (message CHR ''B'' [a1, a2, a3, a4, a5, a6], c2) \<and>
    rt_kprintf_write b buf (''C%d,%d,%d,%d,%dZ'' @ [CHR 0x0A]) (map (ArgInt \<circ> i2u) [a1, a2, a3, a4, a5]) =
      Inr (message CHR ''C'' [a1, a2, a3, a4, a5], c3) \<and>
    rt_kprintf_write b buf (''D%d,%d,%d,%dZ'' @ [CHR 0x0A]) (map (ArgInt \<circ> i2u) [a1, a2, a3, a4]) =
      Inr (message CHR ''D'' [a1, a2, a3, a4], c4) \<and>
    rt_kprintf_write b buf echo [] = Inr (echo, c5)"
proof -
  have m: "\<exists>c. rt_kprintf_write b buf (ch # fields_format (length xs) @ ''Z'' @ [CHR 0x0A]) (map (ArgInt \<circ> i2u) xs) =
      Inr (message ch xs, c)" if "\<forall>x \<in> set xs. int_min < x \<and> x \<le> int_max" "length xs \<le> 8" "ch \<noteq> CHR ''%''" for ch xs
  proof -
    have "length (message ch xs) < 255" using that length_message [of xs ch] by force
    then show ?thesis using kprintf_message [OF that(1,3) assms(2,3)] by (auto simp: kprintf_text_def)
  qed
  have "\<exists>c. rt_kprintf_write b buf echo [] = Inr (echo, c)"
    using kprintf_emitted [OF vformat_plain [OF assms(4), of 255 "(0, buf)"], of b "[]"] assms(2,3,5)
    by (auto simp: kprintf_text_def)
  then show ?thesis
    using assms(1) m [of "[a1, a2, a3, a4, a5, a6, a7, a8]" "CHR ''A''"] m [of "[a1, a2, a3, a4, a5, a6]" "CHR ''B''"]
      m [of "[a1, a2, a3, a4, a5]" "CHR ''C''"] m [of "[a1, a2, a3, a4]" "CHR ''D''"]
    by (simp add: numeral_eq_Suc)
qed

theorem server_messages_printed_witness:
  "\<exists>c1 c2 c3 c4 c5.
    rt_kprintf_write 0x20000000 (replicate 256 NUL) (''A%d,%d,%d,%d,%d,%d,%d,%dZ'' @ [CHR 0x0A])
      (map (ArgInt \<circ> i2u) [1, 116397470, -39908860, 80, 45, 1, -3, 7]) =
      Inr (message CHR ''A'' [1, 116397470, -39908860, 80, 45, 1, -3, 7], c1) \<and>
    rt_kprintf_write 0x20000000 (replicate 256 NUL) (''B%d,%d,%d,%d,%d,%dZ'' @ [CHR 0x0A])
      (map (ArgInt \<circ> i2u) [1, 116397470, -39908860, 80, 45, 1]) =
      Inr (message CHR ''B'' [1, 116397470, -39908860, 80, 45, 1], c2) \<and>
    rt_kprintf_write 0x20000000 (replicate 256 NUL) (''C%d,%d,%d,%d,%dZ'' @ [CHR 0x0A])
      (map (ArgInt \<circ> i2u) [1, 116397470, -39908860, 80, 45]) =
      Inr (message CHR ''C'' [1, 116397470, -39908860, 80, 45], c3) \<and>
    rt_kprintf_write 0x20000000 (replicate 256 NUL) (''D%d,%d,%d,%dZ'' @ [CHR 0x0A])
      (map (ArgInt \<circ> i2u) [1, 116397470, -39908860, 80]) =
      Inr (message CHR ''D'' [1, 116397470, -39908860, 80], c4) \<and>
    rt_kprintf_write 0x20000000 (replicate 256 NUL) ''S61,1Z'' [] = Inr (''S61,1Z'', c5)"
  by (rule server_messages_printed) (simp_all add: int_min_def int_max_def)

end
