(* ===== verification/Gps.thy ===== *)
theory Gps
  imports Usv_State Receiver
begin

text \<open>
  \<^verbatim>\<open>applications/gps.c\<close>: the position receiver \<^verbatim>\<open>check_gps\<close>.  Frames have eleven bytes, start with
  0x55 and carry their kind in the second byte: 83 the heading, 87 the position, 88 the speed.  The function
  \<^verbatim>\<open>check_gps_ascii\<close> of the file is not started by \<^verbatim>\<open>thread_gps\<close>.
\<close>

text \<open>Four bytes combined with \<^verbatim>\<open>pow\<close>, in double precision, and converted to \<^verbatim>\<open>int\<close> (lines 129, 130 and 138).\<close>

definition combine :: "int \<Rightarrow> int \<Rightarrow> int \<Rightarrow> int \<Rightarrow> int res" where
  "combine b3 b2 b1 b0 =
     f2i (db (db (db (db (of_int b3 * 2 ^ 24) + db (of_int b2 * 2 ^ 16)) + db (of_int b1 * 2 ^ 8)) + of_int b0))"

text \<open>Degrees and minutes packed in an \<^verbatim>\<open>int\<close> to degrees (lines 131 and 132).\<close>

definition to_degrees :: "int \<Rightarrow> real" where
  "to_degrees v = fl (db (of_int (cdiv v 10000000) + db (db (of_int (cmod v 10000000) / 100000) / 60)))"

definition gps_handle :: "int list \<Rightarrow> usv \<Rightarrow> usv res" where
  "gps_handle d s =
     bind_res (if d ! 1 = 83
       then Inr (s\<lparr>current_theta := fl (db (db (of_int (d ! 7 * 256 + d ! 6) / 32768) * 180))\<rparr>)
       else Inr s) (\<lambda>s.
     bind_res (if d ! 1 = 87
       then bind_res (combine (d ! 5) (d ! 4) (d ! 3) (d ! 2)) (\<lambda>x.
            bind_res (combine (d ! 9) (d ! 8) (d ! 7) (d ! 6)) (\<lambda>y.
              Inr (s\<lparr>lng := to_degrees x, lat := to_degrees y\<rparr>)))
       else Inr s) (\<lambda>s.
     if d ! 1 = 88
     then bind_res (combine (d ! 9) (d ! 8) (d ! 7) (d ! 6)) (\<lambda>v. Inr (s\<lparr>speed := v\<rparr>))
     else Inr s))"

definition check_gps :: "u8 \<Rightarrow> frame_buf \<times> usv \<Rightarrow> (frame_buf \<times> usv) res" where
  "check_gps = frame_step 85 11 gps_handle"

section \<open>Exactness of the conversions\<close>

lemma db_int_sum: "\<bar>a\<bar> \<le> 2 ^ 53 \<Longrightarrow> db (of_int a) = of_int a"
  by (rule db_of_int) simp

lemma combine_exact:
  assumes "0 \<le> b3" "b3 \<le> 255" "0 \<le> b2" "b2 \<le> 255" "0 \<le> b1" "b1 \<le> 255" "0 \<le> b0" "b0 \<le> 255"
  shows "combine b3 b2 b1 b0 =
    (if b3 < 128 then Inr (16777216 * b3 + 65536 * b2 + 256 * b1 + b0) else Inl FpInvalid)"
proof -
  let ?v = "16777216 * b3 + 65536 * b2 + 256 * b1 + b0"
  have "db (of_int b3 * 2 ^ 24) = of_int (16777216 * b3)" "db (of_int b2 * 2 ^ 16) = of_int (65536 * b2)"
    "db (of_int b1 * 2 ^ 8) = of_int (256 * b1)"
    using db_int_sum [of "16777216 * b3"] db_int_sum [of "65536 * b2"] db_int_sum [of "256 * b1"] assms
    by (simp_all add: mult.commute)
  moreover have "db (of_int (16777216 * b3) + of_int (65536 * b2)) = of_int (16777216 * b3 + 65536 * b2)"
    "db (of_int (16777216 * b3 + 65536 * b2) + of_int (256 * b1)) = of_int (16777216 * b3 + 65536 * b2 + 256 * b1)"
    "db (of_int (16777216 * b3 + 65536 * b2 + 256 * b1) + of_int b0) = of_int ?v"
    using db_int_sum [of "16777216 * b3 + 65536 * b2"] db_int_sum [of "16777216 * b3 + 65536 * b2 + 256 * b1"]
      db_int_sum [of ?v] assms by (simp_all only: of_int_add) auto
  ultimately have c: "combine b3 b2 b1 b0 = f2i (of_int ?v)" unfolding combine_def by (simp only:)
  show ?thesis
    using assms unfolding c f2i_def int_min_def int_max_def by (auto simp: c_trunc_of_int simp del: of_int_add of_int_mult)
qed

text \<open>The heading is between 0 and 360 degrees.\<close>

lemma heading_range:
  assumes "0 \<le> x" "x \<le> 65535"
  shows "0 \<le> fl (db (db (of_int x / 32768) * 180)) \<and> fl (db (db (of_int x / 32768) * 180)) \<le> 360"
proof -
  have "0 \<le> db (of_int x / 32768)" using assms by (intro db_nonneg) simp
  moreover have "db (of_int x / 32768) \<le> 2" using db_le_int [of "of_int x / 32768" 2] assms by simp
  ultimately have "0 \<le> db (db (of_int x / 32768) * 180)" "db (db (of_int x / 32768) * 180) \<le> 360"
    using db_le_int [of "db (of_int x / 32768) * 180" 360] by (auto intro: db_nonneg)
  then show ?thesis using fl_le_int [of "db (db (of_int x / 32768) * 180)" 360] by (auto intro: fl_nonneg)
qed

lemma error_chain:
  "\<bar>f - d\<bar> \<le> 1 / 131072 \<Longrightarrow> \<bar>d - (q + b)\<bar> \<le> 1 / 70368744177664 \<Longrightarrow> \<bar>b - a1\<bar> \<le> 1 / 9007199254740992 \<Longrightarrow>
    \<bar>a1 - a0\<bar> \<le> 1 / 140737488355328 \<Longrightarrow> \<bar>f - (q + a0)\<bar> \<le> (1 / 65536 :: real)"
  by linarith

text \<open>Degrees and minutes: the stored value is off by at most 2 to the minus 16, for every non-negative \<^verbatim>\<open>int\<close>.\<close>

lemma to_degrees_error:
  assumes "0 \<le> v" "v < 2 ^ 31"
  shows "\<bar>to_degrees v - (of_int (v div 10000000) + of_int (v mod 10000000) / 6000000)\<bar> \<le> 1 / 65536"
proof -
  let ?q = "v div 10000000" and ?m = "v mod 10000000"
  let ?a = "of_int ?m / 100000 :: real"
  have q: "0 \<le> ?q" "?q < 215" "0 \<le> ?m" "?m < 10000000" using assms by auto
  have a: "0 \<le> ?a" "?a < 100" using q by auto
  then have "\<bar>?a\<bar> < 2 powi 7" by simp
  from rnd_rel_error [OF this, of 53] have 1: "\<bar>db ?a - ?a\<bar> \<le> 1 / 140737488355328"
    by (simp add: db_def power_int_minus divide_simps)
  then have a': "\<bar>db ?a\<bar> < 101" using a by linarith
  then have "\<bar>db ?a / 60\<bar> < 2 powi 1" by simp
  from rnd_rel_error [OF this, of 53] have 2: "\<bar>db (db ?a / 60) - db ?a / 60\<bar> \<le> 1 / 9007199254740992"
    by (simp add: db_def power_int_minus divide_simps)
  let ?s = "of_int ?q + db (db ?a / 60)"
  have "\<bar>db ?a / 60\<bar> < 2" using a' by simp
  then have "\<bar>?s\<bar> < 218" using q 2 by linarith
  then have "\<bar>?s\<bar> < 2 powi 8" by simp
  from rnd_rel_error [OF this, of 53] have 3: "\<bar>db ?s - ?s\<bar> \<le> 1 / 70368744177664"
    by (simp add: db_def power_int_minus divide_simps)
  then have "\<bar>db ?s\<bar> < 219" using \<open>\<bar>?s\<bar> < 218\<close> by linarith
  then have "\<bar>db ?s\<bar> < 2 powi 8" by simp
  from rnd_rel_error [OF this, of 24] have 4: "\<bar>fl (db ?s) - db ?s\<bar> \<le> 1 / 131072"
    by (simp add: fl_def power_int_minus divide_simps)
  have e: "of_int ?m / 6000000 = ?a / 60" by simp
  have "\<bar>db ?a / 60 - ?a / 60\<bar> \<le> 1 / 140737488355328" using 1 by linarith
  then have "\<bar>fl (db ?s) - (of_int ?q + ?a / 60)\<bar> \<le> 1 / 65536"
    by (rule error_chain [OF 4 3 2])
  moreover have "cdiv v 10000000 = ?q" "cmod v 10000000 = ?m"
    using assms by (simp_all add: cmod_nonneg cdiv_def signed_divide_int_def sgn_if)
  ultimately show ?thesis by (simp only: to_degrees_def e)
qed

section \<open>The receiver\<close>

definition gps_ok :: "frame_buf \<times> usv \<Rightarrow> bool" where
  "gps_ok = (\<lambda>(f, s). frame_inv 11 f \<and> 0 \<le> current_theta s \<and> current_theta s \<le> 360)"

lemma gps_handle_theta:
  assumes "gps_handle d s = Inr s'" "byte_list d" "length d = 128" "0 \<le> current_theta s" "current_theta s \<le> 360"
  shows "0 \<le> current_theta s' \<and> current_theta s' \<le> 360"
proof -
  have "0 \<le> d ! 7 * 256 + d ! 6" "d ! 7 * 256 + d ! 6 \<le> 65535"
    using byte_at [OF assms(2), of 7] byte_at [OF assms(2), of 6] assms(3) by simp_all
  note heading_range [OF this]
  with assms(1,4,5) show ?thesis unfolding gps_handle_def
    by (elim bind_resE) (auto split: if_splits elim!: bind_resE)
qed

interpretation gps: byte_receiver check_gps gps_ok
proof unfold_locales
  fix st st' :: "frame_buf \<times> usv" and b :: u8
  assume a: "gps_ok st" "check_gps b st = Inr st'"
  obtain f s f' s' where st: "st = (f, s)" "st' = (f', s')" by (cases st; cases st')
  have "frame_inv 11 f' \<and> (s' = s \<or> (\<exists>d. byte_list d \<and> length d = 128 \<and> gps_handle d s = Inr s'))"
    using a frame_step_inv [of 11 f 85 gps_handle b s f' s'] by (simp add: st gps_ok_def check_gps_def)
  then show "gps_ok st'" using a(1) gps_handle_theta [of _ s s'] by (auto simp: st gps_ok_def)
qed

lemma gps_frame_run:
  assumes "frame_inv 11 f" "fb_index f = 0" "length bs = 11" "uint (hd bs) = 85"
  shows "\<exists>d. run_bytes check_gps bs (f, s) =
      bind_res (gps_handle d s) (\<lambda>s. Inr (f\<lparr>fb_data := d, fb_index := 0\<rparr>, s)) \<and>
      length d = 128 \<and> byte_list d \<and> (\<forall>i < 11. d ! i = uint (bs ! i))"
proof -
  obtain d where d: "run_bytes check_gps bs (f, s) =
      bind_res (gps_handle d s) (\<lambda>s. Inr (f\<lparr>fb_data := d, fb_index := 0\<rparr>, s))"
      "length d = 128" "byte_list d" "take 11 d = map uint bs"
    using frame_complete [OF assms(1) _ assms(2,3) _ assms(4), of gps_handle s] by (auto simp: check_gps_def)
  have "d ! i = uint (bs ! i)" if "i < 11" for i
    using arg_cong [OF d(4), of "\<lambda>x. x ! i"] that d(2) assms(3) by simp
  with d show ?thesis by blast
qed

text \<open>The little-endian number in the bytes \<open>i\<close> to \<open>i + 3\<close>.\<close>

definition le32 :: "u8 list \<Rightarrow> nat \<Rightarrow> int" where
  "le32 bs i = 16777216 * uint (bs ! (i + 3)) + 65536 * uint (bs ! (i + 2)) + 256 * uint (bs ! (i + 1)) + uint (bs ! i)"

lemma le32_5: "le32 bs 2 = 16777216 * uint (bs ! 5) + 65536 * uint (bs ! 4) + 256 * uint (bs ! 3) + uint (bs ! 2)"
  by (simp add: le32_def eval_nat_numeral)

lemma le32_9: "le32 bs 6 = 16777216 * uint (bs ! 9) + 65536 * uint (bs ! 8) + 256 * uint (bs ! 7) + uint (bs ! 6)"
  by (simp add: le32_def eval_nat_numeral)

lemma top_byte:
  fixes a b c d :: int
  assumes "0 \<le> b" "b \<le> 255" "0 \<le> c" "c \<le> 255" "0 \<le> d" "d \<le> 255"
  shows "16777216 * a + 65536 * b + 256 * c + d < 2147483648 \<longleftrightarrow> a < 128"
  using assms by linarith

section \<open>Properties\<close>

text \<open>
  A position west of Greenwich or south of the equator cannot be received: the module sends it in two's
  complement, so the top byte is 128 or more, and the conversion of the combined value to \<^verbatim>\<open>int\<close> is out of
  range.  The same holds for the top byte of a speed.
\<close>

theorem gps_negative_position_fails:
  assumes "frame_inv 11 f" "fb_index f = 0" "length bs = 11" "uint (bs ! 0) = 85" "uint (bs ! 1) = 87"
    and "128 \<le> uint (bs ! 5) \<or> 128 \<le> uint (bs ! 9)"
  shows "run_bytes check_gps bs (f, s) = Inl FpInvalid"
proof -
  have "uint (hd bs) = 85" using assms(3,4) by (cases bs) auto
  then obtain d where d: "run_bytes check_gps bs (f, s) =
      bind_res (gps_handle d s) (\<lambda>s. Inr (f\<lparr>fb_data := d, fb_index := 0\<rparr>, s))" "\<forall>i < 11. d ! i = uint (bs ! i)"
    using gps_frame_run [OF assms(1-3), of s] by blast
  have u: "0 \<le> uint (bs ! i)" "uint (bs ! i) \<le> 255" for i using uint_u8 by auto
  have "combine (d ! 5) (d ! 4) (d ! 3) (d ! 2) = Inl FpInvalid \<or>
      (\<exists>x. combine (d ! 5) (d ! 4) (d ! 3) (d ! 2) = Inr x) \<and> combine (d ! 9) (d ! 8) (d ! 7) (d ! 6) = Inl FpInvalid"
    using assms(6) d(2) u by (auto simp: combine_exact)
  then show ?thesis using d assms(5) by (auto simp: gps_handle_def)
qed

theorem gps_negative_position_fails_witness:
  "run_bytes check_gps [85, 87, 0, 0, 0, 255, 0, 0, 0, 0, 0] (frame_start, usv_init None None) = Inl FpInvalid"
proof -
  have "fb_index frame_start = 0" by (simp add: frame_start_def)
  then show ?thesis
    by (intro gps_negative_position_fails) (simp_all add: frame_inv_start)
qed



text \<open>
  Whatever bytes arrive, the heading stays between 0 and 360 degrees and the frame index inside its frame,
  as long as the receiver runs.
\<close>

theorem gps_heading_range:
  assumes "run_bytes check_gps bs (frame_start, usv_init p q) = Inr (f, s)"
  shows "0 \<le> current_theta s \<and> current_theta s \<le> 360 \<and> fb_index f < 11"
proof -
  have "gps_ok (frame_start, usv_init p q)" by (simp add: gps_ok_def frame_inv_start usv_init_def)
  from gps.run_keeps [OF this assms] show ?thesis by (simp add: gps_ok_def frame_inv_def)
qed

theorem gps_heading_range_witness:
  "\<exists>f s. run_bytes check_gps [1, 2] (frame_start, usv_init None None) = Inr (f, s) \<and>
    0 \<le> current_theta s \<and> current_theta s \<le> 360 \<and> fb_index f < 11"
proof -
  have "run_bytes check_gps [1, 2] (frame_start, usv_init None None) = Inr (frame_start, usv_init None None)"
    by (simp add: check_gps_def frame_step_def frame_start_def)
  from gps_heading_range [OF this] this show ?thesis by blast
qed

end
