(* ===== verification/Water.thy ===== *)
theory Water
  imports Usv_State Receiver
begin

text \<open>
  \<^verbatim>\<open>applications/water.c\<close>: the water-quality receiver.  Frames have twelve bytes and start with the
  Modbus address 6; the acidity and the temperature are two big-endian registers.
\<close>

definition water_handle :: "int list \<Rightarrow> usv \<Rightarrow> usv res" where
  "water_handle d s =
     bind_res (chk (d ! 3 * 256 + d ! 4)) (\<lambda>p.
     bind_res (chk (d ! 7 * 256 + d ! 8)) (\<lambda>w. Inr (s\<lparr>ph := p, wt := w\<rparr>)))"

definition check_water :: "u8 \<Rightarrow> frame_buf \<times> usv \<Rightarrow> (frame_buf \<times> usv) res" where
  "check_water = frame_step 6 12 water_handle"

definition water_ok :: "frame_buf \<times> usv \<Rightarrow> bool" where
  "water_ok = (\<lambda>(f, s). frame_inv 12 f)"

lemma water_handle_ok:
  assumes "byte_list d" "length d = 128"
  shows "water_handle d s = Inr (s\<lparr>ph := d ! 3 * 256 + d ! 4, wt := d ! 7 * 256 + d ! 8\<rparr>)"
proof -
  have "\<bar>d ! 3 * 256 + d ! 4\<bar> \<le> 2 ^ 30" "\<bar>d ! 7 * 256 + d ! 8\<bar> \<le> 2 ^ 30"
    using byte_at [OF assms(1), of 3] byte_at [OF assms(1), of 4] byte_at [OF assms(1), of 7]
      byte_at [OF assms(1), of 8] assms(2) by (simp_all add: abs_le_iff)
  note this [THEN chk_abs]
  then show ?thesis by (simp add: water_handle_def)
qed

interpretation water: total_receiver check_water water_ok
proof unfold_locales
  fix st st' :: "frame_buf \<times> usv" and b :: u8
  assume "water_ok st" "check_water b st = Inr st'"
  then show "water_ok st'"
    using frame_step_inv [of 12 "fst st" 6 water_handle b "snd st" "fst st'" "snd st'"]
    by (cases st; cases st') (simp add: water_ok_def check_water_def)
next
  fix st :: "frame_buf \<times> usv" and b :: u8
  assume ok: "water_ok st"
  obtain f s where st: "st = (f, s)" by (cases st)
  have f: "frame_inv 12 f" using ok by (simp add: st water_ok_def)
  then show "\<exists>st'. check_water b st = Inr st'"
    unfolding st check_water_def by (rule frame_step_total) (simp_all add: water_handle_ok)
qed

text \<open>
  The water-quality receiver survives any stream of bytes: no index runs out of its array and no
  arithmetic overflows, whatever arrives and however it is framed.
\<close>

theorem water_any_stream:
  "\<exists>f s'. run_bytes check_water bs (frame_start, s) = Inr (f, s') \<and> frame_inv 12 f"
proof -
  have "water_ok (frame_start, s)" by (simp add: water_ok_def frame_inv_start)
  from water.run_total [OF this, of bs] show ?thesis by (auto simp: water_ok_def)
qed

text \<open>
  A Modbus answer of twelve bytes received by the idle receiver sets exactly acidity and temperature, to
  its registers at the bytes 3 to 4 and 7 to 8, and leaves the receiver idle.
\<close>

theorem water_frame:
  assumes "frame_inv 12 f" "fb_index f = 0" "length bs = 12" "uint (hd bs) = 6"
  shows "\<exists>f'. run_bytes check_water bs (f, s) =
    Inr (f', s\<lparr>ph := uint (bs ! 3) * 256 + uint (bs ! 4), wt := uint (bs ! 7) * 256 + uint (bs ! 8)\<rparr>) \<and>
    frame_inv 12 f' \<and> fb_index f' = 0"
proof -
  obtain d where d: "run_bytes check_water bs (f, s) =
      bind_res (water_handle d s) (\<lambda>s. Inr (f\<lparr>fb_data := d, fb_index := 0\<rparr>, s))"
      "length d = 128" "byte_list d" "take 12 d = map uint bs"
    using frame_complete [OF assms(1) _ assms(2,3) _ assms(4), of water_handle s] by (auto simp: check_water_def)
  have "d ! i = uint (bs ! i)" if "i < 12" for i
    using arg_cong [OF d(4), of "\<lambda>x. x ! i"] that d(2) assms(3) by simp
  then show ?thesis using d assms(1) water_handle_ok [OF d(3,2), of s] by (simp add: frame_inv_def)
qed

theorem water_frame_witness:
  "\<exists>f'. run_bytes check_water [6, 3, 8, 2, 188, 0, 1, 0, 230, 0, 0, 9] (frame_start, usv_init None None) =
    Inr (f', (usv_init None None)\<lparr>ph := 700, wt := 230\<rparr>) \<and> frame_inv 12 f' \<and> fb_index f' = 0"
proof -
  have "fb_index frame_start = 0" by (simp add: frame_start_def)
  then show ?thesis
    using water_frame [of frame_start "[6, 3, 8, 2, 188, 0, 1, 0, 230, 0, 0, 9]" "usv_init None None"]
    by (simp add: frame_inv_start)
qed

end
