(* ===== verification/Compass.thy ===== *)
theory Compass
  imports Usv_State Receiver
begin

text \<open>
  \<^verbatim>\<open>applications/compass.c\<close>: the thread started by \<^verbatim>\<open>thread_compass\<close> is \<^verbatim>\<open>check_radar\<close>, the receiver of
  the obstacle radar.  A frame starts with two bytes 0xAA and ends with two bytes 0x55; kind 12, 7 reports one
  target.  \<^verbatim>\<open>check_compass\<close>, an earlier receiver for a text compass that no thread runs any more, is modelled
  too; its conversion \<^verbatim>\<open>atoff\<close> of the C library is a parameter.
\<close>

record radar =
  rd_index :: nat
  rd_buffer :: "int list"        \<comment> \<open>\<^verbatim>\<open>int gps_buffer[128]\<close>\<close>
  pre_r_hex :: int

definition radar_start :: radar where
  "radar_start = \<lparr>rd_index = 0, rd_buffer = replicate 128 0, pre_r_hex = 0\<rparr>"

text \<open>Lines 118 to 135: a target report.\<close>

definition radar_target :: "tick \<Rightarrow> int list \<Rightarrow> usv \<Rightarrow> usv res" where
  "radar_target now d s =
     (let t_id = d ! 3; t_angle = d ! 7 in
      bind_res (chk (d ! 5 * 256 + d ! 6)) (\<lambda>t_distance.
      let s = s\<lparr>obstacle_tick := now\<rparr>;
          s = (if t_distance < min_distance s then s\<lparr>min_distance := t_distance\<rparr> else s) in
      if t_id < 10 then
        bind_res (arr_put (target_id s) (nat t_id) 1) (\<lambda>i.
        bind_res (arr_put (target_distance s) (nat t_id) t_distance) (\<lambda>r.
        bind_res (arr_put (target_angle s) (nat t_id) t_angle) (\<lambda>a.
          Inr (s\<lparr>target_id := i, target_distance := r, target_angle := a\<rparr>))))
      else Inr s))"

definition check_radar :: "tick \<Rightarrow> u8 \<Rightarrow> radar \<times> usv \<Rightarrow> (radar \<times> usv) res" where
  "check_radar now byte = (\<lambda>(r, s).
     let r_hex = uint byte in
     bind_res
       (if r_hex = 170 \<and> pre_r_hex r = 170 \<or> rd_index r \<noteq> 0 then
          bind_res (arr_put (rd_buffer r) (rd_index r) r_hex) (\<lambda>d.
            Inr (r\<lparr>rd_buffer := d, rd_index := rd_index r + 1\<rparr>))
        else Inr r) (\<lambda>r.
     bind_res
       (if r_hex = 85 \<and> pre_r_hex r = 85 then
          bind_res
            (if rd_buffer r ! 1 = 12 \<and> rd_buffer r ! 2 = 7 then radar_target now (rd_buffer r) s else Inr s)
            (\<lambda>s. Inr (r\<lparr>rd_index := 0\<rparr>, s))
        else Inr (r, s)) (\<lambda>(r, s).
     let r = (if 13 < rd_index r then r\<lparr>rd_index := 0\<rparr> else r)
     in Inr (r\<lparr>pre_r_hex := r_hex\<rparr>, s))))"

text \<open>The text compass: characters from \<^verbatim>\<open>Y\<close> to the line feed, then \<^verbatim>\<open>"Yaw:%s"\<close>.\<close>

record compass_rx =
  compass_index :: nat
  compass_buffer :: "char list"  \<comment> \<open>\<^verbatim>\<open>char compass_buffer[128]\<close>\<close>
  compass_s :: "char list"       \<comment> \<open>\<^verbatim>\<open>char compass_s[15]\<close>\<close>

definition compass_start :: compass_rx where
  "compass_start = \<lparr>compass_index = 0, compass_buffer = replicate 128 NUL, compass_s = replicate 15 NUL\<rparr>"

definition yaw_format :: "directive list" where
  "yaw_format = [Lit CHR ''Y'', Lit CHR ''a'', Lit CHR ''w'', Lit CHR '':'', Str None]"

definition check_compass :: "(string \<Rightarrow> real) \<Rightarrow> char \<Rightarrow> compass_rx \<times> usv \<Rightarrow> (compass_rx \<times> usv) res" where
  "check_compass atoff ch = (\<lambda>(c, s).
     bind_res
       (if ch = CHR ''Y'' \<or> compass_index c \<noteq> 0 then
          bind_res (arr_put (compass_buffer c) (compass_index c) ch) (\<lambda>b.
            Inr (c\<lparr>compass_buffer := b, compass_index := compass_index c + 1\<rparr>))
        else Inr c) (\<lambda>c.
     if ch = CHR 0x0A \<and> compass_index c \<noteq> 0 then
       bind_res (arr_put (compass_buffer c) (compass_index c) NUL) (\<lambda>b.
       let c = c\<lparr>compass_buffer := b\<rparr> in
       bind_res (c_str (compass_buffer c)) (\<lambda>line.
       bind_res (put_args [compass_s c] (sscanf yaw_format line)) (\<lambda>as.
       let c = c\<lparr>compass_s := as ! 0\<rparr> in
       bind_res (c_str (compass_s c)) (\<lambda>yaw.
         Inr (c\<lparr>compass_index := 0\<rparr>, s\<lparr>current_theta := fl (atoff yaw + 180)\<rparr>)))))
     else Inr (c, s)))"

definition radar_inv :: "radar \<times> usv \<Rightarrow> bool" where
  "radar_inv = (\<lambda>(r, s). length (rd_buffer r) = 128 \<and> byte_list (rd_buffer r) \<and> rd_index r \<le> 13 \<and>
     length (target_id s) = 10 \<and> length (target_distance s) = 10 \<and> length (target_angle s) = 10)"

lemma radar_inv_start [simp]: "radar_inv (radar_start, usv_init p q)"
  by (simp add: radar_inv_def radar_start_def usv_init_def byte_list_def)

lemma radar_target_ok:
  assumes "byte_list d" "length d = 128" "radar_inv (r, s)"
  shows "radar_target now d s = Inr (let dist = d ! 5 * 256 + d ! 6; i = nat (d ! 3) in
    s\<lparr>obstacle_tick := now, min_distance := min dist (min_distance s),
      target_id := (target_id s)[i := 1], target_distance := (target_distance s)[i := dist],
      target_angle := (target_angle s)[i := d ! 7]\<rparr>)"
proof -
  have b: "0 \<le> d ! i \<and> d ! i \<le> 255" if "i < 128" for i using byte_at [OF assms(1)] that assms(2) by simp
  have "\<bar>d ! 5 * 256 + d ! 6\<bar> \<le> 2 ^ 30" using b [of 5] b [of 6] by simp
  note c = chk_abs [OF this]
  have l: "length (target_id s) = 10" "length (target_distance s) = 10" "length (target_angle s) = 10"
    using assms(3) by (simp_all add: radar_inv_def)
  show ?thesis
  proof (cases "d ! 3 < 10")
    case True
    then have "nat (d ! 3) < 10" using b [of 3] by simp
    then show ?thesis using True c l by (simp add: radar_target_def Let_def min_def)
  next
    case False
    then have "10 \<le> nat (d ! 3)" by simp
    then have "(target_id s)[nat (d ! 3) := x] = target_id s" "(target_distance s)[nat (d ! 3) := x] = target_distance s"
      "(target_angle s)[nat (d ! 3) := x] = target_angle s" for x
      by (intro list_update_beyond; simp add: l)+
    then show ?thesis using False c by (simp add: radar_target_def Let_def min_def)
  qed
qed

text \<open>A step either stores nothing in the shared state or handles one complete target report.\<close>

lemma check_radar_ok:
  assumes "radar_inv (r, s)"
  shows "\<exists>r' s'. check_radar now b (r, s) = Inr (r', s') \<and> radar_inv (r', s') \<and> pre_r_hex r' = uint b \<and>
    (s' = s \<or> (\<exists>d. byte_list d \<and> length d = 128 \<and> radar_target now d s = Inr s'))"
proof -
  define r1 where "r1 = (if uint b = 170 \<and> pre_r_hex r = 170 \<or> rd_index r \<noteq> 0
    then r\<lparr>rd_buffer := (rd_buffer r)[rd_index r := uint b], rd_index := rd_index r + 1\<rparr> else r)"
  have l: "rd_index r < length (rd_buffer r)" using assms by (simp add: radar_inv_def)
  have 1: "(if uint b = 170 \<and> pre_r_hex r = 170 \<or> rd_index r \<noteq> 0
      then bind_res (arr_put (rd_buffer r) (rd_index r) (uint b)) (\<lambda>d. Inr (r\<lparr>rd_buffer := d, rd_index := rd_index r + 1\<rparr>))
      else Inr r) = Inr r1"
    using l by (simp add: r1_def)
  have r1: "byte_list (rd_buffer r1)" "length (rd_buffer r1) = 128" "rd_index r1 \<le> 14"
    using assms byte_list_put by (auto simp: r1_def radar_inv_def)
  then have inv1: "radar_inv (r1\<lparr>rd_index := 0\<rparr>, s)" using assms by (simp add: radar_inv_def)
  obtain s1 where s1: "radar_target now (rd_buffer r1) s = Inr s1" "radar_inv (r1\<lparr>rd_index := 0\<rparr>, s1)"
    using radar_target_ok [OF r1(1,2) assms, of now] inv1 by (simp add: radar_inv_def Let_def)
  show ?thesis
    unfolding check_radar_def prod.case Let_def 1 bind_res_simps
    using r1 inv1 s1 by (cases "rd_buffer r1 ! 1 = 12 \<and> rd_buffer r1 ! 2 = 7") (auto simp: radar_inv_def)
qed

text \<open>One input of the thread: the time and the byte.\<close>

definition radar_input :: "tick \<times> u8 \<Rightarrow> radar \<times> usv \<Rightarrow> (radar \<times> usv) res" where
  "radar_input = (\<lambda>(now, b). check_radar now b)"

interpretation radar: total_receiver radar_input radar_inv
proof unfold_locales
  fix st st' :: "radar \<times> usv" and b :: "tick \<times> u8"
  assume "radar_inv st" "radar_input b st = Inr st'"
  then show "radar_inv st'"
    using check_radar_ok [of "fst st" "snd st" "fst b" "snd b"] by (auto simp: radar_input_def split_def)
next
  fix st :: "radar \<times> usv" and b :: "tick \<times> u8"
  assume "radar_inv st"
  then show "\<exists>st'. radar_input b st = Inr st'"
    using check_radar_ok [of "fst st" "snd st" "fst b" "snd b"] by (auto simp: radar_input_def split_def)
qed

section \<open>Properties\<close>

text \<open>
  The radar receiver survives any stream of bytes at any times: no index leaves its array (target
  numbers of 10 and more are not stored) and no arithmetic overflows.
\<close>

theorem radar_any_stream:
  "\<exists>r s'. run_bytes radar_input bs (radar_start, usv_init p q) = Inr (r, s') \<and> radar_inv (r, s')"
  using radar.run_total [OF radar_inv_start, of bs p q] by (auto simp: split_paired_Ex)

text \<open>A run of bytes inside a frame, without its end mark.\<close>

lemma radar_collect:
  assumes "radar_inv (r, s)" "rd_index r \<noteq> 0" "rd_index r + length bs \<le> 13"
    and "\<forall>i < length bs. \<not> (uint (bs ! i) = 85 \<and> (if i = 0 then pre_r_hex r else uint (bs ! (i - 1))) = 85)"
  shows "\<exists>r'. run_bytes (check_radar now) bs (r, s) = Inr (r', s) \<and> radar_inv (r', s) \<and>
    rd_index r' = rd_index r + length bs \<and>
    take (rd_index r + length bs) (rd_buffer r') = take (rd_index r) (rd_buffer r) @ map uint bs \<and>
    pre_r_hex r' = (if bs = [] then pre_r_hex r else uint (last bs))"
  using assms
proof (induction bs arbitrary: r)
  case Nil
  then show ?case by (intro exI [of _ r]) simp
next
  case (Cons b bs)
  let ?i = "rd_index r" and ?d = "(rd_buffer r)[rd_index r := uint b]"
  let ?r = "r\<lparr>rd_buffer := ?d, rd_index := Suc ?i, pre_r_hex := uint b\<rparr>"
  have l: "?i < length (rd_buffer r)" using Cons.prems by (simp add: radar_inv_def)
  have "\<not> (uint b = 85 \<and> pre_r_hex r = 85)" using Cons.prems(4) by auto
  then have step: "check_radar now b (r, s) = Inr (?r, s)"
    using Cons.prems(2,3) l by (auto simp: check_radar_def Let_def)
  have inv: "radar_inv (?r, s)" using Cons.prems byte_list_put by (auto simp: radar_inv_def)
  have t: "take (Suc ?i) ?d = take ?i (rd_buffer r) @ [uint b]" using l by (simp add: take_Suc_conv_app_nth)
  have "\<not> (uint (bs ! i) = 85 \<and> (if i = 0 then pre_r_hex ?r else uint (bs ! (i - 1))) = 85)" if "i < length bs" for i
    using Cons.prems(4) [rule_format, of "Suc i"] that by (cases i) auto
  then obtain r' where r': "run_bytes (check_radar now) bs (?r, s) = Inr (r', s)" "radar_inv (r', s)"
    "rd_index r' = Suc ?i + length bs" "take (Suc ?i + length bs) (rd_buffer r') = take (Suc ?i) ?d @ map uint bs"
    "pre_r_hex r' = (if bs = [] then uint b else uint (last bs))"
    using Cons.IH [of ?r] inv Cons.prems(3) by auto
  then show ?case using step t by (intro exI [of _ r']) simp
qed

lemma nth_update_same: "xs ! i = v \<Longrightarrow> i < length xs \<Longrightarrow> xs[j := v] ! i = v"
  by (cases "j = i") auto

lemma all_less_9: "(\<forall>i < (9::nat). P i) \<longleftrightarrow> P 0 \<and> P 1 \<and> P 2 \<and> P 3 \<and> P 4 \<and> P 5 \<and> P 6 \<and> P 7 \<and> P 8"
  by (auto simp: All_less_Suc eval_nat_numeral)

lemma all_less_11:
  "(\<forall>i < (11::nat). P i) \<longleftrightarrow> P 0 \<and> P 1 \<and> P 2 \<and> P 3 \<and> P 4 \<and> P 5 \<and> P 6 \<and> P 7 \<and> P 8 \<and> P 9 \<and> P 10"
  by (auto simp: All_less_Suc eval_nat_numeral)

text \<open>
  C20. A target report arrives.  After the two start bytes, a report of kind 12, 7 for target \<open>t\<close> whose data
  hold no end mark, closed by the end mark, records the time, lowers the nearest distance if the target is
  nearer, and, for the targets 0 to 9, stores presence, distance and angle of exactly that target.
\<close>

theorem radar_report:
  assumes "radar_inv (r, s)" "rd_index r = 0" "pre_r_hex r \<noteq> 170"
    and bs: "bs = [12, 7, t, x, hi, lo, ang, y1, y2, y3]"
    and no_end: "\<forall>i < 9. \<not> (bs ! i = 85 \<and> bs ! Suc i = 85)" "y3 \<noteq> 85"
  shows "\<exists>r'. run_bytes (check_radar now) ([170, 170] @ bs @ [85, 85]) (r, s) = Inr (r',
    (let dist = uint hi * 256 + uint lo; i = nat (uint t) in
     s\<lparr>obstacle_tick := now, min_distance := min dist (min_distance s),
       target_id := (target_id s)[i := 1], target_distance := (target_distance s)[i := dist],
       target_angle := (target_angle s)[i := uint ang]\<rparr>)) \<and> rd_index r' = 0"
proof -
  let ?r0 = "r\<lparr>pre_r_hex := 170\<rparr>"
  let ?r1 = "r\<lparr>rd_buffer := (rd_buffer r)[0 := 170], rd_index := 1, pre_r_hex := 170\<rparr>"
  have l: "length (rd_buffer r) = 128" using assms(1) by (simp add: radar_inv_def)
  have 0: "check_radar now 170 (r, s) = Inr (?r0, s)" "check_radar now 170 (?r0, s) = Inr (?r1, s)"
    using assms(2,3) l by (simp_all add: check_radar_def Let_def)
  have inv1: "radar_inv (?r1, s)" using assms(1) byte_list_put [of "rd_buffer r" 0 170] by (simp add: radar_inv_def)
  let ?cs = "bs @ [85]"
  have lb: "length bs = 10" and len: "length ?cs = 11" by (simp_all add: bs)
  have t1: "take (Suc 0) ((rd_buffer r)[0 := 170]) = [170]" using l by (simp add: take_Suc_conv_app_nth)
  have w85: "uint w = 85 \<longleftrightarrow> w = 85" for w :: u8 by (simp add: word_uint_eq_iff)
  have "\<forall>i < length ?cs. \<not> (uint (?cs ! i) = 85 \<and> (if i = 0 then pre_r_hex ?r1 else uint (?cs ! (i - 1))) = 85)"
    unfolding len all_less_11 using no_end by (simp add: bs all_less_9 w85) blast
  then obtain r' where r': "run_bytes (check_radar now) ?cs (?r1, s) = Inr (r', s)" "radar_inv (r', s)" "rd_index r' = 12"
    "take 12 (rd_buffer r') = 170 # map uint bs @ [85]" "pre_r_hex r' = 85"
    using radar_collect [OF inv1, of ?cs now] lb t1 by auto
  let ?d = "(rd_buffer r')[12 := 85]"
  have d: "byte_list ?d" "length ?d = 128" "length (rd_buffer r') = 128"
    using r'(2) byte_list_put [of "rd_buffer r'" 12 85] by (simp_all add: radar_inv_def)
  have n: "?d ! i = (170 # map uint bs @ [85]) ! i" if "i < 12" for i
    using arg_cong [OF r'(4), of "\<lambda>x. x ! i"] that d(3) by simp
  have k: "?d ! 1 = 12" "?d ! 2 = 7" "?d ! 3 = uint t" "?d ! 5 = uint hi" "?d ! 6 = uint lo" "?d ! 7 = uint ang"
    using n [of 1] n [of 2] n [of 3] n [of 5] n [of 6] n [of 7] by (simp_all add: bs)
  obtain r'' where last: "check_radar now 85 (r', s) = bind_res (radar_target now ?d s) (\<lambda>s. Inr (r'', s))" "rd_index r'' = 0"
  proof
    show "check_radar now 85 (r', s) = bind_res (radar_target now ?d s)
        (\<lambda>s. Inr (r'\<lparr>rd_buffer := ?d, rd_index := 0, pre_r_hex := 85\<rparr>, s))"
      using r'(3,5) d(3) k(1,2) by (cases "radar_target now ?d s") (simp_all add: check_radar_def Let_def)
  qed simp
  have "run_bytes (check_radar now) ([170, 170] @ bs @ [85, 85]) (r, s) =
      run_bytes (check_radar now) (?cs @ [85]) (?r1, s)"
    by (simp add: 0)
  also have "\<dots> = bind_res (radar_target now ?d s) (\<lambda>s. Inr (r'', s))"
    unfolding run_bytes_append_ok [OF r'(1)] using last(1) by (cases "radar_target now ?d s") simp_all
  finally show ?thesis
    using radar_target_ok [OF d(1,2) assms(1), of now] last(2) k by (simp add: Let_def)
qed

theorem radar_report_witness:
  "\<exists>r'. run_bytes (check_radar 77) ([170, 170] @ [12, 7, 3, 0, 4, 176, 90, 0, 0, 0] @ [85, 85]) (radar_start, usv_init None None) =
    Inr (r', (usv_init None None)\<lparr>obstacle_tick := 77, min_distance := min 1200 (min_distance (usv_init None None)),
      target_id := (target_id (usv_init None None))[3 := 1],
      target_distance := (target_distance (usv_init None None))[3 := 1200],
      target_angle := (target_angle (usv_init None None))[3 := 90]\<rparr>) \<and> rd_index r' = 0"
proof -
  have "rd_index radar_start = 0" "pre_r_hex radar_start \<noteq> 170" by (simp_all add: radar_start_def)
  from radar_report [OF radar_inv_start this refl, of 3 0 4 176 90 0 0 0 77] show ?thesis
    by (simp add: all_less_9)
qed

text \<open>
  The nearest distance is forgotten, the targets are not: the time-out of the control thread is the only
  way the nearest distance grows, and no byte ever clears the presence of a target, so a target that was seen
  once is reported to the server for ever, although the declaration of \<^verbatim>\<open>obstacle_tick\<close> says that a
  time-out clears all obstacles.
\<close>

theorem radar_targets_stay:
  assumes "radar_inv (r, s)" "run_bytes radar_input bs (r, s) = Inr (r', s')" "i < 10" "target_id s ! i = 1"
  shows "target_id s' ! i = 1 \<and> min_distance s' \<le> min_distance s"
  using assms
proof (induction bs arbitrary: r s)
  case (Cons b bs)
  obtain r1 s1 where 1: "radar_input b (r, s) = Inr (r1, s1)" "radar_inv (r1, s1)"
    "s1 = s \<or> (\<exists>d. byte_list d \<and> length d = 128 \<and> radar_target (fst b) d s = Inr s1)"
    using check_radar_ok [OF Cons.prems(1), of "fst b" "snd b"] by (auto simp: radar_input_def split_def)
  have "target_id s1 ! i = 1 \<and> min_distance s1 \<le> min_distance s"
    using 1(3) Cons.prems(1,3,4) radar_target_ok [OF _ _ Cons.prems(1), of _ "fst b"]
    by (auto simp: Let_def nth_update_same radar_inv_def)
  moreover have "target_id s' ! i = 1 \<and> min_distance s' \<le> min_distance s1"
    using Cons.IH [of r1 s1] 1 Cons.prems(2,3) calculation by simp
  ultimately show ?case by simp
qed simp

theorem radar_targets_stay_witness:
  "\<exists>r' s'. run_bytes radar_input [(1, 170), (2, 170), (3, 12)] (radar_start, (usv_init None None)\<lparr>target_id := replicate 10 1\<rparr>) = Inr (r', s') \<and>
    target_id s' ! 4 = 1 \<and> min_distance s' \<le> 10000"
proof -
  let ?s = "(usv_init None None)\<lparr>target_id := replicate 10 1\<rparr>"
  have inv: "radar_inv (radar_start, ?s)" using radar_inv_start [of None None] by (simp add: radar_inv_def)
  from radar.run_total [OF this] obtain r' s' where
    run: "run_bytes radar_input [(1, 170), (2, 170), (3, 12)] (radar_start, ?s) = Inr (r', s')"
    by (metis surj_pair)
  have "target_id ?s ! 4 = 1" "min_distance ?s = 10000" by (simp_all add: usv_init_def)
  with radar_targets_stay [OF inv run, of 4] run show ?thesis by auto
qed

lemma compass_collect:
  assumes "length (compass_buffer c) = 128" "compass_index c \<noteq> 0" "CHR 0x0A \<notin> set xs"
    and "compass_index c + length xs \<le> 128"
  shows "\<exists>c'. run_bytes (check_compass atoff) xs (c, s) = Inr (c', s) \<and>
    compass_index c' = compass_index c + length xs \<and> length (compass_buffer c') = 128"
  using assms
proof (induction xs arbitrary: c)
  case (Cons x xs)
  let ?c = "c\<lparr>compass_buffer := (compass_buffer c)[compass_index c := x], compass_index := compass_index c + 1\<rparr>"
  have "check_compass atoff x (c, s) = Inr (?c, s)"
    using Cons.prems by (auto simp: check_compass_def)
  then show ?case using Cons.IH [of ?c] Cons.prems by auto
qed simp

text \<open>
  The text compass overruns its buffer: it has no limit on the length of a line, so from the idle receiver
  128 characters after a \<^verbatim>\<open>Y\<close> without a line feed write past the end of \<^verbatim>\<open>compass_buffer\<close>.
\<close>

theorem compass_overrun:
  assumes "length (compass_buffer c) = 128" "compass_index c = 0" "CHR 0x0A \<notin> set xs" "length xs = 127"
  shows "run_bytes (check_compass atoff) (''Y'' @ xs @ [ch]) (c, s) = Inl OutOfBounds"
proof -
  let ?c = "c\<lparr>compass_buffer := (compass_buffer c)[0 := CHR ''Y''], compass_index := 1\<rparr>"
  have 1: "check_compass atoff CHR ''Y'' (c, s) = Inr (?c, s)" using assms(1,2) by (simp add: check_compass_def)
  obtain c' where c': "run_bytes (check_compass atoff) xs (?c, s) = Inr (c', s)" "compass_index c' = 128"
    "length (compass_buffer c') = 128"
    using compass_collect [of ?c xs atoff s] assms by auto
  have "check_compass atoff ch (c', s) = Inl OutOfBounds"
    using c'(2,3) by (simp add: check_compass_def arr_put_def)
  then show ?thesis using 1 run_bytes_append_ok [OF c'(1), of "[ch]"] by simp
qed

theorem compass_overrun_witness:
  "run_bytes (check_compass (\<lambda>_. 0)) (''Y'' @ replicate 127 CHR ''x'' @ [CHR ''x'']) (compass_start, usv_init None None) =
    Inl OutOfBounds"
  by (rule compass_overrun) (simp_all add: compass_start_def)

end
