(* ===== verification/Energy.thy ===== *)
theory Energy
  imports Usv_State
begin

text \<open>
  \<^verbatim>\<open>applications/energy_adc.c\<close>: the battery gauge.  One turn of \<^verbatim>\<open>check_dump_energy\<close> averages twenty
  readings of the analogue converter (\<^verbatim>\<open>rt_adc_read\<close>, whose results are the argument) in single precision
  and converts the voltage to a charge with a tangent curve.  Enabling and disabling the converter has no
  effect on the shared state.
\<close>

definition REFER_VOLTAGE :: u32 where "REFER_VOLTAGE = 327"

text \<open>Lines 67 to 72: one reading to volts, the product in unsigned arithmetic.\<close>

definition adc_voltage :: "u32 \<Rightarrow> real" where
  "adc_voltage v = (let vol = v * REFER_VOLTAGE div 4095 in fl (db (of_int (uint (vol * 17)) / 200)))"

fun sum_voltage :: "real \<Rightarrow> u32 list \<Rightarrow> real" where
  "sum_voltage all_num [] = all_num"
| "sum_voltage all_num (v # vs) = sum_voltage (fl (all_num + adc_voltage v)) vs"

text \<open>Lines 77 to 85.\<close>

definition battery_voltage :: "real \<Rightarrow> real" where
  "battery_voltage all_num = fl (db (fl (all_num / 20) + db (6 / 10)))"

definition charge_curve :: "real \<Rightarrow> real" where
  "charge_curve V = fl (db (db (m_tan (db (db (42 / 100) * db (V - 95 / 4))) + 1) * 75))"

definition check_dump_energy :: "u32 list \<Rightarrow> usv \<Rightarrow> usv" where
  "check_dump_energy vs s =
     (let Voltage = battery_voltage (sum_voltage 0 vs);
          e = charge_curve Voltage;
          e = (if e < 10 then 1 else e);
          e = (if 99 < e then 99 else e)
      in s\<lparr>dump_energy := e\<rparr>)"

section \<open>Bounds through the roundings\<close>

lemma fl_between:
  assumes "of_int a * 2 powi (- 7) \<le> x" "x \<le> of_int b * 2 powi (- 7)" "\<bar>a\<bar> \<le> 2 ^ 20" "\<bar>b\<bar> \<le> 2 ^ 20"
  shows "of_int a * 2 powi (- 7) \<le> fl x \<and> fl x \<le> of_int b * 2 powi (- 7)"
  unfolding fl_def using rnd_ge_dyadic [of a "-7" x 24] rnd_le_dyadic [of x b "-7" 24] assms by auto

lemma db_between:
  assumes "of_int a * 2 powi (- 7) \<le> x" "x \<le> of_int b * 2 powi (- 7)" "\<bar>a\<bar> \<le> 2 ^ 20" "\<bar>b\<bar> \<le> 2 ^ 20"
  shows "of_int a * 2 powi (- 7) \<le> db x \<and> db x \<le> of_int b * 2 powi (- 7)"
  unfolding db_def using rnd_ge_dyadic [of a "-7" x 53] rnd_le_dyadic [of x b "-7" 53] assms by auto

text \<open>In units of 1/128: the reading 2680 is about 18.19 volts.\<close>

lemma adc_voltage_2680: "2320 / 128 \<le> adc_voltage 2680 \<and> adc_voltage 2680 \<le> 2336 / 128"
proof -
  have "(2680 * REFER_VOLTAGE div 4095) * 17 = (3638 :: u32)" by (simp add: REFER_VOLTAGE_def)
  then have "adc_voltage 2680 = fl (db (3638 / 200))" by (simp add: adc_voltage_def Let_def)
  moreover have "2320 / 128 \<le> db (3638 / 200) \<and> db (3638 / 200) \<le> 2336 / 128"
    using db_between [of 2320 "3638 / 200" 2336] by (simp add: power_int_minus)
  ultimately show ?thesis
    using fl_between [of 2320 "db (3638 / 200)" 2336] by (simp add: power_int_minus)
qed

lemma sum_voltage_bounds:
  assumes "\<forall>v \<in> set vs. 2320 / 128 \<le> adc_voltage v \<and> adc_voltage v \<le> 2336 / 128"
    and "of_nat k * 2320 / 128 \<le> s" "s \<le> of_nat k * 2336 / 128" "k + length vs \<le> 20"
  shows "of_nat (k + length vs) * 2320 / 128 \<le> sum_voltage s vs \<and>
    sum_voltage s vs \<le> of_nat (k + length vs) * 2336 / 128"
  using assms
proof (induction vs arbitrary: s k)
  case (Cons v vs)
  let ?x = "s + adc_voltage v"
  have "of_int (int (Suc k) * 2320) * 2 powi (- 7) \<le> ?x" "?x \<le> of_int (int (Suc k) * 2336) * 2 powi (- 7)"
    using Cons.prems by (auto simp: power_int_minus field_simps)
  then have "of_nat (Suc k) * 2320 / 128 \<le> fl ?x \<and> fl ?x \<le> of_nat (Suc k) * 2336 / 128"
    using fl_between [of "int (Suc k) * 2320" ?x "int (Suc k) * 2336"] Cons.prems(4)
    by (simp add: power_int_minus abs_mult)
  then show ?case using Cons.IH [of "Suc k" "fl ?x"] Cons.prems by simp
qed simp

section \<open>Properties\<close>

text \<open>
  The reported charge is always 1, or at least 10 and at most 99 percent, whatever the readings are.
\<close>

theorem dump_energy_range:
  "dump_energy (check_dump_energy vs s) = 1 \<or>
    10 \<le> dump_energy (check_dump_energy vs s) \<and> dump_energy (check_dump_energy vs s) \<le> 99"
  by (auto simp: check_dump_energy_def Let_def)

lemma tan_past_pole:
  assumes "- 272 / 128 \<le> x" "x \<le> (- 259 / 128 :: real)"
  shows "1 \<le> tan x"
proof -
  have "1 / 2 \<le> pi / 6" using sin_x_le_x [of "pi / 6"] by (simp add: sin_30)
  then have p: "3 \<le> pi" "pi < 4" using pi_less_4 by simp_all
  then have "pi / 4 < x + pi" "x + pi < pi / 2" using assms by simp_all
  then have "tan (pi / 4) < tan (x + pi)" using p by (intro tan_monotone) auto
  then show ?thesis by (simp add: tan_45)
qed

lemma voltage_2680:
  "2396 / 128 \<le> battery_voltage (sum_voltage 0 (replicate 20 2680)) \<and>
   battery_voltage (sum_voltage 0 (replicate 20 2680)) \<le> 2413 / 128"
proof -
  define S where "S = sum_voltage 0 (replicate 20 2680)"
  have "2320 * 20 / 128 \<le> S" "S \<le> 2336 * 20 / 128"
    using sum_voltage_bounds [of "replicate 20 2680" 0 0] adc_voltage_2680 by (simp_all add: S_def)
  then have s: "2320 / 128 \<le> fl (S / 20) \<and> fl (S / 20) \<le> 2336 / 128"
    using fl_between [of 2320 "S / 20" 2336] by (simp add: power_int_minus)
  have c: "76 / 128 \<le> db (6 / 10) \<and> db (6 / 10) \<le> 77 / 128"
    using db_between [of 76 "6 / 10" 77] by (simp add: power_int_minus)
  have "2396 / 128 \<le> db (fl (S / 20) + db (6 / 10)) \<and> db (fl (S / 20) + db (6 / 10)) \<le> 2413 / 128"
    using db_between [of 2396 "fl (S / 20) + db (6 / 10)" 2413] s c by (simp add: power_int_minus)
  then show ?thesis
    using fl_between [of 2396 "db (fl (S / 20) + db (6 / 10))" 2413]
    by (simp add: power_int_minus battery_voltage_def S_def)
qed

lemma charge_curve_past_pole:
  assumes "2396 / 128 \<le> V" "V \<le> 2413 / 128"
  shows "150 \<le> charge_curve V"
proof -
  let ?d = "db (V - 95 / 4)" and ?k = "db (42 / 100)"
  have d: "- 644 / 128 \<le> ?d \<and> ?d \<le> - 627 / 128"
    using db_between [of "-644" "V - 95 / 4" "-627"] assms by (simp add: power_int_minus)
  have k: "53 / 128 \<le> ?k \<and> ?k \<le> 54 / 128"
    using db_between [of 53 "42 / 100" 54] by (simp add: power_int_minus)
  have "?k * (- ?d) \<le> 54 / 128 * (644 / 128)" "53 / 128 * (627 / 128) \<le> ?k * (- ?d)"
    using d k by (intro mult_mono; simp)+
  then have "- 272 / 128 \<le> db (?k * ?d) \<and> db (?k * ?d) \<le> - 259 / 128"
    using db_between [of "-272" "?k * ?d" "-259"] by (simp add: power_int_minus)
  then have "1 \<le> tan (db (?k * ?d))" using tan_past_pole by blast
  then have "1 \<le> m_tan (db (?k * ?d))" using db_ge_int [of 1 "tan (db (?k * ?d))"] by (simp add: m_tan_def)
  then have "2 \<le> db (m_tan (db (?k * ?d)) + 1)" using db_ge_int [of 2 "m_tan (db (?k * ?d)) + 1"] by simp
  then have "150 \<le> db (db (m_tan (db (?k * ?d)) + 1) * 75)"
    using db_ge_int [of 150 "db (m_tan (db (?k * ?d)) + 1) * 75"] by simp
  then show ?thesis using fl_ge_int [of 150] by (simp add: charge_curve_def)
qed

text \<open>
  A flat battery reads full.  The curve is a tangent and the voltage is not limited from below, so under
  about 20 volts the argument passes a pole: twenty readings of 2680 (18.8 volts at the battery) are reported
  as 99 percent, the value of a full battery.
\<close>

theorem flat_battery_reads_full: "dump_energy (check_dump_energy (replicate 20 2680) s) = 99"
  using charge_curve_past_pole [of "battery_voltage (sum_voltage 0 (replicate 20 2680))"] voltage_2680
  by (simp only: check_dump_energy_def Let_def) simp

end
