(* ===== verification/System.thy ===== *)
theory System
  imports Manager Lora Raspberry Gps Water Compass Energy
begin

text \<open>
  The threads together.  \<open>boat\<close> is the state of the running firmware: the shared variables and the locals of
  every thread.  An \<open>event\<close> is one turn of one thread with its input, so that a list of events is an
  interleaving of the threads.  Turns are atomic: what is proved here does not cover a switch between two
  accesses of one turn.
\<close>

record boat =
  shared :: usv
  pilot :: cruise
  remote :: lora
  server_link :: rasp
  last_draw_report :: tick
  position :: frame_buf
  scanner :: radar
  probe :: frame_buf

datatype event =
    Control tick_reads                \<comment> \<open>\<^verbatim>\<open>manager\<close>\<close>
  | Thrusters                         \<comment> \<open>\<^verbatim>\<open>loop_change_pwm\<close>\<close>
  | Winch                             \<comment> \<open>\<^verbatim>\<open>loop_change_gear\<close>\<close>
  | Remote_byte tick char             \<comment> \<open>\<^verbatim>\<open>lora_rec\<close> of \<^verbatim>\<open>lora.c\<close>\<close>
  | Server_byte tick tick string char \<comment> \<open>\<^verbatim>\<open>lora_rec\<close> of \<^verbatim>\<open>raspberry.c\<close>\<close>
  | Report tick tick                  \<comment> \<open>\<^verbatim>\<open>lora_send\<close> of \<^verbatim>\<open>raspberry.c\<close>\<close>
  | Position_byte u8                  \<comment> \<open>\<^verbatim>\<open>check_gps\<close>\<close>
  | Radar_byte tick u8                \<comment> \<open>\<^verbatim>\<open>check_radar\<close>\<close>
  | Probe_byte u8                     \<comment> \<open>\<^verbatim>\<open>check_water\<close>\<close>
  | Battery "u32 list"                \<comment> \<open>\<^verbatim>\<open>check_dump_energy\<close>\<close>

fun boat_step :: "event \<Rightarrow> boat \<Rightarrow> boat res" where
  "boat_step (Control tr) b =
     bind_res (manager_step tr (pilot b) (shared b)) (\<lambda>(c, s). Inr (b\<lparr>pilot := c, shared := s\<rparr>))"
| "boat_step Thrusters b = Inr (b\<lparr>shared := fst (loop_change_pwm (shared b))\<rparr>)"
| "boat_step Winch b = Inr (b\<lparr>shared := fst (loop_change_gear (shared b))\<rparr>)"
| "boat_step (Remote_byte now ch) b =
     bind_res (lora_rec now ch (remote b, shared b)) (\<lambda>(l, s). Inr (b\<lparr>remote := l, shared := s\<rparr>))"
| "boat_step (Server_byte now now2 stk ch) b =
     bind_res (server_rec now now2 stk ch (server_link b, shared b)) (\<lambda>(r, s). Inr (b\<lparr>server_link := r, shared := s\<rparr>))"
| "boat_step (Report t1 t2) b =
     bind_res (server_send t1 t2 (last_draw_report b, shared b)) (\<lambda>(t, s). Inr (b\<lparr>last_draw_report := t, shared := s\<rparr>))"
| "boat_step (Position_byte x) b =
     bind_res (check_gps x (position b, shared b)) (\<lambda>(f, s). Inr (b\<lparr>position := f, shared := s\<rparr>))"
| "boat_step (Radar_byte now x) b =
     bind_res (check_radar now x (scanner b, shared b)) (\<lambda>(r, s). Inr (b\<lparr>scanner := r, shared := s\<rparr>))"
| "boat_step (Probe_byte x) b =
     bind_res (check_water x (probe b, shared b)) (\<lambda>(f, s). Inr (b\<lparr>probe := f, shared := s\<rparr>))"
| "boat_step (Battery vs) b = Inr (b\<lparr>shared := check_dump_energy vs (shared b)\<rparr>)"

text \<open>
  Power-up: the pins are set up, and the threads start with their outputs; \<open>p3\<close> and \<open>p5\<close> are the timers
  found for thrusters and winch.
\<close>

definition boat_start :: "tim_regs option \<Rightarrow> tim_regs option \<Rightarrow> char list list \<Rightarrow> boat" where
  "boat_start p3 p5 garbage =
     \<lparr>shared = init_gear_pwm p5 (init_motor_pwm p3 (init_gpio (usv_init None None))), pilot = cruise_init, remote = lora_start,
     server_link = rasp_start garbage, last_draw_report = 0, position = frame_start, scanner = radar_start,
     probe = frame_start\<rparr>"

section \<open>What a thread leaves alone\<close>

text \<open>The outputs: pins, timers, and the variables from which they are made.\<close>

definition commands :: "usv \<Rightarrow> (nat \<Rightarrow> level) \<times> u32 \<times> u32 \<times> u32" where
  "commands s = (pins s, target_left_pwm s, target_right_pwm s, target_gear_pwm s)"

definition drives :: "usv \<Rightarrow> u32 \<times> u32 \<times> u32 \<times> tim_regs option \<times> tim_regs option" where
  "drives s = (current_left_pwm s, current_right_pwm s, current_gear_pwm s, pwm3 s, pwm5 s)"

text \<open>The lengths of the shared arrays.\<close>

definition sizes :: "usv \<Rightarrow> nat list" where
  "sizes s = [length (key s), length (server_buffer s), length (pid s), length (target_id s),
     length (target_distance s), length (target_angle s)]"

definition same_outputs :: "usv \<Rightarrow> usv \<Rightarrow> bool" where
  "same_outputs s s' \<longleftrightarrow> commands s' = commands s \<and> drives s' = drives s \<and> sizes s' = sizes s \<and>
     current_theta s' = current_theta s"

text \<open>And the choice of the control source.\<close>

definition same_boat :: "usv \<Rightarrow> usv \<Rightarrow> bool" where
  "same_boat s s' \<longleftrightarrow> same_outputs s s' \<and> key s' = key s \<and> current_mode s' = current_mode s"

lemmas same_defs = same_boat_def same_outputs_def commands_def drives_def sizes_def

lemma same_boat_refl [simp]: "same_boat s s" "same_outputs s s"
  by (simp_all add: same_boat_def same_outputs_def)

lemma same_boat_trans: "same_boat s t \<Longrightarrow> same_boat t u \<Longrightarrow> same_boat s u"
  by (simp add: same_boat_def same_outputs_def)

lemma same_boat_outputs: "same_boat s t \<Longrightarrow> same_outputs s t"
  by (simp add: same_boat_def)

lemma remote_same:
  assumes "lora_rec now ch (l, s) = Inr (l', s')"
  shows "same_outputs s s'"
proof -
  have stick: "same_outputs s s'" if "lora_stick (l, s) = Inr (l', s')" for l s l' s'
    using that by (rule lora_stickE) (simp add: same_defs)
  have keys: "same_outputs s s'" if "lora_keys (l, s) = Inr (l', s')" for l s l' s'
    using that by (rule lora_keysE) (simp add: same_defs set_key_def)
  have frame: "same_outputs s s'" if fr: "lora_frame now (l, s) = Inr (l', s')" for l s l' s'
  proof -
    obtain b l1 s1 l2 s2 where st:
      "(if data_type l = 1 then lora_stick (l\<lparr>lora_buffer := b\<rparr>, s) else Inr (l\<lparr>lora_buffer := b\<rparr>, s)) = Inr (l1, s1)"
      "(if data_type l1 = 2 then lora_keys (l1, s1) else Inr (l1, s1)) = Inr (l2, s2)" "s' = s2\<lparr>rec_tick := now\<rparr>"
      using fr unfolding lora_frame_def prod.case Let_def
      by (elim bind_resE) (force elim!: bind_resE split: prod.splits)
    have "same_outputs s s1" "same_outputs s1 s2" using st(1,2) stick keys by (auto split: if_splits)
    then show ?thesis using st(3) by (simp add: same_defs)
  qed
  show ?thesis
    using assms unfolding lora_rec_def prod.case
    by (elim bind_resE) (auto split: if_splits elim: bind_resE dest: frame)
qed

lemma messages_same:
  "msg_target st = Inr st' \<Longrightarrow> same_boat (snd st) (snd st')"
  "msg_bottle st = Inr st' \<Longrightarrow> same_boat (snd st) (snd st')"
  "msg_control st = Inr st' \<Longrightarrow> same_boat (snd st) (snd st')"
  "msg_settings st = Inr st' \<Longrightarrow> same_boat (snd st) (snd st')"
  "msg_pid st = Inr st' \<Longrightarrow> same_boat (snd st) (snd st')"
  "msg_compass st = Inr st' \<Longrightarrow> same_boat (snd st) (snd st')"
  by (cases st; cases st'; simp add: msg_target_def msg_bottle_def msg_control_def msg_settings_def
      msg_pid_def msg_compass_def bind_res_Inr_iff Let_def; clarsimp simp: same_defs confirm_def)+

lemma server_same:
  assumes "server_rec now now2 stk ch (r, s) = Inr (r', s')"
  shows "same_boat s s'"
proof -
  have message: "same_boat s s'" if "server_message now (r, s) = Inr (r', s')" for now r s r' s'
    using that messages_same [of "(r, s)" "(r', s')"] unfolding server_message_def prod.case
    by (auto simp: same_defs split: if_splits)
  obtain r1 s1 r2 s2 where st: "server_store stk ch (r, s\<lparr>rec_server_tick := now\<rparr>) = Inr (r1, s1)"
    "(if ch = CHR ''Z'' \<and> rasp_index r1 \<noteq> 0 then
       bind_res (arr_put (server_buffer s1) (rasp_index r1) NUL) (\<lambda>b.
       bind_res (server_message now2 (r1, s1\<lparr>server_buffer := b\<rparr>)) (\<lambda>(r, s). Inr (r\<lparr>rasp_index := 0\<rparr>, s)))
      else Inr (r1, s1)) = Inr (r2, s2)" "s' = s2"
    using assms unfolding server_rec_def prod.case by (elim bind_resE) (force elim!: bind_resE split: prod.splits)
  have "same_boat (s\<lparr>rec_server_tick := now\<rparr>) s1"
    using st(1) unfolding server_store_def prod.case
    by (auto simp: same_defs split: if_splits elim!: bind_resE dest: arr_put_length)
  then have "same_boat s s1" by (simp add: same_defs)
  moreover have "same_boat s1 s2"
  proof (cases "ch = CHR ''Z'' \<and> rasp_index r1 \<noteq> 0")
    case True
    then obtain b where b: "arr_put (server_buffer s1) (rasp_index r1) NUL = Inr b"
      "bind_res (server_message now2 (r1, s1\<lparr>server_buffer := b\<rparr>)) (\<lambda>(r, s). Inr (r\<lparr>rasp_index := 0\<rparr>, s)) = Inr (r2, s2)"
      using st(2) by (auto elim: bind_resE)
    then obtain r3 where "server_message now2 (r1, s1\<lparr>server_buffer := b\<rparr>) = Inr (r3, s2)"
      by (auto elim: bind_resE)
    from message [OF this] show ?thesis using arr_put_length [OF b(1)] by (simp add: same_defs)
  qed (use st(2) in \<open>auto split: if_splits\<close>)
  ultimately show ?thesis using st(3) same_boat_trans by blast
qed

lemma send_obstacles_same: "same_boat s (send_obstacles i s)"
proof (induction i s rule: send_obstacles.induct)
  case (1 i s)
  have "same_boat s (rt_kprintf t s)" for t by (simp add: same_defs rt_kprintf_def)
  then show ?case using 1 by (subst send_obstacles.simps) (auto intro: same_boat_trans [OF \<open>same_boat s _\<close>])
qed

lemma report_same:
  assumes "server_send t1 t2 (d, s) = Inr (d', s')"
  shows "same_boat s s'"
proof -
  have print: "same_boat s (rt_kprintf t s)" for t s by (simp add: same_defs rt_kprintf_def)
  show ?thesis
  proof (cases "send_status_data s = 1")
    case True
    define s1 where "s1 = (if 1000 < t1 - d then rt_kprintf (message CHR ''C'' [ship_id s, bottle_id s, draw_status s,
      dump_draw_time s, full_draw_time s]) s else s)"
    define s2 where "s2 = (if draw_status s1 = 4
      then rt_kprintf (message CHR ''B'' [ship_id s1, wt s1, ph s1, doDo s1, ec s1, td s1]) s1 else s1)"
    define s3 where "s3 = (if min_distance s2 < 1500 then send_obstacles 0 s2 else s2)"
    have "same_boat s s1" "same_boat s1 s2" "same_boat s2 s3"
      using print send_obstacles_same by (simp_all add: s1_def s2_def s3_def)
    then have s3: "same_boat s s3" using same_boat_trans by blast
    have "\<exists>t. s' = rt_kprintf t s3"
      using assms True unfolding server_send_def prod.case
      by (auto simp: Let_def s3_def s2_def s1_def split: prod.splits if_splits elim!: bind_resE)
    then show ?thesis using print s3 same_boat_trans by blast
  next
    case False
    then show ?thesis using assms print [of s] unfolding server_send_def prod.case
      by (auto simp: same_defs split: if_splits elim!: bind_resE)
  qed
qed

lemma position_same:
  assumes "frame_inv 11 f" "check_gps x (f, s) = Inr (f', s')" "0 \<le> current_theta s" "current_theta s \<le> 360"
  shows "frame_inv 11 f' \<and> commands s' = commands s \<and> drives s' = drives s \<and> sizes s' = sizes s \<and> key s' = key s \<and>
    current_mode s' = current_mode s \<and> 0 \<le> current_theta s' \<and> current_theta s' \<le> 360"
proof -
  have "gps_ok (f, s)" using assms by (simp add: gps_ok_def)
  from gps.keeps [OF this assms(2)] have "gps_ok (f', s')" .
  moreover have "s' = s \<or> (\<exists>d. gps_handle d s = Inr s')"
    using frame_step_inv [of 11 f 85 gps_handle x s f' s'] assms(1,2) by (auto simp: check_gps_def)
  then have "commands s' = commands s \<and> drives s' = drives s \<and> sizes s' = sizes s \<and> key s' = key s \<and>
      current_mode s' = current_mode s"
    by (auto simp: gps_handle_def same_defs split: if_splits elim!: bind_resE)
  ultimately show ?thesis by (simp add: gps_ok_def)
qed

lemma radar_same:
  assumes "radar_inv (r, s)" "check_radar now x (r, s) = Inr (r', s')"
  shows "radar_inv (r', s') \<and> same_boat s s'"
proof -
  obtain "radar_inv (r', s')" "s' = s \<or> (\<exists>d. byte_list d \<and> length d = 128 \<and> radar_target now d s = Inr s')"
    using check_radar_ok [OF assms(1), of now x] assms(2) by auto
  then show ?thesis using radar_target_ok [OF _ _ assms(1)] by (auto simp: same_defs Let_def)
qed

lemma probe_same:
  assumes "frame_inv 12 f" "check_water x (f, s) = Inr (f', s')"
  shows "frame_inv 12 f' \<and> same_boat s s'"
proof -
  have "frame_inv 12 f' \<and> (s' = s \<or> (\<exists>d. byte_list d \<and> length d = 128 \<and> water_handle d s = Inr s'))"
    using frame_step_inv [of 12 f 6 water_handle x s f' s'] assms by (simp add: check_water_def)
  then show ?thesis using water_handle_ok by (auto simp: same_defs)
qed

lemma battery_same: "same_boat s (check_dump_energy vs s)"
  by (simp add: check_dump_energy_def Let_def same_defs)

section \<open>The control thread\<close>

lemma drive_targets:
  "manager_drive c s = Inr (c', s') \<Longrightarrow> s' = s \<or> (\<exists>l r u. s' = set_pwm l r u)"
  by (auto simp: manager_drive_def remote_drive_def hand_drive_def auto_drive_def bind_res_Inr_iff Let_def
      split: if_splits)

lemma control_keeps:
  assumes "manager_step tr c s = Inr (c', s')"
  shows "drives s' = drives s" "sizes s' = sizes s" "current_theta s' = current_theta s"
    "motor_inv s \<Longrightarrow> motor_inv s'"
proof -
  obtain s1 s2 where st: "manager_drive c (decided tr s) = Inr (c', s1)" "manager_sample tr s1 = Inr s2"
    "s' = feed_dog s2" by (rule manager_stepE [OF assms])
  obtain f m k i d where dec: "decided tr s = s\<lparr>current_mode := m, key := k, is_connect := i, min_distance := d, pins := f\<rparr>"
    using decided_frame by blast
  have k: "length k = length (key s)"
    using arg_cong [OF dec, of key] by (auto simp: decided_select manager_timeouts_def set_key_def Let_def)
  note e1 = manager_drive_rest [OF st(1)] and e2 = manager_sample_rest [OF st(2)]
  have 0: "drives (decided tr s) = drives s" "sizes (decided tr s) = sizes s" "current_theta (decided tr s) = current_theta s"
    "motor_inv (decided tr s) = motor_inv s"
    unfolding dec by (simp_all add: same_defs k motor_inv_def)
  have inj1: "drives (drive_rest u) = drives u" "sizes (drive_rest u) = sizes u" "current_theta (drive_rest u) = current_theta u"
    and inj2: "drives (sample_rest u) = drives u" "sizes (sample_rest u) = sizes u" "current_theta (sample_rest u) = current_theta u"
    for u by (simp_all add: drive_rest_def sample_rest_def same_defs)
  have 1: "drives s1 = drives (decided tr s)" "sizes s1 = sizes (decided tr s)" "current_theta s1 = current_theta (decided tr s)"
    using e1 inj1 by metis+
  have 2: "drives s2 = drives s1" "sizes s2 = sizes s1" "current_theta s2 = current_theta s1"
    using e2 inj2 by metis+
  have 3: "drives s' = drives s2" "sizes s' = sizes s2" "current_theta s' = current_theta s2"
    by (simp_all add: st(3) feed_dog_def same_defs)
  show "drives s' = drives s" "sizes s' = sizes s" "current_theta s' = current_theta s"
    using 0 1 2 3 by simp_all
  assume "motor_inv s"
  then have m0: "motor_inv (decided tr s)" using 0 by simp
  have c1: "current_left_pwm s1 = current_left_pwm (decided tr s)" "current_right_pwm s1 = current_right_pwm (decided tr s)"
    using 1(1) by (simp_all add: drives_def)
  have "motor_inv s1"
    using drive_targets [OF st(1)] m0 c1 set_pwm_ok by (auto simp: motor_inv_def)
  moreover have "target_left_pwm s2 = target_left_pwm s1" "target_right_pwm s2 = target_right_pwm s1"
    using sample_rest_select [OF e2] by simp_all
  ultimately show "motor_inv s'"
    using 2(1) by (simp add: motor_inv_def st(3) feed_dog_def drives_def)
qed

section \<open>The invariant\<close>

definition boat_inv :: "boat \<Rightarrow> bool" where
  "boat_inv b \<longleftrightarrow> motor_inv (shared b) \<and> valves_safe (shared b) \<and> 0 \<le> current_theta (shared b) \<and>
     current_theta (shared b) \<le> 360 \<and> lora_ok (remote b, shared b) \<and> rasp_inv (server_link b, shared b) \<and>
     frame_inv 11 (position b) \<and> radar_inv (scanner b, shared b) \<and> frame_inv 12 (probe b)"

lemma motor_inv_cong: "commands s' = commands s \<Longrightarrow> drives s' = drives s \<Longrightarrow> motor_inv s' = motor_inv s"
  by (simp add: motor_inv_def same_defs)

lemma sizes_cong:
  assumes "sizes s' = sizes s"
  shows "lora_ok (l, s') = lora_ok (l, s)" "rasp_inv (r, s') = rasp_inv (r, s)" "radar_inv (a, s') = radar_inv (a, s)"
  using assms by (simp_all add: sizes_def lora_ok_def keys_wf_def rasp_inv_def radar_inv_def)

lemma boat_inv_same:
  assumes "boat_inv b" "same_outputs (shared b) s"
  shows "boat_inv (b\<lparr>shared := s\<rparr>)"
  using assms sizes_cong [of s "shared b"] motor_inv_cong [of s "shared b"] valves_safe_cong [of s "shared b"]
  by (simp add: boat_inv_def same_outputs_def commands_def)

lemma boat_step_keeps:
  assumes "boat_inv b" "boat_step e b = Inr b'"
  shows "boat_inv b'"
proof -
  let ?s = "shared b"
  note inv = assms(1) [unfolded boat_inv_def]
  note same = boat_inv_same [OF assms(1)]
  show ?thesis
  proof (cases e)
    case (Control tr)
    then obtain c s where st: "manager_step tr (pilot b) ?s = Inr (c, s)" "b' = b\<lparr>pilot := c, shared := s\<rparr>"
      using assms(2) by (auto elim: bind_resE)
    then show ?thesis
      using inv control_keeps [OF st(1)] sizes_cong [of s ?s] manager_valves [OF _ st(1)] by (simp add: boat_inv_def)
  next
    case Thrusters
    obtain l r p where f: "fst (loop_change_pwm ?s) = ?s\<lparr>current_left_pwm := l, current_right_pwm := r, pwm3 := p\<rparr>"
      using loop_change_pwm_frame by blast
    have "motor_inv (fst (loop_change_pwm ?s))" using inv loop_change_pwm_inv by simp
    moreover have "valves_safe (fst (loop_change_pwm ?s)) = valves_safe ?s"
      unfolding f by (rule valves_safe_cong) simp
    moreover have "sizes (fst (loop_change_pwm ?s)) = sizes ?s" unfolding f by (simp add: sizes_def)
    note sizes_cong [OF this]
    moreover have "current_theta (fst (loop_change_pwm ?s)) = current_theta ?s" unfolding f by simp
    ultimately show ?thesis using inv assms(2) Thrusters by (auto simp: boat_inv_def)
  next
    case Winch
    obtain c p where f: "fst (loop_change_gear ?s) = ?s\<lparr>current_gear_pwm := c, pwm5 := p\<rparr>"
      using loop_change_gear_frame by blast
    have "valves_safe (?s\<lparr>current_gear_pwm := c, pwm5 := p\<rparr>) = valves_safe ?s"
      by (rule valves_safe_cong) simp
    moreover have "sizes (?s\<lparr>current_gear_pwm := c, pwm5 := p\<rparr>) = sizes ?s" by (simp add: sizes_def)
    note sizes_cong [OF this]
    ultimately show ?thesis using inv assms(2) Winch by (auto simp: f boat_inv_def motor_inv_def)
  next
    case (Remote_byte now ch)
    then obtain l s where st: "lora_rec now ch (remote b, ?s) = Inr (l, s)" "b' = b\<lparr>remote := l, shared := s\<rparr>"
      using assms(2) by (auto elim: bind_resE)
    then show ?thesis
      using same [OF remote_same [OF st(1)]] lora_rec_keeps [OF _ st(1)] inv by (simp add: boat_inv_def)
  next
    case (Server_byte now now2 stk ch)
    then obtain r s where st: "server_rec now now2 stk ch (server_link b, ?s) = Inr (r, s)"
      "b' = b\<lparr>server_link := r, shared := s\<rparr>" using assms(2) by (auto elim: bind_resE)
    then show ?thesis
      using same [OF same_boat_outputs [OF server_same [OF st(1)]]] server_rec_keeps [OF _ st(1)] inv by (simp add: boat_inv_def)
  next
    case (Report t1 t2)
    then obtain t s where st: "server_send t1 t2 (last_draw_report b, ?s) = Inr (t, s)"
      "b' = b\<lparr>last_draw_report := t, shared := s\<rparr>" using assms(2) by (auto elim: bind_resE)
    then show ?thesis using same [OF same_boat_outputs [OF report_same [OF st(1)]]] by (simp add: boat_inv_def)
  next
    case (Position_byte x)
    then obtain f s where st: "check_gps x (position b, ?s) = Inr (f, s)" "b' = b\<lparr>position := f, shared := s\<rparr>"
      using assms(2) by (auto elim: bind_resE)
    have "frame_inv 11 f \<and> commands s = commands ?s \<and> drives s = drives ?s \<and> sizes s = sizes ?s \<and>
        key s = key ?s \<and> current_mode s = current_mode ?s \<and> 0 \<le> current_theta s \<and> current_theta s \<le> 360"
      using position_same [OF _ st(1)] inv by blast
    then show ?thesis
      using inv st(2) sizes_cong [of s ?s] motor_inv_cong [of s ?s] valves_safe_cong [of s ?s]
      by (simp add: boat_inv_def commands_def)
  next
    case (Radar_byte now x)
    then obtain r s where st: "check_radar now x (scanner b, ?s) = Inr (r, s)" "b' = b\<lparr>scanner := r, shared := s\<rparr>"
      using assms(2) by (auto elim: bind_resE)
    then show ?thesis using same [OF same_boat_outputs, of s] radar_same [OF _ st(1)] inv by (simp add: boat_inv_def)
  next
    case (Probe_byte x)
    then obtain f s where st: "check_water x (probe b, ?s) = Inr (f, s)" "b' = b\<lparr>probe := f, shared := s\<rparr>"
      using assms(2) by (auto elim: bind_resE)
    then show ?thesis using same [OF same_boat_outputs, of s] probe_same [OF _ st(1)] inv by (simp add: boat_inv_def)
  next
    case (Battery vs)
    then show ?thesis using same [OF same_boat_outputs [OF battery_same]] assms(2) by auto
  qed
qed

interpretation boat: byte_receiver boat_step boat_inv
  by unfold_locales (rule boat_step_keeps)

lemma modes_frame: "\<exists>m. modes ms s = s\<lparr>pin_modes := m\<rparr>"
proof (induction ms arbitrary: s)
  case Nil
  show ?case by (rule exI [of _ "pin_modes s"]) simp
next
  case (Cons x ms)
  obtain p v where x: "x = (p, v)" by (cases x)
  have "\<exists>m. rt_pin_mode p v s = s\<lparr>pin_modes := m\<rparr>"
    by (rule exI [of _ "pin_modes (rt_pin_mode p v s)"])
      (simp add: rt_pin_mode_def stm32_pin_mode_def Let_def split: option.split)
  then obtain m where m: "rt_pin_mode p v s = s\<lparr>pin_modes := m\<rparr>" by blast
  show ?case using Cons.IH [of "s\<lparr>pin_modes := m\<rparr>"] by (auto simp: x m)
qed

lemma start_shared:
  obtains f m q3 q5 t where "shared (boat_start p3 p5 garbage) =
      (usv_init None None)\<lparr>pin_modes := m, pins := f, pwm3 := q3, pwm5 := q5, tx := t\<rparr>"
    "valves_safe (shared (boat_start p3 p5 garbage))"
proof -
  let ?s0 = "usv_init None None" and ?ms = "[(LED1, PIN_MODE_OUTPUT), (LED2, PIN_MODE_OUTPUT), (LED3, PIN_MODE_OUTPUT),
    (MD0, PIN_MODE_OUTPUT), (MD1, PIN_MODE_OUTPUT), (PW_IN, PIN_MODE_INPUT_PULLUP), (PW_OUT, PIN_MODE_OUTPUT),
    (relay1, PIN_MODE_OUTPUT), (relay2, PIN_MODE_OUTPUT), (relay3, PIN_MODE_OUTPUT), (relay4, PIN_MODE_OUTPUT),
    (valve1, PIN_MODE_OUTPUT), (valve2, PIN_MODE_OUTPUT), (valve3, PIN_MODE_OUTPUT),
    (valve4, PIN_MODE_OUTPUT), (valve5, PIN_MODE_OUTPUT), (valve6, PIN_MODE_OUTPUT),
    (valve7, PIN_MODE_OUTPUT), (valve8, PIN_MODE_OUTPUT)]"
  obtain m where m: "modes ?ms ?s0 = ?s0\<lparr>pin_modes := m\<rparr>" using modes_frame by blast
  define s1 where "s1 = writes [(MD0, PIN_LOW), (MD1, PIN_LOW)] (?s0\<lparr>pin_modes := m\<rparr>)"
  have gpio: "init_gpio ?s0 = control_status_led 2 s1"
    unfolding init_gpio_def m s1_def ..
  have s1: "s1 = ?s0\<lparr>pin_modes := m, pins := (pins ?s0)(MD0 := PIN_LOW, MD1 := PIN_LOW)\<rparr>"
    by (simp add: s1_def rt_pin_write_pins pin_defs)
  have "valves_safe s1"
    by (simp add: s1 valves_safe_def open_valves_def pump_on_def usv_init_def valve_def pin_defs)
  then have safe: "valves_safe (init_gpio ?s0)" unfolding gpio by simp
  obtain f where "control_status_led 2 s1 = s1\<lparr>pins := f\<rparr>" using control_status_led_frame by blast
  then have f: "init_gpio ?s0 = ?s0\<lparr>pin_modes := m, pins := f\<rparr>" by (simp add: gpio s1)
  have motor: "\<exists>q t. init_motor_pwm x s = s\<lparr>pwm3 := q, tx := t\<rparr>" for x s
    by (intro exI [of _ "pwm3 (init_motor_pwm x s)"] exI [of _ "tx (init_motor_pwm x s)"])
      (simp add: init_motor_pwm_def motor_out_def Let_def)
  have gear: "\<exists>q t. init_gear_pwm x s = s\<lparr>pwm5 := q, tx := t\<rparr>" for x s
    by (intro exI [of _ "pwm5 (init_gear_pwm x s)"] exI [of _ "tx (init_gear_pwm x s)"])
      (simp add: init_gear_pwm_def gear_out_def Let_def)
  obtain q3 t3 where q3: "init_motor_pwm p3 (init_gpio ?s0) = (init_gpio ?s0)\<lparr>pwm3 := q3, tx := t3\<rparr>" using motor by blast
  obtain q5 t5 where q5: "init_gear_pwm p5 (init_motor_pwm p3 (init_gpio ?s0)) =
      (init_motor_pwm p3 (init_gpio ?s0))\<lparr>pwm5 := q5, tx := t5\<rparr>" using gear by blast
  have eq: "shared (boat_start p3 p5 garbage) = ?s0\<lparr>pin_modes := m, pins := f, pwm3 := q3, pwm5 := q5, tx := t5\<rparr>"
    unfolding boat_start_def boat.simps q5 unfolding q3 unfolding f by simp
  moreover have "valves_safe (shared (boat_start p3 p5 garbage)) = valves_safe (init_gpio ?s0)"
    unfolding eq f by (rule valves_safe_cong) simp
  ultimately show ?thesis using that safe by blast
qed

lemma boat_start_inv:
  assumes "map length garbage = replicate 6 20"
  shows "boat_inv (boat_start p3 p5 garbage)"
proof -
  let ?b = "boat_start p3 p5 garbage"
  obtain f m q3 q5 t where s: "shared ?b = (usv_init None None)\<lparr>pin_modes := m, pins := f, pwm3 := q3, pwm5 := q5, tx := t\<rparr>"
    "valves_safe (shared ?b)" by (rule start_shared)
  have "sizes (shared ?b) = sizes (usv_init None None)" unfolding s(1) by (simp add: sizes_def)
  note sizes = sizes_cong [OF this]
  have "motor_inv (shared ?b) = motor_inv (usv_init None None)" unfolding s(1) by (simp add: motor_inv_def)
  moreover have "current_theta (shared ?b) = 0" unfolding s(1) by (simp add: usv_init_def)
  moreover have "remote ?b = lora_start" "server_link ?b = rasp_start garbage" "scanner ?b = radar_start"
    "position ?b = frame_start" "probe ?b = frame_start" by (simp_all add: boat_start_def)
  ultimately show ?thesis
    unfolding boat_inv_def using s(2) sizes rasp_inv_start [OF assms, of None None]
      sizes(1) [of lora_start] by (simp add: motor_inv_init frame_inv_start) (simp add: lora_ok_def)
qed

lemma start_step:
  obtains c s where "manager_step tr (pilot (boat_start p3 p5 garbage)) (shared (boat_start p3 p5 garbage)) = Inr (c, s)"
    "rec_tick (shared (boat_start p3 p5 garbage)) = 0"
proof -
  let ?b = "boat_start p3 p5 garbage"
  obtain f m q3 q5 t where s: "shared ?b = (usv_init None None)\<lparr>pin_modes := m, pins := f, pwm3 := q3, pwm5 := q5, tx := t\<rparr>"
    by (rule start_shared)
  have "drive_ok (shared ?b) = drive_ok (usv_init None None)" "sampler_ok (shared ?b) = sampler_ok (usv_init None None)"
    unfolding s by (simp_all add: drive_ok_def sampler_ok_def)
  moreover have "pilot ?b = cruise_init" by (simp add: boat_start_def)
  moreover have "rec_tick (shared ?b) = 0" unfolding s by (simp add: usv_init_def)
  ultimately show ?thesis using manager_step_ok [of "pilot ?b" "shared ?b" tr] that init_ok cruise_inv_init by auto
qed

section \<open>Properties of the running system\<close>



text \<open>
  C5. Only the control thread commands.  A turn of any other thread leaves every pin and the targets of thrusters and winch
  alone, and only the output threads move the outputs; so between two iterations of the control thread nothing
  received over a radio link reaches an actuator.
\<close>

theorem only_control_commands:
  assumes "boat_inv b" "boat_step e b = Inr b'"
  shows "(commands (shared b') \<noteq> commands (shared b) \<longrightarrow> (\<exists>tr. e = Control tr)) \<and>
    (drives (shared b') \<noteq> drives (shared b) \<longrightarrow> e = Thrusters \<or> e = Winch)"
proof (cases e)
  case (Control tr)
  then obtain c s where "manager_step tr (pilot b) (shared b) = Inr (c, s)" "b' = b\<lparr>pilot := c, shared := s\<rparr>"
    using assms(2) by (auto elim: bind_resE)
  then show ?thesis using control_keeps Control by simp
next
  case Thrusters
  then show ?thesis using loop_change_pwm_frame [of "shared b"] assms(2) by (auto simp: commands_def)
next
  case Winch
  then show ?thesis using loop_change_gear_frame [of "shared b"] assms(2) by (auto simp: commands_def)
next
  case (Remote_byte now ch)
  then show ?thesis using assms(2) remote_same by (auto elim!: bind_resE simp: same_defs)
next
  case (Server_byte now now2 stk ch)
  then show ?thesis using assms(2) server_same by (auto elim!: bind_resE simp: same_defs)
next
  case (Report t1 t2)
  then show ?thesis using assms(2) report_same by (auto elim!: bind_resE simp: same_defs)
next
  case (Position_byte x)
  then obtain f s where st: "check_gps x (position b, shared b) = Inr (f, s)" "b' = b\<lparr>position := f, shared := s\<rparr>"
    using assms(2) by (auto elim: bind_resE)
  have "frame_inv 11 (position b)" "0 \<le> current_theta (shared b)" "current_theta (shared b) \<le> 360"
    using assms(1) by (simp_all add: boat_inv_def)
  then show ?thesis using position_same [OF _ st(1)] st(2) by simp
next
  case (Radar_byte now x)
  then obtain r s where st: "check_radar now x (scanner b, shared b) = Inr (r, s)" "b' = b\<lparr>scanner := r, shared := s\<rparr>"
    using assms(2) by (auto elim: bind_resE)
  have "radar_inv (scanner b, shared b)" using assms(1) by (simp add: boat_inv_def)
  then show ?thesis using radar_same [OF _ st(1)] st(2) by (simp add: same_defs)
next
  case (Probe_byte x)
  then obtain f s where st: "check_water x (probe b, shared b) = Inr (f, s)" "b' = b\<lparr>probe := f, shared := s\<rparr>"
    using assms(2) by (auto elim: bind_resE)
  have "frame_inv 12 (probe b)" using assms(1) by (simp add: boat_inv_def)
  then show ?thesis using probe_same [OF _ st(1)] st(2) by (simp add: same_defs)
next
  case (Battery vs)
  then show ?thesis using assms(2) battery_same by (auto simp: same_defs)
qed

theorem only_control_commands_witness:
  "let b = boat_start None None (replicate 6 (replicate 20 NUL));
       b' = b\<lparr>position := (position b)\<lparr>fb_index := 1, fb_data := (fb_data (position b))[0 := 85]\<rparr>\<rparr> in
     boat_step (Position_byte 85) b = Inr b' \<and> commands (shared b') = commands (shared b)"
proof -
  let ?b = "boat_start None None (replicate 6 (replicate 20 NUL))"
  let ?b' = "?b\<lparr>position := (position ?b)\<lparr>fb_index := 1, fb_data := (fb_data (position ?b))[0 := 85]\<rparr>\<rparr>"
  have st: "boat_step (Position_byte 85) ?b = Inr ?b'"
    by (simp add: boat_start_def check_gps_def frame_step_def frame_start_def)
  have "boat_inv ?b" by (rule boat_start_inv) simp
  from only_control_commands [OF this st] st show ?thesis by (auto simp: Let_def)
qed

text \<open>The control source moves only by the control thread and by a byte of the remote control.\<close>

lemma source_kept:
  assumes "boat_inv b" "boat_step e b = Inr b'" "\<And>tr. e \<noteq> Control tr" "\<And>now ch. e \<noteq> Remote_byte now ch"
  shows "key (shared b') = key (shared b) \<and> current_mode (shared b') = current_mode (shared b)"
proof (cases e)
  case Thrusters
  then show ?thesis using loop_change_pwm_frame [of "shared b"] assms(2) by auto
next
  case Winch
  then show ?thesis using loop_change_gear_frame [of "shared b"] assms(2) by auto
next
  case (Server_byte now now2 stk ch)
  then show ?thesis using assms(2) server_same by (auto elim!: bind_resE simp: same_boat_def)
next
  case (Report t1 t2)
  then show ?thesis using assms(2) report_same by (auto elim!: bind_resE simp: same_boat_def)
next
  case (Position_byte x)
  then obtain f s where st: "check_gps x (position b, shared b) = Inr (f, s)" "b' = b\<lparr>position := f, shared := s\<rparr>"
    using assms(2) by (auto elim: bind_resE)
  have "frame_inv 11 (position b)" "0 \<le> current_theta (shared b)" "current_theta (shared b) \<le> 360"
    using assms(1) by (simp_all add: boat_inv_def)
  then show ?thesis using position_same [OF _ st(1)] st(2) by simp
next
  case (Radar_byte now x)
  then obtain r s where st: "check_radar now x (scanner b, shared b) = Inr (r, s)" "b' = b\<lparr>scanner := r, shared := s\<rparr>"
    using assms(2) by (auto elim: bind_resE)
  have "radar_inv (scanner b, shared b)" using assms(1) by (simp add: boat_inv_def)
  then show ?thesis using radar_same [OF _ st(1)] st(2) by (simp add: same_boat_def)
next
  case (Probe_byte x)
  then obtain f s where st: "check_water x (probe b, shared b) = Inr (f, s)" "b' = b\<lparr>probe := f, shared := s\<rparr>"
    using assms(2) by (auto elim: bind_resE)
  have "frame_inv 12 (probe b)" using assms(1) by (simp add: boat_inv_def)
  then show ?thesis using probe_same [OF _ st(1)] st(2) by (simp add: same_boat_def)
next
  case (Battery vs)
  then show ?thesis using assms(2) battery_same by (auto simp: same_boat_def)
qed (use assms(3,4) in auto)

lemma control_source:
  assumes "boat_inv b" "boat_step (Control tr) b = Inr b'"
  shows "key (shared b') ! 0 = (if 1500 < tk_rec tr - rec_tick (shared b) then 0 else key (shared b) ! 0)"
    "current_mode (shared b') = 1 \<Longrightarrow> key (shared b') ! 0 = 1"
proof -
  obtain c s where st: "manager_step tr (pilot b) (shared b) = Inr (c, s)" "b' = b\<lparr>pilot := c, shared := s\<rparr>"
    using assms(2) by (auto elim: bind_resE)
  have "keys_wf (shared b)" using assms(1) by (simp add: boat_inv_def lora_ok_def)
  note m = manager_source [OF this st(1)]
  then show "key (shared b') ! 0 = (if 1500 < tk_rec tr - rec_tick (shared b) then 0 else key (shared b) ! 0)"
    using st(2) by simp
  show "current_mode (shared b') = 1 \<Longrightarrow> key (shared b') ! 0 = 1"
    using m st(2) by (auto split: if_splits)
qed

definition remote_out :: "boat \<Rightarrow> bool" where
  "remote_out b \<longleftrightarrow> boat_inv b \<and> key (shared b) ! 0 = 0 \<and> current_mode (shared b) \<noteq> 1"

lemma remote_out_run:
  assumes "remote_out b" "run_bytes boat_step events b = Inr b'" "\<And>now ch. Remote_byte now ch \<notin> set events"
  shows "remote_out b'"
  using assms
proof (induction events arbitrary: b)
  case (Cons e es)
  obtain b1 where b1: "boat_step e b = Inr b1" "run_bytes boat_step es b1 = Inr b'"
    using Cons.prems(2) by (auto elim: bind_resE)
  have inv: "boat_inv b" "boat_inv b1" using Cons.prems(1) boat_step_keeps b1(1) by (auto simp: remote_out_def)
  have "remote_out b1"
  proof (cases "\<exists>tr. e = Control tr")
    case True
    then obtain tr where "boat_step (Control tr) b = Inr b1" using b1(1) by blast
    from control_source [OF inv(1) this] Cons.prems(1) have "key (shared b1) ! 0 = 0" "current_mode (shared b1) \<noteq> 1"
      by (auto simp: remote_out_def split: if_splits)
    then show ?thesis using inv(2) by (simp add: remote_out_def)
  next
    case False
    have "e \<noteq> Remote_byte now ch" for now ch using Cons.prems(3) [of now ch] by auto
    from source_kept [OF inv(1) b1(1) _ this] False show ?thesis
      using Cons.prems(1) inv(2) by (simp add: remote_out_def)
  qed
  then show ?case using Cons.IH [OF _ b1(2)] Cons.prems(3) by simp
qed simp

text \<open>
  C3. Loss of the remote control.  Once an iteration of the control thread sees that the last frame is more than
  1500 ticks old, the remote control is out of charge, and it stays out through any interleaving of all
  threads until its receiver gets another byte.
\<close>

theorem lost_remote_stays_out:
  assumes "boat_inv b" "1500 < tk_rec tr - rec_tick (shared b)" "\<And>now ch. Remote_byte now ch \<notin> set events"
    and "run_bytes boat_step (Control tr # events) b = Inr b'"
  shows "key (shared b') ! 0 = 0 \<and> current_mode (shared b') \<noteq> 1"
proof -
  obtain b1 where b1: "boat_step (Control tr) b = Inr b1" "run_bytes boat_step events b1 = Inr b'"
    using assms(4) by (auto simp del: boat_step.simps elim: bind_resE)
  have "remote_out b1"
    using control_source [OF assms(1) b1(1)] boat_step_keeps [OF assms(1) b1(1)] assms(2) by (auto simp: remote_out_def)
  from remote_out_run [OF this b1(2) assms(3)] show ?thesis by (simp add: remote_out_def)
qed

theorem lost_remote_stays_out_witness:
  "\<exists>b'. run_bytes boat_step [Control (tick_reads.make 0 2000 0 0 0 0), Thrusters, Battery []]
      (boat_start None None (replicate 6 (replicate 20 NUL))) = Inr b' \<and> key (shared b') ! 0 = 0 \<and>
    current_mode (shared b') \<noteq> 1"
proof -
  let ?b = "boat_start None None (replicate 6 (replicate 20 NUL))" and ?tr = "tick_reads.make 0 2000 0 0 0 0"
  obtain c s where st: "manager_step ?tr (pilot ?b) (shared ?b) = Inr (c, s)" "rec_tick (shared ?b) = 0" by (rule start_step)
  then obtain b' where run: "run_bytes boat_step [Control ?tr, Thrusters, Battery []] ?b = Inr b'" by simp
  have "boat_inv ?b" by (rule boat_start_inv) simp
  moreover have "1500 < tk_rec ?tr - rec_tick (shared ?b)" using st(2) by (simp add: tick_reads.defs)
  moreover have "Remote_byte now ch \<notin> set [Thrusters, Battery []]" for now ch by simp
  ultimately show ?thesis using lost_remote_stays_out [OF _ _ _ run] run by blast
qed

end
