(* ===== verification/Wdt.thy ===== *)
theory Wdt
  imports Usv_State
begin

text \<open>
  The independent watchdog: \<^verbatim>\<open>drivers/drv_wdt.c\<close> (\<^verbatim>\<open>rt_wdt_init\<close> and \<^verbatim>\<open>wdt_control\<close>), the watchdog device
  of \<^verbatim>\<open>watchdog.c\<close> and its use by \<^verbatim>\<open>applications/wdt_usv.c\<close>.  The two calls of the vendor library,
  \<^verbatim>\<open>HAL_IWDG_Init\<close> and \<^verbatim>\<open>HAL_IWDG_Refresh\<close>, are parameters: functions from the hardware state to success
  and the new state.
\<close>

record wdt_obj =
  wdt_prescaler :: nat
  Reload :: u32
  is_start :: bool

datatype wdt_cmd = WDT_KEEPALIVE | WDT_SET_TIMEOUT | WDT_GET_TIMEOUT | WDT_START | WDT_STOP | WDT_OTHER

definition LSI_VALUE :: u32 where "LSI_VALUE = 40000"

definition rt_wdt_init :: wdt_obj where
  "rt_wdt_init = \<lparr>wdt_prescaler = 256, Reload = 0xFFF, is_start = False\<rparr>"

definition wdt_init :: "wdt_obj \<Rightarrow> int \<times> wdt_obj" where
  "wdt_init w = (RT_EOK, w)"

text \<open>
  The state is the driver object, the hardware and the word the argument points to; the result is the error
  code and the new state.
\<close>

definition wdt_control ::
  "(wdt_obj \<Rightarrow> 'h \<Rightarrow> bool \<times> 'h) \<Rightarrow> ('h \<Rightarrow> bool \<times> 'h) \<Rightarrow> wdt_cmd \<Rightarrow> u32 \<Rightarrow> wdt_obj \<times> 'h \<Rightarrow>
    int \<times> u32 \<times> wdt_obj \<times> 'h" where
  "wdt_control hal_init hal_refresh cmd arg = (\<lambda>(w, h).
     case cmd of
       WDT_KEEPALIVE \<Rightarrow> (RT_EOK, arg, w, snd (hal_refresh h))
     | WDT_SET_TIMEOUT \<Rightarrow>
         (let w = w\<lparr>Reload := arg * LSI_VALUE div 256\<rparr> in
          if 0xFFF < Reload w then (- RT_EINVAL, arg, w, h)
          else if is_start w then
            (let (ok, h) = hal_init w h in if ok then (RT_EOK, arg, w, h) else (- RT_ERROR, arg, w, h))
          else (RT_EOK, arg, w, h))
     | WDT_GET_TIMEOUT \<Rightarrow> (RT_EOK, Reload w * 256 div LSI_VALUE, w, h)
     | WDT_START \<Rightarrow>
         (let (ok, h) = hal_init w h in
          if ok then (RT_EOK, arg, w\<lparr>is_start := True\<rparr>, h) else (- RT_ERROR, arg, w, h))
     | _ \<Rightarrow> (- RT_ERROR, arg, w, h))"

text \<open>The device layer: every operation is passed on.\<close>

definition rt_watchdog_init :: "wdt_obj \<Rightarrow> int \<times> wdt_obj" where
  "rt_watchdog_init = wdt_init"

definition rt_watchdog_control ::
  "(wdt_obj \<Rightarrow> 'h \<Rightarrow> bool \<times> 'h) \<Rightarrow> ('h \<Rightarrow> bool \<times> 'h) \<Rightarrow> wdt_cmd \<Rightarrow> u32 \<Rightarrow> wdt_obj \<times> 'h \<Rightarrow>
    int \<times> u32 \<times> wdt_obj \<times> 'h" where
  "rt_watchdog_control = wdt_control"

definition rt_watchdog_close ::
  "(wdt_obj \<Rightarrow> 'h \<Rightarrow> bool \<times> 'h) \<Rightarrow> ('h \<Rightarrow> bool \<times> 'h) \<Rightarrow> wdt_obj \<times> 'h \<Rightarrow> int \<times> wdt_obj \<times> 'h" where
  "rt_watchdog_close hal_init hal_refresh st =
     (let (r, _, st) = wdt_control hal_init hal_refresh WDT_STOP 0 st in
      if r \<noteq> RT_EOK then (- RT_ERROR, st) else (RT_EOK, st))"

text \<open>\<^verbatim>\<open>wdt_sample\<close>: \<open>dev\<close> is the result of \<^verbatim>\<open>rt_device_find\<close>.\<close>

definition wdt_sample ::
  "(wdt_obj \<Rightarrow> 'h \<Rightarrow> bool \<times> 'h) \<Rightarrow> ('h \<Rightarrow> bool \<times> 'h) \<Rightarrow> bool \<Rightarrow> wdt_obj \<times> 'h \<Rightarrow> int \<times> wdt_obj \<times> 'h" where
  "wdt_sample hal_init hal_refresh found = (\<lambda>(w, h).
     if \<not> found then (RT_ERROR, w, h)
     else (let (r, w) = rt_watchdog_init w in
       if r \<noteq> RT_EOK then (RT_ERROR, w, h)
       else (let (r, _, w, h) = rt_watchdog_control hal_init hal_refresh WDT_SET_TIMEOUT 4 (w, h) in
         if r \<noteq> RT_EOK then (RT_ERROR, w, h)
         else (let (r, _, w, h) = rt_watchdog_control hal_init hal_refresh WDT_START 0 (w, h) in
           if r \<noteq> RT_EOK then (- RT_ERROR, w, h) else (r, w, h)))))"

lemmas wdt_defs = wdt_control_def rt_watchdog_control_def rt_watchdog_init_def wdt_init_def
  rt_wdt_init_def LSI_VALUE_def RT_EOK_def RT_ERROR_def RT_EINVAL_def

text \<open>
  The watchdog starts with four seconds: from the driver's initial state, when the vendor library accepts
  the configuration, \<^verbatim>\<open>wdt_sample\<close> succeeds, programs the reload value 625 with the prescaler 256 (4 seconds
  of the 40 kHz clock) and marks the watchdog as started; reading the time-out back gives 4.
\<close>

theorem wdt_four_seconds:
  assumes "hal_init \<lparr>wdt_prescaler = 256, Reload = 625, is_start = False\<rparr> h = (True, h')"
  shows "wdt_sample hal_init hal_refresh True (rt_wdt_init, h) =
      (RT_EOK, \<lparr>wdt_prescaler = 256, Reload = 625, is_start = True\<rparr>, h') \<and>
    wdt_control hal_init hal_refresh WDT_GET_TIMEOUT 0 (\<lparr>wdt_prescaler = 256, Reload = 625, is_start = True\<rparr>, h') =
      (RT_EOK, 4, \<lparr>wdt_prescaler = 256, Reload = 625, is_start = True\<rparr>, h')"
  using assms by (simp add: wdt_sample_def wdt_defs Let_def)

theorem wdt_four_seconds_witness:
  "wdt_sample (\<lambda>w h. (True, Suc h)) (\<lambda>h. (True, h)) True (rt_wdt_init, 0) =
      (RT_EOK, \<lparr>wdt_prescaler = 256, Reload = 625, is_start = True\<rparr>, 1)"
  using wdt_four_seconds [of "\<lambda>w h. (True, Suc h)" 0 1 "\<lambda>h. (True, h)"] by simp

text \<open>
  A refused time-out is kept all the same.  A time-out of 27 seconds or more (up to 100000) is refused with
  \<^verbatim>\<open>-RT_EINVAL\<close>, but the object keeps the oversized reload value, so that the next start hands it to the
  hardware, whose register has only twelve bits.
\<close>

theorem wdt_refused_timeout_is_stored:
  assumes "27 \<le> uint t" "uint t \<le> 100000"
  shows "\<exists>w'. wdt_control hal_init hal_refresh WDT_SET_TIMEOUT t (w, h) = (- RT_EINVAL, t, w', h) \<and> 0xFFF < Reload w'"
proof -
  have "uint (t * LSI_VALUE) = uint t * 40000"
    using assms by (simp add: LSI_VALUE_def uint_word_ariths)
  then have "uint (t * LSI_VALUE div 256) = uint t * 40000 div 256" by (simp add: uint_div_distrib)
  then have "0xFFF < t * LSI_VALUE div 256" using assms by (simp add: word_less_def)
  then show ?thesis by (simp add: wdt_control_def Let_def)
qed

theorem wdt_refused_timeout_is_stored_witness:
  "\<exists>w'. wdt_control (\<lambda>w h. (True, h)) (\<lambda>h. (True, h)) WDT_SET_TIMEOUT 30 (rt_wdt_init, ()) = (- RT_EINVAL, 30, w', ()) \<and>
    0xFFF < Reload w'"
  by (rule wdt_refused_timeout_is_stored) simp_all

end
