(* ===== verification/Ringbuffer.thy ===== *)
theory Ringbuffer
  imports Usv_Prelude
begin

text \<open>
  \<^verbatim>\<open>components/drivers/src/ringbuffer.c\<close>: the byte ring of the device framework.  Each index has a mirror
  bit that is flipped when the index passes the end of the pool, so that equal indices mean empty for equal
  mirrors and full for different ones.  The indices are 15-bit fields and the size is a signed 16-bit number,
  so indices stay below 32768.

  \<open>contents\<close> is the abstraction to the list of bytes in the ring, oldest first.  The interface of a bounded
  queue is the locale \<open>bounded_queue\<close>, which the ring implements.
\<close>

datatype rb_state = RT_RINGBUFFER_EMPTY | RT_RINGBUFFER_FULL | RT_RINGBUFFER_HALFFULL

record ringbuffer =
  buffer_ptr :: "u8 list"
  read_mirror :: bool
  read_index :: nat
  write_mirror :: bool
  write_index :: nat
  buffer_size :: nat

definition rt_ringbuffer_status :: "ringbuffer \<Rightarrow> rb_state" where
  "rt_ringbuffer_status rb =
     (if read_index rb = write_index rb then
        (if read_mirror rb = write_mirror rb then RT_RINGBUFFER_EMPTY else RT_RINGBUFFER_FULL)
      else RT_RINGBUFFER_HALFFULL)"

text \<open>\<^verbatim>\<open>RT_ALIGN_DOWN(size, RT_ALIGN_SIZE)\<close> with alignment 4; a size that is not positive fails the assertion.\<close>

definition rt_ringbuffer_init :: "u8 list \<Rightarrow> int \<Rightarrow> ringbuffer res" where
  "rt_ringbuffer_init pool sz =
     (if 0 < sz
      then Inr \<lparr>buffer_ptr = pool, read_mirror = False, read_index = 0, write_mirror = False, write_index = 0,
                buffer_size = nat sz - nat sz mod 4\<rparr>
      else Inl AssertFailed)"

definition rt_ringbuffer_data_len :: "ringbuffer \<Rightarrow> nat" where
  "rt_ringbuffer_data_len rb =
     (case rt_ringbuffer_status rb of
        RT_RINGBUFFER_EMPTY \<Rightarrow> 0
      | RT_RINGBUFFER_FULL \<Rightarrow> buffer_size rb
      | RT_RINGBUFFER_HALFFULL \<Rightarrow>
          if read_index rb < write_index rb then write_index rb - read_index rb
          else buffer_size rb - (read_index rb - write_index rb))"

definition rt_ringbuffer_space_len :: "ringbuffer \<Rightarrow> nat" where
  "rt_ringbuffer_space_len rb = buffer_size rb - rt_ringbuffer_data_len rb"

text \<open>\<^verbatim>\<open>memcpy\<close> into the pool at an offset, and out of it.\<close>

definition copy_in :: "nat \<Rightarrow> u8 list \<Rightarrow> u8 list \<Rightarrow> u8 list" where
  "copy_in i xs buf = take i buf @ xs @ drop (i + length xs) buf"

definition copy_out :: "nat \<Rightarrow> nat \<Rightarrow> u8 list \<Rightarrow> u8 list" where
  "copy_out i n buf = take n (drop i buf)"

definition rt_ringbuffer_put :: "ringbuffer \<Rightarrow> u8 list \<Rightarrow> nat \<times> ringbuffer" where
  "rt_ringbuffer_put rb ptr =
     (let size = rt_ringbuffer_space_len rb; len = length ptr in
      if size = 0 then (0, rb)
      else (let len = (if size < len then size else len);
                first = buffer_size rb - write_index rb in
        if len < first then
          (len, rb\<lparr>buffer_ptr := copy_in (write_index rb) (take len ptr) (buffer_ptr rb),
                   write_index := write_index rb + len\<rparr>)
        else
          (len, rb\<lparr>buffer_ptr := copy_in 0 (take (len - first) (drop first ptr))
                     (copy_in (write_index rb) (take first ptr) (buffer_ptr rb)),
                   write_mirror := \<not> write_mirror rb, write_index := len - first\<rparr>)))"

definition rt_ringbuffer_put_force :: "ringbuffer \<Rightarrow> u8 list \<Rightarrow> nat \<times> ringbuffer" where
  "rt_ringbuffer_put_force rb ptr =
     (let space_length = rt_ringbuffer_space_len rb;
          ptr = (if buffer_size rb < length ptr then drop (length ptr - buffer_size rb) ptr else ptr);
          len = length ptr;
          first = buffer_size rb - write_index rb in
      if len < first then
        (let rb' = rb\<lparr>buffer_ptr := copy_in (write_index rb) ptr (buffer_ptr rb), write_index := write_index rb + len\<rparr>
         in (len, if space_length < len then rb'\<lparr>read_index := write_index rb'\<rparr> else rb'))
      else
        (let rb' = rb\<lparr>buffer_ptr := copy_in 0 (drop first ptr)
                        (copy_in (write_index rb) (take first ptr) (buffer_ptr rb)),
                      write_mirror := \<not> write_mirror rb, write_index := len - first\<rparr>
         in (len, if space_length < len
                  then rb'\<lparr>read_mirror := \<not> read_mirror rb, read_index := write_index rb'\<rparr> else rb')))"

text \<open>The result is the number of bytes, the bytes written through the pointer, and the ring.\<close>

definition rt_ringbuffer_get :: "ringbuffer \<Rightarrow> nat \<Rightarrow> nat \<times> u8 list \<times> ringbuffer" where
  "rt_ringbuffer_get rb len =
     (let size = rt_ringbuffer_data_len rb in
      if size = 0 then (0, [], rb)
      else (let len = (if size < len then size else len);
                first = buffer_size rb - read_index rb in
        if len < first then
          (len, copy_out (read_index rb) len (buffer_ptr rb), rb\<lparr>read_index := read_index rb + len\<rparr>)
        else
          (len, copy_out (read_index rb) first (buffer_ptr rb) @ copy_out 0 (len - first) (buffer_ptr rb),
           rb\<lparr>read_mirror := \<not> read_mirror rb, read_index := len - first\<rparr>)))"

definition rt_ringbuffer_putchar :: "ringbuffer \<Rightarrow> u8 \<Rightarrow> nat \<times> ringbuffer" where
  "rt_ringbuffer_putchar rb ch =
     (if rt_ringbuffer_space_len rb = 0 then (0, rb)
      else (let rb = rb\<lparr>buffer_ptr := (buffer_ptr rb)[write_index rb := ch]\<rparr> in
        (1, if write_index rb = buffer_size rb - 1
            then rb\<lparr>write_mirror := \<not> write_mirror rb, write_index := 0\<rparr>
            else rb\<lparr>write_index := write_index rb + 1\<rparr>)))"

definition rt_ringbuffer_putchar_force :: "ringbuffer \<Rightarrow> u8 \<Rightarrow> nat \<times> ringbuffer" where
  "rt_ringbuffer_putchar_force rb ch =
     (let old_state = rt_ringbuffer_status rb;
          rb = rb\<lparr>buffer_ptr := (buffer_ptr rb)[write_index rb := ch]\<rparr> in
      if write_index rb = buffer_size rb - 1 then
        (let rb = rb\<lparr>write_mirror := \<not> write_mirror rb, write_index := 0\<rparr> in
         (1, if old_state = RT_RINGBUFFER_FULL
             then rb\<lparr>read_mirror := \<not> read_mirror rb, read_index := write_index rb\<rparr> else rb))
      else
        (let rb = rb\<lparr>write_index := write_index rb + 1\<rparr> in
         (1, if old_state = RT_RINGBUFFER_FULL then rb\<lparr>read_index := write_index rb\<rparr> else rb)))"

definition rt_ringbuffer_getchar :: "ringbuffer \<Rightarrow> nat \<times> u8 option \<times> ringbuffer" where
  "rt_ringbuffer_getchar rb =
     (if rt_ringbuffer_data_len rb = 0 then (0, None, rb)
      else (1, Some (buffer_ptr rb ! read_index rb),
        if read_index rb = buffer_size rb - 1
        then rb\<lparr>read_mirror := \<not> read_mirror rb, read_index := 0\<rparr>
        else rb\<lparr>read_index := read_index rb + 1\<rparr>))"

definition rt_ringbuffer_reset :: "ringbuffer \<Rightarrow> ringbuffer" where
  "rt_ringbuffer_reset rb =
     rb\<lparr>read_mirror := False, read_index := 0, write_mirror := False, write_index := 0\<rparr>"

section \<open>The ring as a list\<close>

text \<open>
  The pool holds the size, both indices are inside it, and with equal mirrors the reader is not ahead of
  the writer, with different mirrors the writer is not ahead of the reader.
\<close>

definition rb_inv :: "ringbuffer \<Rightarrow> bool" where
  "rb_inv rb \<longleftrightarrow> 0 < buffer_size rb \<and> buffer_size rb < 32768 \<and> length (buffer_ptr rb) = buffer_size rb \<and>
     read_index rb < buffer_size rb \<and> write_index rb < buffer_size rb \<and>
     (if read_mirror rb = write_mirror rb then read_index rb \<le> write_index rb else write_index rb \<le> read_index rb)"

definition contents :: "ringbuffer \<Rightarrow> u8 list" where
  "contents rb =
     (if read_mirror rb = write_mirror rb
      then take (write_index rb - read_index rb) (drop (read_index rb) (buffer_ptr rb))
      else drop (read_index rb) (buffer_ptr rb) @ take (write_index rb) (buffer_ptr rb))"

lemma data_len_contents: "rb_inv rb \<Longrightarrow> rt_ringbuffer_data_len rb = length (contents rb)"
  by (auto simp: rt_ringbuffer_data_len_def rt_ringbuffer_status_def rb_inv_def contents_def split: if_splits)

lemma contents_le: "rb_inv rb \<Longrightarrow> length (contents rb) \<le> buffer_size rb"
  by (auto simp: rb_inv_def contents_def split: if_splits)


lemma space_len_contents: "rb_inv rb \<Longrightarrow> rt_ringbuffer_space_len rb = buffer_size rb - length (contents rb)"
  by (simp add: rt_ringbuffer_space_len_def data_len_contents)

lemmas rb_simps = rb_inv_def contents_def copy_in_def copy_out_def Let_def

lemma putchar_inv: "rb_inv rb \<Longrightarrow> rb_inv (snd (rt_ringbuffer_putchar rb ch))"
  by (auto simp: rt_ringbuffer_putchar_def rt_ringbuffer_space_len_def rt_ringbuffer_data_len_def
      rt_ringbuffer_status_def rb_simps split: if_splits)

lemma getchar_inv: "rb_inv rb \<Longrightarrow> rb_inv (snd (snd (rt_ringbuffer_getchar rb)))"
  by (auto simp: rt_ringbuffer_getchar_def rt_ringbuffer_data_len_def rt_ringbuffer_status_def rb_simps
      split: if_splits)

lemma getchar_contents:
  "rb_inv rb \<Longrightarrow> rt_ringbuffer_getchar rb =
     (case contents rb of [] \<Rightarrow> (0, None, rb)
      | b # bs \<Rightarrow> (1, Some b, snd (snd (rt_ringbuffer_getchar rb))))"
  by (auto simp: rt_ringbuffer_getchar_def data_len_contents rb_simps nth_via_drop hd_drop_conv_nth
      hd_append hd_conv_nth split: list.split if_splits dest!: arg_cong [where f = hd])

lemma getchar_tl: "rb_inv rb \<Longrightarrow> contents (snd (snd (rt_ringbuffer_getchar rb))) = tl (contents rb)"
  by (auto simp: rt_ringbuffer_getchar_def rt_ringbuffer_data_len_def rt_ringbuffer_status_def rb_simps
      tl_drop tl_take drop_Suc intro!: nth_equalityI simp: nth_append nth_tl split: if_splits)

lemma length_contents:
  "rb_inv rb \<Longrightarrow> length (contents rb) =
     (if read_mirror rb = write_mirror rb then write_index rb - read_index rb
      else buffer_size rb - read_index rb + write_index rb)"
  by (auto simp: rb_inv_def contents_def)

definition write_bytes :: "ringbuffer \<Rightarrow> u8 list \<Rightarrow> ringbuffer" where
  "write_bytes rb ys =
     (let first = buffer_size rb - write_index rb in
      if length ys < first then
        rb\<lparr>buffer_ptr := copy_in (write_index rb) ys (buffer_ptr rb), write_index := write_index rb + length ys\<rparr>
      else
        rb\<lparr>buffer_ptr := copy_in 0 (drop first ys) (copy_in (write_index rb) (take first ys) (buffer_ptr rb)),
           write_mirror := \<not> write_mirror rb, write_index := length ys - first\<rparr>)"

lemma write_bytes_Nil: "rb_inv rb \<Longrightarrow> write_bytes rb [] = rb"
  by (simp add: write_bytes_def rb_simps)

lemma write_bytes_inv:
  assumes "rb_inv rb" "length ys \<le> buffer_size rb - length (contents rb)"
  shows "rb_inv (write_bytes rb ys)"
  using assms(2) unfolding length_contents [OF assms(1)]
  using assms(1) unfolding rb_inv_def write_bytes_def Let_def copy_in_def
  by (cases "read_mirror rb = write_mirror rb"; cases "length ys < buffer_size rb - write_index rb") auto

lemma copy_in_drop_above: "w + length ys \<le> r \<Longrightarrow> w \<le> length buf \<Longrightarrow> drop r (copy_in w ys buf) = drop r buf"
  by (simp add: copy_in_def)

lemma copy_in_take_end: "w \<le> length buf \<Longrightarrow> take (w + length ys) (copy_in w ys buf) = take w buf @ ys"
  by (simp add: copy_in_def)

lemma copy_in_between:
  "r \<le> w \<Longrightarrow> w \<le> length buf \<Longrightarrow>
   take (w + length ys - r) (drop r (copy_in w ys buf)) = take (w - r) (drop r buf) @ ys"
  by (simp add: copy_in_def drop_take)

lemma copy_in_end: "w + length us = length buf \<Longrightarrow> copy_in w us buf = take w buf @ us"
  by (simp add: copy_in_def)

lemma write_bytes_contents:
  assumes "rb_inv rb" "length ys \<le> buffer_size rb - length (contents rb)"
  shows "contents (write_bytes rb ys) = contents rb @ ys"
proof (cases "read_mirror rb = write_mirror rb")
  case False
  have "length ys \<le> read_index rb - write_index rb"
    using assms False by (simp add: length_contents)
  then show ?thesis
    using assms(1) False
    by (auto simp: write_bytes_def Let_def contents_def rb_inv_def copy_in_drop_above copy_in_take_end)
next
  case True
  have len: "length ys \<le> buffer_size rb - (write_index rb - read_index rb)"
    using assms True by (simp add: length_contents)
  show ?thesis
  proof (cases "length ys < buffer_size rb - write_index rb")
    case nowrap: True
    then show ?thesis
      using True assms(1) by (simp add: write_bytes_def Let_def contents_def rb_inv_def copy_in_between)
  next
    case wrap: False
    define f where "f = buffer_size rb - write_index rb"
    have "copy_in (write_index rb) (take f ys) (buffer_ptr rb) = take (write_index rb) (buffer_ptr rb) @ take f ys"
      using wrap assms(1) by (intro copy_in_end) (auto simp: f_def rb_inv_def)
    moreover have "length ys - f \<le> read_index rb" "f \<le> length ys"
      using len wrap assms(1) True by (auto simp: f_def rb_inv_def)
    ultimately show ?thesis
      using True wrap assms(1)
      by (simp add: write_bytes_def contents_def rb_inv_def copy_in_drop_above flip: f_def)
        (simp add: copy_in_def drop_take)
  qed
qed

definition read_bytes :: "ringbuffer \<Rightarrow> nat \<Rightarrow> u8 list \<times> ringbuffer" where
  "read_bytes rb n =
     (let first = buffer_size rb - read_index rb in
      if n < first then (copy_out (read_index rb) n (buffer_ptr rb), rb\<lparr>read_index := read_index rb + n\<rparr>)
      else (copy_out (read_index rb) first (buffer_ptr rb) @ copy_out 0 (n - first) (buffer_ptr rb),
            rb\<lparr>read_mirror := \<not> read_mirror rb, read_index := n - first\<rparr>))"

lemma read_bytes_inv:
  assumes "rb_inv rb" "n \<le> length (contents rb)"
  shows "rb_inv (snd (read_bytes rb n))"
  using assms(2) unfolding length_contents [OF assms(1)]
  using assms(1) unfolding rb_inv_def read_bytes_def Let_def copy_out_def
  by (cases "read_mirror rb = write_mirror rb"; cases "n < buffer_size rb - read_index rb") auto

lemma read_bytes_contents:
  assumes "rb_inv rb" "n \<le> length (contents rb)"
  shows "fst (read_bytes rb n) = take n (contents rb)"
    "contents (snd (read_bytes rb n)) = drop n (contents rb)"
proof -
  note n = assms(2) [unfolded length_contents [OF assms(1)]]
  show "fst (read_bytes rb n) = take n (contents rb)"
    using n assms(1)
    by (cases "read_mirror rb = write_mirror rb")
      (auto simp: rb_inv_def read_bytes_def Let_def copy_out_def contents_def min_def)
  show "contents (snd (read_bytes rb n)) = drop n (contents rb)"
    using n assms(1)
    by (cases "read_mirror rb = write_mirror rb"; cases "n < buffer_size rb - read_index rb")
      (auto simp: rb_inv_def read_bytes_def contents_def drop_take add.commute)
qed

lemma put_write_bytes:
  "rb_inv rb \<Longrightarrow> rt_ringbuffer_put rb xs =
     (min (rt_ringbuffer_space_len rb) (length xs), write_bytes rb (take (rt_ringbuffer_space_len rb) xs))"
proof (cases "rt_ringbuffer_space_len rb = 0")
  case True
  then show "rb_inv rb \<Longrightarrow> ?thesis" by (simp add: rt_ringbuffer_put_def write_bytes_Nil)
next
  case False
  then show ?thesis by (simp add: rt_ringbuffer_put_def write_bytes_def Let_def min_def drop_take)
qed

lemma put_spec:
  assumes "rb_inv rb"
  shows "rb_inv (snd (rt_ringbuffer_put rb xs))"
    "contents (snd (rt_ringbuffer_put rb xs)) = contents rb @ take (buffer_size rb - length (contents rb)) xs"
    "fst (rt_ringbuffer_put rb xs) = min (buffer_size rb - length (contents rb)) (length xs)"
  using assms
  by (simp_all add: put_write_bytes space_len_contents write_bytes_inv write_bytes_contents)

lemma get_read_bytes:
  "rb_inv rb \<Longrightarrow> rt_ringbuffer_get rb n =
     (let k = min (rt_ringbuffer_data_len rb) n in (k, read_bytes rb k))"
  by (auto simp: rt_ringbuffer_get_def read_bytes_def Let_def min_def copy_out_def rb_inv_def)

lemma get_spec:
  assumes "rb_inv rb"
  shows "rb_inv (snd (snd (rt_ringbuffer_get rb n)))"
    "contents (snd (snd (rt_ringbuffer_get rb n))) = drop n (contents rb)"
    "fst (snd (rt_ringbuffer_get rb n)) = take n (contents rb)"
    "fst (rt_ringbuffer_get rb n) = min n (length (contents rb))"
  using assms
  by (simp_all add: get_read_bytes Let_def data_len_contents read_bytes_inv read_bytes_contents min_def)

lemma put_size [simp]: "buffer_size (snd (rt_ringbuffer_put rb xs)) = buffer_size rb"
  by (simp add: rt_ringbuffer_put_def Let_def)

lemma get_size [simp]: "buffer_size (snd (snd (rt_ringbuffer_get rb n))) = buffer_size rb"
  by (simp add: rt_ringbuffer_get_def Let_def)

lemma putchar_put: "rb_inv rb \<Longrightarrow> rt_ringbuffer_putchar rb ch = rt_ringbuffer_put rb [ch]"
  by (auto simp: rt_ringbuffer_putchar_def rt_ringbuffer_put_def Let_def copy_in_def rb_inv_def
      upd_conv_take_nth_drop)

lemma getchar_get:
  assumes "rb_inv rb"
  shows "rt_ringbuffer_getchar rb =
     (case rt_ringbuffer_get rb 1 of (k, bs, rb') \<Rightarrow> (k, (if k = 0 then None else Some (hd bs)), rb'))"
  using assms
  by (auto simp: rt_ringbuffer_getchar_def rt_ringbuffer_get_def Let_def copy_out_def rb_inv_def
      hd_drop_conv_nth hd_append take_Suc)

text \<open>A forced put writes the last bytes that fit into the pool, and moves the reader when they overtake it.\<close>

definition last_bytes :: "nat \<Rightarrow> 'a list \<Rightarrow> 'a list" where
  "last_bytes n xs = drop (length xs - n) xs"

lemma last_bytes_length: "length (last_bytes n xs) = min n (length xs)"
  by (simp add: last_bytes_def)

lemma put_force_write_bytes:
  fixes ptr
  assumes "rb_inv rb"
  defines "ys \<equiv> last_bytes (buffer_size rb) ptr"
  shows "rt_ringbuffer_put_force rb ptr =
     (length ys,
      if length ys \<le> buffer_size rb - length (contents rb) then write_bytes rb ys
      else (write_bytes rb ys)\<lparr>
        read_mirror := (read_mirror rb = (length ys < buffer_size rb - write_index rb)),
        read_index := write_index (write_bytes rb ys)\<rparr>)"
proof -
  have ptr: "(if buffer_size rb < length ptr then drop (length ptr - buffer_size rb) ptr else ptr) = ys"
    by (simp add: ys_def last_bytes_def)
  show ?thesis
    unfolding rt_ringbuffer_put_force_def ptr Let_def space_len_contents [OF assms(1)] write_bytes_def
    by (simp add: not_le [symmetric])
qed

lemma force_mirrors:
  assumes "rb_inv rb" "buffer_size rb - length (contents rb) < length ys" "read_mirror rb = write_mirror rb"
  shows "buffer_size rb - write_index rb \<le> length ys"
  using assms by (simp add: length_contents)

lemma put_force_overrun:
  assumes "rb_inv rb" "length ys \<le> buffer_size rb" "read_mirror rb \<noteq> write_mirror rb"
    "read_index rb - write_index rb < length ys"
  shows "(let w = write_bytes rb ys in drop (write_index w) (buffer_ptr w) @ take (write_index w) (buffer_ptr w)) =
     last_bytes (buffer_size rb) (contents rb @ ys)"
proof (cases "length ys < buffer_size rb - write_index rb")
  case True
  with assms show ?thesis
    by (simp add: Let_def write_bytes_def contents_def rb_inv_def copy_in_def last_bytes_def)
next
  case False
  define f where "f = buffer_size rb - write_index rb"
  have "copy_in (write_index rb) (take f ys) (buffer_ptr rb) = take (write_index rb) (buffer_ptr rb) @ take f ys"
    using False assms(1) by (intro copy_in_end) (auto simp: f_def rb_inv_def)
  moreover have "f \<le> length ys" "f + write_index rb = buffer_size rb"
      "length ys - f = write_index rb + length ys - buffer_size rb"
    using False assms(1) by (auto simp: f_def rb_inv_def)
  ultimately show ?thesis
    using assms False
    by (simp add: Let_def write_bytes_def rb_inv_def contents_def flip: f_def)
      (simp add: copy_in_def last_bytes_def drop_take add.commute)
qed

lemma put_force_contents:
  fixes ptr
  assumes "rb_inv rb"
  defines "ys \<equiv> last_bytes (buffer_size rb) ptr"
  shows "contents (snd (rt_ringbuffer_put_force rb ptr)) =
     (if length ys \<le> buffer_size rb - length (contents rb) then contents rb @ ys
      else if read_mirror rb = write_mirror rb then []
      else last_bytes (buffer_size rb) (contents rb @ ys))"
proof (cases "length ys \<le> buffer_size rb - length (contents rb)")
  case True
  then show ?thesis
    using assms(1) by (simp add: put_force_write_bytes write_bytes_contents flip: ys_def)
next
  case False
  show ?thesis
  proof (cases "read_mirror rb = write_mirror rb")
    case True
    with False have "\<not> length ys < buffer_size rb - write_index rb"
      using force_mirrors [OF assms(1), of ys] by simp
    then show ?thesis
      using True False assms(1)
      by (simp add: put_force_write_bytes contents_def flip: ys_def) (simp add: write_bytes_def Let_def)
  next
    case mirrors: False
    have "length ys \<le> buffer_size rb" by (simp add: ys_def last_bytes_length)
    moreover have "read_index rb - write_index rb < length ys"
      using False mirrors assms(1) by (auto simp: length_contents rb_inv_def)
    ultimately show ?thesis
      using mirrors False assms(1) put_force_overrun [OF assms(1), of ys]
      by (simp add: put_force_write_bytes contents_def [of "_\<lparr>read_index := _\<rparr>"] Let_def flip: ys_def)
        (simp add: write_bytes_def Let_def)
  qed
qed

lemma put_force_inv: 
  assumes "rb_inv rb"
  shows "rb_inv (snd (rt_ringbuffer_put_force rb ptr))"
proof -
  define ys where "ys = last_bytes (buffer_size rb) ptr"
  have "length ys \<le> buffer_size rb" by (simp add: ys_def last_bytes_length)
  then have "length (buffer_ptr (write_bytes rb ys)) = buffer_size rb \<and> write_index (write_bytes rb ys) < buffer_size rb"
    using assms unfolding rb_inv_def
    by (auto simp: write_bytes_def Let_def copy_in_def)
  moreover have "buffer_size (write_bytes rb ys) = buffer_size rb" by (simp add: write_bytes_def Let_def)
  ultimately show ?thesis
    using write_bytes_inv [OF assms, of ys] assms
    by (simp add: put_force_write_bytes flip: ys_def) (simp add: rb_inv_def)
qed

lemma putchar_force_spec:
  assumes "rb_inv rb"
  shows "contents (snd (rt_ringbuffer_putchar_force rb ch)) = last_bytes (buffer_size rb) (contents rb @ [ch])"
proof (cases "rt_ringbuffer_status rb = RT_RINGBUFFER_FULL")
  case True
  then have "read_index rb = write_index rb" "read_mirror rb \<noteq> write_mirror rb"
    by (auto simp: rt_ringbuffer_status_def split: if_splits)
  with assms show ?thesis
    by (auto simp: rt_ringbuffer_putchar_force_def True Let_def contents_def rb_inv_def last_bytes_def
        upd_conv_take_nth_drop)
next
  case False
  then have "length (contents rb) < buffer_size rb"
    using assms contents_le [OF assms]
    by (auto simp: data_len_contents [symmetric] rt_ringbuffer_data_len_def rt_ringbuffer_status_def rb_inv_def
        split: if_splits)
  moreover from this have "rt_ringbuffer_putchar_force rb ch = rt_ringbuffer_put rb [ch]"
    using False assms
    by (simp add: putchar_put [symmetric] rt_ringbuffer_putchar_force_def rt_ringbuffer_putchar_def Let_def space_len_contents)
  ultimately show ?thesis using assms by (simp add: put_spec last_bytes_def)
qed

section \<open>A bounded queue\<close>

datatype queue_op = Enq "u8 list" | Deq nat

text \<open>The bytes accepted and the bytes delivered by a sequence of calls, and the queue after it.\<close>

fun run_queue :: "('q \<Rightarrow> u8 list \<Rightarrow> nat \<times> 'q) \<Rightarrow> ('q \<Rightarrow> nat \<Rightarrow> nat \<times> u8 list \<times> 'q) \<Rightarrow> 'q \<Rightarrow> queue_op list \<Rightarrow>
    u8 list \<times> u8 list \<times> 'q" where
  "run_queue put get q [] = ([], [], q)"
| "run_queue put get q (Enq xs # ops) =
     (case put q xs of (k, q') \<Rightarrow>
      case run_queue put get q' ops of (i, out, q'') \<Rightarrow> (take k xs @ i, out, q''))"
| "run_queue put get q (Deq n # ops) =
     (case get q n of (_, bs, q') \<Rightarrow>
      case run_queue put get q' ops of (i, out, q'') \<Rightarrow> (i, bs @ out, q''))"

locale bounded_queue =
  fixes inv :: "'q \<Rightarrow> bool" and abs :: "'q \<Rightarrow> u8 list" and cap :: "'q \<Rightarrow> nat"
    and put :: "'q \<Rightarrow> u8 list \<Rightarrow> nat \<times> 'q" and get :: "'q \<Rightarrow> nat \<Rightarrow> nat \<times> u8 list \<times> 'q"
  assumes put_inv: "inv q \<Longrightarrow> inv (snd (put q xs))"
    and put_abs: "inv q \<Longrightarrow> abs (snd (put q xs)) = abs q @ take (fst (put q xs)) xs"
    and put_count: "inv q \<Longrightarrow> fst (put q xs) = min (cap q - length (abs q)) (length xs)"
    and get_inv: "inv q \<Longrightarrow> inv (snd (snd (get q n)))"
    and get_abs: "inv q \<Longrightarrow> abs (snd (snd (get q n))) = drop n (abs q)"
    and get_bytes: "inv q \<Longrightarrow> fst (snd (get q n)) = take n (abs q)"
begin

lemma run_fifo:
  assumes "inv q" "run_queue put get q ops = (i, out, q')"
  shows "inv q' \<and> abs q @ i = out @ abs q'"
  using assms
proof (induction ops arbitrary: q i out q')
  case (Cons oper ops)
  show ?case
  proof (cases oper)
    case (Enq xs)
    obtain k q1 where put: "put q xs = (k, q1)" by fastforce
    obtain i1 out1 where run: "run_queue put get q1 ops = (i1, out1, q')" and i: "i = take k xs @ i1" "out = out1"
      using Cons.prems(2) put Enq by (auto split: prod.splits)
    have "inv q1" "abs q1 = abs q @ take k xs"
      using put_inv [of q xs] put_abs [of q xs] Cons.prems(1) put by auto
    then show ?thesis using Cons.IH [OF _ run] i by simp
  next
    case (Deq n)
    obtain k bs q1 where get: "get q n = (k, bs, q1)" by (metis prod_cases3)
    obtain out1 where run: "run_queue put get q1 ops = (i, out1, q')" and i: "out = bs @ out1"
      using Cons.prems(2) get Deq by (auto split: prod.splits)
    have "inv q1" "abs q1 = drop n (abs q)" "bs = take n (abs q)"
      using get_inv [of q n] get_abs [of q n] get_bytes [of q n] Cons.prems(1) get by auto
    then show ?thesis using Cons.IH [OF _ run] i by (metis append.assoc append_take_drop_id)
  qed
qed simp

lemma put_get: "inv q \<Longrightarrow> abs q = [] \<Longrightarrow> length xs \<le> cap q \<Longrightarrow>
    fst (snd (get (snd (put q xs)) (length xs))) = xs"
  using put_inv [of q xs] by (simp add: get_bytes put_abs put_count)

end

interpretation rb: bounded_queue rb_inv contents buffer_size rt_ringbuffer_put rt_ringbuffer_get
  by unfold_locales (simp_all add: put_spec get_spec min_def)

lemma init_inv:
  "rt_ringbuffer_init pool sz = Inr rb \<Longrightarrow> sz < 32768 \<Longrightarrow> 4 \<le> sz \<Longrightarrow>
     length pool = nat sz - nat sz mod 4 \<Longrightarrow> rb_inv rb \<and> contents rb = []"
  by (auto simp: rt_ringbuffer_init_def rb_inv_def contents_def split: if_splits)

lemma reset_spec: "rb_inv rb \<Longrightarrow> rb_inv (rt_ringbuffer_reset rb) \<and> contents (rt_ringbuffer_reset rb) = []"
  by (simp add: rt_ringbuffer_reset_def rb_inv_def contents_def)

text \<open>
  C30. The ring is a first-in first-out queue over any sequence of block calls: what was in it before and the
  bytes it accepted are, in this order, the bytes it delivered and what is left in it.
\<close>

theorem ringbuffer_fifo:
  assumes "rb_inv rb" "run_queue rt_ringbuffer_put rt_ringbuffer_get rb ops = (accepted, delivered, rb')"
  shows "rb_inv rb' \<and> contents rb @ accepted = delivered @ contents rb'"
  using assms by (rule rb.run_fifo)

theorem ringbuffer_fifo_witness:
  "let rb = \<lparr>buffer_ptr = [0, 0, 0, 0], read_mirror = False, read_index = 0, write_mirror = False, write_index = 0,
             buffer_size = 4\<rparr>;
       (acc, del, rb') = run_queue rt_ringbuffer_put rt_ringbuffer_get rb [Enq [1, 2, 3], Deq 2, Enq [4, 5, 6, 7], Deq 3]
   in del = [1, 2, 3, 4, 5] \<and> acc = [1, 2, 3, 4, 5, 6] \<and> contents rb' = [6] \<and> contents rb @ acc = del @ contents rb'"
proof -
  define rb :: ringbuffer where "rb = \<lparr>buffer_ptr = [0, 0, 0, 0], read_mirror = False, read_index = 0,
    write_mirror = False, write_index = 0, buffer_size = 4\<rparr>"
  define ops :: "queue_op list" where "ops = [Enq [1, 2, 3], Deq 2, Enq [4, 5, 6, 7], Deq 3]"
  obtain acc del rb' where run: "run_queue rt_ringbuffer_put rt_ringbuffer_get rb ops = (acc, del, rb')"
    by (metis prod_cases3)
  have "acc = [1, 2, 3, 4, 5, 6]" "del = [1, 2, 3, 4, 5]"
    using run by (simp_all add: rb_def ops_def rt_ringbuffer_put_def rt_ringbuffer_get_def rt_ringbuffer_space_len_def
        rt_ringbuffer_data_len_def rt_ringbuffer_status_def copy_in_def copy_out_def)
  moreover have "contents rb @ acc = del @ contents rb'"
    using ringbuffer_fifo [OF _ run] by (simp add: rb_def rb_inv_def)
  moreover have "contents rb = []" by (simp add: rb_def contents_def)
  ultimately show ?thesis using run by (simp add: rb_def ops_def)
qed

text \<open>
  A forced put keeps the newest bytes when the writer is one lap ahead of the reader.  When the block
  overtakes the reader from the reader's own lap both mirrors are flipped, the indices are equal, and the
  ring reads as empty: the block just written and everything before it is lost.
\<close>

theorem ringbuffer_put_force:
  fixes ptr :: "u8 list"
  assumes "rb_inv rb"
  shows "contents (snd (rt_ringbuffer_put_force rb ptr)) =
     (let ys = last_bytes (buffer_size rb) ptr in
      if length ys \<le> buffer_size rb - length (contents rb) then contents rb @ ys
      else if read_mirror rb = write_mirror rb then []
      else last_bytes (buffer_size rb) (contents rb @ ys))"
  using put_force_contents [OF assms] by (simp add: Let_def)

theorem ringbuffer_put_force_witness:
  "let rb = \<lparr>buffer_ptr = [1, 2, 0, 0], read_mirror = False, read_index = 0, write_mirror = False, write_index = 2,
             buffer_size = 4\<rparr>
   in contents rb = [1, 2] \<and> contents (snd (rt_ringbuffer_put_force rb [3, 4, 5])) = []"
  using ringbuffer_put_force [of "\<lparr>buffer_ptr = [1, 2, 0, 0], read_mirror = False, read_index = 0,
    write_mirror = False, write_index = 2, buffer_size = 4\<rparr>" "[3, 4, 5]"]
  by (simp add: rb_inv_def contents_def last_bytes_def numeral_2_eq_2 Let_def)

end
