(* ===== verification/Scheduler.thy ===== *)
theory Scheduler
  imports Usv_Prelude
begin

unbundle bit_operations_syntax

text \<open>
  The state of the RT-Thread kernel (\<^verbatim>\<open>src/rt-thread/src\<close>) and its scheduler, \<^verbatim>\<open>scheduler.c\<close>, in the
  single-core configuration with 32 priorities of \<^verbatim>\<open>rtconfig.h\<close>.

  A thread is a number, its control block a record of the map \<open>threads\<close>.  The node \<^verbatim>\<open>tlist\<close> of a thread is
  linked into at most one list: the ready list of its priority, the suspend list of a kernel object or the
  list of defunct threads.  \<open>tlists\<close> holds these lists, each from the head on, and \<open>rt_list_remove\<close> unlinks
  a thread from wherever it is.  The context switch at the end of \<^verbatim>\<open>rt_schedule\<close> is the assignment to
  \<open>rt_current_thread\<close>; functions that continue after it are modelled in two parts, before and after.
  Interrupt masking makes each function of the model one step.
\<close>

type_synonym tid = nat

datatype thread_stat = RT_THREAD_INIT | RT_THREAD_READY | RT_THREAD_SUSPEND | RT_THREAD_RUNNING | RT_THREAD_CLOSE

text \<open>\<^verbatim>\<open>stat\<close> without and \<open>stat_yield\<close> only with the bit \<^verbatim>\<open>RT_THREAD_STAT_YIELD\<close>.\<close>

record rt_thread =
  stat :: thread_stat
  stat_yield :: bool
  current_priority :: nat
  init_priority :: nat
  number_mask :: u32
  error :: int
  event_set :: u32
  event_info :: u8
  init_tick :: u32
  remaining_tick :: u32
  static_object :: bool
  has_cleanup :: bool

datatype timer_id = Thread_timer tid | Timer nat

record rt_timer =
  activated :: bool
  periodic :: bool
  soft_timer :: bool
  timer_init_tick :: tick
  timeout_tick :: tick

datatype list_id = Ready nat | Suspended nat | Senders nat | Defunct

record kernel =
  threads :: "tid \<Rightarrow> rt_thread"
  tlists :: "list_id \<Rightarrow> tid list"
  rt_current_thread :: "tid option"
  rt_current_priority :: nat
  rt_thread_ready_priority_group :: u32
  rt_scheduler_lock_nest :: u16
  rt_tick :: tick
  timers :: "timer_id \<Rightarrow> rt_timer"
  rt_timer_list :: "timer_id list"
  rt_soft_timer_list :: "timer_id list"
  timer_thread :: tid

definition upd_thread :: "tid \<Rightarrow> (rt_thread \<Rightarrow> rt_thread) \<Rightarrow> kernel \<Rightarrow> kernel" where
  "upd_thread t f k = k\<lparr>threads := (threads k)(t := f (threads k t))\<rparr>"

definition rt_list_remove :: "tid \<Rightarrow> kernel \<Rightarrow> kernel" where
  "rt_list_remove t k = k\<lparr>tlists := \<lambda>l. removeAll t (tlists k l)\<rparr>"

text \<open>\<open>rt_list_insert_before\<close> the head appends, \<open>rt_list_insert_after\<close> the head prepends.\<close>

definition rt_list_insert_before :: "list_id \<Rightarrow> tid \<Rightarrow> kernel \<Rightarrow> kernel" where
  "rt_list_insert_before l t k = k\<lparr>tlists := (tlists k)(l := tlists k l @ [t])\<rparr>"

definition rt_list_insert_after :: "list_id \<Rightarrow> tid \<Rightarrow> kernel \<Rightarrow> kernel" where
  "rt_list_insert_after l t k = k\<lparr>tlists := (tlists k)(l := t # tlists k l)\<rparr>"

section \<open>The first set bit\<close>

text \<open>The compiled \<^verbatim>\<open>__rt_ffs\<close> is the compiler's \<^verbatim>\<open>__builtin_ffs\<close>: one plus the least set bit, and 0 without one.\<close>

definition rt_ffs :: "u32 \<Rightarrow> nat" where
  "rt_ffs w = (case find (bit w) [0..<32] of None \<Rightarrow> 0 | Some i \<Rightarrow> Suc i)"

text \<open>The portable version in \<^verbatim>\<open>kservice.c\<close>, by a table for one byte.\<close>

definition lowest_bit_bitmap :: "nat list" where
  "lowest_bit_bitmap =
    [0, 0, 1, 0, 2, 0, 1, 0, 3, 0, 1, 0, 2, 0, 1, 0,
     4, 0, 1, 0, 2, 0, 1, 0, 3, 0, 1, 0, 2, 0, 1, 0,
     5, 0, 1, 0, 2, 0, 1, 0, 3, 0, 1, 0, 2, 0, 1, 0,
     4, 0, 1, 0, 2, 0, 1, 0, 3, 0, 1, 0, 2, 0, 1, 0,
     6, 0, 1, 0, 2, 0, 1, 0, 3, 0, 1, 0, 2, 0, 1, 0,
     4, 0, 1, 0, 2, 0, 1, 0, 3, 0, 1, 0, 2, 0, 1, 0,
     5, 0, 1, 0, 2, 0, 1, 0, 3, 0, 1, 0, 2, 0, 1, 0,
     4, 0, 1, 0, 2, 0, 1, 0, 3, 0, 1, 0, 2, 0, 1, 0,
     7, 0, 1, 0, 2, 0, 1, 0, 3, 0, 1, 0, 2, 0, 1, 0,
     4, 0, 1, 0, 2, 0, 1, 0, 3, 0, 1, 0, 2, 0, 1, 0,
     5, 0, 1, 0, 2, 0, 1, 0, 3, 0, 1, 0, 2, 0, 1, 0,
     4, 0, 1, 0, 2, 0, 1, 0, 3, 0, 1, 0, 2, 0, 1, 0,
     6, 0, 1, 0, 2, 0, 1, 0, 3, 0, 1, 0, 2, 0, 1, 0,
     4, 0, 1, 0, 2, 0, 1, 0, 3, 0, 1, 0, 2, 0, 1, 0,
     5, 0, 1, 0, 2, 0, 1, 0, 3, 0, 1, 0, 2, 0, 1, 0,
     4, 0, 1, 0, 2, 0, 1, 0, 3, 0, 1, 0, 2, 0, 1, 0]"

definition rt_ffs_table :: "u32 \<Rightarrow> nat" where
  "rt_ffs_table value =
     (if value = 0 then 0
      else if value AND 0xff \<noteq> 0 then lowest_bit_bitmap ! unat (value AND 0xff) + 1
      else if value AND 0xff00 \<noteq> 0 then lowest_bit_bitmap ! unat (drop_bit 8 (value AND 0xff00)) + 9
      else if value AND 0xff0000 \<noteq> 0 then lowest_bit_bitmap ! unat (drop_bit 16 (value AND 0xff0000)) + 17
      else lowest_bit_bitmap ! unat (drop_bit 24 (value AND 0xff000000)) + 25)"

section \<open>The scheduler\<close>

text \<open>
  A ready list that is empty although its bit is set would make \<^verbatim>\<open>rt_list_entry\<close> compute a thread from the
  list head; the model returns an error there.
\<close>

definition get_highest_priority_thread :: "kernel \<Rightarrow> (nat \<times> tid) res" where
  "get_highest_priority_thread k =
     (let highest_ready_priority = rt_ffs (rt_thread_ready_priority_group k) - 1 in
      case tlists k (Ready highest_ready_priority) of
        [] \<Rightarrow> Inl OutOfBounds
      | t # _ \<Rightarrow> Inr (highest_ready_priority, t))"

definition rt_system_scheduler_init :: "kernel \<Rightarrow> kernel" where
  "rt_system_scheduler_init k =
     k\<lparr>rt_scheduler_lock_nest := 0,
       tlists := (\<lambda>l. case l of Ready p \<Rightarrow> if p < 32 then [] else tlists k l | Defunct \<Rightarrow> [] | _ \<Rightarrow> tlists k l),
       rt_thread_ready_priority_group := 0\<rparr>"

definition rt_schedule_insert_thread :: "tid \<Rightarrow> kernel \<Rightarrow> kernel" where
  "rt_schedule_insert_thread t k =
     (if rt_current_thread k = Some t then upd_thread t (\<lambda>th. th\<lparr>stat := RT_THREAD_RUNNING\<rparr>) k
      else
        (let k = upd_thread t (\<lambda>th. th\<lparr>stat := RT_THREAD_READY\<rparr>) k;
             k = rt_list_insert_before (Ready (current_priority (threads k t))) t k
         in k\<lparr>rt_thread_ready_priority_group := rt_thread_ready_priority_group k OR number_mask (threads k t)\<rparr>))"

definition rt_schedule_remove_thread :: "tid \<Rightarrow> kernel \<Rightarrow> kernel" where
  "rt_schedule_remove_thread t k =
     (let k = rt_list_remove t k in
      if tlists k (Ready (current_priority (threads k t))) = []
      then k\<lparr>rt_thread_ready_priority_group := rt_thread_ready_priority_group k AND NOT (number_mask (threads k t))\<rparr>
      else k)"

definition rt_system_scheduler_start :: "kernel \<Rightarrow> kernel res" where
  "rt_system_scheduler_start k =
     bind_res (get_highest_priority_thread k) (\<lambda>(_, to_thread).
       let k = k\<lparr>rt_current_thread := Some to_thread\<rparr>;
           k = rt_schedule_remove_thread to_thread k
       in Inr (upd_thread to_thread (\<lambda>th. th\<lparr>stat := RT_THREAD_RUNNING, stat_yield := False\<rparr>) k))"

definition rt_schedule :: "kernel \<Rightarrow> kernel res" where
  "rt_schedule k =
     (if rt_scheduler_lock_nest k \<noteq> 0 \<or> rt_thread_ready_priority_group k = 0 then Inr k
      else
        bind_res (get_highest_priority_thread k) (\<lambda>(highest_ready_priority, highest).
          case rt_current_thread k of
            None \<Rightarrow> Inl NullDeref
          | Some cur \<Rightarrow>
              (let running = (stat (threads k cur) = RT_THREAD_RUNNING);
                   stays = (running \<and>
                     (current_priority (threads k cur) < highest_ready_priority \<or>
                      current_priority (threads k cur) = highest_ready_priority \<and> \<not> stat_yield (threads k cur)));
                   to_thread = (if stays then cur else highest);
                   need_insert_from_thread = (running \<and> \<not> stays);
                   k = (if need_insert_from_thread then upd_thread cur (\<lambda>th. th\<lparr>stat_yield := False\<rparr>) k else k) in
               if to_thread \<noteq> cur then
                 (let k = k\<lparr>rt_current_priority := highest_ready_priority, rt_current_thread := Some to_thread\<rparr>;
                      k = (if need_insert_from_thread then rt_schedule_insert_thread cur k else k);
                      k = rt_schedule_remove_thread to_thread k
                  in Inr (upd_thread to_thread (\<lambda>th. th\<lparr>stat := RT_THREAD_RUNNING\<rparr>) k))
               else
                 (let k = rt_schedule_remove_thread cur k
                  in Inr (upd_thread cur (\<lambda>th. th\<lparr>stat := RT_THREAD_RUNNING\<rparr>) k)))))"

text \<open>The lock counter is a signed 16-bit number.\<close>

definition rt_enter_critical :: "kernel \<Rightarrow> kernel" where
  "rt_enter_critical k = k\<lparr>rt_scheduler_lock_nest := rt_scheduler_lock_nest k + 1\<rparr>"

definition rt_exit_critical :: "kernel \<Rightarrow> kernel res" where
  "rt_exit_critical k =
     (let k = k\<lparr>rt_scheduler_lock_nest := rt_scheduler_lock_nest k - 1\<rparr> in
      if sint (rt_scheduler_lock_nest k) \<le> 0 then
        (let k = k\<lparr>rt_scheduler_lock_nest := 0\<rparr> in
         case rt_current_thread k of None \<Rightarrow> Inr k | Some _ \<Rightarrow> rt_schedule k)
      else Inr k)"

section \<open>Invariant\<close>

text \<open>
  The status a thread has in a list, and the invariant of the scheduler for all threads but the set \<open>X\<close> of
  threads in transit between two lists: the bit of a priority is set when its ready list is not empty, the
  members of a list have its status and priority, a ready thread is in its list, a started thread has a
  valid priority and its mask, and only the current thread is running.
\<close>

fun list_stat :: "list_id \<Rightarrow> thread_stat" where
  "list_stat (Ready p) = RT_THREAD_READY"
| "list_stat (Suspended ob) = RT_THREAD_SUSPEND"
| "list_stat (Senders ob) = RT_THREAD_SUSPEND"
| "list_stat Defunct = RT_THREAD_CLOSE"

definition thread_wf :: "rt_thread \<Rightarrow> bool" where
  "thread_wf th \<longleftrightarrow> current_priority th < 32 \<and> number_mask th = push_bit (current_priority th) 1"

definition group_ok :: "kernel \<Rightarrow> bool" where
  "group_ok k \<longleftrightarrow> (\<forall>p. bit (rt_thread_ready_priority_group k) p \<longleftrightarrow> p < 32 \<and> tlists k (Ready p) \<noteq> [])"

definition lists_ok :: "tid set \<Rightarrow> kernel \<Rightarrow> bool" where
  "lists_ok X k \<longleftrightarrow> (\<forall>l. distinct (tlists k l) \<and>
     (\<forall>t \<in> set (tlists k l). t \<notin> X \<and> stat (threads k t) = list_stat l \<and>
        (\<forall>p. l = Ready p \<longrightarrow> current_priority (threads k t) = p)))"

definition threads_ok :: "tid set \<Rightarrow> kernel \<Rightarrow> bool" where
  "threads_ok X k \<longleftrightarrow> (\<forall>t.
     (stat (threads k t) \<noteq> RT_THREAD_INIT \<and> stat (threads k t) \<noteq> RT_THREAD_CLOSE \<longrightarrow> thread_wf (threads k t)) \<and>
     (t \<notin> X \<longrightarrow> stat (threads k t) = RT_THREAD_READY \<longrightarrow>
        t \<in> set (tlists k (Ready (current_priority (threads k t))))) \<and>
     (t \<notin> X \<longrightarrow> stat (threads k t) = RT_THREAD_RUNNING \<longrightarrow> rt_current_thread k = Some t))"

definition sched_inv :: "tid set \<Rightarrow> kernel \<Rightarrow> bool" where
  "sched_inv X k \<longleftrightarrow> group_ok k \<and> lists_ok X k \<and> threads_ok X k"

lemmas sched_inv_defs = sched_inv_def group_ok_def lists_ok_def threads_ok_def thread_wf_def

lemma upd_thread_simps [simp]:
  "tlists (upd_thread t f k) = tlists k"
  "rt_current_thread (upd_thread t f k) = rt_current_thread k"
  "rt_thread_ready_priority_group (upd_thread t f k) = rt_thread_ready_priority_group k"
  "threads (upd_thread t f k) = (threads k)(t := f (threads k t))"
  by (simp_all add: upd_thread_def)

lemma list_remove_simps [simp]:
  "threads (rt_list_remove t k) = threads k"
  "rt_current_thread (rt_list_remove t k) = rt_current_thread k"
  "rt_thread_ready_priority_group (rt_list_remove t k) = rt_thread_ready_priority_group k"
  "tlists (rt_list_remove t k) l = removeAll t (tlists k l)"
  by (simp_all add: rt_list_remove_def)

lemma list_insert_simps [simp]:
  "threads (rt_list_insert_before l t k) = threads k"
  "rt_current_thread (rt_list_insert_before l t k) = rt_current_thread k"
  "rt_thread_ready_priority_group (rt_list_insert_before l t k) = rt_thread_ready_priority_group k"
  "tlists (rt_list_insert_before l t k) = (tlists k)(l := tlists k l @ [t])"
  by (simp_all add: rt_list_insert_before_def)

lemma list_prepend_simps [simp]:
  "threads (rt_list_insert_after l t k) = threads k"
  "rt_current_thread (rt_list_insert_after l t k) = rt_current_thread k"
  "rt_thread_ready_priority_group (rt_list_insert_after l t k) = rt_thread_ready_priority_group k"
  "tlists (rt_list_insert_after l t k) = (tlists k)(l := t # tlists k l)"
  by (simp_all add: rt_list_insert_after_def)

lemma remove_thread_simps [simp]:
  "threads (rt_schedule_remove_thread t k) = threads k"
  "rt_current_thread (rt_schedule_remove_thread t k) = rt_current_thread k"
  "tlists (rt_schedule_remove_thread t k) l = removeAll t (tlists k l)"
  by (simp_all add: rt_schedule_remove_thread_def Let_def)

lemma sched_inv_bit:
  "sched_inv X k \<Longrightarrow> bit (rt_thread_ready_priority_group k) p \<longleftrightarrow> p < 32 \<and> tlists k (Ready p) \<noteq> []"
  by (simp add: sched_inv_def group_ok_def)

lemma sched_inv_member:
  assumes "sched_inv X k" "t \<in> set (tlists k l)"
  shows "t \<notin> X" "stat (threads k t) = list_stat l" "l = Ready p \<Longrightarrow> current_priority (threads k t) = p"
  using assms by (auto simp: sched_inv_def lists_ok_def)

lemma sched_inv_ready:
  assumes "sched_inv X k" "t \<notin> X" "stat (threads k t) = RT_THREAD_READY"
  shows "t \<in> set (tlists k (Ready (current_priority (threads k t))))"
  using assms by (auto simp: sched_inv_def threads_ok_def)

lemma sched_inv_wf:
  "sched_inv X k \<Longrightarrow> stat (threads k t) \<noteq> RT_THREAD_INIT \<Longrightarrow> stat (threads k t) \<noteq> RT_THREAD_CLOSE \<Longrightarrow>
     thread_wf (threads k t)"
  by (simp add: sched_inv_def threads_ok_def)

lemma sched_inv_running:
  "sched_inv X k \<Longrightarrow> t \<notin> X \<Longrightarrow> stat (threads k t) = RT_THREAD_RUNNING \<Longrightarrow> rt_current_thread k = Some t"
  by (simp add: sched_inv_def threads_ok_def)

lemma list_stat_not_running [simp]: "list_stat l \<noteq> RT_THREAD_RUNNING" "RT_THREAD_RUNNING \<noteq> list_stat l"
  by (cases l; simp)+

lemma remove_thread_inv:
  assumes "sched_inv X k" "thread_wf (threads k t)"
  shows "sched_inv (insert t X) (rt_schedule_remove_thread t k)"
proof -
  have notin: "t \<notin> set (tlists k (Ready p))" if "p \<noteq> current_priority (threads k t)" for p
    using assms that by (auto simp: sched_inv_defs)
  have "bit (rt_thread_ready_priority_group (rt_schedule_remove_thread t k)) p =
      (p < 32 \<and> removeAll t (tlists k (Ready p)) \<noteq> [])" for p
    using sched_inv_bit [OF assms(1), of p] notin [of p] assms(2) unfolding thread_wf_def
    by (cases "p = current_priority (threads k t)") (auto simp: rt_schedule_remove_thread_def Let_def bit_simps)
  then have "group_ok (rt_schedule_remove_thread t k)" by (simp add: group_ok_def)
  moreover have "lists_ok (insert t X) (rt_schedule_remove_thread t k)"
    using assms(1) by (auto simp: sched_inv_defs distinct_removeAll)
  moreover have "threads_ok (insert t X) (rt_schedule_remove_thread t k)"
    using assms(1) by (auto simp: sched_inv_defs)
  ultimately show ?thesis by (simp add: sched_inv_def)
qed

lemma insert_thread_inv:
  assumes "sched_inv (insert t X) k" "thread_wf (threads k t)"
  shows "sched_inv (X - {t}) (rt_schedule_insert_thread t k)"
proof (cases "rt_current_thread k = Some t")
  case True
  with assms show ?thesis
    by (auto simp: sched_inv_defs rt_schedule_insert_thread_def)
next
  case False
  have t: "t \<notin> set (tlists k l)" for l using assms(1) by (auto simp: sched_inv_defs)
  define k' where "k' = rt_schedule_insert_thread t k"
  have k': "threads k' = (threads k)(t := (threads k t)\<lparr>stat := RT_THREAD_READY\<rparr>)"
    "tlists k' = (tlists k)(Ready (current_priority (threads k t)) := tlists k (Ready (current_priority (threads k t))) @ [t])"
    "rt_current_thread k' = rt_current_thread k"
    "rt_thread_ready_priority_group k' = rt_thread_ready_priority_group k OR number_mask (threads k t)"
    using False by (simp_all add: k'_def rt_schedule_insert_thread_def Let_def)
  have "group_ok k'"
    using assms by (auto simp: sched_inv_def group_ok_def k' thread_wf_def bit_simps)
  moreover have "lists_ok (X - {t}) k'"
    using assms t by (auto simp: sched_inv_def lists_ok_def k')
  moreover have "threads_ok (X - {t}) k'"
    using assms by (auto simp: sched_inv_def threads_ok_def thread_wf_def k')
  ultimately show ?thesis by (simp add: sched_inv_def k'_def)
qed

lemma set_running_inv:
  assumes "sched_inv (insert t X) k" "thread_wf (threads k t)" "rt_current_thread k = Some t"
  shows "sched_inv (X - {t}) (upd_thread t (\<lambda>th. th\<lparr>stat := RT_THREAD_RUNNING\<rparr>) k)"
  using assms by (auto simp: sched_inv_defs)

lemma set_suspended_inv:
  assumes "sched_inv (insert t X) k" "thread_wf (threads k t)"
  shows "sched_inv (X - {t}) (upd_thread t (\<lambda>th. th\<lparr>stat := RT_THREAD_SUSPEND\<rparr>) k)"
  using assms by (auto simp: sched_inv_defs)


lemma ffs_bit:
  assumes "w \<noteq> 0"
  shows "bit w (rt_ffs w - 1)" "\<And>i. bit w i \<Longrightarrow> rt_ffs w - 1 \<le> i" "rt_ffs w - 1 < 32"
proof -
  obtain j where "bit w j" using assms by (metis bit_0_eq bit_word_eqI bot_apply bot_bool_def)
  then have "find (bit w) [0..<32] \<noteq> None"
    using bit_imp_le_length [of w j] by (auto simp: find_None_iff intro!: exI [of _ j])
  then obtain i where i: "find (bit w) [0..<32] = Some i" by blast
  then have "rt_ffs w - 1 = i" by (simp add: rt_ffs_def)
  moreover have "i < 32 \<and> bit w i \<and> (\<forall>j<i. \<not> bit w j)"
    using i by (auto simp: find_Some_iff)
  ultimately show "bit w (rt_ffs w - 1)" "\<And>i. bit w i \<Longrightarrow> rt_ffs w - 1 \<le> i" "rt_ffs w - 1 < 32"
    by (auto simp: not_less [symmetric])
qed

lemma get_highest:
  assumes "sched_inv X k" "rt_thread_ready_priority_group k \<noteq> 0"
  obtains p t where "get_highest_priority_thread k = Inr (p, t)" "stat (threads k t) = RT_THREAD_READY"
    "current_priority (threads k t) = p" "t \<in> set (tlists k (Ready p))" "t \<notin> X"
    "\<And>t'. t' \<notin> X \<Longrightarrow> stat (threads k t') = RT_THREAD_READY \<Longrightarrow> p \<le> current_priority (threads k t')"
proof -
  let ?p = "rt_ffs (rt_thread_ready_priority_group k) - 1"
  have ne: "tlists k (Ready ?p) \<noteq> []"
    using ffs_bit(1) [OF assms(2)] sched_inv_bit [OF assms(1)] by blast
  then obtain t ts where t: "tlists k (Ready ?p) = t # ts" by (meson neq_Nil_conv)
  have "?p \<le> current_priority (threads k t')"
    if "t' \<notin> X" "stat (threads k t') = RT_THREAD_READY" for t'
  proof -
    have "t' \<in> set (tlists k (Ready (current_priority (threads k t'))))" "current_priority (threads k t') < 32"
      using sched_inv_ready [OF assms(1) that] sched_inv_wf [OF assms(1), of t'] that by (simp_all add: thread_wf_def)
    then have "bit (rt_thread_ready_priority_group k) (current_priority (threads k t'))"
      using sched_inv_bit [OF assms(1)] by force
    then show ?thesis by (rule ffs_bit(2) [OF assms(2)])
  qed
  moreover have "t \<in> set (tlists k (Ready ?p))" unfolding t by simp
  moreover from this have "stat (threads k t) = RT_THREAD_READY" "current_priority (threads k t) = ?p" "t \<notin> X"
    using sched_inv_member [OF assms(1)] by auto
  ultimately show ?thesis using that [of ?p t] t by (simp add: get_highest_priority_thread_def Let_def)
qed

lemma switch_to_inv:
  assumes "sched_inv {} k" "thread_wf (threads k t)" "rt_current_thread k = Some t"
  shows "sched_inv {} (upd_thread t (\<lambda>th. th\<lparr>stat := RT_THREAD_RUNNING\<rparr>) (rt_schedule_remove_thread t k))"
  using set_running_inv [OF remove_thread_inv [OF assms(1,2)]] assms(2,3) by simp

lemma leave_current_inv:
  assumes "sched_inv {} k" "rt_current_thread k = Some cur" "cur \<noteq> t"
  shows "stat (threads k cur) = RT_THREAD_RUNNING \<Longrightarrow>
      sched_inv {} (rt_schedule_insert_thread cur (upd_thread cur (\<lambda>th. th\<lparr>stat_yield := False\<rparr>) k
        \<lparr>rt_current_priority := p, rt_current_thread := Some t\<rparr>))"
    and "stat (threads k cur) \<noteq> RT_THREAD_RUNNING \<Longrightarrow>
      sched_inv {} (k\<lparr>rt_current_priority := p, rt_current_thread := Some t\<rparr>)"
proof -
  assume run: "stat (threads k cur) = RT_THREAD_RUNNING"
  have "sched_inv {cur} (upd_thread cur (\<lambda>th. th\<lparr>stat_yield := False\<rparr>) k
        \<lparr>rt_current_priority := p, rt_current_thread := Some t\<rparr>)"
    unfolding sched_inv_def
  proof (intro conjI)
    show "group_ok (upd_thread cur (\<lambda>th. th\<lparr>stat_yield := False\<rparr>) k
        \<lparr>rt_current_priority := p, rt_current_thread := Some t\<rparr>)"
      using sched_inv_bit [OF assms(1)] by (simp add: group_ok_def)
    show "lists_ok {cur} (upd_thread cur (\<lambda>th. th\<lparr>stat_yield := False\<rparr>) k
        \<lparr>rt_current_priority := p, rt_current_thread := Some t\<rparr>)"
      using assms(1) run by (force simp: sched_inv_def lists_ok_def)
    show "threads_ok {cur} (upd_thread cur (\<lambda>th. th\<lparr>stat_yield := False\<rparr>) k
        \<lparr>rt_current_priority := p, rt_current_thread := Some t\<rparr>)"
      unfolding threads_ok_def
    proof (rule allI, goal_cases)
      case (1 t')
      show ?case
        using sched_inv_wf [OF assms(1), of t'] sched_inv_ready [OF assms(1), of t']
          sched_inv_running [OF assms(1), of t'] assms(2)
        by (cases "t' = cur") (auto simp: thread_wf_def)
    qed
  qed
  then show "sched_inv {} (rt_schedule_insert_thread cur (upd_thread cur (\<lambda>th. th\<lparr>stat_yield := False\<rparr>) k
        \<lparr>rt_current_priority := p, rt_current_thread := Some t\<rparr>))"
    using insert_thread_inv [of cur "{}"] sched_inv_wf [OF assms(1), of cur] run by (simp add: thread_wf_def)
next
  assume "stat (threads k cur) \<noteq> RT_THREAD_RUNNING"
  then have "stat (threads k t') \<noteq> RT_THREAD_RUNNING" for t'
    using sched_inv_running [OF assms(1), of t'] assms(2) by auto
  then show "sched_inv {} (k\<lparr>rt_current_priority := p, rt_current_thread := Some t\<rparr>)"
    using assms by (auto simp: sched_inv_defs)
qed


lemma schedule_unfold:
  assumes "rt_scheduler_lock_nest k = 0" "rt_thread_ready_priority_group k \<noteq> 0"
    "get_highest_priority_thread k = Inr (p, hi)" "rt_current_thread k = Some cur" "cur \<noteq> hi"
  shows "rt_schedule k =
     (if stat (threads k cur) \<noteq> RT_THREAD_RUNNING then
        Inr (upd_thread hi (\<lambda>th. th\<lparr>stat := RT_THREAD_RUNNING\<rparr>) (rt_schedule_remove_thread hi
          (k\<lparr>rt_current_priority := p, rt_current_thread := Some hi\<rparr>)))
      else if current_priority (threads k cur) < p \<or> current_priority (threads k cur) = p \<and> \<not> stat_yield (threads k cur)
      then Inr (upd_thread cur (\<lambda>th. th\<lparr>stat := RT_THREAD_RUNNING\<rparr>) (rt_schedule_remove_thread cur k))
      else Inr (upd_thread hi (\<lambda>th. th\<lparr>stat := RT_THREAD_RUNNING\<rparr>) (rt_schedule_remove_thread hi
          (rt_schedule_insert_thread cur (upd_thread cur (\<lambda>th. th\<lparr>stat_yield := False\<rparr>) k
             \<lparr>rt_current_priority := p, rt_current_thread := Some hi\<rparr>)))))"
  using assms by (auto simp: rt_schedule_def Let_def)

lemma insert_thread_simps:
  "current_priority (threads (rt_schedule_insert_thread t k) t') = current_priority (threads k t')"
  "number_mask (threads (rt_schedule_insert_thread t k) t') = number_mask (threads k t')"
  "rt_current_thread (rt_schedule_insert_thread t k) = rt_current_thread k"
  "t' \<noteq> t \<Longrightarrow> threads (rt_schedule_insert_thread t k) t' = threads k t'"
  "rt_current_thread k \<noteq> Some t \<Longrightarrow> stat (threads (rt_schedule_insert_thread t k) t) = RT_THREAD_READY"
  by (simp_all add: rt_schedule_insert_thread_def Let_def)

lemma schedule_ok:
  assumes inv: "sched_inv {} k" and cur: "rt_current_thread k = Some cur"
  obtains k' where "rt_schedule k = Inr k'" "sched_inv {} k'"
    "rt_scheduler_lock_nest k = 0 \<Longrightarrow> rt_thread_ready_priority_group k \<noteq> 0 \<Longrightarrow>
      \<exists>c. rt_current_thread k' = Some c \<and> stat (threads k' c) = RT_THREAD_RUNNING \<and>
        (\<forall>t. stat (threads k' t) = RT_THREAD_READY \<longrightarrow> current_priority (threads k' c) \<le> current_priority (threads k' t))"
proof (cases "rt_scheduler_lock_nest k \<noteq> 0 \<or> rt_thread_ready_priority_group k = 0")
  case True
  then show ?thesis using that [of k] inv by (simp add: rt_schedule_def)
next
  case False
  then obtain p hi where hi: "get_highest_priority_thread k = Inr (p, hi)" "stat (threads k hi) = RT_THREAD_READY"
    "current_priority (threads k hi) = p"
    and least: "\<And>t'. stat (threads k t') = RT_THREAD_READY \<Longrightarrow> p \<le> current_priority (threads k t')"
    using get_highest [OF inv] by (metis empty_iff)
  have wf: "thread_wf (threads k hi)" using sched_inv_wf [OF inv, of hi] hi by simp
  show ?thesis
  proof (cases "cur = hi")
    case True
    then show ?thesis
      using that [of "upd_thread cur (\<lambda>th. th\<lparr>stat := RT_THREAD_RUNNING\<rparr>) (rt_schedule_remove_thread cur k)"]
        switch_to_inv [OF inv, of hi] wf False hi cur least by (simp add: rt_schedule_def Let_def)
  next
    case neq: False
    note unfold = schedule_unfold [OF _ _ hi(1) cur neq]
    show ?thesis
    proof (cases "stat (threads k cur) = RT_THREAD_RUNNING")
      case notrun: False
      note inv1 = leave_current_inv(2) [OF inv cur neq notrun, of p]
      show ?thesis
        using that [of "upd_thread hi (\<lambda>th. th\<lparr>stat := RT_THREAD_RUNNING\<rparr>) (rt_schedule_remove_thread hi
            (k\<lparr>rt_current_priority := p, rt_current_thread := Some hi\<rparr>))"]
          switch_to_inv [OF inv1, of hi] wf False notrun unfold hi least by simp
    next
      case run: True
      have wfc: "thread_wf (threads k cur)" using sched_inv_wf [OF inv, of cur] run by simp
      show ?thesis
      proof (cases "current_priority (threads k cur) < p \<or> current_priority (threads k cur) = p \<and> \<not> stat_yield (threads k cur)")
        case True
        then have "current_priority (threads k cur) \<le> current_priority (threads k t)"
          if "stat (threads k t) = RT_THREAD_READY" for t
          using least [OF that] by auto
        then show ?thesis
          using that [of "upd_thread cur (\<lambda>th. th\<lparr>stat := RT_THREAD_RUNNING\<rparr>) (rt_schedule_remove_thread cur k)"]
            switch_to_inv [OF inv wfc cur] False run unfold cur True by simp
      next
        case leaves: False
        let ?k = "rt_schedule_insert_thread cur (upd_thread cur (\<lambda>th. th\<lparr>stat_yield := False\<rparr>) k
             \<lparr>rt_current_priority := p, rt_current_thread := Some hi\<rparr>)"
        have "thread_wf (threads ?k hi)" using neq wf by (simp add: insert_thread_simps)
        then show ?thesis
          using that [of "upd_thread hi (\<lambda>th. th\<lparr>stat := RT_THREAD_RUNNING\<rparr>) (rt_schedule_remove_thread hi ?k)"]
            switch_to_inv [OF leave_current_inv(1) [OF inv cur neq run, of p], of hi] False leaves run unfold hi least neq
          by (auto simp: insert_thread_simps split: if_splits) 
      qed
    qed
  qed
qed

section \<open>Results\<close>

lemma lowest_bit_table:
  "list_all (\<lambda>(n, i). n = 0 \<or> i < 8 \<and> n mod 2 ^ Suc i = 2 ^ i) (enumerate 0 lowest_bit_bitmap)"
  unfolding lowest_bit_bitmap_def by (simp add: enumerate_simps)

lemma lowest_bit_byte:
  assumes "n < 256" "n \<noteq> 0"
  shows "bit n (lowest_bit_bitmap ! n)" "j < lowest_bit_bitmap ! n \<Longrightarrow> \<not> bit n j" "lowest_bit_bitmap ! n < 8"
proof -
  let ?i = "lowest_bit_bitmap ! n"
  have len: "length lowest_bit_bitmap = 256" by (simp add: lowest_bit_bitmap_def)
  have "(n, ?i) \<in> set (enumerate 0 lowest_bit_bitmap)"
    using assms(1) by (simp add: in_set_enumerate_eq len)
  then have i: "?i < 8" "take_bit (Suc ?i) n = 2 ^ ?i"
    using lowest_bit_table assms(2) by (auto simp: list_all_iff take_bit_eq_mod)
  have "bit n j \<longleftrightarrow> j = ?i" if "j \<le> ?i" for j
    using that arg_cong [OF i(2), of "\<lambda>x. bit x j"] by (simp add: bit_take_bit_iff bit_exp_iff)
  then show "bit n ?i" "j < ?i \<Longrightarrow> \<not> bit n j" "?i < 8" using i(1) by auto
qed

lemma ffs_unique: "bit w i \<Longrightarrow> (\<And>j. j < i \<Longrightarrow> \<not> bit w j) \<Longrightarrow> rt_ffs w = Suc i"
proof -
  assume i: "bit w i" "\<And>j. j < i \<Longrightarrow> \<not> bit w j"
  then have "w \<noteq> 0" by auto
  then have "rt_ffs w - 1 = i" using i ffs_bit [of w] by (metis le_antisym not_le)
  moreover have "rt_ffs w \<noteq> 0"
  proof -
    have "find (bit w) [0..<32] \<noteq> None"
      using bit_imp_le_length [OF i(1)] i(1) by (auto simp: find_None_iff intro!: exI [of _ i])
    then show ?thesis by (auto simp: rt_ffs_def)
  qed
  ultimately show ?thesis by simp
qed

text \<open>The table applied to byte \<open>m\<close>, when the bytes below are zero.\<close>

lemma ffs_byte:
  assumes "m + 8 \<le> 32" "\<And>j. j < m \<Longrightarrow> \<not> bit v j" "drop_bit m (v AND push_bit m 0xff) \<noteq> (0::u32)"
  shows "rt_ffs v = lowest_bit_bitmap ! unat (drop_bit m (v AND push_bit m 0xff)) + (m + 1)"
proof -
  let ?b = "drop_bit m (v AND push_bit m 0xff)"
  have ff: "(0xff :: u32) = mask 8" by (simp add: mask_eq_exp_minus_1)
  have bits: "bit (unat ?b) i \<longleftrightarrow> i < 8 \<and> bit v (m + i)" for i
    using assms(1) bit_imp_le_length [of v "m + i"] unfolding ff
    by (auto simp: bit_simps)
  have "unat ?b = take_bit 8 (unat ?b)"
    by (rule bit_eqI) (unfold bit_take_bit_iff bits, blast)
  then have small: "unat ?b < 256" using take_bit_nat_less_exp [of 8 "unat ?b"] by simp
  moreover have "unat ?b \<noteq> 0" using assms(3) by (simp add: unat_eq_0)
  ultimately have "bit (unat ?b) (lowest_bit_bitmap ! unat ?b)"
    "\<And>j. j < lowest_bit_bitmap ! unat ?b \<Longrightarrow> \<not> bit (unat ?b) j" "lowest_bit_bitmap ! unat ?b < 8"
    using lowest_bit_byte by blast+
  note low = this
  have "rt_ffs v = Suc (m + lowest_bit_bitmap ! unat ?b)"
  proof (rule ffs_unique)
    show "bit v (m + lowest_bit_bitmap ! unat ?b)" using low(1) unfolding bits by blast
    show "\<not> bit v j" if "j < m + lowest_bit_bitmap ! unat ?b" for j
    proof (cases "j < m")
      case False
      then have "\<not> bit (unat ?b) (j - m)" using low(2) [of "j - m"] that by linarith
      moreover have "j - m < 8" using low(3) that by linarith
      ultimately show ?thesis using False unfolding bits by simp
    qed (rule assms(2))
  qed
  then show ?thesis by simp
qed

lemma and_byte_zero: "v AND push_bit m 0xff = (0::u32) \<Longrightarrow> i < 8 \<Longrightarrow> \<not> bit v (m + i)"
proof
  assume z: "v AND push_bit m 0xff = (0::u32)" and i: "i < 8" and b: "bit v (m + i)"
  have ff: "(0xff :: u32) = mask 8" by (simp add: mask_eq_exp_minus_1)
  have "bit (v AND push_bit m 0xff) (m + i)"
    unfolding ff using i b bit_imp_le_length [OF b] by (simp add: bit_simps)
  then show False using z by simp
qed


text \<open>
  The portable table-driven \<^verbatim>\<open>__rt_ffs\<close> and the compiler's function the build uses agree on every
  32-bit value.
\<close>

theorem ffs_table_equiv: "rt_ffs_table w = rt_ffs w"
proof -
  have masks: "(0xff00 :: u32) = push_bit 8 0xff" "(0xff0000 :: u32) = push_bit 16 0xff"
    "(0xff000000 :: u32) = push_bit 24 0xff" by (simp_all add: push_bit_eq_mult)
  note b0 = and_byte_zero [of w 0, simplified] and b1 = and_byte_zero [of w 8]
    and b2 = and_byte_zero [of w 16] and b3 = and_byte_zero [of w 24]
  have low8: "\<not> bit w j" if "w AND 0xff = 0" "j < 8" for j using b0 that by blast
  have low16: "\<not> bit w j" if "w AND 0xff = 0" "w AND push_bit 8 0xff = 0" "j < 16" for j
    using low8 b1 [of "j - 8"] that by (cases "j < 8") auto
  have low24: "\<not> bit w j" if "w AND 0xff = 0" "w AND push_bit 8 0xff = 0" "w AND push_bit 16 0xff = 0" "j < 24" for j
    using low16 b2 [of "j - 16"] that by (cases "j < 16") auto
  have low32: "w = 0" if "w AND 0xff = 0" "w AND push_bit 8 0xff = 0" "w AND push_bit 16 0xff = 0" "w AND push_bit 24 0xff = 0"
  proof (rule bit_word_eqI)
    fix j assume "j < LENGTH(32)"
    then show "bit w j = bit 0 j" using low24 b3 [of "j - 24"] that by (cases "j < 24") auto
  qed
  have nz: "drop_bit m x \<noteq> 0" if "x \<noteq> 0" "x = w AND push_bit m 0xff" for m and x :: u32
  proof -
    have "\<exists>j. bit x j" using that(1) by (metis bit_0_eq bit_word_eqI bot_apply bot_bool_def)
    then obtain j where j: "bit x j" by blast
    then have "m \<le> j" using that(2) by (simp add: bit_simps)
    then have "bit (drop_bit m x) (j - m)" using j by (simp add: bit_drop_bit_eq)
    then show ?thesis by auto
  qed
  show ?thesis
  proof (cases "w = 0")
    case True
    have "find (bit (0 :: u32)) [0..<32] = None" unfolding find_None_iff by simp
    then show ?thesis unfolding rt_ffs_table_def rt_ffs_def True by simp
  next
    case False
    have byte: "rt_ffs w = lowest_bit_bitmap ! unat (drop_bit m (w AND push_bit m 0xff)) + n"
      if "m + 8 \<le> 32" "\<And>j. j < m \<Longrightarrow> \<not> bit w j" "w AND push_bit m 0xff \<noteq> 0" "n = m + 1" for m n
      unfolding that(4) by (rule ffs_byte [OF that(1,2) nz [OF that(3) refl]])
    have "rt_ffs w = lowest_bit_bitmap ! unat (w AND 0xff) + 1" if "w AND 0xff \<noteq> 0"
      using byte [of 0 1] that by simp
    moreover have "rt_ffs w = lowest_bit_bitmap ! unat (drop_bit 8 (w AND push_bit 8 0xff)) + 9"
      if "w AND 0xff = 0" "w AND push_bit 8 0xff \<noteq> 0"
      using low8 that by (intro byte) simp_all
    moreover have "rt_ffs w = lowest_bit_bitmap ! unat (drop_bit 16 (w AND push_bit 16 0xff)) + 17"
      if "w AND 0xff = 0" "w AND push_bit 8 0xff = 0" "w AND push_bit 16 0xff \<noteq> 0"
      using low16 that by (intro byte) simp_all
    moreover have "rt_ffs w = lowest_bit_bitmap ! unat (drop_bit 24 (w AND push_bit 24 0xff)) + 25"
      if "w AND 0xff = 0" "w AND push_bit 8 0xff = 0" "w AND push_bit 16 0xff = 0"
      using low24 low32 that False by (intro byte) auto
    ultimately show ?thesis
      using False unfolding rt_ffs_table_def masks by presburger
  qed
qed

text \<open>
  C31. A scheduling round in a consistent state never reads a thread from an empty ready list, keeps the state
  consistent, and with the scheduler unlocked and a thread ready it leaves running a thread of the highest
  priority: no ready thread has a smaller priority number.
\<close>

theorem schedule_runs_highest:
  assumes "sched_inv {} k" "rt_current_thread k = Some cur"
    "rt_scheduler_lock_nest k = 0" "rt_thread_ready_priority_group k \<noteq> 0"
  shows "\<exists>k' c. rt_schedule k = Inr k' \<and> sched_inv {} k' \<and> rt_current_thread k' = Some c \<and>
     stat (threads k' c) = RT_THREAD_RUNNING \<and>
     (\<forall>t. stat (threads k' t) = RT_THREAD_READY \<longrightarrow> current_priority (threads k' c) \<le> current_priority (threads k' t))"
  using schedule_ok [OF assms(1,2)] assms(3,4) by metis

text \<open>
  A small system for the examples: threads 0, 1 and 2 with priorities 10, 25 and 25, of which 0 runs and
  the others are ready.
\<close>

definition demo_thread :: "thread_stat \<Rightarrow> nat \<Rightarrow> rt_thread" where
  "demo_thread s p = \<lparr>stat = s, stat_yield = False, current_priority = p, init_priority = p,
     number_mask = push_bit p 1, error = 0, event_set = 0, event_info = 0, init_tick = 10, remaining_tick = 10,
     static_object = False, has_cleanup = False\<rparr>"

definition demo_timer :: rt_timer where
  "demo_timer = \<lparr>activated = False, periodic = False, soft_timer = False, timer_init_tick = 0, timeout_tick = 0\<rparr>"

definition demo_kernel :: kernel where
  "demo_kernel = \<lparr>threads = (\<lambda>t. if t = 0 then demo_thread RT_THREAD_RUNNING 10
       else if t = 1 \<or> t = 2 then demo_thread RT_THREAD_READY 25 else demo_thread RT_THREAD_INIT 0),
     tlists = (\<lambda>l. if l = Ready 25 then [1, 2] else []),
     rt_current_thread = Some 0, rt_current_priority = 10, rt_thread_ready_priority_group = push_bit 25 1,
     rt_scheduler_lock_nest = 0, rt_tick = 0, timers = (\<lambda>_. demo_timer), rt_timer_list = [],
     rt_soft_timer_list = [], timer_thread = 7\<rparr>"

lemma mask_bit: "bit (push_bit n 1 :: u32) p \<longleftrightarrow> p = n \<and> p < 32"
  by (auto simp: bit_simps)

lemma demo_inv: "sched_inv {} demo_kernel"
  using mask_bit [of 25]
  by (auto simp: sched_inv_def group_ok_def lists_ok_def threads_ok_def thread_wf_def demo_kernel_def demo_thread_def)

theorem schedule_runs_highest_witness:
  "\<exists>k' c. rt_schedule demo_kernel = Inr k' \<and> sched_inv {} k' \<and> rt_current_thread k' = Some c \<and>
     stat (threads k' c) = RT_THREAD_RUNNING \<and>
     (\<forall>t. stat (threads k' t) = RT_THREAD_READY \<longrightarrow> current_priority (threads k' c) \<le> current_priority (threads k' t))"
  by (rule schedule_runs_highest [OF demo_inv, of 0]) (simp_all add: demo_kernel_def)

end
