(* ===== verification/Thread_Timer.thy ===== *)
theory Thread_Timer
  imports Scheduler
begin

unbundle bit_operations_syntax

text \<open>
  Timers (\<^verbatim>\<open>timer.c\<close>, one skip-list level), threads (\<^verbatim>\<open>thread.c\<close>) and the clock (\<^verbatim>\<open>clock.c\<close>) of the kernel.
  The timers in a list are held from its head on; the node of a timer is in at most one list.

  A thread that waits stops inside \<^verbatim>\<open>rt_schedule\<close>; the functions \<open>\<dots>_resumed\<close> are what it does when it runs
  again.  The time-out function of a thread's own timer is \<open>rt_thread_timeout\<close>; what the time-out functions of
  other timers do is the argument \<open>cb\<close> of the definitions that call them.
\<close>

section \<open>Timers\<close>

definition RT_TICK_MAX :: u32 where "RT_TICK_MAX = 0xffffffff"

definition upd_timer :: "timer_id \<Rightarrow> (rt_timer \<Rightarrow> rt_timer) \<Rightarrow> kernel \<Rightarrow> kernel" where
  "upd_timer tm f k = k\<lparr>timers := (timers k)(tm := f (timers k tm))\<rparr>"

text \<open>\<^verbatim>\<open>_rt_timer_init\<close> clears the activated flag and links the node to itself, in no list.\<close>

definition timer_init :: "timer_id \<Rightarrow> tick \<Rightarrow> bool \<Rightarrow> bool \<Rightarrow> kernel \<Rightarrow> kernel" where
  "timer_init tm time periodic_flag soft_flag k =
     upd_timer tm (\<lambda>_. \<lparr>activated = False, periodic = periodic_flag, soft_timer = soft_flag,
       timer_init_tick = time, timeout_tick = 0\<rparr>) k"

definition rt_timer_list_next_timeout :: "timer_id list \<Rightarrow> kernel \<Rightarrow> tick" where
  "rt_timer_list_next_timeout timer_list k =
     (case timer_list of [] \<Rightarrow> RT_TICK_MAX | tm # _ \<Rightarrow> timeout_tick (timers k tm))"

definition timer_remove :: "timer_id \<Rightarrow> kernel \<Rightarrow> kernel" where
  "timer_remove tm k = k\<lparr>rt_timer_list := removeAll tm (rt_timer_list k),
     rt_soft_timer_list := removeAll tm (rt_soft_timer_list k)\<rparr>"

definition rt_timer_detach :: "timer_id \<Rightarrow> kernel \<Rightarrow> kernel" where
  "rt_timer_detach tm k = timer_remove tm k"

definition rt_timer_stop :: "timer_id \<Rightarrow> kernel \<Rightarrow> int \<times> kernel" where
  "rt_timer_stop tm k =
     (if \<not> activated (timers k tm) then (- RT_ERROR, k)
      else (RT_EOK, upd_timer tm (\<lambda>x. x\<lparr>activated := False\<rparr>) (timer_remove tm k)))"

datatype timer_cmd = SET_TIME tick | GET_TIME | SET_ONESHOT | SET_PERIODIC

text \<open>\<open>GET_TIME\<close> leaves the timer unchanged and stores the time through its argument, the first result.\<close>

definition rt_timer_control :: "timer_id \<Rightarrow> timer_cmd \<Rightarrow> kernel \<Rightarrow> tick option \<times> kernel" where
  "rt_timer_control tm cmd k =
     (case cmd of
        GET_TIME \<Rightarrow> (Some (timer_init_tick (timers k tm)), k)
      | SET_TIME t \<Rightarrow> (None, upd_timer tm (\<lambda>x. x\<lparr>timer_init_tick := t\<rparr>) k)
      | SET_ONESHOT \<Rightarrow> (None, upd_timer tm (\<lambda>x. x\<lparr>periodic := False\<rparr>) k)
      | SET_PERIODIC \<Rightarrow> (None, upd_timer tm (\<lambda>x. x\<lparr>periodic := True\<rparr>) k))"

text \<open>
  The walk over the list: past timers with the same time-out, and up to the first timer whose time-out is
  less than half the tick range later.
\<close>

fun timer_insert :: "(timer_id \<Rightarrow> tick) \<Rightarrow> tick \<Rightarrow> timer_id \<Rightarrow> timer_id list \<Rightarrow> timer_id list" where
  "timer_insert tick_of new tm [] = [tm]"
| "timer_insert tick_of new tm (t # ts) =
     (if tick_of t - new = 0 then t # timer_insert tick_of new tm ts
      else if tick_of t - new < RT_TICK_MAX div 2 then tm # t # ts
      else t # timer_insert tick_of new tm ts)"

section \<open>Threads\<close>

definition rt_thread_suspend :: "tid \<Rightarrow> kernel \<Rightarrow> (int \<times> kernel) res" where
  "rt_thread_suspend t k =
     (if stat (threads k t) \<noteq> RT_THREAD_READY \<and> stat (threads k t) \<noteq> RT_THREAD_RUNNING then Inr (- RT_ERROR, k)
      else if stat (threads k t) = RT_THREAD_RUNNING \<and> rt_current_thread k \<noteq> Some t then Inl AssertFailed
      else
        (let k = rt_schedule_remove_thread t k;
             k = upd_thread t (\<lambda>th. th\<lparr>stat := RT_THREAD_SUSPEND\<rparr>) k
         in Inr (RT_EOK, snd (rt_timer_stop (Thread_timer t) k))))"

definition rt_thread_resume :: "tid \<Rightarrow> kernel \<Rightarrow> int \<times> kernel" where
  "rt_thread_resume t k =
     (if stat (threads k t) \<noteq> RT_THREAD_SUSPEND then (- RT_ERROR, k)
      else
        (let k = rt_list_remove t k;
             k = snd (rt_timer_stop (Thread_timer t) k)
         in (RT_EOK, rt_schedule_insert_thread t k)))"

text \<open>
  A soft timer is put into the list of the timer thread, which is resumed when it is suspended; the
  scheduler may then switch to it.
\<close>

definition rt_timer_start :: "timer_id \<Rightarrow> kernel \<Rightarrow> kernel res" where
  "rt_timer_start tm k =
     (let k = upd_timer tm (\<lambda>x. x\<lparr>activated := False\<rparr>) (timer_remove tm k) in
      if \<not> timer_init_tick (timers k tm) < RT_TICK_MAX div 2 then Inl AssertFailed
      else
        (let k = upd_timer tm (\<lambda>x. x\<lparr>timeout_tick := rt_tick k + timer_init_tick x\<rparr>) k;
             soft = soft_timer (timers k tm);
             tick_of = (\<lambda>t. timeout_tick (timers k t));
             k = (if soft
                  then k\<lparr>rt_soft_timer_list := timer_insert tick_of (tick_of tm) tm (rt_soft_timer_list k)\<rparr>
                  else k\<lparr>rt_timer_list := timer_insert tick_of (tick_of tm) tm (rt_timer_list k)\<rparr>);
             k = upd_timer tm (\<lambda>x. x\<lparr>activated := True\<rparr>) k in
         if soft \<and> stat (threads k (timer_thread k)) = RT_THREAD_SUSPEND
         then rt_schedule (snd (rt_thread_resume (timer_thread k) k))
         else Inr k))"

text \<open>\<^verbatim>\<open>_rt_thread_init\<close>, without the stack of the thread.\<close>

definition thread_init :: "tid \<Rightarrow> nat \<Rightarrow> u32 \<Rightarrow> bool \<Rightarrow> kernel \<Rightarrow> kernel res" where
  "thread_init t priority tick static k =
     (if 32 \<le> priority then Inl AssertFailed
      else
        (let k = upd_thread t (\<lambda>th. th\<lparr>init_priority := priority, current_priority := priority, number_mask := 0,
               init_tick := tick, remaining_tick := tick, error := RT_EOK,
               stat := RT_THREAD_INIT, stat_yield := False, static_object := static, has_cleanup := False\<rparr>) k
         in Inr (timer_init (Thread_timer t) 0 False False k)))"

definition rt_thread_startup :: "tid \<Rightarrow> kernel \<Rightarrow> kernel res" where
  "rt_thread_startup t k =
     (if stat (threads k t) \<noteq> RT_THREAD_INIT then Inl AssertFailed
      else
        (let k = upd_thread t (\<lambda>th. th\<lparr>current_priority := init_priority th,
                   number_mask := push_bit (init_priority th) 1,
                   stat := RT_THREAD_SUSPEND, stat_yield := False\<rparr>) k;
             k = snd (rt_thread_resume t k)
         in case rt_current_thread k of None \<Rightarrow> Inr k | Some _ \<Rightarrow> rt_schedule k))"

text \<open>The end of a thread: \<^verbatim>\<open>rt_thread_exit\<close> of the current one, \<^verbatim>\<open>rt_thread_detach\<close> and \<^verbatim>\<open>rt_thread_delete\<close> of another.\<close>

definition rt_thread_exit :: "kernel \<Rightarrow> kernel res" where
  "rt_thread_exit k =
     (case rt_current_thread k of
        None \<Rightarrow> Inl NullDeref
      | Some t \<Rightarrow>
          (let k = rt_schedule_remove_thread t k;
               k = upd_thread t (\<lambda>th. th\<lparr>stat := RT_THREAD_CLOSE, stat_yield := False\<rparr>) k;
               k = rt_timer_detach (Thread_timer t) k;
               k = (if static_object (threads k t) \<and> \<not> has_cleanup (threads k t) then k
                    else rt_list_insert_after Defunct t k)
           in rt_schedule k))"

definition rt_thread_detach :: "tid \<Rightarrow> kernel \<Rightarrow> kernel res" where
  "rt_thread_detach t k =
     (if \<not> static_object (threads k t) then Inl AssertFailed
      else
        (let k = (if stat (threads k t) \<noteq> RT_THREAD_INIT then rt_schedule_remove_thread t k else k);
             k = rt_timer_detach (Thread_timer t) k;
             k = upd_thread t (\<lambda>th. th\<lparr>stat := RT_THREAD_CLOSE, stat_yield := False\<rparr>) k
         in Inr (if \<not> has_cleanup (threads k t) then k else rt_list_insert_after Defunct t k)))"

definition rt_thread_delete :: "tid \<Rightarrow> kernel \<Rightarrow> kernel res" where
  "rt_thread_delete t k =
     (if static_object (threads k t) then Inl AssertFailed
      else
        (let k = (if stat (threads k t) \<noteq> RT_THREAD_INIT then rt_schedule_remove_thread t k else k);
             k = rt_timer_detach (Thread_timer t) k;
             k = upd_thread t (\<lambda>th. th\<lparr>stat := RT_THREAD_CLOSE, stat_yield := False\<rparr>) k
         in Inr (rt_list_insert_after Defunct t k)))"

definition rt_thread_yield :: "kernel \<Rightarrow> kernel res" where
  "rt_thread_yield k = rt_schedule k"

definition rt_thread_sleep :: "tick \<Rightarrow> kernel \<Rightarrow> kernel res" where
  "rt_thread_sleep tick k =
     (case rt_current_thread k of
        None \<Rightarrow> Inl AssertFailed
      | Some t \<Rightarrow>
          bind_res (rt_thread_suspend t k) (\<lambda>(_, k).
          bind_res (rt_timer_start (Thread_timer t) (snd (rt_timer_control (Thread_timer t) (SET_TIME tick) k)))
            rt_schedule))"

definition rt_thread_sleep_resumed :: "tid \<Rightarrow> kernel \<Rightarrow> kernel" where
  "rt_thread_sleep_resumed t k =
     (if error (threads k t) = - RT_ETIMEOUT then upd_thread t (\<lambda>th. th\<lparr>error := RT_EOK\<rparr>) k else k)"

text \<open>
  \<^verbatim>\<open>rt_thread_delay_until\<close> up to the switch: the variable \<^verbatim>\<open>*tick\<close>, whether the thread waits, and the state.
  After the wait, or at once without one, the variable is the current tick.
\<close>

definition rt_thread_delay_until :: "tick \<Rightarrow> tick \<Rightarrow> kernel \<Rightarrow> (tick \<times> bool \<times> kernel) res" where
  "rt_thread_delay_until last_tick inc_tick k =
     (case rt_current_thread k of
        None \<Rightarrow> Inl AssertFailed
      | Some t \<Rightarrow>
          if rt_tick k - last_tick < inc_tick then
            (let wait = rt_tick k - last_tick + inc_tick in
             bind_res (rt_thread_sleep wait k) (\<lambda>k. Inr (wait, True, k)))
          else Inr (rt_tick k, False, k))"

definition rt_thread_delay_until_resumed :: "tid \<Rightarrow> kernel \<Rightarrow> tick \<times> kernel" where
  "rt_thread_delay_until_resumed t k = (rt_tick k, rt_thread_sleep_resumed t k)"

text \<open>The conversion from milliseconds with 1000 ticks in a second; unsigned arithmetic wraps.\<close>

definition rt_tick_from_millisecond :: "int \<Rightarrow> tick" where
  "rt_tick_from_millisecond ms =
     (if ms < 0 then i2u (-1)
      else i2u (1000 * cdiv ms 1000) + i2u (cdiv (1000 * cmod ms 1000 + 999) 1000))"

definition rt_thread_mdelay :: "int \<Rightarrow> kernel \<Rightarrow> kernel res" where
  "rt_thread_mdelay ms k = rt_thread_sleep (rt_tick_from_millisecond ms) k"

text \<open>A priority from 32 on would shift by more than the width of the mask.\<close>

definition change_priority :: "tid \<Rightarrow> nat \<Rightarrow> kernel \<Rightarrow> kernel res" where
  "change_priority t p k =
     (if 32 \<le> p then Inl OutOfBounds
      else
        (let set = upd_thread t (\<lambda>th. th\<lparr>current_priority := p, number_mask := push_bit p 1\<rparr>) in
         if stat (threads k t) = RT_THREAD_READY
         then Inr (rt_schedule_insert_thread t (set (rt_schedule_remove_thread t k)))
         else Inr (set k)))"

datatype thread_cmd = CHANGE_PRIORITY nat | STARTUP | CLOSE | OTHER_CMD

definition rt_thread_control :: "tid \<Rightarrow> thread_cmd \<Rightarrow> kernel \<Rightarrow> kernel res" where
  "rt_thread_control t cmd k =
     (case cmd of
        CHANGE_PRIORITY p \<Rightarrow> change_priority t p k
      | STARTUP \<Rightarrow> rt_thread_startup t k
      | CLOSE \<Rightarrow> rt_thread_delete t k
      | OTHER_CMD \<Rightarrow> Inr k)"

definition rt_thread_timeout :: "tid \<Rightarrow> kernel \<Rightarrow> kernel res" where
  "rt_thread_timeout t k =
     (if stat (threads k t) \<noteq> RT_THREAD_SUSPEND then Inl AssertFailed
      else
        (let k = upd_thread t (\<lambda>th. th\<lparr>error := - RT_ETIMEOUT\<rparr>) k;
             k = rt_list_remove t k;
             k = rt_schedule_insert_thread t k
         in rt_schedule k))"

section \<open>The clock\<close>

definition call_timeout :: "(nat \<Rightarrow> kernel \<Rightarrow> kernel res) \<Rightarrow> timer_id \<Rightarrow> kernel \<Rightarrow> kernel res" where
  "call_timeout cb tm k = (case tm of Thread_timer t \<Rightarrow> rt_thread_timeout t k | Timer n \<Rightarrow> cb n k)"

text \<open>The body of the loop in \<^verbatim>\<open>rt_timer_check\<close> for the expired timer at the head of the list.\<close>

definition timer_expire :: "(nat \<Rightarrow> kernel \<Rightarrow> kernel res) \<Rightarrow> timer_id \<Rightarrow> kernel \<Rightarrow> kernel res" where
  "timer_expire cb tm k =
     bind_res (call_timeout cb tm (timer_remove tm k)) (\<lambda>k.
       let again = (periodic (timers k tm) \<and> activated (timers k tm));
           k = upd_timer tm (\<lambda>x. x\<lparr>activated := False\<rparr>) k
       in if again then rt_timer_start tm k else Inr k)"

text \<open>
  The loop may never end (a periodic timer with the time 0 expires again at once), so it is a partial
  function: \<open>None\<close> is a loop that does not return.
\<close>

partial_function (option) timer_check_loop ::
  "(nat \<Rightarrow> kernel \<Rightarrow> kernel res) \<Rightarrow> tick \<Rightarrow> kernel \<Rightarrow> kernel res option" where
  "timer_check_loop cb current_tick k =
     (case rt_timer_list k of
        [] \<Rightarrow> Some (Inr k)
      | tm # _ \<Rightarrow>
          if current_tick - timeout_tick (timers k tm) < RT_TICK_MAX div 2 then
            (case timer_expire cb tm k of
               Inl e \<Rightarrow> Some (Inl e)
             | Inr k' \<Rightarrow> timer_check_loop cb (rt_tick k') k')
          else Some (Inr k))"

definition rt_timer_check :: "(nat \<Rightarrow> kernel \<Rightarrow> kernel res) \<Rightarrow> kernel \<Rightarrow> kernel res option" where
  "rt_timer_check cb k = timer_check_loop cb (rt_tick k) k"

definition rt_timer_next_timeout_tick :: "kernel \<Rightarrow> tick" where
  "rt_timer_next_timeout_tick k = rt_timer_list_next_timeout (rt_timer_list k) k"

definition tick_slice :: "kernel \<Rightarrow> kernel res" where
  "tick_slice k =
     (case rt_current_thread k of
        None \<Rightarrow> Inl NullDeref
      | Some t \<Rightarrow>
          (let k = upd_thread t (\<lambda>th. th\<lparr>remaining_tick := remaining_tick th - 1\<rparr>) k in
           if remaining_tick (threads k t) = 0 then
             rt_thread_yield (upd_thread t (\<lambda>th. th\<lparr>remaining_tick := init_tick th, stat_yield := True\<rparr>) k)
           else Inr k))"

definition rt_tick_increase :: "(nat \<Rightarrow> kernel \<Rightarrow> kernel res) \<Rightarrow> kernel \<Rightarrow> kernel res option" where
  "rt_tick_increase cb k =
     (case tick_slice (k\<lparr>rt_tick := rt_tick k + 1\<rparr>) of
        Inl e \<Rightarrow> Some (Inl e)
      | Inr k \<Rightarrow> rt_timer_check cb k)"

section \<open>Frames\<close>

lemma timer_field_simps [simp]:
  "threads (upd_timer tm f k) = threads k" "tlists (upd_timer tm f k) = tlists k"
  "rt_current_thread (upd_timer tm f k) = rt_current_thread k"
  "rt_thread_ready_priority_group (upd_timer tm f k) = rt_thread_ready_priority_group k"
  "rt_scheduler_lock_nest (upd_timer tm f k) = rt_scheduler_lock_nest k"
  "rt_tick (upd_timer tm f k) = rt_tick k"
  "rt_timer_list (upd_timer tm f k) = rt_timer_list k"
  "rt_soft_timer_list (upd_timer tm f k) = rt_soft_timer_list k"
  "timers (upd_timer tm f k) = (timers k)(tm := f (timers k tm))"
  by (simp_all add: upd_timer_def)

lemma timer_remove_simps [simp]:
  "threads (timer_remove tm k) = threads k" "tlists (timer_remove tm k) = tlists k"
  "rt_current_thread (timer_remove tm k) = rt_current_thread k"
  "rt_thread_ready_priority_group (timer_remove tm k) = rt_thread_ready_priority_group k"
  "rt_scheduler_lock_nest (timer_remove tm k) = rt_scheduler_lock_nest k"
  "rt_tick (timer_remove tm k) = rt_tick k" "timers (timer_remove tm k) = timers k"
  "rt_timer_list (timer_remove tm k) = removeAll tm (rt_timer_list k)"
  "rt_soft_timer_list (timer_remove tm k) = removeAll tm (rt_soft_timer_list k)"
  by (simp_all add: timer_remove_def)

text \<open>Two states with the same threads, lists and ready group satisfy the same invariant.\<close>

lemma sched_inv_frame:
  "threads k' = threads k \<Longrightarrow> tlists k' = tlists k \<Longrightarrow> rt_current_thread k' = rt_current_thread k \<Longrightarrow>
   rt_thread_ready_priority_group k' = rt_thread_ready_priority_group k \<Longrightarrow> sched_inv X k' = sched_inv X k"
  by (simp add: sched_inv_def group_ok_def lists_ok_def threads_ok_def)

lemma timer_stop_simps [simp]:
  "threads (snd (rt_timer_stop tm k)) = threads k" "tlists (snd (rt_timer_stop tm k)) = tlists k"
  "rt_current_thread (snd (rt_timer_stop tm k)) = rt_current_thread k"
  "rt_thread_ready_priority_group (snd (rt_timer_stop tm k)) = rt_thread_ready_priority_group k"
  "rt_scheduler_lock_nest (snd (rt_timer_stop tm k)) = rt_scheduler_lock_nest k"
  "rt_tick (snd (rt_timer_stop tm k)) = rt_tick k"
  by (simp_all add: rt_timer_stop_def)

lemma sched_inv_timer [simp]:
  "sched_inv X (upd_timer tm f k) = sched_inv X k" "sched_inv X (timer_remove tm k) = sched_inv X k"
  "sched_inv X (snd (rt_timer_stop tm k)) = sched_inv X k"
  by (rule sched_inv_frame; simp)+

text \<open>The part of the state the timers use is not changed by the scheduler.\<close>

definition timer_part :: "kernel \<Rightarrow> (timer_id \<Rightarrow> rt_timer) \<times> timer_id list \<times> timer_id list \<times> tick" where
  "timer_part k = (timers k, rt_timer_list k, rt_soft_timer_list k, rt_tick k)"

lemma timer_part_simps [simp]:
  "timer_part (upd_thread t f k) = timer_part k" "timer_part (rt_list_remove t k) = timer_part k"
  "timer_part (rt_list_insert_before l t k) = timer_part k" "timer_part (rt_list_insert_after l t k) = timer_part k"
  "timer_part (rt_schedule_remove_thread t k) = timer_part k" "timer_part (rt_schedule_insert_thread t k) = timer_part k"
  "timer_part (k\<lparr>rt_current_priority := p, rt_current_thread := c\<rparr>) = timer_part k"
  by (simp_all add: timer_part_def upd_thread_def rt_list_remove_def rt_list_insert_before_def rt_list_insert_after_def
      rt_schedule_remove_thread_def rt_schedule_insert_thread_def Let_def)

lemma lock_simps [simp]:
  "rt_scheduler_lock_nest (upd_thread t f k) = rt_scheduler_lock_nest k"
  "rt_scheduler_lock_nest (rt_list_remove t k) = rt_scheduler_lock_nest k"
  "rt_scheduler_lock_nest (rt_list_insert_before l t k) = rt_scheduler_lock_nest k"
  "rt_scheduler_lock_nest (rt_schedule_remove_thread t k) = rt_scheduler_lock_nest k"
  "rt_scheduler_lock_nest (rt_schedule_insert_thread t k) = rt_scheduler_lock_nest k"
  by (simp_all add: upd_thread_def rt_list_remove_def rt_list_insert_before_def
      rt_schedule_remove_thread_def rt_schedule_insert_thread_def Let_def)

text \<open>The outcomes of a scheduling round: nothing, the current thread runs on, or a switch.\<close>

definition run_thread :: "tid \<Rightarrow> kernel \<Rightarrow> kernel" where
  "run_thread t k = upd_thread t (\<lambda>th. th\<lparr>stat := RT_THREAD_RUNNING\<rparr>) (rt_schedule_remove_thread t k)"

definition leave_thread :: "tid \<Rightarrow> tid \<Rightarrow> nat \<Rightarrow> kernel \<Rightarrow> kernel" where
  "leave_thread cur t p k = rt_schedule_insert_thread cur (upd_thread cur (\<lambda>th. th\<lparr>stat_yield := False\<rparr>) k
     \<lparr>rt_current_priority := p, rt_current_thread := Some t\<rparr>)"

lemma schedule_cases:
  assumes "rt_schedule k = Inr k'"
  obtains (same) "k' = k"
  | (stay) cur where "rt_current_thread k = Some cur"
      "stat (threads k cur) = RT_THREAD_RUNNING \<or> (\<exists>p. get_highest_priority_thread k = Inr (p, cur))"
      "k' = run_thread cur k \<or> k' = run_thread cur (upd_thread cur (\<lambda>th. th\<lparr>stat_yield := False\<rparr>) k)"
  | (switch) cur hi p where "rt_current_thread k = Some cur" "get_highest_priority_thread k = Inr (p, hi)" "cur \<noteq> hi"
      "stat (threads k cur) \<noteq> RT_THREAD_RUNNING"
      "k' = run_thread hi (k\<lparr>rt_current_priority := p, rt_current_thread := Some hi\<rparr>)"
  | (preempt) cur hi p where "rt_current_thread k = Some cur" "get_highest_priority_thread k = Inr (p, hi)" "cur \<noteq> hi"
      "stat (threads k cur) = RT_THREAD_RUNNING" "k' = run_thread hi (leave_thread cur hi p k)"
proof (cases "rt_scheduler_lock_nest k \<noteq> 0 \<or> rt_thread_ready_priority_group k = 0")
  case True
  then show ?thesis using that(1) assms by (simp add: rt_schedule_def)
next
  case False
  then obtain p hi where hi: "get_highest_priority_thread k = Inr (p, hi)"
    using assms by (cases "get_highest_priority_thread k") (auto simp: rt_schedule_def)
  then obtain cur where cur: "rt_current_thread k = Some cur"
    using assms False by (cases "rt_current_thread k") (auto simp: rt_schedule_def)
  define stays where "stays \<longleftrightarrow> stat (threads k cur) = RT_THREAD_RUNNING \<and>
    (current_priority (threads k cur) < p \<or> current_priority (threads k cur) = p \<and> \<not> stat_yield (threads k cur))"
  have sched: "rt_schedule k =
      (let to_thread = if stays then cur else hi; need = stat (threads k cur) = RT_THREAD_RUNNING \<and> \<not> stays;
           k = if need then upd_thread cur (\<lambda>th. th\<lparr>stat_yield := False\<rparr>) k else k
       in if to_thread \<noteq> cur then
            Inr (run_thread to_thread (let k = k\<lparr>rt_current_priority := p, rt_current_thread := Some to_thread\<rparr>
              in if need then rt_schedule_insert_thread cur k else k))
          else Inr (run_thread cur k))"
    using False hi cur unfolding stays_def rt_schedule_def run_thread_def Let_def by simp
  consider "stays \<or> hi = cur" | "\<not> stays" "hi \<noteq> cur" "stat (threads k cur) = RT_THREAD_RUNNING"
    | "\<not> stays" "hi \<noteq> cur" "stat (threads k cur) \<noteq> RT_THREAD_RUNNING" by blast
  then show ?thesis
  proof cases
    case 1
    then have "stat (threads k cur) = RT_THREAD_RUNNING \<or> (\<exists>p. get_highest_priority_thread k = Inr (p, cur))"
      using hi by (auto simp: stays_def)
    moreover have "k' = run_thread cur k \<or> k' = run_thread cur (upd_thread cur (\<lambda>th. th\<lparr>stat_yield := False\<rparr>) k)"
      using assms 1 unfolding sched Let_def by (auto split: if_splits)
    ultimately show ?thesis using that(2) cur by blast
  next
    case 2
    then show ?thesis using that(4) [OF cur hi] assms unfolding sched leave_thread_def by (simp add: Let_def)
  next
    case 3
    then show ?thesis using that(3) [OF cur hi] assms unfolding sched by (simp add: Let_def)
  qed
qed

lemma run_thread_simps [simp]:
  "timer_part (run_thread t k) = timer_part k" "rt_scheduler_lock_nest (run_thread t k) = rt_scheduler_lock_nest k"
  "rt_current_thread (run_thread t k) = rt_current_thread k"
  "threads (run_thread t k) = (threads k)(t := (threads k t)\<lparr>stat := RT_THREAD_RUNNING\<rparr>)"
  by (simp_all add: run_thread_def)

lemma leave_thread_simps [simp]:
  "timer_part (leave_thread c t p k) = timer_part k"
  "rt_scheduler_lock_nest (leave_thread c t p k) = rt_scheduler_lock_nest k"
  "rt_current_thread (leave_thread c t p k) = Some t"
  "t' \<noteq> c \<Longrightarrow> threads (leave_thread c t p k) t' = threads k t'"
  "error (threads (leave_thread c t p k) t') = error (threads k t')"
  by (simp_all add: leave_thread_def insert_thread_simps)
    (simp add: rt_schedule_insert_thread_def Let_def)

lemma schedule_timer_part: "rt_schedule k = Inr k' \<Longrightarrow> timer_part k' = timer_part k"
  by (erule schedule_cases) auto

lemma schedule_lock: "rt_schedule k = Inr k' \<Longrightarrow> rt_scheduler_lock_nest k' = rt_scheduler_lock_nest k"
  by (erule schedule_cases) auto

lemma schedule_error: "rt_schedule k = Inr k' \<Longrightarrow> error (threads k' t) = error (threads k t)"
  by (erule schedule_cases) auto

lemma schedule_current: "rt_schedule k = Inr k' \<Longrightarrow> rt_current_thread k \<noteq> None \<Longrightarrow> rt_current_thread k' \<noteq> None"
  by (erule schedule_cases) auto

text \<open>The scheduler changes the status of running and ready threads only, and nothing else of a thread that waits.\<close>

lemma schedule_suspended:
  assumes "sched_inv {} k" "rt_schedule k = Inr k'"
    "stat (threads k t) \<noteq> RT_THREAD_READY" "stat (threads k t) \<noteq> RT_THREAD_RUNNING"
  shows "threads k' t = threads k t"
proof -
  have hi: "hi \<noteq> t" if "get_highest_priority_thread k = Inr (p, hi)" for p hi
  proof -
    have "hi \<in> set (tlists k (Ready p))"
      using that by (auto simp: get_highest_priority_thread_def Let_def split: list.splits)
    then show ?thesis using sched_inv_member(2) [OF assms(1)] assms(3) by force
  qed
  from assms(2) show ?thesis
    by (cases rule: schedule_cases) (use hi assms(3,4) in \<open>auto intro!: leave_thread_simps(4)\<close>)
qed


section \<open>The invariant of the kernel\<close>

text \<open>
  Beside the scheduler's invariant: some thread is current, an active hard timer is in the list once, the
  threads' timers are one-shot hard timers, and one of them runs only for a thread that waits.
\<close>

definition timers_inv :: "kernel \<Rightarrow> bool" where
  "timers_inv k \<longleftrightarrow> distinct (rt_timer_list k) \<and> (\<forall>tm \<in> set (rt_timer_list k). activated (timers k tm)) \<and>
     (\<forall>t. \<not> periodic (timers k (Thread_timer t)) \<and> \<not> soft_timer (timers k (Thread_timer t)) \<and>
        Thread_timer t \<notin> set (rt_soft_timer_list k) \<and>
        (Thread_timer t \<in> set (rt_timer_list k) \<longrightarrow> stat (threads k t) = RT_THREAD_SUSPEND))"

definition kernel_inv :: "kernel \<Rightarrow> bool" where
  "kernel_inv k \<longleftrightarrow> sched_inv {} k \<and> timers_inv k \<and> rt_current_thread k \<noteq> None"

lemma timers_inv_frame:
  assumes "timers_inv k" "timer_part k' = timer_part k"
    "\<And>t. Thread_timer t \<in> set (rt_timer_list k) \<Longrightarrow> stat (threads k t) = RT_THREAD_SUSPEND \<Longrightarrow>
       stat (threads k' t) = RT_THREAD_SUSPEND"
  shows "timers_inv k'"
  using assms by (simp add: timers_inv_def timer_part_def)

lemma schedule_inv:
  assumes "kernel_inv k"
  obtains k' where "rt_schedule k = Inr k'" "kernel_inv k'"
proof -
  have k: "sched_inv {} k" "timers_inv k" and "rt_current_thread k \<noteq> None"
    using assms by (auto simp: kernel_inv_def)
  then obtain cur where "rt_current_thread k = Some cur" by blast
  from schedule_ok [OF k(1) this] obtain k' where k': "rt_schedule k = Inr k'" "sched_inv {} k'" by metis
  have "timers_inv k'"
    using timers_inv_frame [OF k(2) schedule_timer_part [OF k'(1)]] schedule_suspended [OF k(1) k'(1)] by simp
  moreover have "rt_current_thread k' \<noteq> None"
    using schedule_current [OF k'(1)] assms by (simp add: kernel_inv_def)
  ultimately show ?thesis using that k' by (simp add: kernel_inv_def)
qed

lemma timer_stop_list:
  assumes "timers_inv k"
  shows "tm \<notin> set (rt_timer_list (snd (rt_timer_stop tm k)))"
  using assms by (auto simp: timers_inv_def rt_timer_stop_def)

lemma timer_stop_timers:
  "rt_timer_list (snd (rt_timer_stop tm k)) = (if activated (timers k tm) then removeAll tm (rt_timer_list k) else rt_timer_list k)"
  "rt_soft_timer_list (snd (rt_timer_stop tm k)) =
     (if activated (timers k tm) then removeAll tm (rt_soft_timer_list k) else rt_soft_timer_list k)"
  "activated (timers (snd (rt_timer_stop tm k)) tm') = (tm' \<noteq> tm \<and> activated (timers k tm'))"
  "periodic (timers (snd (rt_timer_stop tm k)) tm') = periodic (timers k tm')"
  "soft_timer (timers (snd (rt_timer_stop tm k)) tm') = soft_timer (timers k tm')"
  by (auto simp: rt_timer_stop_def)

text \<open>Stopping the timer of a thread lets the status of the thread change.\<close>

lemma timers_inv_stop:
  assumes "timers_inv k"
    "rt_timer_list k' = rt_timer_list k" "rt_soft_timer_list k' = rt_soft_timer_list k" "timers k' = timers k"
    "\<And>t'. t' \<noteq> t \<Longrightarrow> stat (threads k' t') = stat (threads k t')"
  shows "timers_inv (snd (rt_timer_stop (Thread_timer t) k'))"
proof -
  have "t' \<noteq> t" if "\<not> activated (timers k (Thread_timer t))" "Thread_timer t' \<in> set (rt_timer_list k)" for t'
    using assms(1) that by (auto simp: timers_inv_def)
  then show ?thesis
    using assms unfolding timers_inv_def timer_stop_timers
    by (auto simp: distinct_removeAll timer_stop_timers split: if_splits)
qed

lemma thread_resume_inv:
  assumes "kernel_inv k"
  shows "kernel_inv (snd (rt_thread_resume t k))"
proof (cases "stat (threads k t) = RT_THREAD_SUSPEND")
  case False
  then show ?thesis using assms by (simp add: rt_thread_resume_def)
next
  case True
  have k: "sched_inv {} k" "timers_inv k" "rt_current_thread k \<noteq> None"
    using assms by (auto simp: kernel_inv_def)
  have wf: "thread_wf (threads k t)" using sched_inv_wf [OF k(1)] True by simp
  let ?k = "snd (rt_timer_stop (Thread_timer t) (rt_list_remove t k))"
  have "removeAll t (tlists k (Ready p)) = tlists k (Ready p)" for p
    using sched_inv_member(2) [OF k(1), of t "Ready p"] True by (intro removeAll_id) auto
  then have "sched_inv {t} (rt_list_remove t k)"
    using k(1) True by (auto simp: sched_inv_def group_ok_def lists_ok_def threads_ok_def distinct_removeAll)
  then have "sched_inv {} (rt_schedule_insert_thread t ?k)"
    using insert_thread_inv [of t "{}" ?k] wf by simp
  moreover have "timers_inv (rt_schedule_insert_thread t ?k)"
  proof (rule timers_inv_frame [OF timers_inv_stop [OF k(2), of "rt_list_remove t k" t]])
    fix t' assume t': "Thread_timer t' \<in> set (rt_timer_list ?k)" "stat (threads ?k t') = RT_THREAD_SUSPEND"
    have "timers_inv (rt_list_remove t k)"
      by (rule timers_inv_frame [OF k(2)]) simp_all
    then have "t' \<noteq> t" using timer_stop_list t'(1) by auto
    then show "stat (threads (rt_schedule_insert_thread t ?k) t') = RT_THREAD_SUSPEND"
      using t'(2) by (simp add: insert_thread_simps)
  qed (simp_all add: rt_list_remove_def)
  ultimately show ?thesis using True k(3) by (simp add: rt_thread_resume_def kernel_inv_def Let_def insert_thread_simps)
qed

lemma thread_suspend_inv:
  assumes "kernel_inv k" "stat (threads k t) = RT_THREAD_READY \<or> stat (threads k t) = RT_THREAD_RUNNING"
  obtains k' where "rt_thread_suspend t k = Inr (RT_EOK, k')" "kernel_inv k'"
    "stat (threads k' t) = RT_THREAD_SUSPEND" "Thread_timer t \<notin> set (rt_timer_list k')" "\<And>l. t \<notin> set (tlists k' l)"
    "rt_current_thread k' = rt_current_thread k" "rt_tick k' = rt_tick k" "error (threads k' t) = error (threads k t)"
    "\<And>t'. t' \<noteq> t \<Longrightarrow> threads k' t' = threads k t'"
    "\<And>tm. tm \<noteq> Thread_timer t \<Longrightarrow> timers k' tm = timers k tm"
proof -
  have k: "sched_inv {} k" "timers_inv k" "rt_current_thread k \<noteq> None"
    using assms by (auto simp: kernel_inv_def)
  have wf: "thread_wf (threads k t)" using sched_inv_wf [OF k(1), of t] assms(2) by auto
  let ?k1 = "upd_thread t (\<lambda>th. th\<lparr>stat := RT_THREAD_SUSPEND\<rparr>) (rt_schedule_remove_thread t k)"
  let ?k = "snd (rt_timer_stop (Thread_timer t) ?k1)"
  have part: "timer_part ?k1 = timer_part k" by simp
  have "sched_inv {} ?k"
    using set_suspended_inv [OF remove_thread_inv [OF k(1) wf]] wf by simp
  moreover have "timers_inv ?k"
    using part by (intro timers_inv_stop [OF k(2)]) (simp_all add: timer_part_def)
  moreover have "timers_inv ?k1"
    using part by (rule timers_inv_frame [OF k(2)]) (use assms(2) in auto)
  moreover have "rt_thread_suspend t k = Inr (RT_EOK, ?k)"
    using assms(2) sched_inv_running [OF k(1), of t] by (auto simp: rt_thread_suspend_def Let_def)
  ultimately show ?thesis
    using that [of ?k] k(3) timer_stop_list [of ?k1] part
    by (simp add: kernel_inv_def timer_part_def) (simp add: rt_timer_stop_def timer_part_def)
qed


lemma timer_insert_set [simp]: "set (timer_insert f d tm ts) = insert tm (set ts)"
  by (induction ts) auto

lemma timer_insert_distinct: "distinct ts \<Longrightarrow> tm \<notin> set ts \<Longrightarrow> distinct (timer_insert f d tm ts)"
  by (induction ts) auto

text \<open>Starting the timer of a thread that waits.\<close>

definition start_thread_timer :: "tid \<Rightarrow> tick \<Rightarrow> kernel \<Rightarrow> kernel res" where
  "start_thread_timer t tick k =
     rt_timer_start (Thread_timer t) (snd (rt_timer_control (Thread_timer t) (SET_TIME tick) k))"

lemma start_thread_timer_ok:
  assumes "kernel_inv k" "stat (threads k t) = RT_THREAD_SUSPEND" "tick < RT_TICK_MAX div 2"
  obtains k' where "start_thread_timer t tick k = Inr k'" "kernel_inv k'" "threads k' = threads k"
    "tlists k' = tlists k" "rt_current_thread k' = rt_current_thread k" "rt_tick k' = rt_tick k"
    "rt_scheduler_lock_nest k' = rt_scheduler_lock_nest k"
    "rt_thread_ready_priority_group k' = rt_thread_ready_priority_group k"
    "timeout_tick (timers k' (Thread_timer t)) = rt_tick k + tick" "activated (timers k' (Thread_timer t))"
    "\<And>tm. tm \<noteq> Thread_timer t \<Longrightarrow> timers k' tm = timers k tm"
    "rt_timer_list k' = timer_insert (\<lambda>x. timeout_tick (timers k' x)) (rt_tick k + tick) (Thread_timer t)
       (removeAll (Thread_timer t) (rt_timer_list k))"
proof -
  have k: "sched_inv {} k" "timers_inv k" "rt_current_thread k \<noteq> None"
    using assms by (auto simp: kernel_inv_def)
  then have soft: "\<not> soft_timer (timers k (Thread_timer t))" by (simp add: timers_inv_def)
  let ?tm = "Thread_timer t"
  define k1 where "k1 = upd_timer ?tm (\<lambda>x. x\<lparr>timer_init_tick := tick, timeout_tick := rt_tick k + tick, activated := True\<rparr>)
    (timer_remove ?tm k)"
  define k2 where "k2 = k1\<lparr>rt_timer_list := timer_insert (\<lambda>x. timeout_tick (timers k1 x)) (rt_tick k + tick) ?tm
       (rt_timer_list k1)\<rparr>"
  have "start_thread_timer t tick k = Inr k2"
    using soft assms(3)
    by (simp add: start_thread_timer_def rt_timer_start_def rt_timer_control_def Let_def k2_def k1_def upd_timer_def
        timer_remove_def if_distrib [of timeout_tick] cong: if_cong)
  moreover have "sched_inv {} k2"
    using k(1) by (subst sched_inv_frame [of k2 k]) (simp_all add: k2_def k1_def)
  moreover have "timers_inv k2"
    using k(2) assms(2) unfolding timers_inv_def
    by (auto simp: k2_def k1_def timer_insert_distinct distinct_removeAll)
  ultimately show ?thesis
    using that [of k2] k(3) by (simp add: kernel_inv_def k2_def k1_def)
qed

text \<open>
  A sleeping thread waits in no queue, its timer ends the given number of ticks later, and another thread
  runs.
\<close>

lemma thread_sleep_ok:
  assumes "kernel_inv k" "rt_current_thread k = Some t" "stat (threads k t) = RT_THREAD_RUNNING"
    "tick < RT_TICK_MAX div 2"
  obtains k' where "rt_thread_sleep tick k = Inr k'" "kernel_inv k'" "stat (threads k' t) = RT_THREAD_SUSPEND"
    "Thread_timer t \<in> set (rt_timer_list k')" "timeout_tick (timers k' (Thread_timer t)) = rt_tick k + tick"
    "rt_tick k' = rt_tick k"
proof -
  obtain k1 where k1: "rt_thread_suspend t k = Inr (RT_EOK, k1)" "kernel_inv k1"
    "stat (threads k1 t) = RT_THREAD_SUSPEND" "rt_tick k1 = rt_tick k"
    using thread_suspend_inv [OF assms(1), of t] assms(3) by metis
  obtain k2 where k2: "start_thread_timer t tick k1 = Inr k2" "kernel_inv k2" "threads k2 = threads k1"
    "rt_tick k2 = rt_tick k1" "timeout_tick (timers k2 (Thread_timer t)) = rt_tick k1 + tick"
    "rt_timer_list k2 = timer_insert (\<lambda>x. timeout_tick (timers k2 x)) (rt_tick k1 + tick) (Thread_timer t)
       (removeAll (Thread_timer t) (rt_timer_list k1))"
    using start_thread_timer_ok [OF k1(2,3) assms(4)] by metis
  obtain k3 where k3: "rt_schedule k2 = Inr k3" "kernel_inv k3" using schedule_inv [OF k2(2)] by blast
  have "threads k3 t = threads k2 t"
    using schedule_suspended [OF _ k3(1), of t] k2(2,3) k1(3) by (simp add: kernel_inv_def)
  then show ?thesis
    using that [of k3] k3 k2 k1 assms(2) schedule_timer_part [OF k3(1)]
    by (simp add: rt_thread_sleep_def start_thread_timer_def [symmetric] timer_part_def)
qed

section \<open>Time-outs\<close>

lemma sched_inv_upd:
  assumes "\<And>th. stat (f th) = stat th" "\<And>th. current_priority (f th) = current_priority th"
    "\<And>th. number_mask (f th) = number_mask th"
  shows "sched_inv X (upd_thread t f k) = sched_inv X k"
proof -
  have "stat (((threads k)(t := f (threads k t))) x) = stat (threads k x)"
    "current_priority (((threads k)(t := f (threads k t))) x) = current_priority (threads k x)"
    "number_mask (((threads k)(t := f (threads k t))) x) = number_mask (threads k x)" for x
    using assms by simp_all
  then show ?thesis
    unfolding sched_inv_def group_ok_def lists_ok_def threads_ok_def thread_wf_def upd_thread_simps by simp
qed

lemma wake_inv:
  assumes "sched_inv {} k" "stat (threads k t) = RT_THREAD_SUSPEND"
  shows "sched_inv {} (rt_schedule_insert_thread t (rt_list_remove t k))"
proof -
  have "removeAll t (tlists k (Ready p)) = tlists k (Ready p)" for p
    using sched_inv_member(2) [OF assms(1), of t "Ready p"] assms(2) by (intro removeAll_id) auto
  then have "sched_inv {t} (rt_list_remove t k)"
    using assms by (auto simp: sched_inv_def group_ok_def lists_ok_def threads_ok_def distinct_removeAll)
  then show ?thesis
    using insert_thread_inv [of t "{}" "rt_list_remove t k"] sched_inv_wf [OF assms(1), of t] assms(2) by simp
qed

lemma schedule_awake:
  assumes "rt_schedule k = Inr k'" "stat (threads k t) \<noteq> RT_THREAD_SUSPEND"
  shows "stat (threads k' t) \<noteq> RT_THREAD_SUSPEND"
proof -
  have "stat (threads (leave_thread cur hi p k) t) \<noteq> RT_THREAD_SUSPEND" for cur hi p
    using assms(2) by (cases "t = cur") (simp_all add: leave_thread_def rt_schedule_insert_thread_def Let_def)
  with assms show ?thesis by (elim schedule_cases) (auto split: if_splits)
qed

lemma thread_timeout_ok:
  assumes "kernel_inv k" "stat (threads k t) = RT_THREAD_SUSPEND" "Thread_timer t \<notin> set (rt_timer_list k)"
  obtains k' where "rt_thread_timeout t k = Inr k'" "kernel_inv k'" "timer_part k' = timer_part k"
    "error (threads k' t) = - RT_ETIMEOUT" "stat (threads k' t) \<noteq> RT_THREAD_SUSPEND"
    "\<And>t'. t' \<noteq> t \<Longrightarrow> error (threads k' t') = error (threads k t')"
    "\<And>t'. t' \<noteq> t \<Longrightarrow> stat (threads k t') = RT_THREAD_SUSPEND \<Longrightarrow> threads k' t' = threads k t'"
    "\<And>t'. stat (threads k t') \<noteq> RT_THREAD_SUSPEND \<Longrightarrow> stat (threads k' t') \<noteq> RT_THREAD_SUSPEND"
proof -
  have k: "sched_inv {} k" "timers_inv k" "rt_current_thread k \<noteq> None"
    using assms by (auto simp: kernel_inv_def)
  define k0 where "k0 = upd_thread t (\<lambda>th. th\<lparr>error := - RT_ETIMEOUT\<rparr>) k"
  define k1 where "k1 = rt_schedule_insert_thread t (rt_list_remove t k0)"
  have k0: "sched_inv {} k0" "stat (threads k0 t) = RT_THREAD_SUSPEND"
    using k(1) assms(2) by (simp_all add: k0_def sched_inv_upd)
  have k1: "sched_inv {} k1" unfolding k1_def by (rule wake_inv [OF k0])
  have part: "timer_part k1 = timer_part k" by (simp add: k1_def k0_def)
  have other: "threads k1 t' = threads k t'" if "t' \<noteq> t" for t'
    using that by (simp add: k1_def k0_def insert_thread_simps)
  have "timers_inv k1"
    by (rule timers_inv_frame [OF k(2) part]) (use other assms(3) in metis)
  then have "kernel_inv k1"
    using k1 k(3) by (simp add: kernel_inv_def k1_def k0_def insert_thread_simps)
  then obtain k' where k': "rt_schedule k1 = Inr k'" "kernel_inv k'" by (rule schedule_inv)
  have awake: "stat (threads k1 t) \<noteq> RT_THREAD_SUSPEND" "error (threads k1 t) = - RT_ETIMEOUT"
    by (simp_all add: k1_def k0_def rt_schedule_insert_thread_def Let_def)
  show ?thesis
  proof
    show "rt_thread_timeout t k = Inr k'"
      using k'(1) assms(2) by (simp add: rt_thread_timeout_def k1_def k0_def Let_def)
    show "timer_part k' = timer_part k" using schedule_timer_part [OF k'(1)] part by simp
    show "error (threads k' t) = - RT_ETIMEOUT" using schedule_error [OF k'(1)] awake by simp
    show "stat (threads k' t) \<noteq> RT_THREAD_SUSPEND" using schedule_awake [OF k'(1) awake(1)] .
    show "error (threads k' t') = error (threads k t')" if "t' \<noteq> t" for t'
      using schedule_error [OF k'(1)] other [OF that] by simp
    show "threads k' t' = threads k t'" if "t' \<noteq> t" "stat (threads k t') = RT_THREAD_SUSPEND" for t'
      using schedule_suspended [OF k1 k'(1), of t'] other that by simp
    show "stat (threads k' t') \<noteq> RT_THREAD_SUSPEND" if "stat (threads k t') \<noteq> RT_THREAD_SUSPEND" for t'
      using schedule_awake [OF k'(1), of t'] awake other that by (cases "t' = t") auto
  qed (rule k'(2))
qed

lemma timer_part_eqs:
  assumes "timer_part k' = timer_part k"
  shows "timers k' = timers k" "rt_timer_list k' = rt_timer_list k" "rt_soft_timer_list k' = rt_soft_timer_list k"
    "rt_tick k' = rt_tick k"
  using assms by (simp_all add: timer_part_def)

lemma kernel_inv_upd_timer:
  assumes "kernel_inv k" "tm \<notin> set (rt_timer_list k)"
  shows "kernel_inv (upd_timer tm (\<lambda>x. x\<lparr>activated := False\<rparr>) k)"
  using assms by (auto simp: kernel_inv_def timers_inv_def)

lemma kernel_inv_timer_remove: "kernel_inv k \<Longrightarrow> kernel_inv (timer_remove tm k)"
  by (auto simp: kernel_inv_def timers_inv_def distinct_removeAll)

lemma timer_expire_ok:
  assumes "kernel_inv k" "rt_timer_list k = Thread_timer t # ts"
  obtains k' where "timer_expire cb (Thread_timer t) k = Inr k'" "kernel_inv k'" "rt_timer_list k' = ts"
    "rt_tick k' = rt_tick k" "\<And>tm. timeout_tick (timers k' tm) = timeout_tick (timers k tm)"
    "error (threads k' t) = - RT_ETIMEOUT" "stat (threads k' t) \<noteq> RT_THREAD_SUSPEND"
    "\<And>t'. t' \<noteq> t \<Longrightarrow> error (threads k' t') = error (threads k t')"
    "\<And>t'. t' \<noteq> t \<Longrightarrow> stat (threads k t') = RT_THREAD_SUSPEND \<Longrightarrow> threads k' t' = threads k t'"
    "\<And>t'. stat (threads k t') \<noteq> RT_THREAD_SUSPEND \<Longrightarrow> stat (threads k' t') \<noteq> RT_THREAD_SUSPEND"
proof -
  have k: "timers_inv k" using assms(1) by (simp add: kernel_inv_def)
  then have t: "stat (threads k t) = RT_THREAD_SUSPEND" "\<not> periodic (timers k (Thread_timer t))"
    "Thread_timer t \<notin> set ts"
    using assms(2) by (auto simp: timers_inv_def)
  let ?k0 = "timer_remove (Thread_timer t) k"
  have "kernel_inv ?k0" using kernel_inv_timer_remove [OF assms(1)] .
  moreover have "stat (threads ?k0 t) = RT_THREAD_SUSPEND" "Thread_timer t \<notin> set (rt_timer_list ?k0)"
    using t by simp_all
  ultimately obtain k1 where k1: "rt_thread_timeout t ?k0 = Inr k1" "kernel_inv k1" "timer_part k1 = timer_part ?k0"
    "error (threads k1 t) = - RT_ETIMEOUT" "stat (threads k1 t) \<noteq> RT_THREAD_SUSPEND"
    "\<And>t'. t' \<noteq> t \<Longrightarrow> error (threads k1 t') = error (threads k t')"
    "\<And>t'. t' \<noteq> t \<Longrightarrow> stat (threads k t') = RT_THREAD_SUSPEND \<Longrightarrow> threads k1 t' = threads k t'"
    "\<And>t'. stat (threads k t') \<noteq> RT_THREAD_SUSPEND \<Longrightarrow> stat (threads k1 t') \<noteq> RT_THREAD_SUSPEND"
    by (rule thread_timeout_ok) auto
  note eqs = timer_part_eqs [OF k1(3)]
  let ?k' = "upd_timer (Thread_timer t) (\<lambda>x. x\<lparr>activated := False\<rparr>) k1"
  have "timer_expire cb (Thread_timer t) k = Inr ?k'"
    using k1(1) t(2) eqs by (simp add: timer_expire_def call_timeout_def Let_def)
  moreover have "kernel_inv ?k'"
    using kernel_inv_upd_timer [OF k1(2), of "Thread_timer t"] eqs by simp
  ultimately show ?thesis
    using that [of ?k'] k1 eqs t(3) assms(2) by simp
qed


definition timer_due :: "tick \<Rightarrow> kernel \<Rightarrow> timer_id \<Rightarrow> bool" where
  "timer_due now k tm \<longleftrightarrow> now - timeout_tick (timers k tm) < RT_TICK_MAX div 2"

lemma timer_check_loop_ok:
  assumes "kernel_inv k" "\<forall>tm \<in> set (rt_timer_list k). \<exists>t. tm = Thread_timer t"
  shows "\<exists>k'. timer_check_loop cb (rt_tick k) k = Some (Inr k') \<and> kernel_inv k' \<and> rt_tick k' = rt_tick k \<and>
     (\<forall>tm. timeout_tick (timers k' tm) = timeout_tick (timers k tm)) \<and>
     rt_timer_list k' = dropWhile (timer_due (rt_tick k) k) (rt_timer_list k) \<and>
     (\<forall>t. if Thread_timer t \<in> set (takeWhile (timer_due (rt_tick k) k) (rt_timer_list k))
        then error (threads k' t) = - RT_ETIMEOUT \<and> stat (threads k' t) \<noteq> RT_THREAD_SUSPEND
        else error (threads k' t) = error (threads k t) \<and>
          (if stat (threads k t) = RT_THREAD_SUSPEND then threads k' t = threads k t
           else stat (threads k' t) \<noteq> RT_THREAD_SUSPEND))"
  using assms
proof (induction "rt_timer_list k" arbitrary: k)
  case Nil
  then show ?case by (simp add: timer_check_loop.simps)
next
  case (Cons tm ts)
  note list = Cons.hyps(2) [symmetric]
  obtain t where tm: "tm = Thread_timer t" using Cons.prems(2) list by auto
  show ?case
  proof (cases "timer_due (rt_tick k) k tm")
    case False
    then show ?thesis
      using Cons.prems(1) list by (simp add: timer_check_loop.simps timer_due_def)
  next
    case True
    obtain k1 where k1: "timer_expire cb (Thread_timer t) k = Inr k1" "kernel_inv k1" "rt_timer_list k1 = ts"
      "rt_tick k1 = rt_tick k" "\<And>tm. timeout_tick (timers k1 tm) = timeout_tick (timers k tm)"
      "error (threads k1 t) = - RT_ETIMEOUT" "stat (threads k1 t) \<noteq> RT_THREAD_SUSPEND"
      "\<And>t'. t' \<noteq> t \<Longrightarrow> error (threads k1 t') = error (threads k t')"
      "\<And>t'. t' \<noteq> t \<Longrightarrow> stat (threads k t') = RT_THREAD_SUSPEND \<Longrightarrow> threads k1 t' = threads k t'"
      "\<And>t'. stat (threads k t') \<noteq> RT_THREAD_SUSPEND \<Longrightarrow> stat (threads k1 t') \<noteq> RT_THREAD_SUSPEND"
      using timer_expire_ok [OF Cons.prems(1) list [unfolded tm], of cb] by metis
    have due: "timer_due now k1 = timer_due now k" for now
      by (simp add: timer_due_def k1(5) fun_eq_iff)
    have notin: "Thread_timer t \<notin> set ts"
      using Cons.prems(1) list tm by (simp add: kernel_inv_def timers_inv_def)
    then have notin': "Thread_timer t \<notin> set (takeWhile P ts)" for P using set_takeWhileD by metis
    have "\<forall>tm \<in> set (rt_timer_list k1). \<exists>t. tm = Thread_timer t"
      using Cons.prems(2) unfolding k1(3) list by simp
    from Cons.hyps(1) [OF k1(3) [symmetric] k1(2) this]
    obtain k' where k': "timer_check_loop cb (rt_tick k) k1 = Some (Inr k')" "kernel_inv k'" "rt_tick k' = rt_tick k"
      "\<forall>tm. timeout_tick (timers k' tm) = timeout_tick (timers k1 tm)"
      "rt_timer_list k' = dropWhile (timer_due (rt_tick k) k) ts"
      and th: "\<And>t. if Thread_timer t \<in> set (takeWhile (timer_due (rt_tick k) k) ts)
        then error (threads k' t) = - RT_ETIMEOUT \<and> stat (threads k' t) \<noteq> RT_THREAD_SUSPEND
        else error (threads k' t) = error (threads k1 t) \<and>
          (if stat (threads k1 t) = RT_THREAD_SUSPEND then threads k' t = threads k1 t
           else stat (threads k' t) \<noteq> RT_THREAD_SUSPEND)"
      unfolding k1(3,4) due by blast
    have loop: "timer_check_loop cb (rt_tick k) k = Some (Inr k')"
      using True k1(1,4) k'(1) list tm by (subst timer_check_loop.simps) (simp add: timer_due_def)
    have "if Thread_timer t' \<in> set (takeWhile (timer_due (rt_tick k) k) (tm # ts))
        then error (threads k' t') = - RT_ETIMEOUT \<and> stat (threads k' t') \<noteq> RT_THREAD_SUSPEND
        else error (threads k' t') = error (threads k t') \<and>
          (if stat (threads k t') = RT_THREAD_SUSPEND then threads k' t' = threads k t'
           else stat (threads k' t') \<noteq> RT_THREAD_SUSPEND)" for t'
    proof (cases "t' = t")
      case t': True
      show ?thesis using th [of t] k1(6,7) notin' True tm unfolding t' by simp
    next
      case False
      then show ?thesis using th [of t'] k1(8-10) [of t'] True tm by (auto split: if_splits)
    qed
    then show ?thesis using loop k' k1(4,5) True list by auto
  qed
qed

section \<open>The order of the timers\<close>

text \<open>The ticks from \<open>base\<close> to the time-out of a timer.\<close>

definition due_in :: "(timer_id \<Rightarrow> tick) \<Rightarrow> tick \<Rightarrow> timer_id \<Rightarrow> nat" where
  "due_in f base tm = unat (f tm - base)"

lemma tick_later:
  fixes a b base :: tick
  assumes "unat (a - base) < 2 ^ 31 - 1" "unat (b - base) < 2 ^ 31 - 1"
  shows "a - b < RT_TICK_MAX div 2 \<longleftrightarrow> unat (b - base) \<le> unat (a - base)"
proof -
  have half: "a - b < RT_TICK_MAX div 2 \<longleftrightarrow> unat (a - b) < 2147483647"
    by (simp add: word_less_nat_alt RT_TICK_MAX_def)
  have "a - b = (a - base) - (b - base)" by simp
  then have "unat (a - b) = (if unat (b - base) \<le> unat (a - base) then unat (a - base) - unat (b - base)
      else unat (a - base) + 4294967296 - unat (b - base))"
    using unat_sub_if' [of "a - base" "b - base"] by simp
  moreover have "z < 2147483647 \<longleftrightarrow> y \<le> x"
    if "z = (if y \<le> x then x - y else x + 4294967296 - y)" "x < 2147483647" "y < 2147483647" for x y z :: nat
    using that by (auto split: if_splits)
  ultimately show ?thesis using assms unfolding half by simp
qed

lemma timer_insert_split:
  assumes "\<And>t. t \<in> set ts \<Longrightarrow> due_in f base t < 2 ^ 31 - 1" "unat (new - base) < 2 ^ 31 - 1"
  shows "timer_insert f new tm ts =
     takeWhile (\<lambda>t. due_in f base t \<le> unat (new - base)) ts @ tm #
     dropWhile (\<lambda>t. due_in f base t \<le> unat (new - base)) ts"
  using assms(1)
proof (induction ts)
  case (Cons t ts)
  have later: "f t - new < RT_TICK_MAX div 2 \<longleftrightarrow> unat (new - base) \<le> due_in f base t"
    using tick_later [of "f t" base new] Cons.prems assms(2) by (simp add: due_in_def)
  have zero: "f t - new = 0 \<longleftrightarrow> due_in f base t = unat (new - base)"
    using word_unat_eq_iff [of "f t - base" "new - base"] by (simp add: due_in_def)
  show ?case using Cons later zero by auto
qed simp

lemma timer_insert_sorted:
  assumes "\<And>t. t \<in> set ts \<Longrightarrow> due_in f base t < 2 ^ 31 - 1" "due_in f base tm < 2 ^ 31 - 1"
    "sorted (map (due_in f base) ts)"
  shows "sorted (map (due_in f base) (timer_insert f (f tm) tm ts))"
proof -
  let ?P = "\<lambda>t. due_in f base t \<le> due_in f base tm"
  have "sorted (map (due_in f base) (takeWhile ?P ts @ tm # dropWhile ?P ts))"
    using assms(3)
  proof (induction ts)
    case (Cons t ts)
    then show ?case by (auto dest: set_takeWhileD set_dropWhileD)
  qed simp
  then show ?thesis
    using timer_insert_split [of ts f base "f tm" tm] assms(1,2) by (simp add: due_in_def)
qed


section \<open>The timers of threads over time\<close>

text \<open>
  The timers in the list are those of threads (no other hard timer is started in this program), they end within half the
  range of the tick counter from \<open>base\<close> on, and the list is in the order of the time left.
\<close>

definition timeout_of :: "kernel \<Rightarrow> timer_id \<Rightarrow> tick" where
  "timeout_of k tm = timeout_tick (timers k tm)"

definition timers_ordered :: "tick \<Rightarrow> kernel \<Rightarrow> bool" where
  "timers_ordered base k \<longleftrightarrow> (\<forall>tm \<in> set (rt_timer_list k). \<exists>t. tm = Thread_timer t) \<and>
     (\<forall>tm \<in> set (rt_timer_list k). due_in (timeout_of k) base tm < 2 ^ 31 - 1) \<and>
     sorted (map (due_in (timeout_of k) base) (rt_timer_list k))"

text \<open>
  What happens to the list: a thread is suspended or resumed, which stops its timer; the timer of a waiting thread is
  started, which is how a thread sleeps or waits with a time-out; the scheduler runs; the clock ticks; anything else that
  leaves the timers alone or, when a thread ends, takes one out.
\<close>

inductive clock_step :: "(nat \<Rightarrow> kernel \<Rightarrow> kernel res) \<Rightarrow> kernel \<Rightarrow> kernel \<Rightarrow> bool" for cb where
  Suspend: "stat (threads k t) = RT_THREAD_READY \<or> stat (threads k t) = RT_THREAD_RUNNING \<Longrightarrow>
    rt_thread_suspend t k = Inr (r, k') \<Longrightarrow> clock_step cb k k'"
| Resume: "clock_step cb k (snd (rt_thread_resume t k))"
| Wait: "stat (threads k t) = RT_THREAD_SUSPEND \<Longrightarrow> time < RT_TICK_MAX div 2 \<Longrightarrow>
    start_thread_timer t time k = Inr k' \<Longrightarrow> clock_step cb k k'"
| Schedule: "rt_schedule k = Inr k' \<Longrightarrow> clock_step cb k k'"
| Tick: "rt_tick_increase cb k = Some (Inr k') \<Longrightarrow> clock_step cb k k'"
| Elsewhere: "kernel_inv k' \<Longrightarrow> timer_part k' = timer_part k \<or> timer_part k' = timer_part (rt_timer_detach tm k) \<Longrightarrow>
    clock_step cb k k'"

inductive clock_run :: "(nat \<Rightarrow> kernel \<Rightarrow> kernel res) \<Rightarrow> kernel \<Rightarrow> kernel \<Rightarrow> bool" for cb k0 where
  Begin: "clock_run cb k0 k0"
| Next: "clock_run cb k0 k \<Longrightarrow> clock_step cb k k' \<Longrightarrow> clock_run cb k0 k'"

lemma timers_ordered_sub:
  assumes "timers_ordered base k" "rt_timer_list k' = filter P (rt_timer_list k)" "timeout_of k' = timeout_of k"
  shows "timers_ordered base k'"
  using assms by (simp add: timers_ordered_def sorted_filter)

lemma timeout_of_part: "timer_part k' = timer_part k \<Longrightarrow> timeout_of k' = timeout_of k"
  by (simp add: timer_part_def timeout_of_def fun_eq_iff)

lemma timers_ordered_part: "timer_part k' = timer_part k \<Longrightarrow> timers_ordered base k' = timers_ordered base k"
  using timeout_of_part [of k' k] by (simp add: timers_ordered_def timer_part_def)

lemma timers_ordered_remove:
  assumes "timers_ordered base k"
  shows "timers_ordered base (timer_remove tm k)"
  by (rule timers_ordered_sub [OF assms, where P = "\<lambda>x. tm \<noteq> x"]) (simp_all add: removeAll_filter_not_eq timeout_of_def fun_eq_iff)

lemma timers_ordered_stop:
  assumes "timers_ordered base k"
  shows "timers_ordered base (snd (rt_timer_stop tm k))"
proof (rule timers_ordered_sub [OF assms, where P = "\<lambda>x. activated (timers k tm) \<longrightarrow> tm \<noteq> x"])
  show "rt_timer_list (snd (rt_timer_stop tm k)) = filter (\<lambda>x. activated (timers k tm) \<longrightarrow> tm \<noteq> x) (rt_timer_list k)"
    by (simp add: timer_stop_timers removeAll_filter_not_eq)
  show "timeout_of (snd (rt_timer_stop tm k)) = timeout_of k"
    by (simp add: rt_timer_stop_def timeout_of_def fun_eq_iff)
qed

lemma timers_ordered_start:
  assumes "kernel_inv k" "stat (threads k t) = RT_THREAD_SUSPEND" "time < RT_TICK_MAX div 2" "timers_ordered (rt_tick k) k"
    and "start_thread_timer t time k = Inr k'"
  shows "timers_ordered (rt_tick k') k' \<and> kernel_inv k'"
proof -
  let ?tm = "Thread_timer t"
  have k': "kernel_inv k'" "rt_tick k' = rt_tick k" "timeout_tick (timers k' ?tm) = rt_tick k + time"
    "\<And>tm. tm \<noteq> ?tm \<Longrightarrow> timers k' tm = timers k tm"
    "rt_timer_list k' = timer_insert (timeout_of k') (timeout_of k' ?tm) ?tm (removeAll ?tm (rt_timer_list k))"
  proof -
    have out: "timeout_of k'' = (\<lambda>x. timeout_tick (timers k'' x))" for k'' by (simp add: timeout_of_def fun_eq_iff)
    obtain k2 where k2: "start_thread_timer t time k = Inr k2" "kernel_inv k2" "rt_tick k2 = rt_tick k"
      "timeout_tick (timers k2 ?tm) = rt_tick k + time" "\<And>tm. tm \<noteq> ?tm \<Longrightarrow> timers k2 tm = timers k tm"
      "rt_timer_list k2 = timer_insert (\<lambda>x. timeout_tick (timers k2 x)) (rt_tick k + time) ?tm (removeAll ?tm (rt_timer_list k))"
      using start_thread_timer_ok [OF assms(1-3)] by blast
    have "k' = k2" using assms(5) k2(1) by simp
    then show "kernel_inv k'" "rt_tick k' = rt_tick k" "timeout_tick (timers k' ?tm) = rt_tick k + time"
      "\<And>tm. tm \<noteq> ?tm \<Longrightarrow> timers k' tm = timers k tm"
      "rt_timer_list k' = timer_insert (timeout_of k') (timeout_of k' ?tm) ?tm (removeAll ?tm (rt_timer_list k))"
      using k2(2-6) unfolding out by simp_all
  qed
  let ?ts = "removeAll ?tm (rt_timer_list k)"
  have same: "due_in (timeout_of k') (rt_tick k) x = due_in (timeout_of k) (rt_tick k) x" if "x \<in> set ?ts" for x
    using that k'(4) by (simp add: due_in_def timeout_of_def)
  have new: "due_in (timeout_of k') (rt_tick k) ?tm < 2 ^ 31 - 1"
    using assms(3) by (simp add: due_in_def timeout_of_def k'(3) word_less_nat_alt RT_TICK_MAX_def)
  have old: "due_in (timeout_of k') (rt_tick k) x < 2 ^ 31 - 1" if "x \<in> set ?ts" for x
    using same [OF that] that assms(4) by (auto simp: timers_ordered_def)
  have "map (due_in (timeout_of k') (rt_tick k)) ?ts = map (due_in (timeout_of k) (rt_tick k)) ?ts"
    using same by (intro map_cong refl) auto
  moreover have "sorted (map (due_in (timeout_of k) (rt_tick k)) ?ts)"
    using assms(4) by (simp add: timers_ordered_def removeAll_filter_not_eq sorted_filter)
  ultimately have "sorted (map (due_in (timeout_of k') (rt_tick k)) ?ts)" by (simp only:)
  from timer_insert_sorted [of ?ts "timeout_of k'" "rt_tick k" ?tm, OF old new this]
  have "sorted (map (due_in (timeout_of k') (rt_tick k)) (rt_timer_list k'))" by (simp only: k'(5))
  moreover have "\<exists>t. tm = Thread_timer t" "due_in (timeout_of k') (rt_tick k) tm < 2 ^ 31 - 1" if "tm \<in> set (rt_timer_list k')" for tm
  proof -
    consider "tm = ?tm" | "tm \<in> set ?ts" using \<open>tm \<in> set (rt_timer_list k')\<close> unfolding k'(5) timer_insert_set by blast
    then have "(\<exists>t. tm = Thread_timer t) \<and> due_in (timeout_of k') (rt_tick k) tm < 2 ^ 31 - 1"
    proof cases
      case 2
      then show ?thesis using old assms(4) by (simp add: timers_ordered_def)
    qed (use new in simp)
    then show "\<exists>t. tm = Thread_timer t" "due_in (timeout_of k') (rt_tick k) tm < 2 ^ 31 - 1" by blast+
  qed
  ultimately show ?thesis using k'(1,2) by (simp add: timers_ordered_def)
qed

text \<open>The timers whose time has come are the first ones of an ordered list.\<close>

lemma takeWhile_sorted: "sorted (map f xs) \<Longrightarrow> takeWhile (\<lambda>x. f x \<le> c) xs = filter (\<lambda>x. f x \<le> c) xs" for f :: "'a \<Rightarrow> nat"
  by (induction xs) (auto simp: empty_filter_conv)

lemma dropWhile_sorted: "sorted (map f xs) \<Longrightarrow> dropWhile (\<lambda>x. f x \<le> c) xs = filter (\<lambda>x. c < f x) xs" for f :: "'a \<Rightarrow> nat"
proof (induction xs)
  case (Cons x xs)
  then show ?case by (cases "f x \<le> c") (auto intro!: filter_True [symmetric])
qed simp

lemma tick_slice_ok:
  assumes "kernel_inv k"
  obtains k' where "tick_slice k = Inr k'" "kernel_inv k'" "timer_part k' = timer_part k"
    "\<And>t. stat (threads k t) = RT_THREAD_SUSPEND \<Longrightarrow> stat (threads k' t) = RT_THREAD_SUSPEND"
    "\<And>t. error (threads k' t) = error (threads k t)"
proof -
  obtain t where t: "rt_current_thread k = Some t" using assms by (auto simp: kernel_inv_def)
  have inv: "kernel_inv (upd_thread t f k')"
    if "kernel_inv k'" "\<And>th. stat (f th) = stat th" "\<And>th. current_priority (f th) = current_priority th"
      "\<And>th. number_mask (f th) = number_mask th" for f k'
  proof -
    have "timers_inv (upd_thread t f k')"
      by (rule timers_inv_frame [of k']) (use that in \<open>auto simp: kernel_inv_def\<close>)
    then show ?thesis using that by (simp add: kernel_inv_def sched_inv_upd)
  qed
  let ?k1 = "upd_thread t (\<lambda>th. th\<lparr>remaining_tick := remaining_tick th - 1\<rparr>) k"
  let ?k2 = "upd_thread t (\<lambda>th. th\<lparr>remaining_tick := init_tick th, stat_yield := True\<rparr>) ?k1"
  have k1: "kernel_inv ?k1" by (rule inv [OF assms]) simp_all
  have k2: "kernel_inv ?k2" by (rule inv [OF k1]) simp_all
  then obtain k3 where k3: "rt_schedule ?k2 = Inr k3" "kernel_inv k3" by (rule schedule_inv)
  have stays: "stat (threads k3 t') = RT_THREAD_SUSPEND" if "stat (threads k t') = RT_THREAD_SUSPEND" for t'
    using schedule_suspended [OF _ k3(1), of t'] k2 that by (cases "t' = t") (simp_all add: kernel_inv_def)
  show ?thesis
  proof (cases "remaining_tick (threads ?k1 t) = 0")
    case True
    then show ?thesis
      using that [of k3] k3 stays schedule_timer_part [OF k3(1)] schedule_error [OF k3(1)]
      by (simp add: tick_slice_def t rt_thread_yield_def Let_def)
  next
    case False
    have "tick_slice k = Inr ?k1" using False by (simp add: tick_slice_def t Let_def)
    then show ?thesis by (rule that) (use k1 in auto)
  qed
qed

text \<open>One tick: the threads whose time has come are woken, the others wait on, and the order is that of the new tick.\<close>

definition time_left :: "kernel \<Rightarrow> timer_id \<Rightarrow> nat" where
  "time_left k tm = unat (timeout_tick (timers k tm) - rt_tick k)"

lemma tick_increase_ok:
  assumes "kernel_inv k" "timers_ordered (rt_tick k) k"
  shows "\<exists>k'. rt_tick_increase cb k = Some (Inr k') \<and> kernel_inv k' \<and> rt_tick k' = rt_tick k + 1 \<and>
     timers_ordered (rt_tick k') k' \<and> rt_timer_list k' = filter (\<lambda>tm. 1 < time_left k tm) (rt_timer_list k) \<and>
     (\<forall>t. if Thread_timer t \<in> set (rt_timer_list k) \<and> time_left k (Thread_timer t) \<le> 1
        then error (threads k' t) = - RT_ETIMEOUT \<and> stat (threads k' t) \<noteq> RT_THREAD_SUSPEND
        else error (threads k' t) = error (threads k t) \<and>
          (stat (threads k t) = RT_THREAD_SUSPEND \<longrightarrow> stat (threads k' t) = RT_THREAD_SUSPEND))"
proof -
  let ?left = "due_in (timeout_of k) (rt_tick k)" and ?k0 = "k\<lparr>rt_tick := rt_tick k + 1\<rparr>"
  have left: "time_left k = ?left" by (simp add: time_left_def due_in_def timeout_of_def fun_eq_iff)
  have "kernel_inv ?k0" using assms(1)
    by (simp add: kernel_inv_def timers_inv_def sched_inv_def group_ok_def lists_ok_def threads_ok_def)
  then obtain k1 where k1: "tick_slice ?k0 = Inr k1" "kernel_inv k1" "timer_part k1 = timer_part ?k0"
    and th0: "\<And>t. stat (threads ?k0 t) = RT_THREAD_SUSPEND \<Longrightarrow> stat (threads k1 t) = RT_THREAD_SUSPEND"
      "\<And>t. error (threads k1 t) = error (threads ?k0 t)" using tick_slice_ok by blast
  have k1': "stat (threads k t) = RT_THREAD_SUSPEND \<Longrightarrow> stat (threads k1 t) = RT_THREAD_SUSPEND"
    "error (threads k1 t) = error (threads k t)" for t using th0 by simp_all
  note part = timer_part_eqs [OF k1(3)]
  have list: "rt_timer_list k1 = rt_timer_list k" and now: "rt_tick k1 = rt_tick k + 1" and out: "timeout_of k1 = timeout_of k"
    using part by (simp_all add: timeout_of_def fun_eq_iff)
  have due: "timer_due (rt_tick k1) k1 tm \<longleftrightarrow> ?left tm \<le> 1" if "tm \<in> set (rt_timer_list k)" for tm
    using tick_later [of "rt_tick k + 1" "rt_tick k" "timeout_of k tm"] assms(2) that now out
    by (simp add: timer_due_def timers_ordered_def due_in_def timeout_of_def [symmetric] fun_eq_iff)
  have sorted: "sorted (map ?left (rt_timer_list k))" using assms(2) by (simp add: timers_ordered_def)
  have "takeWhile (timer_due (rt_tick k1) k1) (rt_timer_list k1) = takeWhile (\<lambda>tm. ?left tm \<le> 1) (rt_timer_list k)"
    "dropWhile (timer_due (rt_tick k1) k1) (rt_timer_list k1) = dropWhile (\<lambda>tm. ?left tm \<le> 1) (rt_timer_list k)"
    unfolding list using due by (intro takeWhile_cong dropWhile_cong refl; simp)+
  then have front: "takeWhile (timer_due (rt_tick k1) k1) (rt_timer_list k1) = filter (\<lambda>tm. ?left tm \<le> 1) (rt_timer_list k)"
    "dropWhile (timer_due (rt_tick k1) k1) (rt_timer_list k1) = filter (\<lambda>tm. 1 < ?left tm) (rt_timer_list k)"
    using takeWhile_sorted [OF sorted] dropWhile_sorted [OF sorted] by simp_all
  have "\<forall>tm \<in> set (rt_timer_list k1). \<exists>t. tm = Thread_timer t" using assms(2) list by (simp add: timers_ordered_def)
  from timer_check_loop_ok [OF k1(2) this, of cb, unfolded front] obtain k' where
    k': "timer_check_loop cb (rt_tick k1) k1 = Some (Inr k')" "kernel_inv k'" "rt_tick k' = rt_tick k1"
    and out': "\<forall>tm. timeout_tick (timers k' tm) = timeout_tick (timers k1 tm)"
    and list': "rt_timer_list k' = filter (\<lambda>tm. 1 < ?left tm) (rt_timer_list k)"
    and th: "\<forall>t. if Thread_timer t \<in> set (filter (\<lambda>tm. ?left tm \<le> 1) (rt_timer_list k))
        then error (threads k' t) = - RT_ETIMEOUT \<and> stat (threads k' t) \<noteq> RT_THREAD_SUSPEND
        else error (threads k' t) = error (threads k1 t) \<and>
          (if stat (threads k1 t) = RT_THREAD_SUSPEND then threads k' t = threads k1 t
           else stat (threads k' t) \<noteq> RT_THREAD_SUSPEND)" by (elim exE conjE)
  have "timeout_of k' = timeout_of k" using out' out by (simp add: timeout_of_def fun_eq_iff)
  then have next_left: "due_in (timeout_of k') (rt_tick k') tm = ?left tm - 1" if "1 < ?left tm" for tm
  proof -
    have eq: "timeout_of k tm - (rt_tick k + 1) = (timeout_of k tm - rt_tick k) - 1" by simp
    have "timeout_of k tm - rt_tick k \<noteq> 0" using that by (auto simp: due_in_def)
    then show ?thesis unfolding due_in_def \<open>timeout_of k' = timeout_of k\<close> k'(3) now eq by (rule unat_minus_one)
  qed
  have "sorted (map ?left (rt_timer_list k'))" using sorted unfolding list' by (rule sorted_filter)
  then have "sorted (map (\<lambda>tm. ?left tm - 1) (rt_timer_list k'))"
    by (simp add: sorted_map) (erule sorted_wrt_mono_rel [rotated], simp add: diff_le_mono)
  moreover have "map (due_in (timeout_of k') (rt_tick k')) (rt_timer_list k') = map (\<lambda>tm. ?left tm - 1) (rt_timer_list k')"
    using next_left list' by (intro map_cong refl) auto
  ultimately have "sorted (map (due_in (timeout_of k') (rt_tick k')) (rt_timer_list k'))" by (simp only:)
  moreover have "(\<exists>t. tm = Thread_timer t) \<and> due_in (timeout_of k') (rt_tick k') tm < 2 ^ 31 - 1" if "tm \<in> set (rt_timer_list k')" for tm
    using that next_left [of tm] assms(2) list' by (auto simp: timers_ordered_def intro: le_less_trans [OF diff_le_self])
  ultimately have "timers_ordered (rt_tick k') k'" by (simp add: timers_ordered_def)
  moreover have "rt_tick_increase cb k = Some (Inr k')"
    using k1(1) k'(1) by (simp add: rt_tick_increase_def rt_timer_check_def)
  ultimately show ?thesis
    using k'(2,3) now list' th k1' unfolding left by (intro exI [of _ k']) (auto split: if_splits)
qed

lemma clock_step_ok:
  assumes "clock_step cb k k'" "kernel_inv k" "timers_ordered (rt_tick k) k"
  shows "kernel_inv k' \<and> timers_ordered (rt_tick k') k'"
  using assms(1)
proof (cases rule: clock_step.cases)
  case (Suspend t r)
  let ?k1 = "upd_thread t (\<lambda>th. th\<lparr>stat := RT_THREAD_SUSPEND\<rparr>) (rt_schedule_remove_thread t k)"
  have part: "timer_part ?k1 = timer_part k" by simp
  have "k' = snd (rt_timer_stop (Thread_timer t) ?k1)"
    using Suspend by (auto simp: rt_thread_suspend_def Let_def split: if_splits)
  then have "timers_ordered (rt_tick k) k'" "rt_tick k' = rt_tick k"
    using timers_ordered_stop [of "rt_tick k" ?k1] timers_ordered_part [OF part] assms(3) timer_part_eqs(4) [OF part] by simp_all
  moreover have "kernel_inv k'" using thread_suspend_inv [OF assms(2) Suspend(1)] Suspend(2) by (metis Pair_inject sum.inject(2))
  ultimately show ?thesis by simp
next
  case (Resume t)
  have part: "timer_part (rt_list_remove t k) = timer_part k" by simp
  let ?k1 = "snd (rt_timer_stop (Thread_timer t) (rt_list_remove t k))"
  have k1: "timers_ordered (rt_tick k) ?k1" "rt_tick ?k1 = rt_tick k"
    using timers_ordered_stop [of "rt_tick k" "rt_list_remove t k"] timers_ordered_part [OF part] assms(3)
      timer_part_eqs(4) [OF part] by simp_all
  have "timer_part (rt_schedule_insert_thread t ?k1) = timer_part ?k1" by simp
  then have "timers_ordered (rt_tick k) (rt_schedule_insert_thread t ?k1)" "rt_tick (rt_schedule_insert_thread t ?k1) = rt_tick k"
    using timers_ordered_part k1 timer_part_eqs(4) by metis+
  then show ?thesis
    using thread_resume_inv [OF assms(2), of t] Resume assms(3) by (auto simp: rt_thread_resume_def Let_def)
next
  case (Wait t time)
  then show ?thesis using timers_ordered_start [OF assms(2) Wait(1,2) assms(3)] by blast
next
  case Schedule
  have "kernel_inv k'" using schedule_inv [OF assms(2)] Schedule by (metis sum.inject(2))
  then show ?thesis
    using timers_ordered_part [OF schedule_timer_part [OF Schedule]] timer_part_eqs(4) [OF schedule_timer_part [OF Schedule]] assms(3)
    by simp
next
  case Tick
  then show ?thesis using tick_increase_ok [OF assms(2,3), of cb] by auto
next
  case (Elsewhere tm)
  have "timers_ordered (rt_tick k) k'"
    using Elsewhere(2) timers_ordered_part timers_ordered_remove assms(3) unfolding rt_timer_detach_def by metis
  moreover have "rt_tick k' = rt_tick k" using Elsewhere(2) by (auto simp: timer_part_def rt_timer_detach_def)
  ultimately show ?thesis using Elsewhere(1) by simp
qed

lemma clock_run_ok:
  assumes "clock_run cb k0 k" "kernel_inv k0" "rt_timer_list k0 = []"
  shows "kernel_inv k \<and> timers_ordered (rt_tick k) k"
  using assms(1)
proof induction
  case Begin
  then show ?case using assms(2,3) by (simp add: timers_ordered_def)
next
  case (Next k k')
  then show ?case using clock_step_ok by blast
qed

section \<open>Results\<close>

text \<open>
  C32. The clock wakes every sleeper on time.  From a kernel state with no timer running on, after any
  sequence of starts of threads' timers (for less than half the tick range), stops, thread switches and ticks, the next tick
  returns and wakes exactly the threads whose time-out is reached: those whose timer is in the list with at most
  one tick left, wherever in the list, with the error time-out.  Every other waiting thread goes on waiting, with its error code; its
  timer stays in the list, in the same order; and the counter may wrap.
\<close>

theorem timer_check_wakes:
  assumes "clock_run cb k0 k" "kernel_inv k0" "rt_timer_list k0 = []"
  shows "\<exists>k'. rt_tick_increase cb k = Some (Inr k') \<and> kernel_inv k' \<and> rt_tick k' = rt_tick k + 1 \<and>
     rt_timer_list k' = filter (\<lambda>tm. 1 < time_left k tm) (rt_timer_list k) \<and>
     (\<forall>t. if Thread_timer t \<in> set (rt_timer_list k) \<and> time_left k (Thread_timer t) \<le> 1
        then error (threads k' t) = - RT_ETIMEOUT \<and> stat (threads k' t) \<noteq> RT_THREAD_SUSPEND
        else error (threads k' t) = error (threads k t) \<and>
          (stat (threads k t) = RT_THREAD_SUSPEND \<longrightarrow> stat (threads k' t) = RT_THREAD_SUSPEND))"
proof -
  have "kernel_inv k" "timers_ordered (rt_tick k) k" using clock_run_ok [OF assms] by simp_all
  from tick_increase_ok [OF this, of cb] show ?thesis by blast
qed

text \<open>The demo system after thread 0 has gone to sleep for 5 ticks, 5 ticks later.\<close>

definition demo_sleep :: kernel where
  "demo_sleep = demo_kernel\<lparr>
     threads := (threads demo_kernel)(0 := demo_thread RT_THREAD_SUSPEND 10, 1 := demo_thread RT_THREAD_RUNNING 25),
     tlists := (\<lambda>l. if l = Ready 25 then [2] else []), rt_current_thread := Some 1, rt_current_priority := 25,
     rt_tick := 5, timers := (\<lambda>_. demo_timer)(Thread_timer 0 := demo_timer\<lparr>activated := True, timer_init_tick := 5, timeout_tick := 5\<rparr>),
     rt_timer_list := [Thread_timer 0]\<rparr>"

lemma demo_sleep_inv: "kernel_inv demo_sleep"
  using mask_bit [of 25]
  by (auto simp: kernel_inv_def timers_inv_def sched_inv_def group_ok_def lists_ok_def threads_ok_def thread_wf_def
      demo_sleep_def demo_kernel_def demo_thread_def demo_timer_def)

text \<open>
  Timers due within half the range of the tick counter stay ordered by the time left, across the wrap-around
  of the counter, and a new timer goes behind those with the same time-out.
\<close>

theorem timer_insert_order:
  assumes "\<forall>t \<in> set (tm # ts). due_in f base t < 2 ^ 31 - 1" "sorted (map (due_in f base) ts)"
  shows "timer_insert f (f tm) tm ts =
       takeWhile (\<lambda>t. due_in f base t \<le> due_in f base tm) ts @ tm #
       dropWhile (\<lambda>t. due_in f base t \<le> due_in f base tm) ts \<and>
     sorted (map (due_in f base) (timer_insert f (f tm) tm ts))"
  using timer_insert_split [of ts f base "f tm" tm] timer_insert_sorted [of ts f base tm] assms
  by (simp add: due_in_def)

theorem timer_insert_order_witness:
  "let f = (\<lambda>tm. case tm of Timer n \<Rightarrow> word_of_nat n | _ \<Rightarrow> 0); base = 4294967290 in
   timer_insert f (f (Timer 2)) (Timer 2) [Timer 4294967295, Timer 1, Timer 9] =
     [Timer 4294967295, Timer 1, Timer 2, Timer 9]"
  using timer_insert_order [of "Timer 2" "[Timer 4294967295, Timer 1, Timer 9]"
      "\<lambda>tm. case tm of Timer n \<Rightarrow> word_of_nat n | _ \<Rightarrow> 0" 4294967290]
  by (simp add: due_in_def Let_def RT_TICK_MAX_def)

text \<open>A thread that sleeps waits with a timer that ends the given number of ticks later.\<close>

theorem thread_sleep_waits:
  assumes "kernel_inv k" "rt_current_thread k = Some t" "stat (threads k t) = RT_THREAD_RUNNING"
    "tick < RT_TICK_MAX div 2"
  shows "\<exists>k'. rt_thread_sleep tick k = Inr k' \<and> kernel_inv k' \<and> stat (threads k' t) = RT_THREAD_SUSPEND \<and>
     Thread_timer t \<in> set (rt_timer_list k') \<and> timeout_tick (timers k' (Thread_timer t)) = rt_tick k + tick"
  using thread_sleep_ok [OF assms] by metis

lemma demo_kernel_inv: "kernel_inv demo_kernel"
  using demo_inv by (auto simp: kernel_inv_def timers_inv_def demo_kernel_def demo_timer_def)

text \<open>A thread that sleeps takes three of these steps.\<close>

lemma sleep_run:
  assumes "kernel_inv k" "rt_current_thread k = Some t" "stat (threads k t) = RT_THREAD_RUNNING"
    "tick < RT_TICK_MAX div 2" "rt_thread_sleep tick k = Inr k'"
  shows "clock_run cb k k'"
proof -
  obtain k1 where k1: "rt_thread_suspend t k = Inr (RT_EOK, k1)" "kernel_inv k1" "stat (threads k1 t) = RT_THREAD_SUSPEND"
    using thread_suspend_inv [OF assms(1), of t] assms(3) by metis
  obtain k2 where k2: "start_thread_timer t tick k1 = Inr k2" "rt_schedule k2 = Inr k'"
    using assms(2,5) k1(1) by (auto simp: rt_thread_sleep_def start_thread_timer_def bind_res_Inr_iff)
  have "clock_step cb k k1" "clock_step cb k1 k2" "clock_step cb k2 k'"
    using clock_step.Suspend [of k t RT_EOK k1] assms(3) k1(1) clock_step.Wait [OF k1(3) assms(4) k2(1)] clock_step.Schedule [OF k2(2)]
    by auto
  then show ?thesis by (meson clock_run.intros)
qed

theorem timer_check_wakes_witness:
  "\<exists>k1 k2. rt_thread_sleep 1 demo_kernel = Inr k1 \<and> stat (threads k1 0) = RT_THREAD_SUSPEND \<and>
     rt_tick_increase (\<lambda>_. Inr) k1 = Some (Inr k2) \<and> error (threads k2 0) = - RT_ETIMEOUT \<and>
     stat (threads k2 0) \<noteq> RT_THREAD_SUSPEND"
proof -
  have demo: "rt_current_thread demo_kernel = Some 0" "stat (threads demo_kernel 0) = RT_THREAD_RUNNING"
    "(1 :: tick) < RT_TICK_MAX div 2" "rt_timer_list demo_kernel = []"
    by (simp_all add: demo_kernel_def demo_thread_def RT_TICK_MAX_def)
  obtain k1 where k1: "rt_thread_sleep 1 demo_kernel = Inr k1" "stat (threads k1 0) = RT_THREAD_SUSPEND"
    "Thread_timer 0 \<in> set (rt_timer_list k1)" "timeout_tick (timers k1 (Thread_timer 0)) = rt_tick demo_kernel + 1"
    "rt_tick k1 = rt_tick demo_kernel" using thread_sleep_ok [OF demo_kernel_inv demo(1-3)] by metis
  have "time_left k1 (Thread_timer 0) \<le> 1" by (simp add: time_left_def k1(4,5))
  then show ?thesis
    using timer_check_wakes [OF sleep_run [OF demo_kernel_inv demo(1-3) k1(1)] demo_kernel_inv demo(4), of "\<lambda>_. Inr"] k1(1-3)
    by auto
qed

theorem thread_sleep_waits_witness:
  "\<exists>k'. rt_thread_sleep 5 demo_kernel = Inr k' \<and> stat (threads k' 0) = RT_THREAD_SUSPEND \<and>
     timeout_tick (timers k' (Thread_timer 0)) = 5"
proof -
  have "rt_current_thread demo_kernel = Some 0" "stat (threads demo_kernel 0) = RT_THREAD_RUNNING"
    "(5 :: tick) < RT_TICK_MAX div 2" "rt_tick demo_kernel = 0"
    by (simp_all add: demo_kernel_def demo_thread_def RT_TICK_MAX_def)
  then show ?thesis using thread_sleep_waits [OF demo_kernel_inv, of 0 5] by auto
qed

text \<open>
  \<^verbatim>\<open>rt_thread_delay_until\<close> is meant to wait until \<open>last + inc\<close>.  When \<open>e\<close> ticks of the period have passed it
  waits for \<open>e + inc\<close> more instead of \<open>inc - e\<close>, so the timer ends at \<open>last + inc + 2 * e\<close>.
\<close>

theorem delay_until_overshoots:
  assumes "kernel_inv k" "rt_current_thread k = Some t" "stat (threads k t) = RT_THREAD_RUNNING"
    "e = rt_tick k - last_tick" "e < inc" "e + inc < RT_TICK_MAX div 2"
  shows "\<exists>k'. rt_thread_delay_until last_tick inc k = Inr (e + inc, True, k') \<and>
     timeout_tick (timers k' (Thread_timer t)) = last_tick + inc + 2 * e"
proof -
  obtain k' where k': "rt_thread_sleep (e + inc) k = Inr k'" "timeout_tick (timers k' (Thread_timer t)) = rt_tick k + (e + inc)"
    using thread_sleep_ok [OF assms(1-3,6)] by metis
  have "rt_tick k = last_tick + e" using assms(4) by simp
  then have "rt_tick k + (e + inc) = last_tick + inc + 2 * e" by simp
  then show ?thesis using k' assms(2,4,5) by (auto simp: rt_thread_delay_until_def Let_def)
qed

theorem delay_until_overshoots_witness:
  "\<exists>k'. rt_thread_delay_until (-3) 10 demo_kernel = Inr (13, True, k') \<and>
     timeout_tick (timers k' (Thread_timer 0)) = 13"
proof -
  have "rt_current_thread demo_kernel = Some 0" "stat (threads demo_kernel 0) = RT_THREAD_RUNNING"
    "(3 :: tick) = rt_tick demo_kernel - (-3)" "(3 :: tick) < 10" "(3 :: tick) + 10 < RT_TICK_MAX div 2"
    by (simp_all add: demo_kernel_def demo_thread_def RT_TICK_MAX_def)
  from delay_until_overshoots [OF demo_kernel_inv this] show ?thesis by simp
qed

text \<open>
  \<^verbatim>\<open>rt_thread_yield\<close> never gives the processor to a thread of the same priority: without the yield bit,
  which only the clock sets, the running thread goes on unless a thread of a higher priority is ready.
\<close>

theorem yield_keeps_running:
  assumes "kernel_inv k" "rt_current_thread k = Some t" "stat (threads k t) = RT_THREAD_RUNNING"
    "\<not> stat_yield (threads k t)"
    "\<forall>t'. stat (threads k t') = RT_THREAD_READY \<longrightarrow> current_priority (threads k t) \<le> current_priority (threads k t')"
  shows "\<exists>k'. rt_thread_yield k = Inr k' \<and> rt_current_thread k' = Some t \<and> stat (threads k' t) = RT_THREAD_RUNNING"
proof (cases "rt_scheduler_lock_nest k \<noteq> 0 \<or> rt_thread_ready_priority_group k = 0")
  case True
  then show ?thesis using assms by (simp add: rt_thread_yield_def rt_schedule_def)
next
  case False
  have inv: "sched_inv {} k" using assms(1) by (simp add: kernel_inv_def)
  obtain p hi where hi: "get_highest_priority_thread k = Inr (p, hi)" "stat (threads k hi) = RT_THREAD_READY"
    "current_priority (threads k hi) = p"
    using get_highest [OF inv] False by metis
  then have "t \<noteq> hi" "current_priority (threads k t) \<le> p" using assms(3,5) by auto
  then show ?thesis
    using schedule_unfold [OF _ _ hi(1) assms(2)] False assms(3,4) by (simp add: rt_thread_yield_def assms(2) le_less)
qed

theorem yield_keeps_running_witness:
  "\<exists>k'. rt_thread_yield demo_sleep = Inr k' \<and> rt_current_thread k' = Some 1 \<and> stat (threads k' 1) = RT_THREAD_RUNNING"
  by (rule yield_keeps_running [OF demo_sleep_inv]) (simp_all add: demo_sleep_def demo_kernel_def demo_thread_def)

text \<open>
  With 1000 ticks in a second a time in milliseconds is the same number of ticks; a negative time is the
  largest tick, which a sleep refuses by a failed assertion instead of waiting for ever.
\<close>

lemma tick_from_ms:
  assumes "0 \<le> ms" "ms < 2 ^ 31"
  shows "rt_tick_from_millisecond ms = i2u ms"
proof -
  have "cdiv (1000 * cmod ms 1000 + 999) 1000 = cmod ms 1000"
    using assms by (simp add: cdiv_nonneg cmod_nonneg)
  moreover have "1000 * cdiv ms 1000 + cmod ms 1000 = ms"
    using assms by (simp add: cdiv_nonneg cmod_nonneg)
  moreover have "i2u a + i2u b = i2u (a + b)" for a b by (simp add: i2u_def)
  ultimately show ?thesis using assms(1) by (simp add: rt_tick_from_millisecond_def)
qed

theorem mdelay_negative_fails:
  assumes "kernel_inv k" "rt_current_thread k = Some t" "stat (threads k t) = RT_THREAD_RUNNING" "ms < 0"
  shows "rt_thread_mdelay ms k = Inl AssertFailed"
proof -
  obtain k1 where "rt_thread_suspend t k = Inr (RT_EOK, k1)"
    using thread_suspend_inv [OF assms(1), of t] assms(3) by metis
  moreover have "rt_timer_start (Thread_timer t) (snd (rt_timer_control (Thread_timer t) (SET_TIME (i2u (- 1))) k1)) =
      Inl AssertFailed"
    by (simp add: rt_timer_start_def rt_timer_control_def Let_def i2u_def RT_TICK_MAX_def)
  ultimately show ?thesis
    using assms(2,4) by (simp add: rt_thread_mdelay_def rt_thread_sleep_def rt_tick_from_millisecond_def)
qed


theorem mdelay_negative_fails_witness: "rt_thread_mdelay (-1) demo_kernel = Inl AssertFailed"
  by (rule mdelay_negative_fails [OF demo_kernel_inv, of 0]) (simp_all add: demo_kernel_def demo_thread_def)

end
