(* ===== verification/Ipc.thy ===== *)
theory Ipc
  imports Thread_Timer
begin

unbundle bit_operations_syntax

text \<open>
  \<^verbatim>\<open>ipc.c\<close>, first part: the suspend lists of kernel objects, semaphores, mutexes and events.

  A kernel object is a record with the number and the flag of its \<^verbatim>\<open>rt_ipc_object\<close>; its list of waiting
  threads is \<open>tlists k (Suspended (ob_id ob))\<close>.  The object type tests of the code hold by typing.  A call that makes
  the thread wait returns no code: \<open>None\<close>.  The thread then stands in \<^verbatim>\<open>rt_schedule\<close>, and the function
  \<open>\<dots>_resumed\<close> is the rest of the call.
\<close>

record ipc_object =
  ob_id :: nat
  ob_flag :: u8

definition RT_IPC_FLAG_FIFO :: u8 where "RT_IPC_FLAG_FIFO = 0"
definition RT_IPC_FLAG_PRIO :: u8 where "RT_IPC_FLAG_PRIO = 1"

lemmas ipc_flags = RT_IPC_FLAG_FIFO_def RT_IPC_FLAG_PRIO_def

text \<open>Before the first thread with a larger priority number, or at the end.\<close>

fun insert_by_priority :: "(tid \<Rightarrow> nat) \<Rightarrow> tid \<Rightarrow> tid list \<Rightarrow> tid list" where
  "insert_by_priority prio t [] = [t]"
| "insert_by_priority prio t (s # ss) =
     (if prio t < prio s then t # s # ss else s # insert_by_priority prio t ss)"

text \<open>With any other flag the thread is suspended and put into no list.\<close>

definition rt_ipc_list_suspend :: "list_id \<Rightarrow> tid \<Rightarrow> u8 \<Rightarrow> kernel \<Rightarrow> kernel res" where
  "rt_ipc_list_suspend l t flag k =
     bind_res (rt_thread_suspend t k) (\<lambda>(_, k).
       Inr (if flag = RT_IPC_FLAG_FIFO then rt_list_insert_before l t k
            else if flag = RT_IPC_FLAG_PRIO then
              k\<lparr>tlists := (tlists k)(l := insert_by_priority (\<lambda>s. current_priority (threads k s)) t (tlists k l))\<rparr>
            else k))"

definition rt_ipc_list_resume :: "list_id \<Rightarrow> kernel \<Rightarrow> kernel res" where
  "rt_ipc_list_resume l k =
     (case tlists k l of [] \<Rightarrow> Inl OutOfBounds | t # _ \<Rightarrow> Inr (snd (rt_thread_resume t k)))"

text \<open>The loop ends only if every resume takes its thread out of the list; \<open>None\<close> is a loop that does not end.\<close>

partial_function (option) rt_ipc_list_resume_all :: "list_id \<Rightarrow> kernel \<Rightarrow> kernel option" where
  "rt_ipc_list_resume_all l k =
     (case tlists k l of
        [] \<Rightarrow> Some k
      | t # _ \<Rightarrow>
          rt_ipc_list_resume_all l
            (snd (rt_thread_resume t (upd_thread t (\<lambda>th. th\<lparr>error := - RT_ERROR\<rparr>) k))))"

text \<open>Suspend the current thread in a list, start its timer for a positive time, and switch.\<close>

definition suspend_and_wait :: "list_id \<Rightarrow> tid \<Rightarrow> u8 \<Rightarrow> int \<Rightarrow> kernel \<Rightarrow> kernel res" where
  "suspend_and_wait l t flag time k =
     bind_res (rt_ipc_list_suspend l t flag k) (\<lambda>k.
     bind_res (if 0 < time then start_thread_timer t (i2u time) k else Inr k) rt_schedule)"

definition set_error :: "tid \<Rightarrow> int \<Rightarrow> kernel \<Rightarrow> kernel" where
  "set_error t e k = upd_thread t (\<lambda>th. th\<lparr>error := e\<rparr>) k"

section \<open>Semaphores\<close>

record rt_semaphore = ipc_object +
  sem_value :: u16

definition rt_sem_init :: "nat \<Rightarrow> u32 \<Rightarrow> u8 \<Rightarrow> kernel \<Rightarrow> (rt_semaphore \<times> kernel) res" where
  "rt_sem_init n v flag k =
     (if v < 0x10000
      then Inr (\<lparr>ob_id = n, ob_flag = flag, sem_value = ucast v\<rparr>, k\<lparr>tlists := (tlists k)(Suspended n := [])\<rparr>)
      else Inl AssertFailed)"

definition rt_sem_detach :: "rt_semaphore \<Rightarrow> kernel \<Rightarrow> kernel option" where
  "rt_sem_detach sem k = rt_ipc_list_resume_all (Suspended (ob_id sem)) k"

definition rt_sem_take :: "rt_semaphore \<Rightarrow> int \<Rightarrow> kernel \<Rightarrow> (int option \<times> rt_semaphore \<times> kernel) res" where
  "rt_sem_take sem time k =
     (if sem_value sem > 0 then Inr (Some RT_EOK, sem\<lparr>sem_value := sem_value sem - 1\<rparr>, k)
      else if time = 0 then Inr (Some (- RT_ETIMEOUT), sem, k)
      else
        (case rt_current_thread k of
           None \<Rightarrow> Inl AssertFailed
         | Some t \<Rightarrow>
             bind_res (suspend_and_wait (Suspended (ob_id sem)) t (ob_flag sem) time (set_error t RT_EOK k)) (\<lambda>k.
               Inr (None, sem, k))))"

definition rt_sem_take_resumed :: "tid \<Rightarrow> kernel \<Rightarrow> int" where
  "rt_sem_take_resumed t k = (if error (threads k t) \<noteq> RT_EOK then error (threads k t) else RT_EOK)"

definition rt_sem_trytake :: "rt_semaphore \<Rightarrow> kernel \<Rightarrow> (int option \<times> rt_semaphore \<times> kernel) res" where
  "rt_sem_trytake sem k = rt_sem_take sem 0 k"

definition rt_sem_release :: "rt_semaphore \<Rightarrow> kernel \<Rightarrow> (int \<times> rt_semaphore \<times> kernel) res" where
  "rt_sem_release sem k =
     (if tlists k (Suspended (ob_id sem)) \<noteq> [] then
        bind_res (rt_ipc_list_resume (Suspended (ob_id sem)) k) (\<lambda>k.
        bind_res (rt_schedule k) (\<lambda>k. Inr (RT_EOK, sem, k)))
      else Inr (RT_EOK, sem\<lparr>sem_value := sem_value sem + 1\<rparr>, k))"

datatype ipc_cmd = IPC_CMD_RESET nat | IPC_CMD_OTHER

definition rt_sem_control :: "rt_semaphore \<Rightarrow> ipc_cmd \<Rightarrow> kernel \<Rightarrow> (int \<times> rt_semaphore \<times> kernel) res option" where
  "rt_sem_control sem cmd k =
     (case cmd of
        IPC_CMD_RESET v \<Rightarrow>
          (case rt_ipc_list_resume_all (Suspended (ob_id sem)) k of
             None \<Rightarrow> None
           | Some k \<Rightarrow>
               Some (bind_res (rt_schedule k) (\<lambda>k. Inr (RT_EOK, sem\<lparr>sem_value := word_of_nat v\<rparr>, k))))
      | IPC_CMD_OTHER \<Rightarrow> Some (Inr (- RT_ERROR, sem, k)))"

section \<open>Mutexes\<close>

record rt_mutex = ipc_object +
  mutex_value :: u16
  original_priority :: nat
  mutex_hold :: u8
  mutex_owner :: "tid option"

definition rt_mutex_init :: "nat \<Rightarrow> u8 \<Rightarrow> kernel \<Rightarrow> rt_mutex \<times> kernel" where
  "rt_mutex_init n flag k =
     (\<lparr>ob_id = n, ob_flag = flag, mutex_value = 1, original_priority = 0xFF, mutex_hold = 0, mutex_owner = None\<rparr>,
      k\<lparr>tlists := (tlists k)(Suspended n := [])\<rparr>)"

definition rt_mutex_detach :: "rt_mutex \<Rightarrow> kernel \<Rightarrow> kernel option" where
  "rt_mutex_detach mutex k = rt_ipc_list_resume_all (Suspended (ob_id mutex)) k"

text \<open>From the label \<^verbatim>\<open>__again\<close> on, for a thread that does not own the mutex.\<close>

definition mutex_try :: "rt_mutex \<Rightarrow> int \<Rightarrow> tid \<Rightarrow> kernel \<Rightarrow> (int option \<times> rt_mutex \<times> kernel) res" where
  "mutex_try mutex time t k =
     (if mutex_value mutex > 0 then
        Inr (Some RT_EOK, mutex\<lparr>mutex_value := mutex_value mutex - 1, mutex_owner := Some t,
               original_priority := current_priority (threads k t), mutex_hold := mutex_hold mutex + 1\<rparr>, k)
      else if time = 0 then Inr (Some (- RT_ETIMEOUT), mutex, set_error t (- RT_ETIMEOUT) k)
      else
        (case mutex_owner mutex of
           None \<Rightarrow> Inl NullDeref
         | Some ow \<Rightarrow>
             bind_res (if current_priority (threads k t) < current_priority (threads k ow)
                       then rt_thread_control ow (CHANGE_PRIORITY (current_priority (threads k t))) k else Inr k) (\<lambda>k.
             bind_res (suspend_and_wait (Suspended (ob_id mutex)) t (ob_flag mutex) time k) (\<lambda>k.
               Inr (None, mutex, k)))))"

definition rt_mutex_take :: "rt_mutex \<Rightarrow> int \<Rightarrow> kernel \<Rightarrow> (int option \<times> rt_mutex \<times> kernel) res" where
  "rt_mutex_take mutex time k =
     (case rt_current_thread k of
        None \<Rightarrow> Inl AssertFailed
      | Some t \<Rightarrow>
          (let k = set_error t RT_EOK k in
           if mutex_owner mutex = Some t
           then Inr (Some RT_EOK, mutex\<lparr>mutex_hold := mutex_hold mutex + 1\<rparr>, k)
           else mutex_try mutex time t k))"

definition rt_mutex_take_resumed :: "rt_mutex \<Rightarrow> int \<Rightarrow> tid \<Rightarrow> kernel \<Rightarrow> (int option \<times> rt_mutex \<times> kernel) res" where
  "rt_mutex_take_resumed mutex time t k =
     (if error (threads k t) \<noteq> RT_EOK then
        if error (threads k t) = - RT_EINTR then mutex_try mutex time t k
        else Inr (Some (error (threads k t)), mutex, k)
      else Inr (Some RT_EOK, mutex, k))"

definition rt_mutex_release :: "rt_mutex \<Rightarrow> kernel \<Rightarrow> (int \<times> rt_mutex \<times> kernel) res" where
  "rt_mutex_release mutex k =
     (case rt_current_thread k of
        None \<Rightarrow> Inl AssertFailed
      | Some t \<Rightarrow>
          if mutex_owner mutex \<noteq> Some t then Inr (- RT_ERROR, mutex, set_error t (- RT_ERROR) k)
          else
            (let mutex = mutex\<lparr>mutex_hold := mutex_hold mutex - 1\<rparr> in
             if mutex_hold mutex \<noteq> 0 then Inr (RT_EOK, mutex, k)
             else
               bind_res (if original_priority mutex \<noteq> current_priority (threads k t)
                         then rt_thread_control t (CHANGE_PRIORITY (original_priority mutex)) k else Inr k) (\<lambda>k.
               case tlists k (Suspended (ob_id mutex)) of
                 t' # _ \<Rightarrow>
                   (let mutex = mutex\<lparr>mutex_owner := Some t', original_priority := current_priority (threads k t'),
                          mutex_hold := mutex_hold mutex + 1\<rparr> in
                    bind_res (rt_ipc_list_resume (Suspended (ob_id mutex)) k) (\<lambda>k.
                    bind_res (rt_schedule k) (\<lambda>k. Inr (RT_EOK, mutex, k))))
               | [] \<Rightarrow> Inr (RT_EOK, mutex\<lparr>mutex_value := mutex_value mutex + 1, mutex_owner := None,
                          original_priority := 0xff\<rparr>, k))))"

definition rt_mutex_control :: "rt_mutex \<Rightarrow> ipc_cmd \<Rightarrow> int" where
  "rt_mutex_control mutex cmd = - RT_ERROR"

section \<open>Events\<close>

record rt_event = ipc_object +
  ev_set :: u32

definition RT_EVENT_FLAG_AND :: u8 where "RT_EVENT_FLAG_AND = 1"
definition RT_EVENT_FLAG_OR :: u8 where "RT_EVENT_FLAG_OR = 2"
definition RT_EVENT_FLAG_CLEAR :: u8 where "RT_EVENT_FLAG_CLEAR = 4"

lemmas event_flags = RT_EVENT_FLAG_AND_def RT_EVENT_FLAG_OR_def RT_EVENT_FLAG_CLEAR_def

definition has_flag :: "u8 \<Rightarrow> u8 \<Rightarrow> bool" where
  "has_flag x f \<longleftrightarrow> x AND f \<noteq> 0"

definition rt_event_init :: "nat \<Rightarrow> u8 \<Rightarrow> kernel \<Rightarrow> rt_event \<times> kernel" where
  "rt_event_init n flag k =
     (\<lparr>ob_id = n, ob_flag = flag, ev_set = 0\<rparr>, k\<lparr>tlists := (tlists k)(Suspended n := [])\<rparr>)"

definition rt_event_detach :: "rt_event \<Rightarrow> kernel \<Rightarrow> kernel option" where
  "rt_event_detach event k = rt_ipc_list_resume_all (Suspended (ob_id event)) k"

text \<open>The loop of \<^verbatim>\<open>rt_event_send\<close> over the waiting threads, with the next node read before the thread is resumed.\<close>

fun event_wake :: "tid list \<Rightarrow> u32 \<Rightarrow> kernel \<Rightarrow> u32 \<times> bool \<times> kernel" where
  "event_wake [] bits k = (bits, False, k)"
| "event_wake (t # ts) bits k =
     (let th = threads k t;
          (status, wanted) =
            (if has_flag (event_info th) RT_EVENT_FLAG_AND then
               (event_set th AND bits = event_set th, event_set th)
             else if has_flag (event_info th) RT_EVENT_FLAG_OR \<and> event_set th AND bits \<noteq> 0 then
               (True, event_set th AND bits)
             else (False, event_set th)) in
      if status then
        (let k = upd_thread t (\<lambda>th. th\<lparr>event_set := wanted\<rparr>) k;
             bits = (if has_flag (event_info th) RT_EVENT_FLAG_CLEAR then bits AND NOT wanted else bits);
             k = snd (rt_thread_resume t k);
             (bits, _, k) = event_wake ts bits k
         in (bits, True, k))
      else event_wake ts bits k)"

definition rt_event_send :: "rt_event \<Rightarrow> u32 \<Rightarrow> kernel \<Rightarrow> (int \<times> rt_event \<times> kernel) res" where
  "rt_event_send event bits k =
     (if bits = 0 then Inr (- RT_ERROR, event, k)
      else
        (let (bits', need_schedule, k) = event_wake (tlists k (Suspended (ob_id event))) (ev_set event OR bits) k;
             event = event\<lparr>ev_set := bits'\<rparr> in
         if need_schedule then bind_res (rt_schedule k) (\<lambda>k. Inr (RT_EOK, event, k))
         else Inr (RT_EOK, event, k)))"

text \<open>The code and the bits stored through \<^verbatim>\<open>recved\<close>, if any.\<close>

definition rt_event_recv :: "rt_event \<Rightarrow> u32 \<Rightarrow> u8 \<Rightarrow> int \<Rightarrow> kernel \<Rightarrow>
    ((int \<times> u32 option) option \<times> rt_event \<times> kernel) res" where
  "rt_event_recv event bits opt timeout k =
     (case rt_current_thread k of
        None \<Rightarrow> Inl AssertFailed
      | Some t \<Rightarrow>
          if bits = 0 then Inr (Some (- RT_ERROR, None), event, k)
          else
            (let k = set_error t RT_EOK k in
             if \<not> has_flag opt RT_EVENT_FLAG_AND \<and> \<not> has_flag opt RT_EVENT_FLAG_OR then Inl AssertFailed
             else if (if has_flag opt RT_EVENT_FLAG_AND then ev_set event AND bits = bits else ev_set event AND bits \<noteq> 0)
             then
               Inr (Some (RT_EOK, Some (ev_set event AND bits)),
                    (if has_flag opt RT_EVENT_FLAG_CLEAR then event\<lparr>ev_set := ev_set event AND NOT bits\<rparr> else event), k)
             else if timeout = 0 then Inr (Some (- RT_ETIMEOUT, None), event, set_error t (- RT_ETIMEOUT) k)
             else
               (let k = upd_thread t (\<lambda>th. th\<lparr>event_set := bits, event_info := opt\<rparr>) k in
                bind_res (suspend_and_wait (Suspended (ob_id event)) t (ob_flag event) timeout k) (\<lambda>k.
                  Inr (None, event, k)))))"

definition rt_event_recv_resumed :: "tid \<Rightarrow> kernel \<Rightarrow> int \<times> u32 option" where
  "rt_event_recv_resumed t k =
     (if error (threads k t) \<noteq> RT_EOK then (error (threads k t), None)
      else (error (threads k t), Some (event_set (threads k t))))"

definition rt_event_control :: "rt_event \<Rightarrow> ipc_cmd \<Rightarrow> kernel \<Rightarrow> (int \<times> rt_event \<times> kernel) res option" where
  "rt_event_control event cmd k =
     (case cmd of
        IPC_CMD_RESET v \<Rightarrow>
          (case rt_ipc_list_resume_all (Suspended (ob_id event)) k of
             None \<Rightarrow> None
           | Some k \<Rightarrow> Some (bind_res (rt_schedule k) (\<lambda>k. Inr (RT_EOK, event\<lparr>ev_set := 0\<rparr>, k))))
      | IPC_CMD_OTHER \<Rightarrow> Some (Inr (- RT_ERROR, event, k)))"

section \<open>Waiting lists\<close>

definition waiting_list :: "list_id \<Rightarrow> bool" where
  "waiting_list l \<longleftrightarrow> list_stat l = RT_THREAD_SUSPEND"

lemma waiting_list_simps [simp]:
  "waiting_list (Suspended n)" "waiting_list (Senders n)" "\<not> waiting_list (Ready p)" "\<not> waiting_list Defunct"
  by (simp_all add: waiting_list_def)

lemma insert_by_priority_set [simp]: "set (insert_by_priority p t ss) = insert t (set ss)"
  by (induction ss) auto

lemma insert_by_priority_distinct: "distinct ss \<Longrightarrow> t \<notin> set ss \<Longrightarrow> distinct (insert_by_priority p t ss)"
  by (induction ss) auto

lemma insert_by_priority_sorted: "sorted (map p ss) \<Longrightarrow> sorted (map p (insert_by_priority p t ss))"
  by (induction ss) auto

lemma waiting_member: "sched_inv X k \<Longrightarrow> waiting_list l \<Longrightarrow> t \<in> set (tlists k l) \<Longrightarrow> stat (threads k t) = RT_THREAD_SUSPEND"
  using sched_inv_member(2) by (force simp: waiting_list_def)

lemma schedule_waiting_lists:
  assumes "sched_inv {} k" "rt_schedule k = Inr k'" "waiting_list l"
  shows "tlists k' l = tlists k l"
proof -
  have ready: "stat (threads k hi) = RT_THREAD_READY" if "get_highest_priority_thread k = Inr (p, hi)" for p hi
  proof -
    have "hi \<in> set (tlists k (Ready p))"
      using that by (auto simp: get_highest_priority_thread_def Let_def split: list.splits)
    then show ?thesis using sched_inv_member(2) [OF assms(1)] by force
  qed
  have notin: "t \<notin> set (tlists k l)" if "stat (threads k t) \<noteq> RT_THREAD_SUSPEND" for t
    using waiting_member [OF assms(1,3), of t] that by auto
  have notready: "l \<noteq> Ready p" for p using assms(3) by auto
  have leave: "tlists (leave_thread cur hi p k) l = tlists k l" for cur hi p
    using notready by (simp add: leave_thread_def rt_schedule_insert_thread_def Let_def)
  from assms(2) show ?thesis
  proof (cases rule: schedule_cases)
    case (stay cur)
    then have "stat (threads k cur) \<noteq> RT_THREAD_SUSPEND" using ready by fastforce
    then show ?thesis using notin [of cur] stay(3) by (auto simp: run_thread_def)
  next
    case (switch cur hi p)
    then show ?thesis using notin [of hi] ready [of p hi] by (simp add: run_thread_def)
  next
    case (preempt cur hi p)
    then show ?thesis using notin [of hi] ready [of p hi] leave by (simp add: run_thread_def)
  qed simp
qed

text \<open>The part of a thread the scheduler and the timers leave alone.\<close>

definition thread_part :: "rt_thread \<Rightarrow> nat \<times> u32 \<times> int \<times> u32 \<times> u8" where
  "thread_part th = (current_priority th, number_mask th, error th, event_set th, event_info th)"

lemma insert_thread_part: "thread_part (threads (rt_schedule_insert_thread t k) t') = thread_part (threads k t')"
  by (simp add: rt_schedule_insert_thread_def thread_part_def Let_def)

lemma schedule_thread_part: "rt_schedule k = Inr k' \<Longrightarrow> thread_part (threads k' t) = thread_part (threads k t)"
proof (erule schedule_cases)
  have upd: "thread_part (th\<lparr>stat := s\<rparr>) = thread_part th" "thread_part (th\<lparr>stat_yield := b\<rparr>) = thread_part th"
    for th s b by (simp_all add: thread_part_def)
  have leave: "thread_part (threads (leave_thread cur hi p k) t) = thread_part (threads k t)" for cur hi p
    using insert_thread_part by (auto simp: leave_thread_def upd)
  show "k' = run_thread hi (leave_thread cur hi p k) \<Longrightarrow> thread_part (threads k' t) = thread_part (threads k t)" for cur hi p
    using leave by (auto simp: upd)
  show "k' = run_thread cur k \<or> k' = run_thread cur (upd_thread cur (\<lambda>th. th\<lparr>stat_yield := False\<rparr>) k) \<Longrightarrow>
      thread_part (threads k' t) = thread_part (threads k t)" for cur
    by (auto simp: upd)
  show "k' = run_thread hi (k\<lparr>rt_current_priority := p, rt_current_thread := Some hi\<rparr>) \<Longrightarrow>
      thread_part (threads k' t) = thread_part (threads k t)" for hi p
    by (auto simp: upd)
qed simp

definition wait_order :: "u8 \<Rightarrow> (tid \<Rightarrow> nat) \<Rightarrow> tid \<Rightarrow> tid list \<Rightarrow> tid list" where
  "wait_order flag prio t ss =
     (if flag = RT_IPC_FLAG_FIFO then ss @ [t] else if flag = RT_IPC_FLAG_PRIO then insert_by_priority prio t ss else ss)"

lemma wait_order_set: "flag \<le> 1 \<Longrightarrow> set (wait_order flag p t ss) = insert t (set ss)"
proof -
  assume "flag \<le> 1"
  then have "flag = 0 \<or> flag = 1" by unat_arith
  then show ?thesis by (auto simp: wait_order_def ipc_flags)
qed

lemma timer_part_tlists [simp]: "timer_part (tlists_update f k) = timer_part k"
  by (simp add: timer_part_def)

lemma list_suspend_ok:
  assumes "kernel_inv k" "stat (threads k t) = RT_THREAD_RUNNING" "waiting_list l"
  obtains k' where "rt_ipc_list_suspend l t flag k = Inr k'" "kernel_inv k'"
    "stat (threads k' t) = RT_THREAD_SUSPEND" "tlists k' l = wait_order flag (\<lambda>s. current_priority (threads k s)) t (tlists k l)"
    "rt_current_thread k' = rt_current_thread k" "rt_tick k' = rt_tick k"
    "\<And>t'. thread_part (threads k' t') = thread_part (threads k t')"
    "\<And>l'. l' \<noteq> l \<Longrightarrow> waiting_list l' \<Longrightarrow> tlists k' l' = tlists k l'"
    "\<And>t'. t' \<noteq> t \<Longrightarrow> threads k' t' = threads k t'"
proof -
  have inv: "sched_inv {} k" using assms(1) by (simp add: kernel_inv_def)
  define k0 where "k0 = snd (rt_timer_stop (Thread_timer t)
    (upd_thread t (\<lambda>th. th\<lparr>stat := RT_THREAD_SUSPEND\<rparr>) (rt_schedule_remove_thread t k)))"
  have susp: "rt_thread_suspend t k = Inr (RT_EOK, k0)"
    using assms(2) sched_inv_running [OF inv, of t] by (simp add: rt_thread_suspend_def k0_def Let_def)
  have k0: "kernel_inv k0" "stat (threads k0 t) = RT_THREAD_SUSPEND" "\<And>l. t \<notin> set (tlists k0 l)"
    using thread_suspend_inv [OF assms(1), of t] susp assms(2) by (metis Pair_inject sum.inject(2))+
  have t: "t \<notin> set (tlists k l')" if "waiting_list l'" for l'
    using waiting_member [OF inv that, of t] assms(2) by auto
  have lists: "tlists k0 l' = tlists k l'" if "waiting_list l'" for l'
    using t [OF that] by (simp add: k0_def)
  have prio: "current_priority (threads k0 s) = current_priority (threads k s)" for s
    by (simp add: k0_def)
  define k' where "k' = k0\<lparr>tlists := (tlists k0)(l := wait_order flag (\<lambda>s. current_priority (threads k s)) t (tlists k l))\<rparr>"
  have eq: "rt_ipc_list_suspend l t flag k = Inr k'"
    unfolding rt_ipc_list_suspend_def susp
    by (simp add: k'_def wait_order_def rt_list_insert_before_def prio lists [OF assms(3)] fun_upd_idem)
  have "sched_inv {} k'"
  proof -
    have "distinct (tlists k l)" using inv by (simp add: sched_inv_def lists_ok_def)
    then have d: "distinct (wait_order flag (\<lambda>s. current_priority (threads k s)) t (tlists k l))"
      using t [OF assms(3)] by (auto simp: wait_order_def insert_by_priority_distinct)
    have s: "set (wait_order flag (\<lambda>s. current_priority (threads k s)) t (tlists k l)) \<subseteq> insert t (set (tlists k0 l))"
      by (auto simp: wait_order_def lists [OF assms(3)])
    have l: "l \<noteq> Ready p" "list_stat l = RT_THREAD_SUSPEND" for p using assms(3) by (auto simp: waiting_list_def)
    show ?thesis
      using k0(1,2) d s l unfolding kernel_inv_def sched_inv_def group_ok_def lists_ok_def threads_ok_def
      by (auto simp: k'_def)
  qed
  moreover have "timers_inv k'"
    using k0(1) by (intro timers_inv_frame [of k0 k']) (auto simp: kernel_inv_def k'_def)
  ultimately have "kernel_inv k'" using k0(1) by (simp add: kernel_inv_def k'_def)
  moreover have "thread_part (threads k0 t') = thread_part (threads k t')" for t'
    by (simp add: k0_def thread_part_def)
  moreover have "rt_tick (upd_thread t (\<lambda>th. th\<lparr>stat := RT_THREAD_SUSPEND\<rparr>) (rt_schedule_remove_thread t k)) = rt_tick k"
    by (rule timer_part_eqs(4)) simp
  then have "rt_tick k0 = rt_tick k" by (simp add: k0_def)
  moreover have "rt_current_thread k0 = rt_current_thread k" "\<And>t'. t' \<noteq> t \<Longrightarrow> threads k0 t' = threads k t'"
    by (simp_all add: k0_def)
  ultimately show ?thesis
    using that [OF eq] k0(2) lists by (simp add: k'_def)
qed

text \<open>A thread that waits is in the list in the order of the flag, and its timer runs for a positive time.\<close>

lemma suspend_and_wait_ok:
  assumes "kernel_inv k" "stat (threads k t) = RT_THREAD_RUNNING" "waiting_list l" "time < 2 ^ 31 - 1"
  obtains k' where "suspend_and_wait l t flag time k = Inr k'" "kernel_inv k'"
    "stat (threads k' t) = RT_THREAD_SUSPEND"
    "tlists k' l = wait_order flag (\<lambda>s. current_priority (threads k s)) t (tlists k l)"
    "\<And>l'. l' \<noteq> l \<Longrightarrow> waiting_list l' \<Longrightarrow> tlists k' l' = tlists k l'"
    "\<And>t'. thread_part (threads k' t') = thread_part (threads k t')"
    "0 < time \<Longrightarrow> Thread_timer t \<in> set (rt_timer_list k') \<and> timeout_tick (timers k' (Thread_timer t)) = rt_tick k + i2u time"
proof -
  obtain k1 where k1: "rt_ipc_list_suspend l t flag k = Inr k1" "kernel_inv k1"
    "stat (threads k1 t) = RT_THREAD_SUSPEND" "tlists k1 l = wait_order flag (\<lambda>s. current_priority (threads k s)) t (tlists k l)"
    "rt_tick k1 = rt_tick k" "\<And>t'. thread_part (threads k1 t') = thread_part (threads k t')"
    "\<And>l'. l' \<noteq> l \<Longrightarrow> waiting_list l' \<Longrightarrow> tlists k1 l' = tlists k l'"
    using list_suspend_ok [OF assms(1-3), of flag] by metis
  have "\<exists>k2. (if 0 < time then start_thread_timer t (i2u time) k1 else Inr k1) = Inr k2 \<and> kernel_inv k2 \<and>
      threads k2 = threads k1 \<and> tlists k2 = tlists k1 \<and>
      (0 < time \<longrightarrow> Thread_timer t \<in> set (rt_timer_list k2) \<and> timeout_tick (timers k2 (Thread_timer t)) = rt_tick k1 + i2u time)"
  proof (cases "0 < time")
    case True
    have half: "RT_TICK_MAX div 2 = 0x7fffffff" by (simp add: RT_TICK_MAX_def)
    have "unat (i2u time) < 0x7fffffff" using unat_i2u [of time] True assms(4) by simp
    then have "i2u time < RT_TICK_MAX div 2" unfolding half by (simp add: word_less_nat_alt)
    from start_thread_timer_ok [OF k1(2,3) this] obtain k2 where "start_thread_timer t (i2u time) k1 = Inr k2"
      "kernel_inv k2" "threads k2 = threads k1" "tlists k2 = tlists k1"
      "timeout_tick (timers k2 (Thread_timer t)) = rt_tick k1 + i2u time"
      "rt_timer_list k2 = timer_insert (\<lambda>x. timeout_tick (timers k2 x)) (rt_tick k1 + i2u time) (Thread_timer t)
         (removeAll (Thread_timer t) (rt_timer_list k1))"
      by metis
    then show ?thesis using True by simp
  qed (use k1(2) in simp)
  then obtain k2 where k2: "(if 0 < time then start_thread_timer t (i2u time) k1 else Inr k1) = Inr k2" "kernel_inv k2"
    "threads k2 = threads k1" "tlists k2 = tlists k1"
    "0 < time \<Longrightarrow> Thread_timer t \<in> set (rt_timer_list k2) \<and> timeout_tick (timers k2 (Thread_timer t)) = rt_tick k1 + i2u time"
    by blast
  obtain k3 where k3: "rt_schedule k2 = Inr k3" "kernel_inv k3" using schedule_inv [OF k2(2)] by blast
  have inv: "sched_inv {} k2" using k2(2) by (simp add: kernel_inv_def)
  show ?thesis
  proof
    show "suspend_and_wait l t flag time k = Inr k3"
      using k1(1) k2(1) k3(1) by (simp add: suspend_and_wait_def)
    show "stat (threads k3 t) = RT_THREAD_SUSPEND"
      using schedule_suspended [OF inv k3(1), of t] k1(3) k2(3) by simp
    show "tlists k3 l = wait_order flag (\<lambda>s. current_priority (threads k s)) t (tlists k l)"
      using schedule_waiting_lists [OF inv k3(1) assms(3)] k1(4) k2(4) by simp
    show "tlists k3 l' = tlists k l'" if "l' \<noteq> l" "waiting_list l'" for l'
      using schedule_waiting_lists [OF inv k3(1) that(2)] k1(7) that k2(4) by simp
    show "thread_part (threads k3 t') = thread_part (threads k t')" for t'
      using schedule_thread_part [OF k3(1)] k1(6) k2(3) by simp
    show "0 < time \<Longrightarrow> Thread_timer t \<in> set (rt_timer_list k3) \<and> timeout_tick (timers k3 (Thread_timer t)) = rt_tick k + i2u time"
      using k2(5) timer_part_eqs [OF schedule_timer_part [OF k3(1)]] k1(5) by simp
  qed (rule k3(2))
qed

text \<open>Resuming a thread takes it out of every list; nothing else of it or of other threads changes.\<close>

lemma thread_resume_ok:
  assumes "kernel_inv k" "stat (threads k t) = RT_THREAD_SUSPEND"
  shows "kernel_inv (snd (rt_thread_resume t k))"
    "waiting_list l \<Longrightarrow> tlists (snd (rt_thread_resume t k)) l = removeAll t (tlists k l)"
    "stat (threads (snd (rt_thread_resume t k)) t) \<noteq> RT_THREAD_SUSPEND"
    "t' \<noteq> t \<Longrightarrow> threads (snd (rt_thread_resume t k)) t' = threads k t'"
    "thread_part (threads (snd (rt_thread_resume t k)) t'') = thread_part (threads k t'')"
    "rt_current_thread (snd (rt_thread_resume t k)) = rt_current_thread k"
proof -
  have notready: "waiting_list l \<Longrightarrow> l \<noteq> Ready p" for p by auto
  show "kernel_inv (snd (rt_thread_resume t k))" by (rule thread_resume_inv [OF assms(1)])
  show "waiting_list l \<Longrightarrow> tlists (snd (rt_thread_resume t k)) l = removeAll t (tlists k l)"
    using assms(2) notready by (simp add: rt_thread_resume_def rt_schedule_insert_thread_def Let_def)
  show "stat (threads (snd (rt_thread_resume t k)) t) \<noteq> RT_THREAD_SUSPEND"
    "t' \<noteq> t \<Longrightarrow> threads (snd (rt_thread_resume t k)) t' = threads k t'"
    using assms(2) by (simp_all add: rt_thread_resume_def rt_schedule_insert_thread_def Let_def)
  show "thread_part (threads (snd (rt_thread_resume t k)) t'') = thread_part (threads k t'')"
    using assms(2) by (simp add: rt_thread_resume_def insert_thread_part Let_def)
  show "rt_current_thread (snd (rt_thread_resume t k)) = rt_current_thread k"
    using assms(2) by (simp add: rt_thread_resume_def insert_thread_simps Let_def)
qed

lemma list_resume_ok:
  assumes "kernel_inv k" "waiting_list l" "tlists k l = t # ts"
  obtains k' where "rt_ipc_list_resume l k = Inr k'" "kernel_inv k'" "tlists k' l = ts"
    "stat (threads k' t) \<noteq> RT_THREAD_SUSPEND" "\<And>t'. thread_part (threads k' t') = thread_part (threads k t')"
    "\<And>t'. t' \<noteq> t \<Longrightarrow> threads k' t' = threads k t'"
proof -
  have inv: "sched_inv {} k" using assms(1) by (simp add: kernel_inv_def)
  then have "stat (threads k t) = RT_THREAD_SUSPEND" using waiting_member [OF inv assms(2)] assms(3) by simp
  moreover have "t \<notin> set ts" using inv assms(3) unfolding sched_inv_def lists_ok_def by (metis distinct.simps(2))
  ultimately show ?thesis
    using that [of "snd (rt_thread_resume t k)"] thread_resume_ok [OF assms(1), of t] assms(2,3)
    by (simp add: rt_ipc_list_resume_def)
qed



lemma kernel_inv_upd:
  assumes "\<And>th. stat (f th) = stat th" "\<And>th. current_priority (f th) = current_priority th"
    "\<And>th. number_mask (f th) = number_mask th"
  shows "kernel_inv (upd_thread t f k) = kernel_inv k"
proof -
  have "stat (((threads k)(t := f (threads k t))) x) = stat (threads k x)" for x using assms by simp
  moreover have "timers (upd_thread t f k) = timers k" "rt_timer_list (upd_thread t f k) = rt_timer_list k"
    "rt_soft_timer_list (upd_thread t f k) = rt_soft_timer_list k" by (simp_all add: upd_thread_def)
  ultimately have "timers_inv (upd_thread t f k) = timers_inv k" unfolding timers_inv_def upd_thread_simps by simp
  then show ?thesis using assms by (simp add: kernel_inv_def sched_inv_upd)
qed

lemma kernel_inv_set_error: "kernel_inv (set_error t e k) = kernel_inv k"
  unfolding set_error_def by (rule kernel_inv_upd) simp_all

lemma resume_all_ok:
  assumes "kernel_inv k" "waiting_list l"
  shows "\<exists>k'. rt_ipc_list_resume_all l k = Some k' \<and> kernel_inv k' \<and> tlists k' l = [] \<and>
     (\<forall>t \<in> set (tlists k l). stat (threads k' t) \<noteq> RT_THREAD_SUSPEND \<and> error (threads k' t) = - RT_ERROR)"
  using assms(1)
proof (induction "tlists k l" arbitrary: k)
  case Nil
  then show ?case by (simp add: rt_ipc_list_resume_all.simps)
next
  case (Cons t ts)
  let ?k1 = "set_error t (- RT_ERROR) k"
  let ?k2 = "snd (rt_thread_resume t ?k1)"
  have k1: "kernel_inv ?k1" using Cons.prems by (simp add: kernel_inv_set_error)
  have list1: "tlists ?k1 l = t # ts" using Cons.hyps(2) by (simp add: set_error_def)
  have inv: "sched_inv {} k" "sched_inv {} ?k1" using Cons.prems k1 by (auto simp: kernel_inv_def)
  have d: "distinct (tlists k l)" using inv(1) by (simp add: sched_inv_def lists_ok_def)
  then have notin: "t \<notin> set ts" unfolding Cons.hyps(2) [symmetric] by simp
  have susp: "stat (threads ?k1 t) = RT_THREAD_SUSPEND"
    using waiting_member [OF inv(2) assms(2), of t] list1 by simp
  have k2: "kernel_inv ?k2" "tlists ?k2 l = ts" "stat (threads ?k2 t) \<noteq> RT_THREAD_SUSPEND"
    "error (threads ?k2 t) = - RT_ERROR"
    using thread_resume_ok [OF k1 susp] assms(2) list1 notin
    by (auto simp: thread_part_def set_error_def)
  from Cons.hyps(1) [OF k2(2) [symmetric] k2(1)] obtain k' where
    k': "rt_ipc_list_resume_all l ?k2 = Some k'" "kernel_inv k'" "tlists k' l = []"
    "\<And>t. t \<in> set ts \<Longrightarrow> stat (threads k' t) \<noteq> RT_THREAD_SUSPEND \<and> error (threads k' t) = - RT_ERROR"
    using k2(2) by auto
  have keep: "stat (threads k'' t) \<noteq> RT_THREAD_SUSPEND \<and> error (threads k'' t) = e"
    if "rt_ipc_list_resume_all l k0 = Some k''" "kernel_inv k0" "t \<notin> set (tlists k0 l)"
      "stat (threads k0 t) \<noteq> RT_THREAD_SUSPEND" "error (threads k0 t) = e" for k0 k'' e
    using that
  proof (induction "tlists k0 l" arbitrary: k0)
    case Nil
    then show ?case by (simp add: rt_ipc_list_resume_all.simps)
  next
    case (Cons s ss)
    let ?k3 = "snd (rt_thread_resume s (set_error s (- RT_ERROR) k0))"
    have s: "kernel_inv (set_error s (- RT_ERROR) k0)" using Cons.prems by (simp add: kernel_inv_set_error)
    have l: "tlists (set_error s (- RT_ERROR) k0) l = s # ss" using Cons.hyps(2) by (simp add: set_error_def)
    have inv: "sched_inv {} (set_error s (- RT_ERROR) k0)" using s by (simp add: kernel_inv_def)
    then have "distinct (tlists (set_error s (- RT_ERROR) k0) l)" by (simp add: sched_inv_def lists_ok_def)
    then have ds: "s \<notin> set ss" unfolding l by simp
    have susp: "stat (threads (set_error s (- RT_ERROR) k0) s) = RT_THREAD_SUSPEND"
      using waiting_member [OF inv assms(2), of s] l by simp
    have ts: "t \<noteq> s" "t \<notin> set ss" using Cons.prems(3) unfolding Cons.hyps(2) [symmetric] by auto
    have l3: "ss = tlists ?k3 l" using thread_resume_ok(2) [OF s susp assms(2)] l ds by simp
    have th: "threads ?k3 t = threads k0 t" using thread_resume_ok(4) [OF s susp] ts(1) by (simp add: set_error_def)
    have "rt_ipc_list_resume_all l ?k3 = Some k''"
      using Cons.prems(1) Cons.hyps(2) [symmetric]
      by (subst (asm) rt_ipc_list_resume_all.simps) (simp add: set_error_def)
    then show ?case
      using Cons.hyps(1) [OF l3] thread_resume_ok(1) [OF s susp] ts(2) l3 th Cons.prems(4,5) by simp
  qed
  have "rt_ipc_list_resume_all l k = Some k'"
    using k'(1) Cons.hyps(2) [symmetric] by (subst rt_ipc_list_resume_all.simps) (simp add: set_error_def)
  then show ?case
    using k' keep [OF k'(1) k2(1) _ k2(3,4)] notin k2(2) Cons.hyps(2) [symmetric] by auto
qed


section \<open>Semaphores: results\<close>

definition sem_ok :: "rt_semaphore \<Rightarrow> kernel \<Rightarrow> bool" where
  "sem_ok sem k \<longleftrightarrow> kernel_inv k \<and> ob_flag sem \<le> 1 \<and> (sem_value sem > 0 \<longrightarrow> tlists k (Suspended (ob_id sem)) = [])"

text \<open>A thread that can call: it is current and runs.\<close>

definition caller :: "tid \<Rightarrow> kernel \<Rightarrow> bool" where
  "caller t k \<longleftrightarrow> rt_current_thread k = Some t \<and> stat (threads k t) = RT_THREAD_RUNNING"

lemma flag_cases: "(flag :: u8) \<le> 1 \<Longrightarrow> flag = 0 \<or> flag = 1"
proof -
  assume "flag \<le> 1"
  then have "unat flag = 0 \<or> unat flag = 1" by (auto simp: word_le_nat_alt)
  then show ?thesis by (metis unat_0 unat_1 word_unat_eq_iff)
qed

text \<open>
  Taking a semaphore, on every branch: a unit is there and is taken; there is none and the call does not
  wait; or the thread waits in the list of the semaphore.  Units and waiting threads exclude each other
  before and after.
\<close>

lemma sem_take_ok:
  assumes "sem_ok sem k" "caller t k" "time < 2 ^ 31 - 1"
  shows "\<exists>r sem' k'. rt_sem_take sem time k = Inr (r, sem', k') \<and> sem_ok sem' k' \<and>
     (if sem_value sem > 0 then r = Some RT_EOK \<and> sem_value sem' = sem_value sem - 1 \<and> k' = k
      else sem' = sem \<and>
        (if time = 0 then r = Some (- RT_ETIMEOUT) \<and> k' = k
         else r = None \<and> stat (threads k' t) = RT_THREAD_SUSPEND \<and> error (threads k' t) = RT_EOK \<and>
           tlists k' (Suspended (ob_id sem)) =
             wait_order (ob_flag sem) (\<lambda>s. current_priority (threads k s)) t (tlists k (Suspended (ob_id sem)))))"
proof (cases "sem_value sem > 0 \<or> time = 0")
  case True
  then show ?thesis using assms(1) by (auto simp: rt_sem_take_def sem_ok_def)
next
  case False
  let ?k = "set_error t RT_EOK k"
  have k: "kernel_inv ?k" "stat (threads ?k t) = RT_THREAD_RUNNING" "rt_current_thread k = Some t"
    using assms(1,2) by (simp_all add: sem_ok_def caller_def kernel_inv_set_error) (simp add: set_error_def)
  obtain k' where k': "suspend_and_wait (Suspended (ob_id sem)) t (ob_flag sem) time ?k = Inr k'" "kernel_inv k'"
    "stat (threads k' t) = RT_THREAD_SUSPEND"
    "tlists k' (Suspended (ob_id sem)) =
       wait_order (ob_flag sem) (\<lambda>s. current_priority (threads ?k s)) t (tlists ?k (Suspended (ob_id sem)))"
    "thread_part (threads k' t) = thread_part (threads ?k t)"
    using suspend_and_wait_ok [OF k(1,2) _ assms(3), of "Suspended (ob_id sem)" "ob_flag sem"] by (metis waiting_list_simps(1))
  have "current_priority (threads ?k s) = current_priority (threads k s)" for s by (simp add: set_error_def)
  moreover have "error (threads k' t) = RT_EOK" using k'(5) by (simp add: thread_part_def set_error_def)
  ultimately show ?thesis
    using k' k(3) False assms(1) by (simp add: rt_sem_take_def sem_ok_def set_error_def)
qed

text \<open>Releasing it wakes the first waiting thread and keeps the value, or counts one unit more when none waits.\<close>

lemma sem_release_ok:
  assumes "sem_ok sem k"
  shows "\<exists>sem' k'. rt_sem_release sem k = Inr (RT_EOK, sem', k') \<and>
     (case tlists k (Suspended (ob_id sem)) of
        [] \<Rightarrow> sem' = sem\<lparr>sem_value := sem_value sem + 1\<rparr> \<and> k' = k
      | t # ts \<Rightarrow> sem' = sem \<and> sem_ok sem' k' \<and> tlists k' (Suspended (ob_id sem)) = ts \<and>
          stat (threads k' t) \<noteq> RT_THREAD_SUSPEND \<and> rt_sem_take_resumed t k' = error (threads k t))"
proof (cases "tlists k (Suspended (ob_id sem))")
  case Nil
  then show ?thesis by (simp add: rt_sem_release_def)
next
  case (Cons t ts)
  have k: "kernel_inv k" using assms by (simp add: sem_ok_def)
  obtain k1 where k1: "rt_ipc_list_resume (Suspended (ob_id sem)) k = Inr k1" "kernel_inv k1"
    "tlists k1 (Suspended (ob_id sem)) = ts" "stat (threads k1 t) \<noteq> RT_THREAD_SUSPEND"
    "thread_part (threads k1 t) = thread_part (threads k t)"
    using list_resume_ok [OF k _ Cons] by (metis waiting_list_simps(1))
  obtain k2 where k2: "rt_schedule k1 = Inr k2" "kernel_inv k2" using schedule_inv [OF k1(2)] by blast
  have "tlists k2 (Suspended (ob_id sem)) = ts"
    using schedule_waiting_lists [of k1 k2 "Suspended (ob_id sem)"] k1(2,3) k2(1) by (simp add: kernel_inv_def)
  moreover have "error (threads k2 t) = error (threads k t)"
    using schedule_error [OF k2(1)] k1(5) by (simp add: thread_part_def)
  ultimately show ?thesis
    using Cons k1(1) k2 schedule_awake [OF k2(1) k1(4)] assms
    by (auto simp: rt_sem_release_def sem_ok_def rt_sem_take_resumed_def)
qed

text \<open>A number of releases in a row.\<close>

fun sem_releases :: "nat \<Rightarrow> rt_semaphore \<Rightarrow> kernel \<Rightarrow> (rt_semaphore \<times> kernel) res" where
  "sem_releases 0 sem k = Inr (sem, k)"
| "sem_releases (Suc n) sem k = bind_res (rt_sem_release sem k) (\<lambda>(_, sem, k). sem_releases n sem k)"

lemma sem_release_next:
  assumes "sem_ok sem k" "tlists k (Suspended (ob_id sem)) = w # ws"
  obtains k' where "rt_sem_release sem k = Inr (RT_EOK, sem, k')" "sem_ok sem k'" "tlists k' (Suspended (ob_id sem)) = ws"
    "stat (threads k' w) \<noteq> RT_THREAD_SUSPEND" "\<And>t. error (threads k' t) = error (threads k t)"
proof -
  obtain k1 where k1: "rt_ipc_list_resume (Suspended (ob_id sem)) k = Inr k1" "kernel_inv k1"
    "\<And>t. thread_part (threads k1 t) = thread_part (threads k t)"
    using list_resume_ok [of k "Suspended (ob_id sem)" w ws] assms by (metis sem_ok_def waiting_list_simps(1))
  obtain k' where rel: "rt_sem_release sem k = Inr (RT_EOK, sem, k')" "sem_ok sem k'" "tlists k' (Suspended (ob_id sem)) = ws"
    "stat (threads k' w) \<noteq> RT_THREAD_SUSPEND"
    using sem_release_ok [OF assms(1)] assms(2) by auto
  then have "rt_schedule k1 = Inr k'" using k1(1) assms(2) by (auto simp: rt_sem_release_def bind_res_Inr_iff)
  then have "error (threads k' t) = error (threads k t)" for t
    using schedule_error k1(3) [of t] by (simp add: thread_part_def)
  then show ?thesis using that rel by blast
qed

lemma sem_releases_ok:
  assumes "sem_ok sem k" "m \<le> length (tlists k (Suspended (ob_id sem)))"
  shows "\<exists>k'. sem_releases m sem k = Inr (sem, k') \<and> sem_ok sem k' \<and>
    tlists k' (Suspended (ob_id sem)) = drop m (tlists k (Suspended (ob_id sem))) \<and>
    (\<forall>t. error (threads k' t) = error (threads k t))"
  using assms
proof (induction m arbitrary: k)
  case (Suc m)
  obtain w ws where w: "tlists k (Suspended (ob_id sem)) = w # ws"
    using Suc.prems(2) by (cases "tlists k (Suspended (ob_id sem))") auto
  obtain k1 where k1: "rt_sem_release sem k = Inr (RT_EOK, sem, k1)" "sem_ok sem k1" "tlists k1 (Suspended (ob_id sem)) = ws"
    "\<And>t. error (threads k1 t) = error (threads k t)" using sem_release_next [OF Suc.prems(1) w] by metis
  show ?case using Suc.IH [OF k1(2)] Suc.prems(2) k1 w by auto
qed simp

text \<open>One release more wakes the thread whose turn it is.\<close>

lemma sem_releases_Suc:
  "sem_releases m sem k = Inr (sem1, k1) \<Longrightarrow> rt_sem_release sem1 k1 = Inr (r, sem2, k2) \<Longrightarrow>
   sem_releases (Suc m) sem k = Inr (sem2, k2)"
proof (induction m arbitrary: sem k)
  case (Suc m)
  then obtain r' sem' k' where rel: "rt_sem_release sem k = Inr (r', sem', k')" "sem_releases m sem' k' = Inr (sem1, k1)"
    by (auto simp: bind_res_Inr_iff)
  show ?case using Suc.IH [OF rel(2) Suc.prems(2)] rel(1) by simp
qed simp

text \<open>
  C36. Handing over a semaphore: a thread that takes an empty semaphore, with any threads waiting before it and for
  ever or with a time-out, waits in the list at the place its flag prescribes, at some position \<open>i\<close>.  After \<open>i\<close>
  releases or fewer it still waits; the next one wakes it, its call returns success, and the value is still 0: no
  unit is lost and none is given twice.
\<close>

theorem sem_handover:
  assumes "sem_ok sem k" "caller t k" "sem_value sem = 0" "time \<noteq> 0" "time < 2 ^ 31 - 1"
  shows "\<exists>k1 i. rt_sem_take sem time k = Inr (None, sem, k1) \<and>
     tlists k1 (Suspended (ob_id sem)) =
       wait_order (ob_flag sem) (\<lambda>s. current_priority (threads k s)) t (tlists k (Suspended (ob_id sem))) \<and>
     i < length (tlists k1 (Suspended (ob_id sem))) \<and> tlists k1 (Suspended (ob_id sem)) ! i = t \<and>
     (\<forall>m \<le> i. \<exists>k2. sem_releases m sem k1 = Inr (sem, k2) \<and> stat (threads k2 t) = RT_THREAD_SUSPEND) \<and>
     (\<exists>k2. sem_releases (Suc i) sem k1 = Inr (sem, k2) \<and> stat (threads k2 t) \<noteq> RT_THREAD_SUSPEND \<and>
       rt_sem_take_resumed t k2 = RT_EOK \<and> sem_ok sem k2)"
proof -
  let ?l = "Suspended (ob_id sem)"
  obtain k1 where k1: "rt_sem_take sem time k = Inr (None, sem, k1)" "sem_ok sem k1" "error (threads k1 t) = RT_EOK"
    "tlists k1 ?l = wait_order (ob_flag sem) (\<lambda>s. current_priority (threads k s)) t (tlists k ?l)"
    using sem_take_ok [OF assms(1,2,5)] assms(3,4) by auto
  have "ob_flag sem \<le> 1" using assms(1) by (simp add: sem_ok_def)
  then have "t \<in> set (tlists k1 ?l)" using wait_order_set by (simp add: k1(4))
  then obtain i where i: "i < length (tlists k1 ?l)" "tlists k1 ?l ! i = t" by (auto simp: in_set_conv_nth)
  have waits: "\<exists>k2. sem_releases m sem k1 = Inr (sem, k2) \<and> stat (threads k2 t) = RT_THREAD_SUSPEND" if m: "m \<le> i" for m
  proof -
    obtain k2 where k2: "sem_releases m sem k1 = Inr (sem, k2)" "sem_ok sem k2" "tlists k2 ?l = drop m (tlists k1 ?l)"
      using sem_releases_ok [OF k1(2)] less_imp_le [OF le_less_trans [OF m i(1)]] by blast
    have "drop m (tlists k1 ?l) ! (i - m) = t" "i - m < length (drop m (tlists k1 ?l))" using i m by simp_all
    then have "t \<in> set (tlists k2 ?l)" unfolding k2(3) by (metis nth_mem)
    then have "stat (threads k2 t) = RT_THREAD_SUSPEND"
      using waiting_member [of "{}" k2 ?l t] k2(2) by (simp add: sem_ok_def kernel_inv_def)
    then show ?thesis using k2(1) by blast
  qed
  obtain k2 where k2: "sem_releases i sem k1 = Inr (sem, k2)" "sem_ok sem k2" "tlists k2 ?l = drop i (tlists k1 ?l)"
    "error (threads k2 t) = RT_EOK" using sem_releases_ok [OF k1(2) less_imp_le [OF i(1)]] k1(3) by auto
  have "tlists k2 ?l = t # drop (Suc i) (tlists k1 ?l)" unfolding k2(3) using i by (metis Cons_nth_drop_Suc)
  from sem_release_next [OF k2(2) this] obtain k3 where
    k3: "rt_sem_release sem k2 = Inr (RT_EOK, sem, k3)" "sem_ok sem k3" "stat (threads k3 t) \<noteq> RT_THREAD_SUSPEND"
      "error (threads k3 t) = RT_EOK" using k2(4) by metis
  have "sem_releases (Suc i) sem k1 = Inr (sem, k3)" using sem_releases_Suc [OF k2(1) k3(1)] .
  moreover have "rt_sem_take_resumed t k3 = RT_EOK" using k3(4) by (simp add: rt_sem_take_resumed_def)
  ultimately show ?thesis using k1(1,4) i waits k3(2,3) by blast
qed

definition demo_sem :: rt_semaphore where
  "demo_sem = \<lparr>ob_id = 3, ob_flag = 0, sem_value = 0\<rparr>"

lemma demo_caller: "caller 0 demo_kernel"
  by (simp add: caller_def demo_kernel_def demo_thread_def)

lemma demo_sem_ok: "sem_ok demo_sem demo_kernel"
  using demo_kernel_inv by (simp add: sem_ok_def demo_sem_def)

lemma demo_no_waiter: "tlists demo_kernel (Suspended n) = []" "tlists demo_kernel (Senders n) = []"
  by (simp_all add: demo_kernel_def)

theorem sem_handover_witness:
  "\<exists>k1. rt_sem_take demo_sem 7 demo_kernel = Inr (None, demo_sem, k1) \<and> tlists k1 (Suspended 3) = [0] \<and>
     (\<exists>k2. sem_releases 1 demo_sem k1 = Inr (demo_sem, k2) \<and> rt_sem_take_resumed 0 k2 = RT_EOK)"
proof -
  have d: "sem_value demo_sem = 0" "ob_id demo_sem = 3" "ob_flag demo_sem = 0" by (simp_all add: demo_sem_def)
  have t: "(7 :: int) \<noteq> 0" "(7 :: int) < 2 ^ 31 - 1" by simp_all
  obtain k1 i where k1: "rt_sem_take demo_sem 7 demo_kernel = Inr (None, demo_sem, k1)" "tlists k1 (Suspended 3) = [0]"
    "i < length (tlists k1 (Suspended 3))" "\<exists>k2. sem_releases (Suc i) demo_sem k1 = Inr (demo_sem, k2) \<and> rt_sem_take_resumed 0 k2 = RT_EOK"
    using sem_handover [OF demo_sem_ok demo_caller d(1) t]
    unfolding d(2,3) demo_no_waiter by (auto simp: wait_order_def ipc_flags)
  then show ?thesis by simp
qed

text \<open>
  Taking a semaphore, on every branch: a unit is there and is taken; there is none and the call does not
  wait; or the thread waits in the list of the semaphore, in the order of its flag.  Units and waiting
  threads exclude each other before and after.
\<close>

theorem sem_take_branches:
  assumes "sem_ok sem k" "caller t k" "time < 2 ^ 31 - 1"
  shows "\<exists>r sem' k'. rt_sem_take sem time k = Inr (r, sem', k') \<and> sem_ok sem' k' \<and>
     (if sem_value sem > 0 then r = Some RT_EOK \<and> sem_value sem' = sem_value sem - 1 \<and> k' = k
      else sem' = sem \<and>
        (if time = 0 then r = Some (- RT_ETIMEOUT) \<and> k' = k
         else r = None \<and> stat (threads k' t) = RT_THREAD_SUSPEND \<and> error (threads k' t) = RT_EOK \<and>
           tlists k' (Suspended (ob_id sem)) =
             wait_order (ob_flag sem) (\<lambda>s. current_priority (threads k s)) t (tlists k (Suspended (ob_id sem)))))"
  using assms by (rule sem_take_ok)

theorem sem_take_branches_witness:
  "\<exists>k'. rt_sem_take demo_sem 7 demo_kernel = Inr (None, demo_sem, k') \<and> sem_ok demo_sem k' \<and>
     stat (threads k' 0) = RT_THREAD_SUSPEND"
  using sem_take_branches [OF demo_sem_ok demo_caller, of 7] by (auto simp: demo_sem_def)

section \<open>Mutexes: results\<close>

text \<open>
  A free mutex has the value 1 and no owner, no holds and no waiters; a taken one has the value 0, an owner
  and holds.
\<close>

definition mutex_ok :: "rt_mutex \<Rightarrow> kernel \<Rightarrow> bool" where
  "mutex_ok mutex k \<longleftrightarrow> kernel_inv k \<and> ob_flag mutex \<le> 1 \<and>
     (if mutex_value mutex > 0
      then mutex_value mutex = 1 \<and> mutex_owner mutex = None \<and> mutex_hold mutex = 0 \<and>
        tlists k (Suspended (ob_id mutex)) = []
      else mutex_hold mutex > 0 \<and> original_priority mutex < 32 \<and>
        (\<exists>ow. mutex_owner mutex = Some ow \<and> thread_wf (threads k ow)))"

lemma change_priority_ok:
  assumes "kernel_inv k" "p < 32"
  obtains k' where "change_priority t p k = Inr k'" "kernel_inv k'" "rt_current_thread k' = rt_current_thread k"
    "current_priority (threads k' t) = p" "thread_wf (threads k' t)" "\<And>t'. t' \<noteq> t \<Longrightarrow> threads k' t' = threads k t'"
    "\<And>l. waiting_list l \<Longrightarrow> tlists k' l = tlists k l"
    "stat (threads k t) \<noteq> RT_THREAD_READY \<Longrightarrow> stat (threads k' t) = stat (threads k t)"
    "error (threads k' t) = error (threads k t)"
proof (cases "stat (threads k t) = RT_THREAD_READY")
  case False
  define k' where "k' = upd_thread t (\<lambda>th. th\<lparr>current_priority := p, number_mask := push_bit p 1\<rparr>) k"
  have inv: "sched_inv {} k" "timers_inv k" using assms(1) by (auto simp: kernel_inv_def)
  have notin: "t \<notin> set (tlists k (Ready q))" for q
    using sched_inv_member(2) [OF inv(1), of t "Ready q"] False by auto
  have "sched_inv {} k'"
    unfolding sched_inv_def
  proof (intro conjI)
    show "group_ok k'" using inv(1) by (simp add: k'_def sched_inv_def group_ok_def)
    have "s \<noteq> t" if "s \<in> set (tlists k (Ready q))" for s q using notin that by blast
    then show "lists_ok {} k'" using inv(1) by (fastforce simp: k'_def sched_inv_def lists_ok_def)
    show "threads_ok {} k'"
      unfolding threads_ok_def
    proof (rule allI, goal_cases)
      case (1 t')
      show ?case
        using sched_inv_wf [OF inv(1), of t'] sched_inv_ready [OF inv(1), of t'] sched_inv_running [OF inv(1), of t']
          False assms(2)
        by (cases "t' = t") (auto simp: k'_def thread_wf_def)
    qed
  qed
  moreover have "timers_inv k'" by (rule timers_inv_frame [OF inv(2)]) (auto simp: k'_def)
  ultimately have "kernel_inv k'" using assms(1) by (simp add: kernel_inv_def k'_def)
  moreover have "change_priority t p k = Inr k'" using False assms(2) by (simp add: change_priority_def k'_def Let_def)
  ultimately show ?thesis using that [of k'] assms(2) by (simp add: k'_def thread_wf_def)
next
  case True
  define k1 where "k1 = upd_thread t (\<lambda>th. th\<lparr>current_priority := p, number_mask := push_bit p 1\<rparr>)
    (rt_schedule_remove_thread t k)"
  define k' where "k' = rt_schedule_insert_thread t k1"
  have inv: "sched_inv {} k" "timers_inv k" using assms(1) by (auto simp: kernel_inv_def)
  have wf: "thread_wf (threads k t)" using sched_inv_wf [OF inv(1), of t] True by simp
  have rem: "sched_inv {t} (rt_schedule_remove_thread t k)" using remove_thread_inv [OF inv(1) wf] by simp
  have "sched_inv {t} k1"
    unfolding sched_inv_def
  proof (intro conjI)
    show "group_ok k1" using rem by (simp add: k1_def sched_inv_def group_ok_def)
    show "lists_ok {t} k1" using rem by (fastforce simp: k1_def sched_inv_def lists_ok_def)
    show "threads_ok {t} k1"
      unfolding threads_ok_def
    proof (rule allI, goal_cases)
      case (1 t')
      show ?case
        using sched_inv_wf [OF rem, of t'] sched_inv_ready [OF rem, of t'] sched_inv_running [OF rem, of t'] assms(2)
        by (cases "t' = t") (auto simp: k1_def thread_wf_def)
    qed
  qed
  then have "sched_inv {} k'"
    using insert_thread_inv [of t "{}" k1] assms(2) by (simp add: k'_def k1_def thread_wf_def)
  moreover have "timers_inv k'"
  proof (rule timers_inv_frame [OF inv(2)])
    fix t' assume "stat (threads k t') = RT_THREAD_SUSPEND"
    then have "t' \<noteq> t" using True by auto
    then show "stat (threads k' t') = RT_THREAD_SUSPEND"
      using \<open>stat (threads k t') = RT_THREAD_SUSPEND\<close> by (simp add: k'_def k1_def insert_thread_simps)
  qed (simp add: k'_def k1_def)
  ultimately have "kernel_inv k'" using assms(1) by (simp add: kernel_inv_def k'_def k1_def insert_thread_simps)
  moreover have "change_priority t p k = Inr k'"
    using True assms(2) by (simp add: change_priority_def k'_def k1_def Let_def)
  moreover have "tlists k' l = tlists k l" if "waiting_list l" for l
  proof -
    have "t \<notin> set (tlists k l)" using waiting_member [OF inv(1) that, of t] True by auto
    moreover have "l \<noteq> Ready q" for q using that by auto
    ultimately show ?thesis by (simp add: k'_def k1_def rt_schedule_insert_thread_def Let_def)
  qed
  moreover have "thread_part (threads k' t) = thread_part (threads k1 t)" unfolding k'_def by (rule insert_thread_part)
  ultimately show ?thesis
    using that [of k'] assms(2) True
    by (simp add: k'_def k1_def thread_part_def thread_wf_def insert_thread_simps)
qed


text \<open>
  A thread that has to wait for a mutex lends its priority: the owner's priority number is then at most its
  own, and the mutex is unchanged.
\<close>

lemma mutex_take_ok:
  assumes "mutex_ok mutex k" "caller t k" "time < 2 ^ 31 - 1" "time \<noteq> 0" "mutex_owner mutex = Some ow" "ow \<noteq> t"
  shows "\<exists>k'. rt_mutex_take mutex time k = Inr (None, mutex, k') \<and> mutex_ok mutex k' \<and>
     stat (threads k' t) = RT_THREAD_SUSPEND \<and> t \<in> set (tlists k' (Suspended (ob_id mutex))) \<and>
     current_priority (threads k' ow) = min (current_priority (threads k ow)) (current_priority (threads k t))"
proof -
  let ?k = "set_error t RT_EOK k"
  have m: "mutex_value mutex = 0" "thread_wf (threads k ow)" "mutex_hold mutex > 0" "original_priority mutex < 32"
    "ob_flag mutex \<le> 1" "kernel_inv k"
    using assms(1,5) by (auto simp: mutex_ok_def word_gt_0 split: if_splits)
  have c: "rt_current_thread k = Some t" "stat (threads k t) = RT_THREAD_RUNNING"
    using assms(2) by (simp_all add: caller_def)
  have inv: "kernel_inv ?k" using m(6) by (simp add: kernel_inv_set_error)
  have th: "threads ?k ow = threads k ow" "current_priority (threads ?k t) = current_priority (threads k t)"
    "stat (threads ?k t) = RT_THREAD_RUNNING"
    using assms(6) c by (simp_all add: set_error_def)
  have wf: "thread_wf (threads k t)" using sched_inv_wf [of "{}" k t] m(6) c by (simp add: kernel_inv_def)
  have "\<exists>k1. (if current_priority (threads k t) < current_priority (threads k ow)
      then rt_thread_control ow (CHANGE_PRIORITY (current_priority (threads k t))) ?k else Inr ?k) = Inr k1 \<and>
      kernel_inv k1 \<and> stat (threads k1 t) = RT_THREAD_RUNNING \<and> thread_wf (threads k1 ow) \<and>
      current_priority (threads k1 ow) = min (current_priority (threads k ow)) (current_priority (threads k t))"
  proof (cases "current_priority (threads k t) < current_priority (threads k ow)")
    case True
    have "current_priority (threads k t) < 32" using wf by (simp add: thread_wf_def)
    from change_priority_ok [OF inv this, of ow] obtain k1 where
      "change_priority ow (current_priority (threads k t)) ?k = Inr k1" "kernel_inv k1"
      "current_priority (threads k1 ow) = current_priority (threads k t)" "thread_wf (threads k1 ow)"
      "threads k1 t = threads ?k t"
      using assms(6) by metis
    then show ?thesis using True th(3) by (simp add: rt_thread_control_def)
  next
    case False
    then show ?thesis using inv th m(2) by simp
  qed
  then obtain k1 where k1: "(if current_priority (threads k t) < current_priority (threads k ow)
      then rt_thread_control ow (CHANGE_PRIORITY (current_priority (threads k t))) ?k else Inr ?k) = Inr k1"
    "kernel_inv k1" "stat (threads k1 t) = RT_THREAD_RUNNING" "thread_wf (threads k1 ow)"
    "current_priority (threads k1 ow) = min (current_priority (threads k ow)) (current_priority (threads k t))"
    by blast
  obtain k2 where k2: "suspend_and_wait (Suspended (ob_id mutex)) t (ob_flag mutex) time k1 = Inr k2" "kernel_inv k2"
    "stat (threads k2 t) = RT_THREAD_SUSPEND" "thread_part (threads k2 ow) = thread_part (threads k1 ow)"
    "tlists k2 (Suspended (ob_id mutex)) =
       wait_order (ob_flag mutex) (\<lambda>s. current_priority (threads k1 s)) t (tlists k1 (Suspended (ob_id mutex)))"
    using suspend_and_wait_ok [OF k1(2,3) _ assms(3), of "Suspended (ob_id mutex)" "ob_flag mutex"]
    by (metis waiting_list_simps(1))
  have "current_priority (threads k2 ow) = current_priority (threads k1 ow)" using k2(4) by (simp add: thread_part_def)
  moreover have "rt_mutex_take mutex time k = Inr (None, mutex, k2)"
    using c assms(4-6) m(1) th(1,2) k1(1) k2(1) by (simp add: rt_mutex_take_def mutex_try_def Let_def split: if_splits)
  moreover have "thread_wf (threads k2 ow)" using k2(4) k1(4) by (simp add: thread_wf_def thread_part_def)
  ultimately show ?thesis
    using k2(2,3,5) m k1(5) wait_order_set [OF m(5)] assms(5) by (simp add: mutex_ok_def)
qed


lemma hold_pos: "(h :: u8) > 0 \<longleftrightarrow> h \<noteq> 0"
  by (simp add: word_gt_0)

text \<open>The last release by the owner gives the mutex to the first waiting thread, or frees it.\<close>

lemma mutex_release_ok:
  assumes "mutex_ok mutex k" "caller t k" "mutex_owner mutex = Some t" "mutex_hold mutex = 1"
  shows "\<exists>mutex' k'. rt_mutex_release mutex k = Inr (RT_EOK, mutex', k') \<and> mutex_ok mutex' k' \<and>
     (case tlists k (Suspended (ob_id mutex)) of
        [] \<Rightarrow> mutex_owner mutex' = None \<and> mutex_value mutex' = 1
      | w # ws \<Rightarrow> mutex_owner mutex' = Some w \<and> mutex_hold mutex' = 1 \<and> mutex_value mutex' = 0 \<and>
          original_priority mutex' = current_priority (threads k w) \<and>
          tlists k' (Suspended (ob_id mutex)) = ws \<and> stat (threads k' w) \<noteq> RT_THREAD_SUSPEND) \<and>
     current_priority (threads k' t) = original_priority mutex"
proof -
  let ?l = "Suspended (ob_id mutex)"
  have m: "mutex_value mutex = 0" "original_priority mutex < 32" "ob_flag mutex \<le> 1" "kernel_inv k"
    "thread_wf (threads k t)"
    using assms(1,3) by (auto simp: mutex_ok_def word_gt_0 split: if_splits)
  have c: "rt_current_thread k = Some t" "stat (threads k t) = RT_THREAD_RUNNING"
    using assms(2) by (simp_all add: caller_def)
  have "\<exists>k1. (if original_priority mutex \<noteq> current_priority (threads k t)
      then rt_thread_control t (CHANGE_PRIORITY (original_priority mutex)) k else Inr k) = Inr k1 \<and> kernel_inv k1 \<and>
      stat (threads k1 t) = RT_THREAD_RUNNING \<and> current_priority (threads k1 t) = original_priority mutex \<and>
      tlists k1 ?l = tlists k ?l \<and> (\<forall>t'. t' \<noteq> t \<longrightarrow> threads k1 t' = threads k t')"
  proof (cases "original_priority mutex = current_priority (threads k t)")
    case False
    from change_priority_ok [OF m(4,2), of t] obtain k1 where
      "change_priority t (original_priority mutex) k = Inr k1" "kernel_inv k1"
      "current_priority (threads k1 t) = original_priority mutex" "\<And>t'. t' \<noteq> t \<Longrightarrow> threads k1 t' = threads k t'"
      "\<And>l. waiting_list l \<Longrightarrow> tlists k1 l = tlists k l"
      "stat (threads k t) \<noteq> RT_THREAD_READY \<Longrightarrow> stat (threads k1 t) = stat (threads k t)" by metis
    then show ?thesis using False c by (simp add: rt_thread_control_def)
  qed (use m c in simp)
  then obtain k1 where k1: "(if original_priority mutex \<noteq> current_priority (threads k t)
      then rt_thread_control t (CHANGE_PRIORITY (original_priority mutex)) k else Inr k) = Inr k1" "kernel_inv k1"
    "stat (threads k1 t) = RT_THREAD_RUNNING" "current_priority (threads k1 t) = original_priority mutex"
    "tlists k1 ?l = tlists k ?l" "\<And>t'. t' \<noteq> t \<Longrightarrow> threads k1 t' = threads k t'" by blast
  show ?thesis
  proof (cases "tlists k ?l")
    case Nil
    define mutex' where "mutex' = mutex\<lparr>mutex_hold := 0, mutex_value := 1, mutex_owner := None,
      original_priority := 0xff\<rparr>"
    have "rt_mutex_release mutex k = Inr (RT_EOK, mutex', k1)"
      using c assms(3,4) k1(1,5) Nil m(1) by (simp add: rt_mutex_release_def Let_def mutex'_def split: if_splits)
    then show ?thesis using k1 m Nil by (simp add: mutex_ok_def mutex'_def)
  next
    case (Cons w ws)
    have inv: "sched_inv {} k" "sched_inv {} k1" using m(4) k1(2) by (simp_all add: kernel_inv_def)
    have w: "stat (threads k w) = RT_THREAD_SUSPEND" using waiting_member [OF inv(1), of ?l w] Cons by simp
    then have "w \<noteq> t" using c by auto
    then have wt: "threads k1 w = threads k w" "thread_wf (threads k w)"
      using k1(6) [of w] w sched_inv_wf [OF inv(1), of w] by auto
    obtain k2 where k2: "rt_ipc_list_resume ?l k1 = Inr k2" "kernel_inv k2"
      "tlists k2 ?l = ws" "stat (threads k2 w) \<noteq> RT_THREAD_SUSPEND"
      "\<And>t'. thread_part (threads k2 t') = thread_part (threads k1 t')"
      using list_resume_ok [OF k1(2), of ?l w ws] k1(5) Cons by (metis waiting_list_simps(1))
    obtain k3 where k3: "rt_schedule k2 = Inr k3" "kernel_inv k3" using schedule_inv [OF k2(2)] by blast
    define mutex' where "mutex' = mutex\<lparr>mutex_hold := 1, mutex_owner := Some w,
      original_priority := current_priority (threads k w)\<rparr>"
    have rel: "rt_mutex_release mutex k = Inr (RT_EOK, mutex', k3)"
      using c assms(3,4) k1(1,5) k2(1) k3(1) Cons wt(1) by (simp add: rt_mutex_release_def Let_def mutex'_def split: if_splits)
    have part: "thread_part (threads k3 t') = thread_part (threads k1 t')" for t'
      using schedule_thread_part [OF k3(1)] k2(5) by simp
    have "thread_wf (threads k3 w)"
      using part [of w] wt by (simp add: thread_wf_def thread_part_def)
    moreover have "tlists k3 ?l = ws"
      using schedule_waiting_lists [of k2 k3 ?l] k2(2,3) k3(1) by (simp add: kernel_inv_def)
    moreover have "current_priority (threads k3 t) = original_priority mutex"
      using part [of t] k1(4) by (simp add: thread_part_def)
    ultimately show ?thesis
      using rel k3(2) schedule_awake [OF k3(1) k2(4)] Cons m wt(2)
      by (simp add: mutex_ok_def mutex'_def thread_wf_def)
  qed
qed


text \<open>
  C37. The thread that takes a mutex another thread owns waits for it and lends the owner its priority; the
  mutex stays consistent.
\<close>

theorem mutex_inherits_priority:
  assumes "mutex_ok mutex k" "caller t k" "time < 2 ^ 31 - 1" "time \<noteq> 0" "mutex_owner mutex = Some ow" "ow \<noteq> t"
  shows "\<exists>k'. rt_mutex_take mutex time k = Inr (None, mutex, k') \<and> mutex_ok mutex k' \<and>
     stat (threads k' t) = RT_THREAD_SUSPEND \<and> t \<in> set (tlists k' (Suspended (ob_id mutex))) \<and>
     current_priority (threads k' ow) = min (current_priority (threads k ow)) (current_priority (threads k t))"
  using assms by (rule mutex_take_ok)

definition demo_mutex :: rt_mutex where
  "demo_mutex = \<lparr>ob_id = 4, ob_flag = 1, mutex_value = 0, original_priority = 25, mutex_hold = 1, mutex_owner = Some 2\<rparr>"

lemma demo_mutex_ok: "mutex_ok demo_mutex demo_kernel"
  using demo_kernel_inv by (simp add: mutex_ok_def demo_mutex_def thread_wf_def) (simp add: demo_kernel_def demo_thread_def)

theorem mutex_inherits_priority_witness:
  "\<exists>k'. rt_mutex_take demo_mutex (-1) demo_kernel = Inr (None, demo_mutex, k') \<and>
     current_priority (threads demo_kernel 2) = 25 \<and> current_priority (threads k' 2) = 10"
proof -
  have p: "current_priority (threads demo_kernel 2) = 25" "current_priority (threads demo_kernel 0) = 10"
    "mutex_owner demo_mutex = Some 2"
    by (simp_all add: demo_kernel_def demo_thread_def demo_mutex_def)
  show ?thesis using mutex_inherits_priority [OF demo_mutex_ok demo_caller, of "-1" 2] p by auto
qed

text \<open>
  The last release by the owner restores its priority and gives the mutex to the first waiting thread, which
  is awake then, or frees it; a mutex never has an owner and the value 1 at once.
\<close>

theorem mutex_release_hands_over:
  assumes "mutex_ok mutex k" "caller t k" "mutex_owner mutex = Some t" "mutex_hold mutex = 1"
  shows "\<exists>mutex' k'. rt_mutex_release mutex k = Inr (RT_EOK, mutex', k') \<and> mutex_ok mutex' k' \<and>
     (case tlists k (Suspended (ob_id mutex)) of
        [] \<Rightarrow> mutex_owner mutex' = None \<and> mutex_value mutex' = 1
      | w # ws \<Rightarrow> mutex_owner mutex' = Some w \<and> mutex_hold mutex' = 1 \<and> mutex_value mutex' = 0 \<and>
          original_priority mutex' = current_priority (threads k w) \<and>
          tlists k' (Suspended (ob_id mutex)) = ws \<and> stat (threads k' w) \<noteq> RT_THREAD_SUSPEND) \<and>
     current_priority (threads k' t) = original_priority mutex"
  using assms by (rule mutex_release_ok)

theorem mutex_release_hands_over_witness:
  "\<exists>mutex' k'. rt_mutex_release (demo_mutex\<lparr>mutex_owner := Some 0\<rparr>) demo_kernel = Inr (RT_EOK, mutex', k') \<and>
     mutex_owner mutex' = None \<and> mutex_value mutex' = 1 \<and> current_priority (threads k' 0) = 25"
proof -
  let ?m = "demo_mutex\<lparr>mutex_owner := Some 0\<rparr>"
  have "mutex_ok ?m demo_kernel"
    using demo_kernel_inv by (simp add: mutex_ok_def demo_mutex_def thread_wf_def) (simp add: demo_kernel_def demo_thread_def)
  from mutex_release_hands_over [OF this demo_caller] show ?thesis
    by (auto simp: demo_mutex_def demo_no_waiter)
qed

section \<open>Events: results\<close>

definition event_satisfied :: "rt_thread \<Rightarrow> u32 \<Rightarrow> bool" where
  "event_satisfied th bits \<longleftrightarrow>
     (if has_flag (event_info th) RT_EVENT_FLAG_AND then event_set th AND bits = event_set th
      else has_flag (event_info th) RT_EVENT_FLAG_OR \<and> event_set th AND bits \<noteq> 0)"

definition event_received :: "rt_thread \<Rightarrow> u32 \<Rightarrow> u32" where
  "event_received th bits = event_set th AND bits"

text \<open>
  Who is woken with which bits, and which bits are left: the threads are asked in their order, and one that is
  satisfied and has the CLEAR flag takes the bits it receives from those after it.
\<close>

fun event_deliver :: "(tid \<Rightarrow> rt_thread) \<Rightarrow> tid list \<Rightarrow> u32 \<Rightarrow> (tid \<times> u32) list \<times> u32" where
  "event_deliver th [] bits = ([], bits)"
| "event_deliver th (t # ts) bits =
     (if event_satisfied (th t) bits
      then apfst (Cons (t, event_received (th t) bits))
        (event_deliver th ts
          (if has_flag (event_info (th t)) RT_EVENT_FLAG_CLEAR then bits AND NOT (event_received (th t) bits) else bits))
      else event_deliver th ts bits)"

abbreviation woken :: "(tid \<times> u32) list \<times> u32 \<Rightarrow> tid set" where
  "woken d \<equiv> fst ` set (fst d)"

lemma event_deliver_woken: "woken (event_deliver th ts bits) \<subseteq> set ts"
  by (induction th ts bits rule: event_deliver.induct) (auto simp: subset_iff image_iff)

lemma event_deliver_cong: "(\<And>t. t \<in> set ts \<Longrightarrow> th t = th' t) \<Longrightarrow> event_deliver th ts bits = event_deliver th' ts bits"
  by (induction ts arbitrary: bits) auto

text \<open>Without the CLEAR flag the threads do not depend on each other.\<close>

lemma event_deliver_independent:
  "\<forall>t \<in> set ts. \<not> has_flag (event_info (th t)) RT_EVENT_FLAG_CLEAR \<Longrightarrow>
   event_deliver th ts bits =
     (map (\<lambda>t. (t, event_received (th t) bits)) (filter (\<lambda>t. event_satisfied (th t) bits) ts), bits)"
  by (induction ts) auto

lemma event_wake_step:
  "event_wake (t # ts) bits k =
     (if event_satisfied (threads k t) bits then
        (case event_wake ts
            (if has_flag (event_info (threads k t)) RT_EVENT_FLAG_CLEAR
             then bits AND NOT (event_received (threads k t) bits) else bits)
            (snd (rt_thread_resume t (upd_thread t
              (\<lambda>th. th\<lparr>event_set := event_received (threads k t) bits\<rparr>) k))) of (b, _, k') \<Rightarrow> (b, True, k'))
      else event_wake ts bits k)"
  by (auto simp: event_satisfied_def event_received_def Let_def split: prod.splits)

lemma event_wake_ok:
  assumes "kernel_inv k" "distinct ts" "\<forall>t \<in> set ts. stat (threads k t) = RT_THREAD_SUSPEND"
  shows "\<exists>k'. event_wake ts bits k =
       (snd (event_deliver (threads k) ts bits), fst (event_deliver (threads k) ts bits) \<noteq> [], k') \<and> kernel_inv k' \<and>
     (\<forall>l. waiting_list l \<longrightarrow> tlists k' l = filter (\<lambda>t. t \<notin> woken (event_deliver (threads k) ts bits)) (tlists k l)) \<and>
     (\<forall>(t, got) \<in> set (fst (event_deliver (threads k) ts bits)).
        stat (threads k' t) \<noteq> RT_THREAD_SUSPEND \<and> event_set (threads k' t) = got \<and> error (threads k' t) = error (threads k t)) \<and>
     (\<forall>t. t \<notin> woken (event_deliver (threads k) ts bits) \<longrightarrow> threads k' t = threads k t)"
  using assms
proof (induction ts arbitrary: k bits)
  case Nil
  then show ?case by simp
next
  case (Cons t ts)
  have ts: "t \<notin> set ts" "distinct ts" using Cons.prems(2) by auto
  show ?case
  proof (cases "event_satisfied (threads k t) bits")
    case False
    have "\<forall>t \<in> set ts. stat (threads k t) = RT_THREAD_SUSPEND" using Cons.prems(3) by simp
    from Cons.IH [OF Cons.prems(1) ts(2) this, of bits] False show ?thesis
      by (simp add: event_wake_step del: event_wake.simps(2))
  next
    case True
    let ?got = "event_received (threads k t) bits"
    let ?bits = "if has_flag (event_info (threads k t)) RT_EVENT_FLAG_CLEAR then bits AND NOT ?got else bits"
    let ?k1 = "upd_thread t (\<lambda>th. th\<lparr>event_set := ?got\<rparr>) k"
    let ?k2 = "snd (rt_thread_resume t ?k1)"
    have k1: "kernel_inv ?k1" "stat (threads ?k1 t) = RT_THREAD_SUSPEND"
      using Cons.prems by (simp_all add: kernel_inv_upd)
    note k2 = thread_resume_ok [OF k1]
    have other: "threads ?k2 t' = threads k t'" if "t' \<noteq> t" for t' using k2(4) [OF that] that by simp
    have susp: "\<forall>t' \<in> set ts. stat (threads ?k2 t') = RT_THREAD_SUSPEND"
      using Cons.prems(3) other ts(1) by (metis list.set_intros(2))
    let ?D = "event_deliver (threads k) ts ?bits"
    have D: "event_deliver (threads ?k2) ts ?bits = ?D"
      by (rule event_deliver_cong) (use other ts(1) in metis)
    have notin: "t \<notin> woken ?D" using event_deliver_woken ts(1) by blast
    obtain k' where k': "event_wake ts ?bits ?k2 = (snd ?D, fst ?D \<noteq> [], k')" "kernel_inv k'"
      and l: "\<forall>l. waiting_list l \<longrightarrow> tlists k' l = filter (\<lambda>t. t \<notin> woken ?D) (tlists ?k2 l)"
      and w: "\<forall>(t, got) \<in> set (fst ?D).
        stat (threads k' t) \<noteq> RT_THREAD_SUSPEND \<and> event_set (threads k' t) = got \<and> error (threads k' t) = error (threads ?k2 t)"
      and o: "\<forall>t. t \<notin> woken ?D \<longrightarrow> threads k' t = threads ?k2 t"
      using Cons.IH [OF k2(1) ts(2) susp, of ?bits] unfolding D by (elim exE conjE)
    have all: "event_deliver (threads k) (t # ts) bits = ((t, ?got) # fst ?D, snd ?D)"
      using True by (simp add: apfst_def map_prod_def split: prod.split)
    have wake: "event_wake (t # ts) bits k = (snd ?D, True, k')"
      unfolding event_wake_step using True k'(1) by simp
    have lists: "tlists k' l = filter (\<lambda>t'. t' \<notin> insert t (woken ?D)) (tlists k l)" if "waiting_list l" for l
      using l k2(2) [OF that] that by (auto simp: removeAll_filter_not_eq intro: filter_cong)
    have "threads k' t = threads ?k2 t" using o notin by blast
    then have first: "stat (threads k' t) \<noteq> RT_THREAD_SUSPEND" "event_set (threads k' t) = ?got"
      "error (threads k' t) = error (threads k t)"
      using k2(3) k2(5) [of t] by (simp_all add: thread_part_def)
    have rest: "stat (threads k' t') \<noteq> RT_THREAD_SUSPEND \<and> event_set (threads k' t') = got \<and>
        error (threads k' t') = error (threads k t')" if "(t', got) \<in> set (fst ?D)" for t' got
    proof -
      have "t' \<noteq> t" using notin that by force
      then show ?thesis using bspec [OF w that] other [of t'] by simp
    qed
    have same: "threads k' t' = threads k t'" if "t' \<notin> insert t (woken ?D)" for t'
      using o other [of t'] that by simp
    show ?thesis
      unfolding all using wake k'(2) lists first rest same by (intro exI [of _ k']) auto
  qed
qed

text \<open>
  C38. Sending an event adds its bits and asks the waiting threads in their order: one whose condition (all bits
  with the AND flag, some with the OR flag) the bits meet is woken and receives those it asked for, and if it has the
  CLEAR flag the threads after it no longer find them.  Exactly these threads are woken and their calls return
  success and these bits; the others stay in the list, in their order, still waiting; what is left is the new set of the
  event.  When no waiting thread clears, the bits are all kept and exactly the threads whose condition the bits meet are
  woken.  (A waiting thread has the error \<^verbatim>\<open>RT_EOK\<close>, which \<^verbatim>\<open>rt_event_recv\<close> sets.)
\<close>

theorem event_send_wakes:
  fixes event :: rt_event and k :: kernel and bits :: u32
  defines "ts \<equiv> tlists k (Suspended (ob_id event))" and "all \<equiv> ev_set event OR bits"
  defines "d \<equiv> event_deliver (threads k) ts all"
  assumes "kernel_inv k" "bits \<noteq> 0" "\<forall>t \<in> set ts. error (threads k t) = RT_EOK"
  shows "\<exists>k'. rt_event_send event bits k = Inr (RT_EOK, event\<lparr>ev_set := snd d\<rparr>, k') \<and> kernel_inv k' \<and>
     (\<forall>(t, got) \<in> set (fst d).
        stat (threads k' t) \<noteq> RT_THREAD_SUSPEND \<and> rt_event_recv_resumed t k' = (RT_EOK, Some got)) \<and>
     tlists k' (Suspended (ob_id event)) = filter (\<lambda>t. t \<notin> fst ` set (fst d)) ts \<and>
     (\<forall>t \<in> set ts. t \<notin> fst ` set (fst d) \<longrightarrow> stat (threads k' t) = RT_THREAD_SUSPEND) \<and>
     ((\<forall>t \<in> set ts. \<not> has_flag (event_info (threads k t)) RT_EVENT_FLAG_CLEAR) \<longrightarrow>
       snd d = all \<and> fst d = map (\<lambda>t. (t, event_set (threads k t) AND all)) (filter (\<lambda>t. event_satisfied (threads k t) all) ts))"
proof -
  let ?l = "Suspended (ob_id event)"
  have inv: "sched_inv {} k" using assms(4) by (simp add: kernel_inv_def)
  have dist: "distinct ts" using inv by (simp add: sched_inv_def lists_ok_def ts_def)
  have susp: "\<forall>t \<in> set ts. stat (threads k t) = RT_THREAD_SUSPEND"
    using waiting_member [OF inv, of ?l] by (simp add: ts_def)
  have sub: "woken d \<subseteq> set ts" unfolding d_def by (rule event_deliver_woken)
  obtain k1 where k1: "event_wake ts all k = (snd d, fst d \<noteq> [], k1)" "kernel_inv k1"
    and l: "\<forall>l. waiting_list l \<longrightarrow> tlists k1 l = filter (\<lambda>t. t \<notin> woken d) (tlists k l)"
    and w: "\<forall>(t, got) \<in> set (fst d).
      stat (threads k1 t) \<noteq> RT_THREAD_SUSPEND \<and> event_set (threads k1 t) = got \<and> error (threads k1 t) = error (threads k t)"
    using event_wake_ok [OF assms(4) dist susp, of all] unfolding d_def [symmetric] by (elim exE conjE)
  obtain k2 where k2: "rt_schedule k1 = Inr k2" "kernel_inv k2" using schedule_inv [OF k1(2)] by blast
  define k' where "k' = (if fst d \<noteq> [] then k2 else k1)"
  have send: "rt_event_send event bits k = Inr (RT_EOK, event\<lparr>ev_set := snd d\<rparr>, k')"
    using assms(5) k1(1) k2(1) by (simp add: rt_event_send_def k'_def ts_def all_def)
  have inv': "kernel_inv k'" using k1(2) k2(2) by (simp add: k'_def)
  have lists: "tlists k' ?l = filter (\<lambda>t. t \<notin> woken d) ts"
    using schedule_waiting_lists [OF _ k2(1), of ?l] k1(2) l by (simp add: k'_def kernel_inv_def ts_def)
  have woken': "stat (threads k' t) \<noteq> RT_THREAD_SUSPEND \<and> rt_event_recv_resumed t k' = (RT_EOK, Some got)"
    if t: "(t, got) \<in> set (fst d)" for t got
  proof -
    have "k' = k2" using t by (auto simp: k'_def)
    moreover have "t \<in> set ts" using sub t by force
    then have "error (threads k1 t) = RT_EOK" "event_set (threads k1 t) = got" "stat (threads k1 t) \<noteq> RT_THREAD_SUSPEND"
      using bspec [OF w t] assms(6) by auto
    ultimately show ?thesis
      using schedule_awake [OF k2(1), of t] schedule_thread_part [OF k2(1), of t]
      by (simp add: rt_event_recv_resumed_def thread_part_def)
  qed
  have stay: "stat (threads k' t) = RT_THREAD_SUSPEND" if "t \<in> set ts" "t \<notin> woken d" for t
    using waiting_member [of "{}" k' ?l t] inv' lists that by (simp add: kernel_inv_def)
  have indep: "(\<forall>t \<in> set ts. \<not> has_flag (event_info (threads k t)) RT_EVENT_FLAG_CLEAR) \<longrightarrow>
    snd d = all \<and> fst d = map (\<lambda>t. (t, event_set (threads k t) AND all)) (filter (\<lambda>t. event_satisfied (threads k t) all) ts)"
    using event_deliver_independent [of ts "threads k" all] by (simp add: d_def event_received_def)
  from send inv' lists woken' stay indep show ?thesis by (intro exI [of _ k']) blast
qed

text \<open>Two waiting threads: the first one takes the bits 2 and 4 away, so the second one, which waits for 4, is not woken.\<close>

definition demo_event_kernel :: kernel where
  "demo_event_kernel = demo_kernel\<lparr>
     threads := (threads demo_kernel)(
       2 := (demo_thread RT_THREAD_SUSPEND 25)\<lparr>event_set := 6, event_info := 5\<rparr>,
       3 := (demo_thread RT_THREAD_SUSPEND 25)\<lparr>event_set := 4, event_info := 2\<rparr>),
     tlists := (\<lambda>l. if l = Ready 25 then [1] else if l = Suspended 5 then [2, 3] else [])\<rparr>"

lemma demo_event_inv: "kernel_inv demo_event_kernel"
  using mask_bit [of 25]
  by (auto simp: kernel_inv_def timers_inv_def sched_inv_def group_ok_def lists_ok_def threads_ok_def thread_wf_def
      demo_event_kernel_def demo_kernel_def demo_thread_def demo_timer_def)

theorem event_send_wakes_witness:
  "let event = \<lparr>ob_id = 5, ob_flag = 0, ev_set = 3\<rparr> in
   \<exists>k'. rt_event_send event 4 demo_event_kernel = Inr (RT_EOK, event\<lparr>ev_set := 1\<rparr>, k') \<and>
     tlists k' (Suspended 5) = [3] \<and> rt_event_recv_resumed 2 k' = (RT_EOK, Some 6)"
proof -
  let ?e = "\<lparr>ob_id = 5, ob_flag = 0, ev_set = 3\<rparr>"
  have l: "tlists demo_event_kernel (Suspended (ob_id ?e)) = [2, 3]" by (simp add: demo_event_kernel_def)
  have d: "event_deliver (threads demo_event_kernel) [2, 3] (ev_set ?e OR 4) = ([(2, 6)], 1)"
    by (simp add: demo_event_kernel_def demo_kernel_def demo_thread_def event_satisfied_def event_received_def has_flag_def
        event_flags)
  have e: "\<forall>t \<in> set [2, 3]. error (threads demo_event_kernel t) = RT_EOK"
    by (simp add: demo_event_kernel_def demo_kernel_def demo_thread_def rt_errors)
  have "(4 :: u32) \<noteq> 0" by simp
  from event_send_wakes [OF demo_event_inv this, of ?e, unfolded l d, OF e] show ?thesis
    by (auto simp: Let_def)
qed

end
