(* ===== verification/Ipc_Queue.thy ===== *)
theory Ipc_Queue
  imports Ipc
begin

unbundle bit_operations_syntax

text \<open>
  \<^verbatim>\<open>ipc.c\<close>, second part: mailboxes and message queues.  Receivers wait in the list of the object, senders in
  its list \<open>Senders\<close>.  A call that waits keeps its remaining time-out and the tick at which it began to wait;
  the function \<open>\<dots>_resumed\<close> takes them up again and may wait once more.

  A message queue is modelled with its links: a node is the number of a block of the message pool,
  \<open>mq_next\<close> its pointer and \<open>mq_data\<close> the bytes behind it.  The code enables interrupts while it copies a message, so
  its calls are built from the parts between those points (\<open>mq_grab\<close>, \<open>mq_fill\<close>, \<open>mq_link\<close>, \<open>mq_unlink\<close>, \<open>link_free\<close>);
  the relation \<open>mq_step\<close> interleaves the parts of any number of calls.  A thread that is not there (\<^verbatim>\<open>thread\<close> is
  null before the scheduler runs) only matters where the code uses it, when the call has to wait.
\<close>

datatype ipc_result = Returned int | Waits int tick

text \<open>What is left of a time-out that started to run at a tick: 32-bit arithmetic, and not below zero.\<close>

definition remaining_timeout :: "int \<Rightarrow> tick \<Rightarrow> tick \<Rightarrow> int" where
  "remaining_timeout timeout start now =
     (if 0 < timeout then max 0 (u2i (i2u timeout - (now - start))) else timeout)"

section \<open>Mailboxes\<close>

record rt_mailbox = ipc_object +
  mb_pool :: "u32 list"
  mb_size :: nat
  mb_entry :: nat
  in_offset :: nat
  out_offset :: nat

definition rt_mb_init :: "nat \<Rightarrow> u32 list \<Rightarrow> nat \<Rightarrow> u8 \<Rightarrow> kernel \<Rightarrow> rt_mailbox \<times> kernel" where
  "rt_mb_init n pool sz flag k =
     (\<lparr>ob_id = n, ob_flag = flag, mb_pool = pool, mb_size = sz mod 65536, mb_entry = 0, in_offset = 0, out_offset = 0\<rparr>,
      k\<lparr>tlists := (tlists k)(Suspended n := [], Senders n := [])\<rparr>)"

definition rt_mb_detach :: "rt_mailbox \<Rightarrow> kernel \<Rightarrow> kernel option" where
  "rt_mb_detach mb k =
     (case rt_ipc_list_resume_all (Suspended (ob_id mb)) k of
        None \<Rightarrow> None | Some k \<Rightarrow> rt_ipc_list_resume_all (Senders (ob_id mb)) k)"

text \<open>Storing the mail and waking a receiver, once there is room.\<close>

definition mb_store :: "rt_mailbox \<Rightarrow> u32 \<Rightarrow> rt_mailbox res" where
  "mb_store mb v =
     bind_res (arr_put (mb_pool mb) (in_offset mb) v) (\<lambda>pool.
       Inr (mb\<lparr>mb_pool := pool,
         in_offset := (if mb_size mb \<le> in_offset mb + 1 then 0 else in_offset mb + 1),
         mb_entry := (mb_entry mb + 1) mod 65536\<rparr>))"

definition ipc_wake :: "list_id \<Rightarrow> kernel \<Rightarrow> kernel res" where
  "ipc_wake l k = (if tlists k l \<noteq> [] then bind_res (rt_ipc_list_resume l k) rt_schedule else Inr k)"

definition mb_put :: "rt_mailbox \<Rightarrow> u32 \<Rightarrow> kernel \<Rightarrow> (ipc_result \<times> rt_mailbox \<times> kernel) res" where
  "mb_put mb v k =
     bind_res (mb_store mb v) (\<lambda>mb.
     bind_res (ipc_wake (Suspended (ob_id mb)) k) (\<lambda>k. Inr (Returned RT_EOK, mb, k)))"

text \<open>The loop: while the mailbox is full, fail without a time-out or wait among the senders.\<close>

definition mb_send_loop :: "rt_mailbox \<Rightarrow> u32 \<Rightarrow> int \<Rightarrow> tid \<Rightarrow> kernel \<Rightarrow> (ipc_result \<times> rt_mailbox \<times> kernel) res" where
  "mb_send_loop mb v timeout t k =
     (if mb_entry mb = mb_size mb then
        (let k = set_error t RT_EOK k in
         if timeout = 0 then Inr (Returned (- RT_EFULL), mb, k)
         else bind_res (suspend_and_wait (Senders (ob_id mb)) t (ob_flag mb) timeout k) (\<lambda>k'.
                Inr (Waits timeout (if 0 < timeout then rt_tick k else 0), mb, k')))
      else mb_put mb v k)"

definition rt_mb_send_wait :: "rt_mailbox \<Rightarrow> u32 \<Rightarrow> int \<Rightarrow> kernel \<Rightarrow> (ipc_result \<times> rt_mailbox \<times> kernel) res" where
  "rt_mb_send_wait mb v timeout k =
     (if mb_entry mb = mb_size mb \<and> timeout = 0 then Inr (Returned (- RT_EFULL), mb, k)
      else if mb_entry mb = mb_size mb then
        (case rt_current_thread k of None \<Rightarrow> Inl NullDeref | Some t \<Rightarrow> mb_send_loop mb v timeout t k)
      else mb_put mb v k)"

definition rt_mb_send_wait_resumed ::
    "rt_mailbox \<Rightarrow> u32 \<Rightarrow> int \<Rightarrow> tick \<Rightarrow> tid \<Rightarrow> kernel \<Rightarrow> (ipc_result \<times> rt_mailbox \<times> kernel) res" where
  "rt_mb_send_wait_resumed mb v timeout start t k =
     (if error (threads k t) \<noteq> RT_EOK then Inr (Returned (error (threads k t)), mb, k)
      else mb_send_loop mb v (remaining_timeout timeout start (rt_tick k)) t k)"

definition rt_mb_send :: "rt_mailbox \<Rightarrow> u32 \<Rightarrow> kernel \<Rightarrow> (ipc_result \<times> rt_mailbox \<times> kernel) res" where
  "rt_mb_send mb v k = rt_mb_send_wait mb v 0 k"

text \<open>Receiving; the mail is \<open>None\<close> when nothing is stored through \<^verbatim>\<open>value\<close>.\<close>

definition mb_fetch :: "rt_mailbox \<Rightarrow> (u32 \<times> rt_mailbox) res" where
  "mb_fetch mb =
     bind_res (arr_get (mb_pool mb) (out_offset mb)) (\<lambda>v.
       Inr (v, mb\<lparr>out_offset := (if mb_size mb \<le> out_offset mb + 1 then 0 else out_offset mb + 1),
         mb_entry := mb_entry mb - 1\<rparr>))"

definition mb_get :: "rt_mailbox \<Rightarrow> kernel \<Rightarrow> (ipc_result \<times> u32 option \<times> rt_mailbox \<times> kernel) res" where
  "mb_get mb k =
     bind_res (mb_fetch mb) (\<lambda>(v, mb).
     bind_res (ipc_wake (Senders (ob_id mb)) k) (\<lambda>k. Inr (Returned RT_EOK, Some v, mb, k)))"

definition mb_recv_loop :: "rt_mailbox \<Rightarrow> int \<Rightarrow> tid \<Rightarrow> kernel \<Rightarrow> (ipc_result \<times> u32 option \<times> rt_mailbox \<times> kernel) res" where
  "mb_recv_loop mb timeout t k =
     (if mb_entry mb = 0 then
        (if timeout = 0 then Inr (Returned (- RT_ETIMEOUT), None, mb, set_error t (- RT_ETIMEOUT) k)
         else
           (let k = set_error t RT_EOK k in
            bind_res (suspend_and_wait (Suspended (ob_id mb)) t (ob_flag mb) timeout k) (\<lambda>k'.
              Inr (Waits timeout (if 0 < timeout then rt_tick k else 0), None, mb, k'))))
      else mb_get mb k)"

definition rt_mb_recv :: "rt_mailbox \<Rightarrow> int \<Rightarrow> kernel \<Rightarrow> (ipc_result \<times> u32 option \<times> rt_mailbox \<times> kernel) res" where
  "rt_mb_recv mb timeout k =
     (if mb_entry mb = 0 \<and> timeout = 0 then Inr (Returned (- RT_ETIMEOUT), None, mb, k)
      else if mb_entry mb = 0 then
        (case rt_current_thread k of None \<Rightarrow> Inl NullDeref | Some t \<Rightarrow> mb_recv_loop mb timeout t k)
      else mb_get mb k)"

definition rt_mb_recv_resumed ::
    "rt_mailbox \<Rightarrow> int \<Rightarrow> tick \<Rightarrow> tid \<Rightarrow> kernel \<Rightarrow> (ipc_result \<times> u32 option \<times> rt_mailbox \<times> kernel) res" where
  "rt_mb_recv_resumed mb timeout start t k =
     (if error (threads k t) \<noteq> RT_EOK then Inr (Returned (error (threads k t)), None, mb, k)
      else mb_recv_loop mb (remaining_timeout timeout start (rt_tick k)) t k)"

definition rt_mb_control :: "rt_mailbox \<Rightarrow> ipc_cmd \<Rightarrow> kernel \<Rightarrow> (int \<times> rt_mailbox \<times> kernel) res option" where
  "rt_mb_control mb cmd k =
     (case cmd of
        IPC_CMD_RESET _ \<Rightarrow>
          (case rt_mb_detach mb k of
             None \<Rightarrow> None
           | Some k \<Rightarrow>
               Some (bind_res (rt_schedule k) (\<lambda>k.
                 Inr (RT_EOK, mb\<lparr>mb_entry := 0, in_offset := 0, out_offset := 0\<rparr>, k))))
      | IPC_CMD_OTHER \<Rightarrow> Some (Inr (- RT_ERROR, mb, k)))"

section \<open>Message queues\<close>

record rt_messagequeue = ipc_object +
  mq_msg_size :: nat
  mq_max_msgs :: nat
  mq_entry :: nat
  mq_next :: "nat \<Rightarrow> nat option"
  mq_data :: "nat \<Rightarrow> u8 list"
  mq_head :: "nat option"
  mq_tail :: "nat option"
  mq_free :: "nat option"

text \<open>\<^verbatim>\<open>RT_ALIGN(size, 4)\<close>; a message takes its size and a pointer of 4 bytes.\<close>

definition rt_align4 :: "nat \<Rightarrow> nat" where
  "rt_align4 n = (n + 3) - (n + 3) mod 4"

definition link_free :: "nat \<Rightarrow> rt_messagequeue \<Rightarrow> rt_messagequeue" where
  "link_free msg mq = mq\<lparr>mq_next := (mq_next mq)(msg := mq_free mq), mq_free := Some msg\<rparr>"

definition rt_mq_init :: "nat \<Rightarrow> nat \<Rightarrow> nat \<Rightarrow> u8 \<Rightarrow> (nat \<Rightarrow> nat option) \<Rightarrow> (nat \<Rightarrow> u8 list) \<Rightarrow> kernel \<Rightarrow>
    rt_messagequeue \<times> kernel" where
  "rt_mq_init n msg_size pool_size flag links bytes k =
     (let sz = rt_align4 msg_size mod 65536;
          max_msgs = pool_size div (sz + 4) mod 65536;
          mq = \<lparr>ob_id = n, ob_flag = flag, mq_msg_size = sz, mq_max_msgs = max_msgs, mq_entry = 0,
                mq_next = links, mq_data = bytes, mq_head = None, mq_tail = None, mq_free = None\<rparr>
      in (fold link_free [0..<max_msgs] mq, k\<lparr>tlists := (tlists k)(Suspended n := [], Senders n := [])\<rparr>))"

definition rt_mq_detach :: "rt_messagequeue \<Rightarrow> kernel \<Rightarrow> kernel option" where
  "rt_mq_detach mq k =
     (case rt_ipc_list_resume_all (Suspended (ob_id mq)) k of
        None \<Rightarrow> None | Some k \<Rightarrow> rt_ipc_list_resume_all (Senders (ob_id mq)) k)"

text \<open>Copying a message over the first bytes of a block.\<close>

definition copy_msg :: "u8 list \<Rightarrow> u8 list \<Rightarrow> u8 list" where
  "copy_msg xs block = xs @ drop (length xs) block"

text \<open>Taking a block off the free list, with interrupts disabled.\<close>

definition mq_grab :: "nat \<Rightarrow> rt_messagequeue \<Rightarrow> rt_messagequeue" where
  "mq_grab msg mq = mq\<lparr>mq_free := mq_next mq msg\<rparr>"

text \<open>Filling it, with interrupts enabled.\<close>

definition mq_copy :: "nat \<Rightarrow> u8 list \<Rightarrow> rt_messagequeue \<Rightarrow> rt_messagequeue" where
  "mq_copy msg buffer mq = mq\<lparr>mq_data := (mq_data mq)(msg := copy_msg buffer (mq_data mq msg))\<rparr>"

definition mq_fill :: "nat \<Rightarrow> u8 list \<Rightarrow> rt_messagequeue \<Rightarrow> rt_messagequeue" where
  "mq_fill msg buffer mq = mq_copy msg buffer (mq\<lparr>mq_next := (mq_next mq)(msg := None)\<rparr>)"

text \<open>Linking it to the end of the queue, with interrupts disabled.\<close>

definition mq_link :: "nat \<Rightarrow> rt_messagequeue \<Rightarrow> rt_messagequeue" where
  "mq_link msg mq =
     (let mq = (case mq_tail mq of
                  Some old \<Rightarrow> mq\<lparr>mq_next := (mq_next mq)(old := Some msg)\<rparr>
                | None \<Rightarrow> mq);
          mq = mq\<lparr>mq_tail := Some msg\<rparr>;
          mq = (if mq_head mq = None then mq\<lparr>mq_head := Some msg\<rparr> else mq)
      in mq\<lparr>mq_entry := (mq_entry mq + 1) mod 65536\<rparr>)"

definition mq_append :: "nat \<Rightarrow> u8 list \<Rightarrow> rt_messagequeue \<Rightarrow> rt_messagequeue" where
  "mq_append msg buffer mq = mq_link msg (mq_fill msg buffer (mq_grab msg mq))"

definition mq_put ::
    "rt_messagequeue \<Rightarrow> u8 list \<Rightarrow> nat \<Rightarrow> kernel \<Rightarrow> (ipc_result \<times> rt_messagequeue \<times> kernel) res" where
  "mq_put mq buffer msg k =
     (let mq = mq_append msg buffer mq in
      bind_res (ipc_wake (Suspended (ob_id mq)) k) (\<lambda>k. Inr (Returned RT_EOK, mq, k)))"

text \<open>The loop: while there is no free block, fail without a time-out or wait among the senders.\<close>

definition mq_send_loop ::
    "rt_messagequeue \<Rightarrow> u8 list \<Rightarrow> int \<Rightarrow> tid \<Rightarrow> kernel \<Rightarrow> (ipc_result \<times> rt_messagequeue \<times> kernel) res" where
  "mq_send_loop mq buffer timeout t k =
     (case mq_free mq of
        None \<Rightarrow>
          (let k = set_error t RT_EOK k in
           if timeout = 0 then Inr (Returned (- RT_EFULL), mq, k)
           else bind_res (suspend_and_wait (Senders (ob_id mq)) t (ob_flag mq) timeout k) (\<lambda>k'.
                  Inr (Waits timeout (if 0 < timeout then rt_tick k else 0), mq, k')))
      | Some msg \<Rightarrow> mq_put mq buffer msg k)"

definition rt_mq_send_wait ::
    "rt_messagequeue \<Rightarrow> u8 list \<Rightarrow> int \<Rightarrow> kernel \<Rightarrow> (ipc_result \<times> rt_messagequeue \<times> kernel) res" where
  "rt_mq_send_wait mq buffer timeout k =
     (if buffer = [] then Inl AssertFailed
      else if mq_msg_size mq < length buffer then Inr (Returned (- RT_ERROR), mq, k)
      else
        (case mq_free mq of
           None \<Rightarrow>
             if timeout = 0 then Inr (Returned (- RT_EFULL), mq, k)
             else (case rt_current_thread k of None \<Rightarrow> Inl NullDeref | Some t \<Rightarrow> mq_send_loop mq buffer timeout t k)
         | Some msg \<Rightarrow> mq_put mq buffer msg k))"

definition rt_mq_send_wait_resumed ::
    "rt_messagequeue \<Rightarrow> u8 list \<Rightarrow> int \<Rightarrow> tick \<Rightarrow> tid \<Rightarrow> kernel \<Rightarrow> (ipc_result \<times> rt_messagequeue \<times> kernel) res" where
  "rt_mq_send_wait_resumed mq buffer timeout start t k =
     (if error (threads k t) \<noteq> RT_EOK then Inr (Returned (error (threads k t)), mq, k)
      else mq_send_loop mq buffer (remaining_timeout timeout start (rt_tick k)) t k)"

definition rt_mq_send :: "rt_messagequeue \<Rightarrow> u8 list \<Rightarrow> kernel \<Rightarrow> (ipc_result \<times> rt_messagequeue \<times> kernel) res" where
  "rt_mq_send mq buffer k = rt_mq_send_wait mq buffer 0 k"

text \<open>An urgent message goes to the head of the queue.\<close>

definition mq_link_first :: "nat \<Rightarrow> rt_messagequeue \<Rightarrow> rt_messagequeue" where
  "mq_link_first msg mq =
     (let mq = mq\<lparr>mq_next := (mq_next mq)(msg := mq_head mq), mq_head := Some msg\<rparr>;
          mq = (if mq_tail mq = None then mq\<lparr>mq_tail := Some msg\<rparr> else mq)
      in mq\<lparr>mq_entry := (mq_entry mq + 1) mod 65536\<rparr>)"

definition mq_prepend :: "nat \<Rightarrow> u8 list \<Rightarrow> rt_messagequeue \<Rightarrow> rt_messagequeue" where
  "mq_prepend msg buffer mq = mq_link_first msg (mq_copy msg buffer (mq_grab msg mq))"

definition rt_mq_urgent :: "rt_messagequeue \<Rightarrow> u8 list \<Rightarrow> kernel \<Rightarrow> (ipc_result \<times> rt_messagequeue \<times> kernel) res" where
  "rt_mq_urgent mq buffer k =
     (if buffer = [] then Inl AssertFailed
      else if mq_msg_size mq < length buffer then Inr (Returned (- RT_ERROR), mq, k)
      else
        (case mq_free mq of
           None \<Rightarrow> Inr (Returned (- RT_EFULL), mq, k)
         | Some msg \<Rightarrow>
             (let mq = mq_prepend msg buffer mq in
              bind_res (ipc_wake (Suspended (ob_id mq)) k) (\<lambda>k. Inr (Returned RT_EOK, mq, k)))))"

text \<open>
  Unlinking the first message with interrupts disabled, copying it out with interrupts enabled, and freeing its block
  with interrupts disabled again.  A queue that is reset unlinks its messages in the same way.
\<close>

definition mq_unlink :: "nat \<Rightarrow> rt_messagequeue \<Rightarrow> rt_messagequeue" where
  "mq_unlink msg mq =
     (let mq = mq\<lparr>mq_head := mq_next mq msg\<rparr>
      in if mq_tail mq = Some msg then mq\<lparr>mq_tail := None\<rparr> else mq)"

definition mq_detach :: "nat \<Rightarrow> rt_messagequeue \<Rightarrow> rt_messagequeue" where
  "mq_detach msg mq = (mq_unlink msg mq)\<lparr>mq_entry := mq_entry mq - 1\<rparr>"

definition mq_copy_out :: "nat \<Rightarrow> nat \<Rightarrow> rt_messagequeue \<Rightarrow> u8 list" where
  "mq_copy_out msg sz mq = take (if mq_msg_size mq < sz then mq_msg_size mq else sz) (mq_data mq msg)"

definition mq_take :: "nat \<Rightarrow> nat \<Rightarrow> rt_messagequeue \<Rightarrow> u8 list \<times> rt_messagequeue" where
  "mq_take msg sz mq = (let mq = mq_detach msg mq in (mq_copy_out msg sz mq, link_free msg mq))"

definition mq_get ::
    "rt_messagequeue \<Rightarrow> nat \<Rightarrow> kernel \<Rightarrow> (ipc_result \<times> u8 list \<times> rt_messagequeue \<times> kernel) res" where
  "mq_get mq sz k =
     (case mq_head mq of
        None \<Rightarrow> Inl NullDeref
      | Some msg \<Rightarrow>
          (let (bytes, mq) = mq_take msg sz mq in
           bind_res (ipc_wake (Senders (ob_id mq)) k) (\<lambda>k. Inr (Returned RT_EOK, bytes, mq, k))))"

definition mq_recv_loop ::
    "rt_messagequeue \<Rightarrow> nat \<Rightarrow> int \<Rightarrow> tid \<Rightarrow> kernel \<Rightarrow> (ipc_result \<times> u8 list \<times> rt_messagequeue \<times> kernel) res" where
  "mq_recv_loop mq sz timeout t k =
     (if mq_entry mq = 0 then
        (if timeout = 0 then Inr (Returned (- RT_ETIMEOUT), [], mq, set_error t (- RT_ETIMEOUT) k)
         else
           (let k = set_error t RT_EOK k in
            bind_res (suspend_and_wait (Suspended (ob_id mq)) t (ob_flag mq) timeout k) (\<lambda>k'.
              Inr (Waits timeout (if 0 < timeout then rt_tick k else 0), [], mq, k'))))
      else mq_get mq sz k)"

text \<open>Receiving asserts that there is a thread before it touches it.\<close>

definition rt_mq_recv ::
    "rt_messagequeue \<Rightarrow> nat \<Rightarrow> int \<Rightarrow> kernel \<Rightarrow> (ipc_result \<times> u8 list \<times> rt_messagequeue \<times> kernel) res" where
  "rt_mq_recv mq sz timeout k =
     (if sz = 0 then Inl AssertFailed
      else if mq_entry mq = 0 \<and> timeout = 0 then Inr (Returned (- RT_ETIMEOUT), [], mq, k)
      else if mq_entry mq = 0 then
        (case rt_current_thread k of None \<Rightarrow> Inl AssertFailed | Some t \<Rightarrow> mq_recv_loop mq sz timeout t k)
      else mq_get mq sz k)"

definition rt_mq_recv_resumed ::
    "rt_messagequeue \<Rightarrow> nat \<Rightarrow> int \<Rightarrow> tick \<Rightarrow> tid \<Rightarrow> kernel \<Rightarrow> (ipc_result \<times> u8 list \<times> rt_messagequeue \<times> kernel) res" where
  "rt_mq_recv_resumed mq sz timeout start t k =
     (if error (threads k t) \<noteq> RT_EOK then Inr (Returned (error (threads k t)), [], mq, k)
      else mq_recv_loop mq sz (remaining_timeout timeout start (rt_tick k)) t k)"

text \<open>Releasing all messages; the loop ends when the links of the queue end.\<close>

partial_function (option) mq_release_all :: "rt_messagequeue \<Rightarrow> rt_messagequeue option" where
  "mq_release_all mq =
     (case mq_head mq of
        None \<Rightarrow> Some mq
      | Some msg \<Rightarrow> mq_release_all (link_free msg (mq_unlink msg mq)))"

definition rt_mq_control :: "rt_messagequeue \<Rightarrow> ipc_cmd \<Rightarrow> kernel \<Rightarrow> (int \<times> rt_messagequeue \<times> kernel) res option" where
  "rt_mq_control mq cmd k =
     (case cmd of
        IPC_CMD_RESET _ \<Rightarrow>
          (case rt_mq_detach mq k of
             None \<Rightarrow> None
           | Some k \<Rightarrow>
               (case mq_release_all mq of
                  None \<Rightarrow> None
                | Some mq \<Rightarrow> Some (bind_res (rt_schedule k) (\<lambda>k. Inr (RT_EOK, mq\<lparr>mq_entry := 0\<rparr>, k)))))
      | IPC_CMD_OTHER \<Rightarrow> Some (Inr (- RT_ERROR, mq, k)))"

section \<open>Queues of messages\<close>

text \<open>What a queue of messages promises: storing appends, fetching removes the oldest, unless it is full or empty.\<close>

datatype 'm message_op = Send 'm | Receive

fun run_messages :: "('q \<Rightarrow> 'm \<Rightarrow> 'q option) \<Rightarrow> ('q \<Rightarrow> ('m \<times> 'q) option) \<Rightarrow> 'q \<Rightarrow> 'm message_op list \<Rightarrow>
    'm list \<times> 'm list \<times> 'q" where
  "run_messages put get q [] = ([], [], q)"
| "run_messages put get q (Send m # ops) =
     (case put q m of
        None \<Rightarrow> run_messages put get q ops
      | Some q' \<Rightarrow> (case run_messages put get q' ops of (i, out, q'') \<Rightarrow> (m # i, out, q'')))"
| "run_messages put get q (Receive # ops) =
     (case get q of
        None \<Rightarrow> run_messages put get q ops
      | Some (m, q') \<Rightarrow> (case run_messages put get q' ops of (i, out, q'') \<Rightarrow> (i, m # out, q'')))"

locale message_queue =
  fixes inv :: "'q \<Rightarrow> bool" and abs :: "'q \<Rightarrow> 'm list" and cap :: "'q \<Rightarrow> nat" and ok :: "'m \<Rightarrow> bool"
    and put :: "'q \<Rightarrow> 'm \<Rightarrow> 'q option" and get :: "'q \<Rightarrow> ('m \<times> 'q) option"
  assumes put_full: "inv q \<Longrightarrow> ok m \<Longrightarrow> put q m = None \<longleftrightarrow> length (abs q) = cap q"
    and put_some: "inv q \<Longrightarrow> ok m \<Longrightarrow> put q m = Some q' \<Longrightarrow> inv q' \<and> abs q' = abs q @ [m] \<and> cap q' = cap q"
    and get_empty: "inv q \<Longrightarrow> get q = None \<longleftrightarrow> abs q = []"
    and get_some: "inv q \<Longrightarrow> get q = Some (m, q') \<Longrightarrow> inv q' \<and> abs q = m # abs q' \<and> cap q' = cap q"
    and bounded: "inv q \<Longrightarrow> length (abs q) \<le> cap q"
begin

text \<open>First in, first out, over any sequence of calls: nothing is lost, doubled or reordered.\<close>

lemma run_fifo:
  assumes "inv q" "\<And>m. Send m \<in> set ops \<Longrightarrow> ok m" "run_messages put get q ops = (i, out, q')"
  shows "inv q' \<and> abs q @ i = out @ abs q' \<and> cap q' = cap q"
  using assms
proof (induction ops arbitrary: q i out)
  case (Cons oper ops)
  have ok: "\<And>m. Send m \<in> set ops \<Longrightarrow> ok m" using Cons.prems(2) by simp
  show ?case
  proof (cases oper)
    case (Send m)
    show ?thesis
    proof (cases "put q m")
      case None
      then show ?thesis using Cons.IH [OF Cons.prems(1) ok] Cons.prems(3) Send by simp
    next
      case (Some q1)
      obtain i1 where "run_messages put get q1 ops = (i1, out, q')" "i = m # i1"
        using Cons.prems(3) Some Send by (auto split: prod.splits)
      then show ?thesis
        using Cons.IH [of q1 i1 out] put_some [OF Cons.prems(1) _ Some] Cons.prems(2) Send ok by auto
    qed
  next
    case Receive
    show ?thesis
    proof (cases "get q")
      case None
      then show ?thesis using Cons.IH [OF Cons.prems(1) ok] Cons.prems(3) Receive by simp
    next
      case (Some p)
      obtain m q1 where p: "get q = Some (m, q1)" using Some by (cases p) auto
      obtain out1 where "run_messages put get q1 ops = (i, out1, q')" "out = m # out1"
        using Cons.prems(3) p Receive by (auto split: prod.splits)
      then show ?thesis using Cons.IH [of q1 i out1] get_some [OF Cons.prems(1) p] ok by auto
    qed
  qed
qed simp

end

section \<open>The mailbox as a queue\<close>

definition mb_inv :: "rt_mailbox \<Rightarrow> bool" where
  "mb_inv mb \<longleftrightarrow> length (mb_pool mb) = mb_size mb \<and> 0 < mb_size mb \<and> mb_size mb < 65536 \<and> mb_entry mb \<le> mb_size mb \<and>
     out_offset mb < mb_size mb \<and> in_offset mb = (out_offset mb + mb_entry mb) mod mb_size mb"

definition mails :: "rt_mailbox \<Rightarrow> u32 list" where
  "mails mb = map (\<lambda>i. mb_pool mb ! ((out_offset mb + i) mod mb_size mb)) [0..<mb_entry mb]"

text \<open>Calls that do not wait.  Nothing is stored, or fetched, when the call fails.\<close>

definition mb_try_put :: "rt_mailbox \<times> kernel \<Rightarrow> u32 \<Rightarrow> (rt_mailbox \<times> kernel) option" where
  "mb_try_put q v =
     (case rt_mb_send (fst q) v (snd q) of
        Inr (Returned c, q') \<Rightarrow> if c = RT_EOK then Some q' else None
      | _ \<Rightarrow> None)"

definition mb_try_get :: "rt_mailbox \<times> kernel \<Rightarrow> (u32 \<times> rt_mailbox \<times> kernel) option" where
  "mb_try_get q =
     (case rt_mb_recv (fst q) 0 (snd q) of
        Inr (Returned c, Some v, q') \<Rightarrow> if c = RT_EOK then Some (v, q') else None
      | _ \<Rightarrow> None)"

lemma mod_step: "i < n \<Longrightarrow> (if n \<le> i + 1 then 0 else i + 1) = (i + 1) mod (n :: nat)"
  by (auto simp: mod_if)

lemma mb_store_ok:
  assumes "mb_inv mb" "mb_entry mb \<noteq> mb_size mb"
  obtains mb' where "mb_store mb v = Inr mb'" "mb_inv mb'" "mails mb' = mails mb @ [v]" "mb_size mb' = mb_size mb"
    "ob_id mb' = ob_id mb" "ob_flag mb' = ob_flag mb"
proof -
  define n where "n = mb_size mb"
  have n: "0 < n" "in_offset mb = (out_offset mb + mb_entry mb) mod n" "mb_entry mb < n" "n < 65536"
    "length (mb_pool mb) = n" "out_offset mb < n"
    using assms by (auto simp: mb_inv_def n_def)
  have off: "in_offset mb < n" using n by simp
  define mb' where "mb' = mb\<lparr>mb_pool := (mb_pool mb)[in_offset mb := v], in_offset := (in_offset mb + 1) mod n,
    mb_entry := mb_entry mb + 1\<rparr>"
  have store: "mb_store mb v = Inr mb'"
    using off n mod_step [OF off] by (simp add: mb_store_def mb'_def flip: n_def)
  have inv: "mb_inv mb'"
    using n by (simp add: mb_inv_def mb'_def mod_simps flip: n_def)
  have neq: "(out_offset mb + i) mod n \<noteq> in_offset mb" if "i < mb_entry mb" for i
  proof
    assume "(out_offset mb + i) mod n = in_offset mb"
    then have "(out_offset mb + i) mod n = (out_offset mb + mb_entry mb) mod n" using n(2) by simp
    then have "n dvd mb_entry mb - i"
      using mod_eq_dvd_iff_nat [of "out_offset mb + i" "out_offset mb + mb_entry mb" n] that by simp
    then show False using that n(3) nat_dvd_not_less [of "mb_entry mb - i" n] by simp
  qed
  have old: "(mb_pool mb)[in_offset mb := v] ! ((out_offset mb + i) mod n) = mb_pool mb ! ((out_offset mb + i) mod n)"
    if "i < mb_entry mb" for i
    by (rule nth_list_update_neq) (use neq [OF that] in metis)
  have new: "(mb_pool mb)[in_offset mb := v] ! ((out_offset mb + mb_entry mb) mod n) = v"
    using off n(2,5) by (metis nth_list_update_eq)
  have "mails mb' = map (\<lambda>i. (mb_pool mb)[in_offset mb := v] ! ((out_offset mb + i) mod n)) [0..<Suc (mb_entry mb)]"
    by (simp add: mails_def mb'_def flip: n_def)
  also have "\<dots> = mails mb @ [v]"
    using old new by (simp add: mails_def flip: n_def)
  finally have "mails mb' = mails mb @ [v]" .
  then show ?thesis using that [OF store inv] by (simp add: mb'_def)
qed


lemma mb_fetch_ok:
  assumes "mb_inv mb" "mb_entry mb \<noteq> 0"
  obtains mb' where "mb_fetch mb = Inr (hd (mails mb), mb')" "mb_inv mb'" "mails mb' = tl (mails mb)" "mb_size mb' = mb_size mb"
    "ob_id mb' = ob_id mb" "ob_flag mb' = ob_flag mb"
proof -
  define n where "n = mb_size mb"
  have n: "0 < n" "in_offset mb = (out_offset mb + mb_entry mb) mod n" "mb_entry mb \<le> n" "n < 65536"
    "length (mb_pool mb) = n" "out_offset mb < n"
    using assms by (auto simp: mb_inv_def n_def)
  define mb' where "mb' = mb\<lparr>out_offset := (out_offset mb + 1) mod n, mb_entry := mb_entry mb - 1\<rparr>"
  obtain e where e: "mb_entry mb = Suc e" using assms(2) by (cases "mb_entry mb") auto
  have hd: "mails mb = mb_pool mb ! out_offset mb # map (\<lambda>i. mb_pool mb ! ((out_offset mb + Suc i) mod n)) [0..<e]"
    unfolding mails_def e map_upt_Suc using n(6) by (simp flip: n_def)
  have tl: "mails mb' = map (\<lambda>i. mb_pool mb ! ((out_offset mb + Suc i) mod n)) [0..<e]"
    by (simp add: mails_def mb'_def e mod_simps flip: n_def)
  have "mb_fetch mb = Inr (hd (mails mb), mb')"
    using n mod_step [OF n(6)] by (simp add: mb_fetch_def mb'_def hd flip: n_def)
  moreover have "mb_inv mb'"
    using n e by (simp add: mb_inv_def mb'_def mod_simps flip: n_def)
  ultimately show ?thesis using that [of mb'] hd tl by (simp add: mb'_def)
qed

lemma mails_length [simp]: "length (mails mb) = mb_entry mb"
  by (simp add: mails_def)

lemma ipc_wake_ok:
  assumes "kernel_inv k" "waiting_list l"
  obtains k' where "ipc_wake l k = Inr k'" "kernel_inv k'" "tlists k' l = tl (tlists k l)"
    "tlists k l \<noteq> [] \<Longrightarrow> stat (threads k' (hd (tlists k l))) \<noteq> RT_THREAD_SUSPEND"
    "rt_current_thread k \<noteq> None \<Longrightarrow> rt_current_thread k' \<noteq> None"
proof (cases "tlists k l")
  case Nil
  then show ?thesis using that [of k] assms by (simp add: ipc_wake_def)
next
  case (Cons t ts)
  obtain k1 where k1: "rt_ipc_list_resume l k = Inr k1" "kernel_inv k1" "tlists k1 l = ts"
    "stat (threads k1 t) \<noteq> RT_THREAD_SUSPEND" using list_resume_ok [OF assms Cons] by metis
  have "rt_current_thread k1 = rt_current_thread k"
    using k1(1) Cons by (auto simp: rt_ipc_list_resume_def rt_thread_resume_def insert_thread_simps Let_def)
  moreover obtain k2 where k2: "rt_schedule k1 = Inr k2" "kernel_inv k2" using schedule_inv [OF k1(2)] by blast
  moreover have "tlists k2 l = ts"
    using schedule_waiting_lists [of k1 k2 l] k1(2,3) k2(1) assms(2) by (simp add: kernel_inv_def)
  ultimately show ?thesis
    using that [of k2] k1 schedule_awake [OF k2(1) k1(4)] schedule_current [OF k2(1)] Cons by (simp add: ipc_wake_def)
qed

definition mb_kernel_inv :: "rt_mailbox \<times> kernel \<Rightarrow> bool" where
  "mb_kernel_inv q \<longleftrightarrow> mb_inv (fst q) \<and> kernel_inv (snd q)"

lemma mb_send_ok:
  assumes "mb_inv mb" "kernel_inv k"
  shows "mb_entry mb = mb_size mb \<and> rt_mb_send mb v k = Inr (Returned (- RT_EFULL), mb, k) \<or>
    mb_entry mb \<noteq> mb_size mb \<and> (\<exists>mb' k'. rt_mb_send mb v k = Inr (Returned RT_EOK, mb', k') \<and> mb_inv mb' \<and> kernel_inv k' \<and>
      mails mb' = mails mb @ [v] \<and> mb_size mb' = mb_size mb \<and>
      tlists k' (Suspended (ob_id mb)) = tl (tlists k (Suspended (ob_id mb))))"
proof (cases "mb_entry mb = mb_size mb")
  case False
  obtain mb' where mb': "mb_store mb v = Inr mb'" "mb_inv mb'" "mails mb' = mails mb @ [v]" "mb_size mb' = mb_size mb"
    "ob_id mb' = ob_id mb" using mb_store_ok [OF assms(1) False] by metis
  obtain k' where "ipc_wake (Suspended (ob_id mb)) k = Inr k'" "kernel_inv k'"
    "tlists k' (Suspended (ob_id mb)) = tl (tlists k (Suspended (ob_id mb)))"
    using ipc_wake_ok [OF assms(2), of "Suspended (ob_id mb)"] by (metis waiting_list_simps(1))
  then show ?thesis using False mb' by (simp add: rt_mb_send_def rt_mb_send_wait_def mb_put_def)
qed (simp add: rt_mb_send_def rt_mb_send_wait_def)

lemma mb_recv_ok:
  assumes "mb_inv mb" "kernel_inv k"
  shows "mb_entry mb = 0 \<and> rt_mb_recv mb 0 k = Inr (Returned (- RT_ETIMEOUT), None, mb, k) \<or>
    mb_entry mb \<noteq> 0 \<and> (\<exists>mb' k'. rt_mb_recv mb 0 k = Inr (Returned RT_EOK, Some (hd (mails mb)), mb', k') \<and>
      mb_inv mb' \<and> kernel_inv k' \<and> mails mb' = tl (mails mb) \<and> mb_size mb' = mb_size mb \<and>
      tlists k' (Senders (ob_id mb)) = tl (tlists k (Senders (ob_id mb))))"
proof (cases "mb_entry mb = 0")
  case False
  obtain mb' where mb': "mb_fetch mb = Inr (hd (mails mb), mb')" "mb_inv mb'" "mails mb' = tl (mails mb)"
    "mb_size mb' = mb_size mb" "ob_id mb' = ob_id mb" using mb_fetch_ok [OF assms(1) False] by metis
  obtain k' where "ipc_wake (Senders (ob_id mb)) k = Inr k'" "kernel_inv k'"
    "tlists k' (Senders (ob_id mb)) = tl (tlists k (Senders (ob_id mb)))"
    using ipc_wake_ok [OF assms(2), of "Senders (ob_id mb)"] by (metis waiting_list_simps(2))
  then show ?thesis using False mb' by (simp add: rt_mb_recv_def mb_get_def)
qed (simp add: rt_mb_recv_def)

lemma mails_empty: "mails mb = [] \<longleftrightarrow> mb_entry mb = 0"
  by (simp add: mails_def)

interpretation mb: message_queue mb_kernel_inv "\<lambda>q. mails (fst q)" "\<lambda>q. mb_size (fst q)" "\<lambda>_. True" mb_try_put mb_try_get
proof unfold_locales
  fix q q' :: "rt_mailbox \<times> kernel" and v :: u32
  assume inv: "mb_kernel_inv q"
  note send = mb_send_ok [of "fst q" "snd q" v] and recv = mb_recv_ok [of "fst q" "snd q"]
  show "mb_try_put q v = None \<longleftrightarrow> length (mails (fst q)) = mb_size (fst q)"
    using send inv by (auto simp: mb_try_put_def mb_kernel_inv_def rt_errors)
  show "mb_try_put q v = Some q' \<Longrightarrow>
      mb_kernel_inv q' \<and> mails (fst q') = mails (fst q) @ [v] \<and> mb_size (fst q') = mb_size (fst q)"
    using send inv by (auto simp: mb_try_put_def mb_kernel_inv_def rt_errors)
  show "mb_try_get q = None \<longleftrightarrow> mails (fst q) = []"
    using recv inv by (auto simp: mb_try_get_def mb_kernel_inv_def mails_empty)
  show "mb_try_get q = Some (v, q') \<Longrightarrow>
      mb_kernel_inv q' \<and> mails (fst q) = v # mails (fst q') \<and> mb_size (fst q') = mb_size (fst q)"
    using recv inv by (auto simp: mb_try_get_def mb_kernel_inv_def mails_empty)
  show "length (mails (fst q)) \<le> mb_size (fst q)" using inv by (simp add: mb_kernel_inv_def mb_inv_def)
qed

section \<open>The message queue as a queue\<close>

text \<open>The list of nodes from a pointer on.\<close>

fun chain :: "(nat \<Rightarrow> nat option) \<Rightarrow> nat option \<Rightarrow> nat list \<Rightarrow> bool" where
  "chain nx p [] \<longleftrightarrow> p = None"
| "chain nx p (x # xs) \<longleftrightarrow> p = Some x \<and> chain nx (nx x) xs"

lemma chain_upd [simp]: "x \<notin> set xs \<Longrightarrow> chain (nx(x := v)) p xs = chain nx p xs"
  by (induction xs arbitrary: p) auto

lemma chain_append:
  "chain nx p xs \<Longrightarrow> xs \<noteq> [] \<Longrightarrow> distinct (xs @ [y]) \<Longrightarrow> chain (nx(y := None, last xs := Some y)) p (xs @ [y])"
proof (induction xs arbitrary: p)
  case (Cons x xs)
  show ?case
  proof (cases "xs = []")
    case True
    then show ?thesis using Cons.prems by auto
  next
    case False
    let ?nx = "nx(y := None, last xs := Some y)"
    have "chain ?nx (nx x) (xs @ [y])"
      using Cons.IH [of "nx x"] Cons.prems False by (simp del: fun_upd_apply)
    moreover have "x \<noteq> last xs" "x \<noteq> y" using Cons.prems(3) last_in_set [OF False] by auto
    then have "?nx x = nx x" by simp
    moreover have "last (x # xs) = last xs" using False by simp
    ultimately show ?thesis using Cons.prems(1) by (simp del: fun_upd_apply last.simps)
  qed
qed simp

text \<open>
  \<open>q\<close> are the nodes of the queue and \<open>f\<close> the free ones: together each block of the pool once.
\<close>

definition mq_inv :: "rt_messagequeue \<Rightarrow> nat list \<Rightarrow> nat list \<Rightarrow> bool" where
  "mq_inv mq q f \<longleftrightarrow> chain (mq_next mq) (mq_head mq) q \<and> chain (mq_next mq) (mq_free mq) f \<and> distinct (q @ f) \<and>
     mq_tail mq = (if q = [] then None else Some (last q)) \<and> mq_entry mq = length q \<and>
     set (q @ f) = {..<mq_max_msgs mq} \<and> mq_max_msgs mq < 65536 \<and>
     (\<forall>x. length (mq_data mq x) = mq_msg_size mq)"

definition mq_messages :: "rt_messagequeue \<Rightarrow> nat list \<Rightarrow> u8 list list" where
  "mq_messages mq q = map (mq_data mq) q"

lemma mq_inv_length: "mq_inv mq q f \<Longrightarrow> length q + length f = mq_max_msgs mq"
  unfolding mq_inv_def using distinct_card [of "q @ f"] by auto

lemma chain_head: "chain nx p xs \<Longrightarrow> p = (case xs of [] \<Rightarrow> None | x # _ \<Rightarrow> Some x)"
  by (cases xs) auto

lemmas mq_append_parts = mq_append_def mq_link_def mq_fill_def mq_copy_def mq_grab_def
lemmas mq_prepend_parts = mq_prepend_def mq_link_first_def mq_copy_def mq_grab_def
lemmas mq_take_parts = mq_take_def mq_detach_def mq_copy_out_def mq_unlink_def link_free_def

lemma mq_append_ok:
  assumes "mq_inv mq q (m # f)" "length b = mq_msg_size mq"
  shows "mq_inv (mq_append m b mq) (q @ [m]) f" "mq_messages (mq_append m b mq) (q @ [m]) = mq_messages mq q @ [b]"
    "mq_max_msgs (mq_append m b mq) = mq_max_msgs mq" "mq_msg_size (mq_append m b mq) = mq_msg_size mq"
proof -
  have len: "length q + 1 + length f = mq_max_msgs mq" using mq_inv_length [OF assms(1)] by simp
  have inv: "chain (mq_next mq) (mq_head mq) q" "chain (mq_next mq) (mq_next mq m) f" "mq_free mq = Some m"
    "distinct (q @ m # f)" "mq_tail mq = (if q = [] then None else Some (last q))" "mq_entry mq = length q"
    "set (q @ m # f) = {..<mq_max_msgs mq}" "mq_max_msgs mq < 65536" "\<And>x. length (mq_data mq x) = mq_msg_size mq"
    using assms(1) by (auto simp: mq_inv_def)
  have copy: "copy_msg b (mq_data mq m) = b" using assms(2) inv(9) by (simp add: copy_msg_def)
  show "mq_messages (mq_append m b mq) (q @ [m]) = mq_messages mq q @ [b]"
    using inv(4) copy by (auto simp: mq_messages_def mq_append_parts Let_def split: option.split)
  show "mq_max_msgs (mq_append m b mq) = mq_max_msgs mq" "mq_msg_size (mq_append m b mq) = mq_msg_size mq"
    by (simp_all add: mq_append_parts Let_def split: option.split)
  show "mq_inv (mq_append m b mq) (q @ [m]) f"
  proof (cases "q = []")
    case True
    then have "mq_tail mq = None" "mq_head mq = None" using inv by auto
    then show ?thesis
      using True inv len copy assms(2) by (simp add: mq_inv_def mq_append_parts Let_def)
  next
    case False
    then have tl: "mq_tail mq = Some (last q)" "mq_head mq = Some (hd q)"
      using inv chain_head [OF inv(1)] by (auto split: list.splits)
    have "last q \<notin> set f" using inv(4) last_in_set [OF False] by auto
    then have "chain ((mq_next mq)(m := None, last q := Some m)) (mq_next mq m) f"
      using inv(2,4) by simp
    moreover have "chain ((mq_next mq)(m := None, last q := Some m)) (mq_head mq) (q @ [m])"
      using chain_append [OF inv(1) False] inv(4) by simp
    ultimately show ?thesis
      using tl inv len copy assms(2) False by (simp add: mq_inv_def mq_append_parts Let_def fun_upd_twist)
  qed
qed

lemma mq_prepend_ok:
  assumes "mq_inv mq q (m # f)" "length b = mq_msg_size mq"
  shows "mq_inv (mq_prepend m b mq) (m # q) f" "mq_messages (mq_prepend m b mq) (m # q) = b # mq_messages mq q"
    "mq_max_msgs (mq_prepend m b mq) = mq_max_msgs mq" "mq_msg_size (mq_prepend m b mq) = mq_msg_size mq"
proof -
  have len: "length q + 1 + length f = mq_max_msgs mq" using mq_inv_length [OF assms(1)] by simp
  have inv: "chain (mq_next mq) (mq_head mq) q" "chain (mq_next mq) (mq_next mq m) f" "mq_free mq = Some m"
    "distinct (q @ m # f)" "mq_tail mq = (if q = [] then None else Some (last q))" "mq_entry mq = length q"
    "set (q @ m # f) = {..<mq_max_msgs mq}" "mq_max_msgs mq < 65536" "\<And>x. length (mq_data mq x) = mq_msg_size mq"
    using assms(1) by (auto simp: mq_inv_def)
  have copy: "copy_msg b (mq_data mq m) = b" using assms(2) inv(9) by (simp add: copy_msg_def)
  show "mq_messages (mq_prepend m b mq) (m # q) = b # mq_messages mq q"
    using inv(4) copy by (auto simp: mq_messages_def mq_prepend_parts Let_def)
  show "mq_max_msgs (mq_prepend m b mq) = mq_max_msgs mq" "mq_msg_size (mq_prepend m b mq) = mq_msg_size mq"
    by (simp_all add: mq_prepend_parts Let_def)
  have chains: "chain ((mq_next mq)(m := mq_head mq)) (mq_head mq) q" "chain ((mq_next mq)(m := mq_head mq)) (mq_next mq m) f"
    using inv(1,2,4) by simp_all
  have set: "set ((m # q) @ f) = {..<mq_max_msgs mq}" "distinct ((m # q) @ f)" using inv(4,7) by auto
  show "mq_inv (mq_prepend m b mq) (m # q) f"
    using chains set inv len copy assms(2) by (cases "q = []") (simp_all add: mq_inv_def mq_prepend_parts Let_def)
qed

lemma mq_take_ok:
  assumes "mq_inv mq (m # q) f"
  shows "mq_inv (snd (mq_take m sz mq)) q (m # f)" "mq_messages (snd (mq_take m sz mq)) q = tl (mq_messages mq (m # q))"
    "fst (mq_take m sz mq) = take sz (mq_data mq m)"
    "mq_max_msgs (snd (mq_take m sz mq)) = mq_max_msgs mq" "mq_msg_size (snd (mq_take m sz mq)) = mq_msg_size mq"
proof -
  have inv: "mq_head mq = Some m" "chain (mq_next mq) (mq_next mq m) q" "chain (mq_next mq) (mq_free mq) f"
    "distinct (m # q @ f)" "mq_tail mq = Some (last (m # q))" "mq_entry mq = Suc (length q)"
    "set (m # q @ f) = {..<mq_max_msgs mq}" "mq_max_msgs mq < 65536" "\<And>x. length (mq_data mq x) = mq_msg_size mq"
    using assms by (auto simp: mq_inv_def)
  show "fst (mq_take m sz mq) = take sz (mq_data mq m)"
    using inv(9) by (simp add: mq_take_parts Let_def min_def)
  show "mq_messages (snd (mq_take m sz mq)) q = tl (mq_messages mq (m # q))"
    "mq_max_msgs (snd (mq_take m sz mq)) = mq_max_msgs mq" "mq_msg_size (snd (mq_take m sz mq)) = mq_msg_size mq"
    by (simp_all add: mq_messages_def mq_take_parts Let_def)
  have chains: "chain ((mq_next mq)(m := mq_free mq)) (mq_next mq m) q" "chain ((mq_next mq)(m := mq_free mq)) (mq_free mq) f"
    using inv(2-4) by simp_all
  have set: "set (q @ m # f) = {..<mq_max_msgs mq}" "distinct (q @ m # f)" using inv(4,7) by auto
  have tail: "last (m # q) = m \<longleftrightarrow> q = []" using inv(4) last_in_set [of q] by auto
  show "mq_inv (snd (mq_take m sz mq)) q (m # f)"
    using chains set inv tail
    by (cases "q = []") (simp_all add: mq_inv_def mq_take_parts Let_def)
qed

text \<open>The nodes from a pointer on, as far as the count of messages goes.\<close>

fun walk :: "(nat \<Rightarrow> nat option) \<Rightarrow> nat option \<Rightarrow> nat \<Rightarrow> nat list" where
  "walk nx p 0 = []"
| "walk nx None (Suc n) = []"
| "walk nx (Some x) (Suc n) = x # walk nx (nx x) n"

lemma chain_walk: "chain nx p xs \<Longrightarrow> walk nx p (length xs) = xs"
  by (induction xs arbitrary: p) auto

lemma chain_walk_all: "chain nx p xs \<Longrightarrow> length xs \<le> n \<Longrightarrow> walk nx p n = xs"
proof (induction xs arbitrary: p n)
  case Nil
  then show ?case by (cases n) auto
next
  case (Cons x xs)
  then obtain m where "n = Suc m" by (cases n) auto
  then show ?case using Cons by auto
qed

definition mq_nodes :: "rt_messagequeue \<Rightarrow> nat list" where
  "mq_nodes mq = walk (mq_next mq) (mq_head mq) (mq_entry mq)"

definition mq_free_nodes :: "rt_messagequeue \<Rightarrow> nat list" where
  "mq_free_nodes mq = walk (mq_next mq) (mq_free mq) (mq_max_msgs mq)"

definition mq_list :: "rt_messagequeue \<Rightarrow> u8 list list" where
  "mq_list mq = mq_messages mq (mq_nodes mq)"

text \<open>A message queue with messages of a size, in a kernel with a running thread.\<close>

definition mq_ok :: "nat \<Rightarrow> rt_messagequeue \<Rightarrow> bool" where
  "mq_ok sz mq \<longleftrightarrow> 0 < sz \<and> mq_msg_size mq = sz \<and> mq_inv mq (mq_nodes mq) (mq_free_nodes mq)"

lemma mq_nodes_eq: "mq_inv mq q f \<Longrightarrow> mq_nodes mq = q \<and> mq_free_nodes mq = f"
  using mq_inv_length [of mq q f] unfolding mq_nodes_def mq_free_nodes_def mq_inv_def
  by (auto intro: chain_walk chain_walk_all)

lemma mq_okI: "mq_inv mq q f \<Longrightarrow> mq_msg_size mq = sz \<Longrightarrow> 0 < sz \<Longrightarrow> mq_ok sz mq \<and> mq_list mq = mq_messages mq q"
  using mq_nodes_eq [of mq q f] by (simp add: mq_ok_def mq_list_def)

lemma mq_okE:
  assumes "mq_ok sz mq"
  obtains q f where "mq_inv mq q f" "mq_list mq = mq_messages mq q" "mq_msg_size mq = sz" "0 < sz"
    "q = [] \<longleftrightarrow> mq_list mq = []" "f = [] \<longleftrightarrow> length (mq_list mq) = mq_max_msgs mq" "length q = length (mq_list mq)"
proof -
  have "mq_inv mq (mq_nodes mq) (mq_free_nodes mq)" using assms by (simp add: mq_ok_def)
  moreover have "mq_free_nodes mq = [] \<longleftrightarrow> length (mq_list mq) = mq_max_msgs mq"
    using mq_inv_length [OF calculation] by (auto simp: mq_list_def mq_messages_def)
  moreover have "mq_nodes mq = [] \<longleftrightarrow> mq_list mq = []" "length (mq_nodes mq) = length (mq_list mq)"
    by (simp_all add: mq_list_def mq_messages_def)
  moreover have "mq_msg_size mq = sz" "0 < sz" using assms by (simp_all add: mq_ok_def)
  ultimately show ?thesis using that [of "mq_nodes mq" "mq_free_nodes mq"] mq_list_def by blast
qed

lemma mq_inv_pointers:
  "mq_inv mq q f \<Longrightarrow> mq_head mq = (case q of [] \<Rightarrow> None | x # _ \<Rightarrow> Some x) \<and>
     mq_free mq = (case f of [] \<Rightarrow> None | x # _ \<Rightarrow> Some x) \<and> mq_entry mq = length q"
  using chain_head [of "mq_next mq"] by (simp add: mq_inv_def)

lemma mq_ob [simp]:
  "ob_id (mq_append m b mq) = ob_id mq" "ob_id (mq_prepend m b mq) = ob_id mq" "ob_id (snd (mq_take m n mq)) = ob_id mq"
  by (simp_all add: mq_append_parts mq_prepend_parts mq_take_parts Let_def split: option.split)

lemma mq_send_ok:
  assumes "mq_ok sz mq" "kernel_inv k" "rt_current_thread k \<noteq> None" "length b = sz"
  shows "length (mq_list mq) = mq_max_msgs mq \<and> rt_mq_send mq b k = Inr (Returned (- RT_EFULL), mq, k) \<or>
    length (mq_list mq) \<noteq> mq_max_msgs mq \<and> (\<exists>mq' k'. rt_mq_send mq b k = Inr (Returned RT_EOK, mq', k') \<and> mq_ok sz mq' \<and>
      kernel_inv k' \<and> rt_current_thread k' \<noteq> None \<and> mq_list mq' = mq_list mq @ [b] \<and> mq_max_msgs mq' = mq_max_msgs mq \<and>
      tlists k' (Suspended (ob_id mq)) = tl (tlists k (Suspended (ob_id mq))))"
proof -
  obtain q f where qf: "mq_inv mq q f" "mq_list mq = mq_messages mq q" "mq_msg_size mq = sz" "0 < sz"
    "f = [] \<longleftrightarrow> length (mq_list mq) = mq_max_msgs mq" using mq_okE [OF assms(1)] by metis
  have b: "b \<noteq> []" using assms(4) qf(4) by auto
  show ?thesis
  proof (cases f)
    case Nil
    then show ?thesis using qf b assms(3,4) mq_inv_pointers [OF qf(1)] by (simp add: rt_mq_send_def rt_mq_send_wait_def)
  next
    case (Cons m f')
    obtain k' where k': "ipc_wake (Suspended (ob_id mq)) k = Inr k'" "kernel_inv k'" "rt_current_thread k' \<noteq> None"
      "tlists k' (Suspended (ob_id mq)) = tl (tlists k (Suspended (ob_id mq)))"
      using ipc_wake_ok [OF assms(2), of "Suspended (ob_id mq)"] assms(3) by (metis waiting_list_simps(1))
    note ap = mq_append_ok [of mq q m f' b]
    have "mq_ok sz (mq_append m b mq) \<and> mq_list (mq_append m b mq) = mq_list mq @ [b]"
      using mq_okI [OF ap(1), of sz] ap(2,4) qf assms(4) Cons by simp
    moreover have "mq_max_msgs (mq_append m b mq) = mq_max_msgs mq" using ap(3) qf assms(4) Cons by simp
    ultimately show ?thesis
      using k' qf b Cons assms(3,4) mq_inv_pointers [OF qf(1)]
      by (auto simp: rt_mq_send_def rt_mq_send_wait_def mq_put_def Let_def)
  qed
qed

lemma mq_urgent_ok:
  assumes "mq_ok sz mq" "kernel_inv k" "rt_current_thread k \<noteq> None" "length b = sz"
  shows "length (mq_list mq) = mq_max_msgs mq \<and> rt_mq_urgent mq b k = Inr (Returned (- RT_EFULL), mq, k) \<or>
    length (mq_list mq) \<noteq> mq_max_msgs mq \<and> (\<exists>mq' k'. rt_mq_urgent mq b k = Inr (Returned RT_EOK, mq', k') \<and> mq_ok sz mq' \<and>
      kernel_inv k' \<and> rt_current_thread k' \<noteq> None \<and> mq_list mq' = b # mq_list mq \<and> mq_max_msgs mq' = mq_max_msgs mq)"
proof -
  obtain q f where qf: "mq_inv mq q f" "mq_list mq = mq_messages mq q" "mq_msg_size mq = sz" "0 < sz"
    "f = [] \<longleftrightarrow> length (mq_list mq) = mq_max_msgs mq" using mq_okE [OF assms(1)] by metis
  have b: "b \<noteq> []" using assms(4) qf(4) by auto
  show ?thesis
  proof (cases f)
    case Nil
    then show ?thesis using qf b assms(3,4) mq_inv_pointers [OF qf(1)] by (simp add: rt_mq_urgent_def)
  next
    case (Cons m f')
    obtain k' where k': "ipc_wake (Suspended (ob_id mq)) k = Inr k'" "kernel_inv k'" "rt_current_thread k' \<noteq> None"
      using ipc_wake_ok [OF assms(2), of "Suspended (ob_id mq)"] assms(3) by (metis waiting_list_simps(1))
    note ap = mq_prepend_ok [of mq q m f' b]
    have "mq_ok sz (mq_prepend m b mq) \<and> mq_list (mq_prepend m b mq) = b # mq_list mq"
      using mq_okI [OF ap(1), of sz] ap(2,4) qf assms(4) Cons by simp
    moreover have "mq_max_msgs (mq_prepend m b mq) = mq_max_msgs mq" using ap(3) qf assms(4) Cons by simp
    ultimately show ?thesis
      using k' qf b Cons assms(4) mq_inv_pointers [OF qf(1)] by (auto simp: rt_mq_urgent_def Let_def)
  qed
qed

lemma mq_recv_ok:
  assumes "mq_ok sz mq" "kernel_inv k" "rt_current_thread k \<noteq> None"
  shows "mq_list mq = [] \<and> rt_mq_recv mq sz 0 k = Inr (Returned (- RT_ETIMEOUT), [], mq, k) \<or>
    mq_list mq \<noteq> [] \<and> (\<exists>mq' k'. rt_mq_recv mq sz 0 k = Inr (Returned RT_EOK, hd (mq_list mq), mq', k') \<and> mq_ok sz mq' \<and>
      kernel_inv k' \<and> rt_current_thread k' \<noteq> None \<and> mq_list mq' = tl (mq_list mq) \<and> mq_max_msgs mq' = mq_max_msgs mq \<and>
      tlists k' (Senders (ob_id mq)) = tl (tlists k (Senders (ob_id mq))))"
proof -
  obtain q f where qf: "mq_inv mq q f" "mq_list mq = mq_messages mq q" "mq_msg_size mq = sz" "0 < sz"
    "q = [] \<longleftrightarrow> mq_list mq = []" using mq_okE [OF assms(1)] by metis
  show ?thesis
  proof (cases q)
    case Nil
    then show ?thesis using qf assms(3) mq_inv_pointers [OF qf(1)] by (simp add: rt_mq_recv_def)
  next
    case (Cons m q')
    obtain k' where k': "ipc_wake (Senders (ob_id mq)) k = Inr k'" "kernel_inv k'" "rt_current_thread k' \<noteq> None"
      "tlists k' (Senders (ob_id mq)) = tl (tlists k (Senders (ob_id mq)))"
      using ipc_wake_ok [OF assms(2), of "Senders (ob_id mq)"] assms(3) by (metis waiting_list_simps(2))
    note tk = mq_take_ok [OF qf(1) [unfolded Cons], of sz]
    have "length (mq_data mq m) = sz" using qf(1,3) by (simp add: mq_inv_def)
    then have bytes: "mq_take m sz mq = (hd (mq_list mq), snd (mq_take m sz mq))"
      using tk(3) qf(2) Cons by (intro prod_eqI) (simp_all add: mq_messages_def)
    have "mq_ok sz (snd (mq_take m sz mq)) \<and> mq_list (snd (mq_take m sz mq)) = tl (mq_list mq)"
      using mq_okI [OF tk(1), of sz] tk(2,5) qf Cons by simp
    moreover have "ob_id (snd (mq_take m sz mq)) = ob_id mq" by simp
    moreover have "mq_head mq = Some m" "mq_entry mq \<noteq> 0" using mq_inv_pointers [OF qf(1)] Cons by simp_all
    moreover obtain t where "rt_current_thread k = Some t" using assms(3) by auto
    ultimately have "rt_mq_recv mq sz 0 k = Inr (Returned RT_EOK, hd (mq_list mq), snd (mq_take m sz mq), k')"
      unfolding rt_mq_recv_def mq_get_def using qf(4) k'(1)
      by (simp del: mq_ob) (subst bytes, simp add: Let_def)
    moreover have "mq_list mq \<noteq> []" using qf(5) Cons by simp
    ultimately show ?thesis
      using k' Cons tk(4) \<open>mq_ok sz _ \<and> _\<close>
      by auto
  qed
qed

definition mq_try_put :: "rt_messagequeue \<times> kernel \<Rightarrow> u8 list \<Rightarrow> (rt_messagequeue \<times> kernel) option" where
  "mq_try_put q b =
     (case rt_mq_send (fst q) b (snd q) of
        Inr (Returned c, q') \<Rightarrow> if c = RT_EOK then Some q' else None
      | _ \<Rightarrow> None)"

definition mq_try_get :: "nat \<Rightarrow> rt_messagequeue \<times> kernel \<Rightarrow> (u8 list \<times> rt_messagequeue \<times> kernel) option" where
  "mq_try_get sz q =
     (case rt_mq_recv (fst q) sz 0 (snd q) of
        Inr (Returned c, b, q') \<Rightarrow> if c = RT_EOK then Some (b, q') else None
      | _ \<Rightarrow> None)"

definition mq_kernel_ok :: "nat \<Rightarrow> rt_messagequeue \<times> kernel \<Rightarrow> bool" where
  "mq_kernel_ok sz q \<longleftrightarrow> mq_ok sz (fst q) \<and> kernel_inv (snd q) \<and> rt_current_thread (snd q) \<noteq> None"

interpretation mq: message_queue "mq_kernel_ok sz" "\<lambda>q. mq_list (fst q)" "\<lambda>q. mq_max_msgs (fst q)" "\<lambda>b. length b = sz"
  mq_try_put "mq_try_get sz" for sz
proof unfold_locales
  fix q q' :: "rt_messagequeue \<times> kernel" and b :: "u8 list"
  assume inv: "mq_kernel_ok sz q"
  note send = mq_send_ok [of sz "fst q" "snd q" b] and recv = mq_recv_ok [of sz "fst q" "snd q"]
  show "length b = sz \<Longrightarrow> mq_try_put q b = None \<longleftrightarrow> length (mq_list (fst q)) = mq_max_msgs (fst q)"
    using send inv by (auto simp: mq_try_put_def mq_kernel_ok_def rt_errors)
  show "length b = sz \<Longrightarrow> mq_try_put q b = Some q' \<Longrightarrow>
      mq_kernel_ok sz q' \<and> mq_list (fst q') = mq_list (fst q) @ [b] \<and> mq_max_msgs (fst q') = mq_max_msgs (fst q)"
    using send inv by (auto simp: mq_try_put_def mq_kernel_ok_def rt_errors)
  show "mq_try_get sz q = None \<longleftrightarrow> mq_list (fst q) = []"
    using recv inv by (auto simp: mq_try_get_def mq_kernel_ok_def rt_errors)
  show "mq_try_get sz q = Some (b, q') \<Longrightarrow>
      mq_kernel_ok sz q' \<and> mq_list (fst q) = b # mq_list (fst q') \<and> mq_max_msgs (fst q') = mq_max_msgs (fst q)"
    using recv inv by (auto simp: mq_try_get_def mq_kernel_ok_def rt_errors)
  show "length (mq_list (fst q)) \<le> mq_max_msgs (fst q)"
    using inv mq_inv_length by (fastforce simp: mq_kernel_ok_def mq_ok_def mq_list_def mq_messages_def)
qed

text \<open>The free list after initialisation: all blocks, the last one first.\<close>

lemma link_free_all:
  "chain (mq_next (fold link_free [0..<n] mq)) (mq_free (fold link_free [0..<n] mq)) (rev [0..<n])"
  "mq_head (fold link_free [0..<n] mq) = mq_head mq" "mq_tail (fold link_free [0..<n] mq) = mq_tail mq"
  "mq_entry (fold link_free [0..<n] mq) = mq_entry mq" "mq_max_msgs (fold link_free [0..<n] mq) = mq_max_msgs mq"
  "mq_data (fold link_free [0..<n] mq) = mq_data mq" "mq_msg_size (fold link_free [0..<n] mq) = mq_msg_size mq"
  if "mq_free mq = None"
  using that by (induction n) (simp_all add: link_free_def)

lemma mq_init_ok:
  assumes "0 < msg_size" "msg_size \<le> 65532" "\<And>x. length (bytes x) = rt_align4 msg_size"
    and mq: "mq = fst (rt_mq_init n msg_size pool_size flag links bytes k)"
  shows "mq_ok (rt_align4 msg_size) mq" "mq_list mq = []" "mq_max_msgs mq = pool_size div (rt_align4 msg_size + 4) mod 65536"
proof -
  let ?sz = "rt_align4 msg_size" and ?max = "pool_size div (rt_align4 msg_size + 4) mod 65536"
  have sz: "0 < ?sz" "?sz mod 65536 = ?sz"
    using assms(1,2) mod_less_divisor [of 4 "msg_size + 3"] unfolding rt_align4_def by simp_all
  let ?m0 = "\<lparr>ob_id = n, ob_flag = flag, mq_msg_size = ?sz, mq_max_msgs = ?max, mq_entry = 0,
                mq_next = links, mq_data = bytes, mq_head = None, mq_tail = None, mq_free = None\<rparr>"
  have mq: "mq = fold link_free [0..<?max] ?m0" by (simp add: mq rt_mq_init_def Let_def sz)
  have "mq_inv mq [] (rev [0..<?max])"
    unfolding mq mq_inv_def using link_free_all [of ?m0 ?max] assms(3) by (auto simp: atLeast0LessThan)
  moreover have "mq_msg_size mq = ?sz" "mq_max_msgs mq = ?max" unfolding mq using link_free_all [of ?m0 ?max] by simp_all
  ultimately show "mq_ok (rt_align4 msg_size) mq" "mq_list mq = []" "mq_max_msgs mq = ?max"
    using mq_okI [of mq "[]"] sz(1) by (simp_all add: mq_messages_def)
qed


text \<open>Releasing the messages ends: every block is free again.\<close>

lemma mq_release_all_ok:
  assumes "chain (mq_next mq) (mq_head mq) q" "chain (mq_next mq) (mq_free mq) f" "distinct (q @ f)"
    "mq_tail mq = (if q = [] then None else Some (last q))"
  shows "\<exists>mq' f'. mq_release_all mq = Some mq' \<and> mq_head mq' = None \<and> mq_tail mq' = None \<and>
    chain (mq_next mq') (mq_free mq') f' \<and> distinct f' \<and> set f' = set (q @ f) \<and>
    mq_max_msgs mq' = mq_max_msgs mq \<and> mq_msg_size mq' = mq_msg_size mq \<and> mq_data mq' = mq_data mq"
  using assms
proof (induction q arbitrary: mq f)
  case Nil
  then have "mq_release_all mq = Some mq" by (subst mq_release_all.simps) simp
  then show ?case using Nil by auto
next
  case (Cons m q)
  define mq1 where "mq1 = link_free m (mq_unlink m mq)"
  have same: "mq_max_msgs mq1 = mq_max_msgs mq" "mq_msg_size mq1 = mq_msg_size mq" "mq_data mq1 = mq_data mq"
    "mq_next mq1 = (mq_next mq)(m := mq_free mq)" "mq_head mq1 = mq_next mq m" "mq_free mq1 = Some m"
    "mq_tail mq1 = (if mq_tail mq = Some m then None else mq_tail mq)"
    by (simp_all add: mq1_def mq_unlink_def link_free_def Let_def)
  have step: "mq_release_all mq = mq_release_all mq1"
    using Cons.prems(1) by (subst mq_release_all.simps) (simp add: mq1_def)
  have d: "m \<notin> set q" "m \<notin> set f" "distinct (q @ m # f)" using Cons.prems(3) by auto
  have chains: "chain (mq_next mq1) (mq_head mq1) q" "chain (mq_next mq1) (mq_free mq1) (m # f)"
    using Cons.prems(1,2) d by (simp_all add: same del: fun_upd_apply) simp
  have "mq_tail mq1 = (if q = [] then None else Some (last q))"
    using Cons.prems(4) d last_in_set [of q] by (auto simp: same)
  from Cons.IH [OF chains d(3) this] show ?case unfolding step by (auto simp: same)
qed

section \<open>Results\<close>

lemma mb_init_ok: "0 < length pool \<Longrightarrow> length pool < 65536 \<Longrightarrow>
    mb_inv (fst (rt_mb_init n pool (length pool) flag k)) \<and> mails (fst (rt_mb_init n pool (length pool) flag k)) = []"
  by (simp add: rt_mb_init_def mb_inv_def mails_def)

text \<open>
  What a caller of a mailbox sees: the return codes of its calls and the mails it was given; and what it should see, a
  queue of at most \<open>n\<close> mails.
\<close>

fun mailbox_calls :: "rt_mailbox \<times> kernel \<Rightarrow> u32 message_op list \<Rightarrow>
    ((ipc_result \<times> u32 option) list \<times> rt_mailbox \<times> kernel) res" where
  "mailbox_calls (mb, k) [] = Inr ([], mb, k)"
| "mailbox_calls (mb, k) (Send v # ops) =
     bind_res (rt_mb_send mb v k) (\<lambda>(r, q). bind_res (mailbox_calls q ops) (\<lambda>(rs, q). Inr ((r, None) # rs, q)))"
| "mailbox_calls (mb, k) (Receive # ops) =
     bind_res (rt_mb_recv mb 0 k) (\<lambda>(r, v, q). bind_res (mailbox_calls q ops) (\<lambda>(rs, q). Inr ((r, v) # rs, q)))"

fun bounded_queue :: "nat \<Rightarrow> 'm list \<Rightarrow> 'm message_op list \<Rightarrow> (ipc_result \<times> 'm option) list \<times> 'm list" where
  "bounded_queue n ms [] = ([], ms)"
| "bounded_queue n ms (Send m # ops) =
     (if length ms < n then apfst (Cons (Returned RT_EOK, None)) (bounded_queue n (ms @ [m]) ops)
      else apfst (Cons (Returned (- RT_EFULL), None)) (bounded_queue n ms ops))"
| "bounded_queue n [] (Receive # ops) = apfst (Cons (Returned (- RT_ETIMEOUT), None)) (bounded_queue n [] ops)"
| "bounded_queue n (m # ms) (Receive # ops) = apfst (Cons (Returned RT_EOK, Some m)) (bounded_queue n ms ops)"

lemma mailbox_calls_queue:
  assumes "mb_inv mb" "kernel_inv k"
  shows "\<exists>mb' k'. mailbox_calls (mb, k) ops = Inr (fst (bounded_queue (mb_size mb) (mails mb) ops), mb', k') \<and>
    mails mb' = snd (bounded_queue (mb_size mb) (mails mb) ops) \<and> mb_inv mb' \<and> kernel_inv k' \<and> mb_size mb' = mb_size mb"
  using assms
proof (induction ops arbitrary: mb k)
  case (Cons oper ops)
  have bound: "mb_entry mb \<le> mb_size mb" using Cons.prems(1) by (simp add: mb_inv_def)
  show ?case
  proof (cases oper)
    case (Send v)
    show ?thesis
    proof (cases "mb_entry mb = mb_size mb")
      case True
      then have "rt_mb_send mb v k = Inr (Returned (- RT_EFULL), mb, k)" using mb_send_ok [OF Cons.prems, of v] by blast
      then show ?thesis using Cons.IH [OF Cons.prems] True Send by auto
    next
      case False
      then obtain mb1 k1 where s: "rt_mb_send mb v k = Inr (Returned RT_EOK, mb1, k1)" "mb_inv mb1" "kernel_inv k1"
        "mails mb1 = mails mb @ [v]" "mb_size mb1 = mb_size mb" using mb_send_ok [OF Cons.prems, of v] by blast
      then show ?thesis using Cons.IH [OF s(2,3)] False bound Send by auto
    qed
  next
    case Receive
    show ?thesis
    proof (cases "mails mb")
      case Nil
      then have "rt_mb_recv mb 0 k = Inr (Returned (- RT_ETIMEOUT), None, mb, k)"
        using mb_recv_ok [OF Cons.prems] by (auto simp: mails_empty)
      then show ?thesis using Cons.IH [OF Cons.prems] Nil Receive by auto
    next
      case (Cons v vs)
      then have "mb_entry mb \<noteq> 0" using mails_empty [of mb] by auto
      then obtain mb1 k1 where r: "rt_mb_recv mb 0 k = Inr (Returned RT_EOK, Some v, mb1, k1)" "mb_inv mb1" "kernel_inv k1"
        "mails mb1 = vs" "mb_size mb1 = mb_size mb" using mb_recv_ok [OF Cons.prems] Cons by auto
      then show ?thesis using Cons.IH [OF r(2,3)] Cons Receive by auto
    qed
  qed
qed simp

text \<open>
  C39. A mailbox is a bounded first-in first-out queue: on a fresh mailbox, in any kernel state that meets the
  invariant, any sequence of non-waiting sends and receives returns exactly the codes and the mails of a queue that holds
  at most as many mails as the pool has words.  A send is accepted whenever there is room and refused as full
  otherwise, a receive gives the oldest mail or times out at once; no call fails, and the kernel keeps its invariant,
  although every call can wake a thread and switch to it.
\<close>

theorem mailbox_fifo:
  assumes "0 < length pool" "length pool < 65536" "kernel_inv k"
  shows "\<exists>mb' k'. mailbox_calls (fst (rt_mb_init n pool (length pool) flag k), k) ops =
       Inr (fst (bounded_queue (length pool) [] ops), mb', k') \<and>
     mails mb' = snd (bounded_queue (length pool) [] ops) \<and> mb_inv mb' \<and> kernel_inv k'"
proof -
  have "mb_size (fst (rt_mb_init n pool (length pool) flag k)) = length pool"
    using assms(2) by (simp add: rt_mb_init_def)
  then show ?thesis
    using mailbox_calls_queue [of "fst (rt_mb_init n pool (length pool) flag k)" k ops] mb_init_ok [OF assms(1,2)] assms(3)
    by auto
qed

theorem mailbox_fifo_witness:
  "\<exists>mb' k'. mailbox_calls (fst (rt_mb_init 4 [0, 0] (length [0, 0 :: u32]) 0 demo_kernel), demo_kernel)
      [Send 7, Receive, Receive, Send 8, Send 9, Send 10, Receive] =
    Inr ([(Returned RT_EOK, None), (Returned RT_EOK, Some 7), (Returned (- RT_ETIMEOUT), None), (Returned RT_EOK, None),
      (Returned RT_EOK, None), (Returned (- RT_EFULL), None), (Returned RT_EOK, Some 8)], mb', k') \<and> mails mb' = [9]"
proof -
  let ?ops = "[Send 7, Receive, Receive, Send 8, Send 9, Send 10, Receive] :: u32 message_op list"
  have q: "bounded_queue (length [0, 0 :: u32]) [] ?ops =
    ([(Returned RT_EOK, None), (Returned RT_EOK, Some 7), (Returned (- RT_ETIMEOUT), None), (Returned RT_EOK, None),
      (Returned RT_EOK, None), (Returned (- RT_EFULL), None), (Returned RT_EOK, Some 8)], [9])" by simp
  have "0 < length [0, 0 :: u32]" "length [0, 0 :: u32] < 65536" by simp_all
  from mailbox_fifo [OF this demo_kernel_inv, of 4 0 ?ops, unfolded q fst_conv snd_conv] show ?thesis by blast
qed

text \<open>
  C40. A message queue over its linked blocks: after \<^verbatim>\<open>rt_mq_init\<close>, over any sequence of non-waiting sends and receives
  of whole messages, the messages accepted are those received, in order and with their bytes, followed by
  those still queued; a send fails only when all blocks of the pool are in use, and no block is ever lost.
\<close>

theorem message_queue_fifo:
  assumes "0 < msg_size" "msg_size \<le> 65532" "\<And>x. length (bytes x) = rt_align4 msg_size" "kernel_inv k"
    "rt_current_thread k \<noteq> None" "\<And>b. Send b \<in> set ops \<Longrightarrow> length b = rt_align4 msg_size"
    and "run_messages mq_try_put (mq_try_get (rt_align4 msg_size))
           (fst (rt_mq_init n msg_size pool_size flag links bytes k), k) ops = (i, out, mq', k')"
  shows "i = out @ mq_list mq' \<and> kernel_inv k' \<and> length (mq_list mq') + length (mq_free_nodes mq') =
    pool_size div (rt_align4 msg_size + 4) mod 65536"
proof -
  note init = mq_init_ok [of msg_size bytes "fst (rt_mq_init n msg_size pool_size flag links bytes k)" n pool_size flag links k,
      OF assms(1-3) refl]
  have "mq_kernel_ok (rt_align4 msg_size) (fst (rt_mq_init n msg_size pool_size flag links bytes k), k)"
    using init(1) assms(4,5) by (simp add: mq_kernel_ok_def)
  from mq.run_fifo [OF this _ assms(7)] show ?thesis
    using init(2,3) assms(6) mq_inv_length [of mq' "mq_nodes mq'" "mq_free_nodes mq'"]
    by (simp add: mq_kernel_ok_def mq_ok_def mq_list_def mq_messages_def)
qed

theorem message_queue_fifo_witness:
  "\<exists>mq' k'. run_messages mq_try_put (mq_try_get (rt_align4 4))
      (fst (rt_mq_init 4 4 16 0 (\<lambda>_. None) (\<lambda>_. replicate 4 0) demo_kernel), demo_kernel)
      [Send [1, 2, 3, 4], Send [5, 6, 7, 8], Send [9, 9, 9, 9], Receive] =
        ([[1, 2, 3, 4], [5, 6, 7, 8]], [[1, 2, 3, 4]], mq', k') \<and> mq_list mq' = [[5, 6, 7, 8]]"
proof -
  let ?q = "(fst (rt_mq_init 4 4 16 0 (\<lambda>_. None) (\<lambda>_. replicate 4 0) demo_kernel), demo_kernel)"
  let ?ops = "[Send [1, 2, 3, 4], Send [5, 6, 7, 8], Send [9, 9, 9, 9], Receive] :: u8 list message_op list"
  have align: "rt_align4 4 = 4" by (simp add: rt_align4_def)
  have cur: "rt_current_thread demo_kernel = Some 0" by (simp add: demo_kernel_def)
  obtain mq' k' where run: "run_messages mq_try_put (mq_try_get (rt_align4 4)) ?q ?ops =
      ([[1, 2, 3, 4], [5, 6, 7, 8]], [[1, 2, 3, 4]], mq', k')"
    by (simp add: mq_try_put_def mq_try_get_def rt_mq_send_def rt_mq_send_wait_def rt_mq_recv_def mq_put_def
        mq_get_def mq_append_parts mq_take_parts copy_msg_def Let_def
        ipc_wake_def rt_mq_init_def demo_no_waiter align cur upt_rec rt_errors)
  have len: "Send b \<in> set ?ops \<Longrightarrow> length b = rt_align4 4" for b by (auto simp: align)
  have "[[1, 2, 3, 4], [5, 6, 7, 8]] = [[1, 2, 3, 4]] @ mq_list mq'"
    using message_queue_fifo [OF _ _ _ demo_kernel_inv _ len run] cur by (simp add: align)
  then show ?thesis using run by auto
qed

text \<open>
  An urgent message overtakes: on a queue with a free block, the next receive returns it with its bytes and leaves
  the messages that were queued before.
\<close>

theorem mq_urgent_overtakes:
  assumes "mq_ok sz mq" "kernel_inv k" "rt_current_thread k \<noteq> None" "length b = sz"
    "length (mq_list mq) < mq_max_msgs mq"
  shows "\<exists>mq1 k1 mq2 k2. rt_mq_urgent mq b k = Inr (Returned RT_EOK, mq1, k1) \<and>
     rt_mq_recv mq1 sz 0 k1 = Inr (Returned RT_EOK, b, mq2, k2) \<and> mq_list mq2 = mq_list mq \<and> mq_ok sz mq2 \<and> kernel_inv k2"
proof -
  obtain mq1 k1 where q1: "rt_mq_urgent mq b k = Inr (Returned RT_EOK, mq1, k1)" "mq_ok sz mq1" "kernel_inv k1"
    "rt_current_thread k1 \<noteq> None" "mq_list mq1 = b # mq_list mq"
    using mq_urgent_ok [OF assms(1-4)] assms(5) by auto
  then show ?thesis using mq_recv_ok [OF q1(2-4)] by auto
qed

theorem mq_urgent_overtakes_witness:
  "\<exists>mq1 k1 mq2 k2. rt_mq_urgent (fst (rt_mq_init 4 4 16 0 (\<lambda>_. None) (\<lambda>_. replicate 4 0) demo_kernel)) [1, 2, 3, 4] demo_kernel
       = Inr (Returned RT_EOK, mq1, k1) \<and>
     rt_mq_recv mq1 4 0 k1 = Inr (Returned RT_EOK, [1, 2, 3, 4], mq2, k2) \<and> mq_list mq2 = [] \<and> mq_ok 4 mq2 \<and> kernel_inv k2"
proof -
  have align: "rt_align4 4 = 4" by (simp add: rt_align4_def)
  note init = mq_init_ok [of 4 "\<lambda>_. replicate 4 0" _ 4 16 0 "\<lambda>_. None" demo_kernel, OF _ _ _ refl, unfolded align, simplified]
  have "rt_current_thread demo_kernel \<noteq> None" by (simp add: demo_kernel_def)
  then show ?thesis
    using mq_urgent_overtakes [OF init(1) demo_kernel_inv, of "[1, 2, 3, 4]"] init(2,3) by simp
qed

section \<open>Calls that interleave\<close>

text \<open>
  A call of a message queue between two of its parts: it has a block of its own, in which its message is still to be
  copied (\<open>Grabbed\<close>, urgent or not) or is already (\<open>Filled\<close>), or from which it copies a message it has
  unlinked (\<open>Unlinked\<close>).  The state adds to the queue the calls under way, the messages queued as their senders and
  receivers should see them, and what the receivers copied out with what they should have got.
\<close>

datatype mq_call = Grabbed bool "u8 list" | Filled bool "u8 list" | Unlinked "u8 list"

record mq_run =
  rq :: rt_messagequeue
  calls :: "(nat \<times> mq_call) list"
  queued :: "u8 list list"
  delivered :: "(u8 list \<times> u8 list) list"

inductive mq_step :: "nat \<Rightarrow> mq_run \<Rightarrow> mq_run \<Rightarrow> bool" for sz where
  Grab: "mq_free (rq s) = Some msg \<Longrightarrow> length b = sz \<Longrightarrow>
    mq_step sz s (s\<lparr>rq := mq_grab msg (rq s), calls := (msg, Grabbed urgent b) # calls s\<rparr>)"
| Fill: "calls s = cs @ (msg, Grabbed urgent b) # ds \<Longrightarrow>
    mq_step sz s (s\<lparr>rq := (if urgent then mq_copy msg b (rq s) else mq_fill msg b (rq s)),
      calls := cs @ (msg, Filled urgent b) # ds\<rparr>)"
| Link: "calls s = cs @ (msg, Filled urgent b) # ds \<Longrightarrow>
    mq_step sz s (s\<lparr>rq := (if urgent then mq_link_first msg (rq s) else mq_link msg (rq s)), calls := cs @ ds,
      queued := (if urgent then b # queued s else queued s @ [b])\<rparr>)"
| Unlink: "mq_entry (rq s) \<noteq> 0 \<Longrightarrow> mq_head (rq s) = Some msg \<Longrightarrow>
    mq_step sz s (s\<lparr>rq := mq_detach msg (rq s), calls := (msg, Unlinked (hd (queued s))) # calls s,
      queued := tl (queued s)\<rparr>)"
| Free: "calls s = cs @ (msg, Unlinked b) # ds \<Longrightarrow>
    mq_step sz s (s\<lparr>rq := link_free msg (rq s), calls := cs @ ds,
      delivered := delivered s @ [(mq_copy_out msg sz (rq s), b)]\<rparr>)"

inductive mq_reach :: "nat \<Rightarrow> mq_run \<Rightarrow> mq_run \<Rightarrow> bool" for sz s0 where
  Idle: "mq_reach sz s0 s0"
| Step: "mq_reach sz s0 s \<Longrightarrow> mq_step sz s s' \<Longrightarrow> mq_reach sz s0 s'"

definition mq_start :: "rt_messagequeue \<Rightarrow> mq_run" where
  "mq_start mq = \<lparr>rq = mq, calls = [], queued = [], delivered = []\<rparr>"

text \<open>Every block is in the queue, free, or owned by exactly one call, which has its message there.\<close>

fun call_ok :: "rt_messagequeue \<Rightarrow> nat \<times> mq_call \<Rightarrow> bool" where
  "call_ok mq (msg, Grabbed urgent b) \<longleftrightarrow> length b = mq_msg_size mq"
| "call_ok mq (msg, Filled urgent b) \<longleftrightarrow>
     length b = mq_msg_size mq \<and> mq_data mq msg = b \<and> (urgent \<or> mq_next mq msg = None)"
| "call_ok mq (msg, Unlinked b) \<longleftrightarrow> mq_data mq msg = b"

definition flow_inv :: "nat \<Rightarrow> nat \<Rightarrow> mq_run \<Rightarrow> nat list \<Rightarrow> nat list \<Rightarrow> bool" where
  "flow_inv sz n s q f \<longleftrightarrow>
     chain (mq_next (rq s)) (mq_head (rq s)) q \<and> chain (mq_next (rq s)) (mq_free (rq s)) f \<and>
     distinct (q @ f @ map fst (calls s)) \<and> set (q @ f @ map fst (calls s)) = {..<n} \<and>
     mq_tail (rq s) = (if q = [] then None else Some (last q)) \<and> mq_entry (rq s) = length q \<and>
     n < 65536 \<and> mq_max_msgs (rq s) = n \<and> mq_msg_size (rq s) = sz \<and> (\<forall>x. length (mq_data (rq s) x) = sz) \<and>
     (\<forall>c \<in> set (calls s). call_ok (rq s) c) \<and> map (mq_data (rq s)) q = queued s \<and>
     (\<forall>(got, meant) \<in> set (delivered s). got = meant)"

lemma flow_inv_length: "flow_inv sz n s q f \<Longrightarrow> length q + length f + length (calls s) = n"
  unfolding flow_inv_def using distinct_card [of "q @ f @ map fst (calls s)"] by auto

text \<open>A change of blocks that a call does not own leaves the call as it is.\<close>

lemma call_ok_other:
  assumes "call_ok mq c" "mq_msg_size mq' = mq_msg_size mq" "mq_data mq' (fst c) = mq_data mq (fst c)"
    "mq_next mq' (fst c) = mq_next mq (fst c)"
  shows "call_ok mq' c"
  using assms by (cases c rule: prod.exhaust, cases "snd c") auto

lemma calls_ok_other:
  assumes "\<forall>c \<in> set cs. call_ok mq c" "mq_msg_size mq' = mq_msg_size mq"
    "\<And>x. x \<in> fst ` set cs \<Longrightarrow> mq_data mq' x = mq_data mq x \<and> mq_next mq' x = mq_next mq x"
  shows "\<forall>c \<in> set cs. call_ok mq' c"
proof
  fix c assume "c \<in> set cs"
  then show "call_ok mq' c" using assms call_ok_other [of mq c mq'] by auto
qed

lemma flow_grab:
  assumes inv: "flow_inv sz n s q f" and "mq_free (rq s) = Some msg" "length b = sz"
  shows "\<exists>f'. flow_inv sz n (s\<lparr>rq := mq_grab msg (rq s), calls := (msg, Grabbed urgent b) # calls s\<rparr>) q f'"
proof -
  obtain f' where f: "f = msg # f'" using inv assms(2) by (cases f) (auto simp: flow_inv_def)
  have "\<forall>c \<in> set (calls s). call_ok (mq_grab msg (rq s)) c"
    by (rule calls_ok_other [of _ "rq s"]) (use inv in \<open>auto simp: flow_inv_def mq_grab_def\<close>)
  then have "flow_inv sz n (s\<lparr>rq := mq_grab msg (rq s), calls := (msg, Grabbed urgent b) # calls s\<rparr>) q f'"
    using inv assms(3) unfolding flow_inv_def f by (auto simp: mq_grab_def)
  then show ?thesis by blast
qed

lemma flow_fill:
  assumes inv: "flow_inv sz n s q f" and c: "calls s = cs @ (msg, Grabbed urgent b) # ds"
  shows "flow_inv sz n (s\<lparr>rq := (if urgent then mq_copy msg b (rq s) else mq_fill msg b (rq s)),
      calls := cs @ (msg, Filled urgent b) # ds\<rparr>) q f"
proof -
  define m where "m = (if urgent then mq_copy msg b (rq s) else mq_fill msg b (rq s))"
  have own: "msg \<notin> set q" "msg \<notin> set f" "msg \<notin> fst ` set (cs @ ds)" and len: "length b = sz" "mq_msg_size (rq s) = sz"
    using inv c by (auto simp: flow_inv_def)
  have same: "mq_data m = (mq_data (rq s))(msg := b)" "mq_head m = mq_head (rq s)" "mq_tail m = mq_tail (rq s)"
    "mq_free m = mq_free (rq s)" "mq_entry m = mq_entry (rq s)" "mq_msg_size m = sz" "mq_max_msgs m = n"
    using inv len by (simp_all add: m_def mq_fill_def mq_copy_def copy_msg_def flow_inv_def)
  have nx: "mq_next m = (if urgent then mq_next (rq s) else (mq_next (rq s))(msg := None))"
    by (simp add: m_def mq_fill_def mq_copy_def)
  have nxt: "chain (mq_next m) p xs = chain (mq_next (rq s)) p xs" if "msg \<notin> set xs" for p xs
    using that by (simp add: nx)
  have "\<forall>c \<in> set (cs @ ds). call_ok (rq s) c" using inv c by (auto simp: flow_inv_def)
  then have "\<forall>c \<in> set (cs @ ds). call_ok m c"
    by (rule calls_ok_other) (use own in \<open>auto simp: same nx len\<close>)
  moreover have "call_ok m (msg, Filled urgent b)" using len by (simp add: same nx)
  moreover have "map (mq_data m) q = map (mq_data (rq s)) q" using own(1) by (auto simp: same)
  moreover have "\<forall>x. length (mq_data m x) = sz" using inv len by (simp add: same flow_inv_def)
  moreover have "map fst (calls s) = map fst (cs @ (msg, Filled urgent b) # ds)" using c by simp
  ultimately show ?thesis
    using inv own(1,2) unfolding flow_inv_def m_def [symmetric] mq_run.simps by (simp add: same nxt)
qed

lemma flow_link:
  assumes inv: "flow_inv sz n s q f" and c: "calls s = cs @ (msg, Filled False b) # ds"
  shows "flow_inv sz n (s\<lparr>rq := mq_link msg (rq s), calls := cs @ ds, queued := queued s @ [b]\<rparr>) (q @ [msg]) f"
proof -
  let ?mq = "mq_link msg (rq s)" and ?nx = "mq_next (rq s)"
  have own: "msg \<notin> set q" "msg \<notin> set f" "msg \<notin> fst ` set (cs @ ds)" "?nx msg = None" "mq_data (rq s) msg = b"
    using inv c by (auto simp: flow_inv_def)
  have len: "length q + 1 \<le> n" "n < 65536" using flow_inv_length [OF inv] inv c by (simp_all add: flow_inv_def)
  have last: "last q \<notin> set f" "last q \<notin> fst ` set (cs @ ds)" "last q \<noteq> msg" if "q \<noteq> []"
    using inv c last_in_set [OF that] own(1) by (auto simp: flow_inv_def)
  have nx: "mq_next ?mq = (if q = [] then ?nx else ?nx(last q := Some msg))"
    using inv by (simp add: mq_link_def flow_inv_def Let_def)
  have mq: "mq_data ?mq = mq_data (rq s)" "mq_head ?mq = (if q = [] then Some msg else mq_head (rq s))"
    "mq_tail ?mq = Some msg" "mq_free ?mq = mq_free (rq s)" "mq_entry ?mq = length q + 1" "mq_msg_size ?mq = sz" "mq_max_msgs ?mq = n"
    using inv len chain_head [of ?nx "mq_head (rq s)" q]
    by (auto simp: mq_link_def flow_inv_def Let_def split: list.splits)
  have "chain (mq_next ?mq) (mq_head ?mq) (q @ [msg])"
  proof (cases "q = []")
    case True
    then show ?thesis by (simp add: mq nx own)
  next
    case False
    have "?nx(msg := None) = ?nx" using own(4) by (rule fun_upd_idem)
    moreover have "distinct (q @ [msg])" using inv own(1) by (simp add: flow_inv_def)
    ultimately show ?thesis
      using chain_append [of ?nx "mq_head (rq s)" q msg] False inv by (simp add: mq nx flow_inv_def)
  qed
  moreover have "chain (mq_next ?mq) (mq_free ?mq) f" using inv last(1) by (auto simp: mq nx flow_inv_def)
  moreover have "\<forall>c \<in> set (cs @ ds). call_ok (rq s) c" using inv c by (auto simp: flow_inv_def)
  then have "\<forall>c \<in> set (cs @ ds). call_ok ?mq c"
  proof (rule calls_ok_other)
    show "mq_msg_size ?mq = mq_msg_size (rq s)" using inv by (simp add: mq flow_inv_def)
    show "mq_data ?mq x = mq_data (rq s) x \<and> mq_next ?mq x = mq_next (rq s) x" if "x \<in> fst ` set (cs @ ds)" for x
    proof -
      have "q \<noteq> [] \<Longrightarrow> x \<noteq> last q" using that last(2) by blast
      then show ?thesis by (auto simp: mq nx)
    qed
  qed
  ultimately show ?thesis using inv c own len unfolding flow_inv_def by (auto simp: mq)
qed

lemma flow_link_first:
  assumes inv: "flow_inv sz n s q f" and c: "calls s = cs @ (msg, Filled True b) # ds"
  shows "flow_inv sz n (s\<lparr>rq := mq_link_first msg (rq s), calls := cs @ ds, queued := b # queued s\<rparr>) (msg # q) f"
proof -
  let ?mq = "mq_link_first msg (rq s)" and ?nx = "mq_next (rq s)"
  have own: "msg \<notin> set q" "msg \<notin> set f" "msg \<notin> fst ` set (cs @ ds)" "mq_data (rq s) msg = b"
    using inv c by (auto simp: flow_inv_def)
  have len: "length q + 1 \<le> n" "n < 65536" using flow_inv_length [OF inv] inv c by (simp_all add: flow_inv_def)
  have mq: "mq_data ?mq = mq_data (rq s)" "mq_head ?mq = Some msg" "mq_next ?mq = ?nx(msg := mq_head (rq s))"
    "mq_tail ?mq = (if q = [] then Some msg else Some (last q))" "mq_free ?mq = mq_free (rq s)" "mq_entry ?mq = length q + 1"
    "mq_msg_size ?mq = sz" "mq_max_msgs ?mq = n"
    using inv len by (auto simp: mq_link_first_def flow_inv_def Let_def)
  have "\<forall>c \<in> set (cs @ ds). call_ok (rq s) c" using inv c by (auto simp: flow_inv_def)
  then have "\<forall>c \<in> set (cs @ ds). call_ok ?mq c"
    by (rule calls_ok_other) (use own inv in \<open>auto simp: mq flow_inv_def\<close>)
  then show ?thesis using inv c own len unfolding flow_inv_def by (auto simp: mq)
qed

lemma flow_unlink:
  assumes inv: "flow_inv sz n s q f" and "mq_head (rq s) = Some msg"
  shows "\<exists>q'. flow_inv sz n (s\<lparr>rq := mq_detach msg (rq s), calls := (msg, Unlinked (hd (queued s))) # calls s,
      queued := tl (queued s)\<rparr>) q' f"
proof -
  let ?mq = "mq_detach msg (rq s)"
  obtain q' where q: "q = msg # q'" using inv assms(2) by (cases q) (auto simp: flow_inv_def)
  have queued: "queued s = mq_data (rq s) msg # map (mq_data (rq s)) q'" using inv by (simp add: q flow_inv_def)
  have last: "last q = msg \<longleftrightarrow> q' = []" using inv last_in_set [of q'] by (auto simp: q flow_inv_def)
  have mq: "mq_data ?mq = mq_data (rq s)" "mq_head ?mq = mq_next (rq s) msg" "mq_next ?mq = mq_next (rq s)"
    "mq_tail ?mq = (if q' = [] then None else Some (last q'))" "mq_free ?mq = mq_free (rq s)" "mq_entry ?mq = length q'"
    "mq_msg_size ?mq = sz" "mq_max_msgs ?mq = n"
    using inv last by (auto simp: mq_detach_def mq_unlink_def flow_inv_def q Let_def)
  have "\<forall>c \<in> set (calls s). call_ok (rq s) c" using inv by (simp add: flow_inv_def)
  then have "\<forall>c \<in> set (calls s). call_ok ?mq c"
    by (rule calls_ok_other) (use inv in \<open>auto simp: mq flow_inv_def\<close>)
  then have "flow_inv sz n (s\<lparr>rq := ?mq, calls := (msg, Unlinked (hd (queued s))) # calls s, queued := tl (queued s)\<rparr>) q' f"
    using inv unfolding flow_inv_def q by (auto simp: mq queued)
  then show ?thesis by blast
qed

lemma flow_free:
  assumes inv: "flow_inv sz n s q f" and c: "calls s = cs @ (msg, Unlinked b) # ds"
  shows "flow_inv sz n (s\<lparr>rq := link_free msg (rq s), calls := cs @ ds,
      delivered := delivered s @ [(mq_copy_out msg sz (rq s), b)]\<rparr>) q (msg # f)"
proof -
  let ?mq = "link_free msg (rq s)"
  have own: "msg \<notin> set q" "msg \<notin> set f" "msg \<notin> fst ` set (cs @ ds)" "mq_data (rq s) msg = b"
    using inv c by (auto simp: flow_inv_def)
  have "length b = sz" "mq_msg_size (rq s) = sz" using inv own(4) by (auto simp: flow_inv_def)
  then have out: "mq_copy_out msg sz (rq s) = b" by (simp add: mq_copy_out_def own(4))
  have "\<forall>c \<in> set (cs @ ds). call_ok (rq s) c" using inv c by (auto simp: flow_inv_def)
  then have "\<forall>c \<in> set (cs @ ds). call_ok ?mq c"
    by (rule calls_ok_other) (use own inv in \<open>auto simp: link_free_def flow_inv_def\<close>)
  then show ?thesis using inv c own out unfolding flow_inv_def by (auto simp: link_free_def)
qed

lemma flow_step:
  assumes "mq_step sz s s'" "flow_inv sz n s q f"
  shows "\<exists>q' f'. flow_inv sz n s' q' f'"
  using assms(1)
proof (cases rule: mq_step.cases)
  case (Grab msg b urgent)
  then show ?thesis using flow_grab [OF assms(2)] by blast
next
  case (Fill cs msg urgent b ds)
  then show ?thesis using flow_fill [OF assms(2)] by blast
next
  case (Link cs msg urgent b ds)
  show ?thesis
  proof (cases urgent)
    case True
    then show ?thesis using Link flow_link_first [OF assms(2), of cs msg b ds] by auto
  next
    case False
    then show ?thesis using Link flow_link [OF assms(2), of cs msg b ds] by auto
  qed
next
  case (Unlink msg)
  then show ?thesis using flow_unlink [OF assms(2)] by blast
next
  case (Free cs msg b ds)
  then show ?thesis using flow_free [OF assms(2)] by blast
qed

lemma flow_reach:
  assumes "mq_reach sz (mq_start mq) s" "mq_ok sz mq" "mq_list mq = []"
  shows "\<exists>q f. flow_inv sz (mq_max_msgs mq) s q f"
  using assms(1)
proof induction
  case Idle
  obtain q f where qf: "mq_inv mq q f" "mq_list mq = mq_messages mq q" "mq_msg_size mq = sz"
    using mq_okE [OF assms(2)] by metis
  then have "flow_inv sz (mq_max_msgs mq) (mq_start mq) q f"
    using assms(3) by (auto simp: flow_inv_def mq_inv_def mq_start_def mq_messages_def)
  then show ?case by blast
next
  case (Step s s')
  then show ?case using flow_step by blast
qed

text \<open>
  C24. Calls of a message queue may interrupt each other wherever the code enables interrupts: any number of sends,
  urgent sends and receives of whole messages under way on an initialised queue, in any order of their parts.  Then
  the messages linked to the queue are always those of a queue to which senders append, urgent senders prepend and
  receivers take the first, with their bytes; every receiver copies out exactly the message it unlinked; and each
  block of the pool is in the queue, free, or owned by one call under way, so that none is lost or used twice.
\<close>

theorem message_queue_interleaves:
  assumes "0 < msg_size" "msg_size \<le> 65532" "\<And>x. length (bytes x) = rt_align4 msg_size"
    and mq: "mq = fst (rt_mq_init n msg_size pool_size flag links bytes k)"
    and run: "mq_reach (rt_align4 msg_size) (mq_start mq) s"
  shows "mq_list (rq s) = queued s \<and> (\<forall>d \<in> set (delivered s). fst d = snd d) \<and>
    distinct (mq_nodes (rq s) @ mq_free_nodes (rq s) @ map fst (calls s)) \<and>
    set (mq_nodes (rq s) @ mq_free_nodes (rq s) @ map fst (calls s)) =
      {..<pool_size div (rt_align4 msg_size + 4) mod 65536}"
proof -
  note init = mq_init_ok [of msg_size bytes mq n pool_size flag links k, OF assms(1-4)]
  obtain q f where inv: "flow_inv (rt_align4 msg_size) (mq_max_msgs mq) s q f" using flow_reach [OF run init(1,2)] by blast
  have "mq_nodes (rq s) = q" "mq_free_nodes (rq s) = f"
    using inv flow_inv_length [OF inv] unfolding mq_nodes_def mq_free_nodes_def flow_inv_def
    by (auto intro: chain_walk chain_walk_all)
  then show ?thesis
    using inv init(3) unfolding flow_inv_def mq_list_def mq_messages_def by (auto split: prod.splits)
qed

text \<open>Two senders that overlap: the second one links its message first.\<close>

lemma demo_overlap:
  fixes mq :: rt_messagequeue
  assumes "mq = fst (rt_mq_init 4 4 16 0 (\<lambda>_. None) (\<lambda>_. replicate 4 0) demo_kernel)"
  shows "\<exists>s. mq_reach 4 (mq_start mq) s \<and> queued s = [[5, 6, 7, 8], [1, 2, 3, 4]] \<and> calls s = []"
proof -
  have mq: "mq_free mq = Some 1" "mq_next mq 1 = Some 0"
    unfolding assms by (simp_all add: rt_mq_init_def rt_align4_def link_free_def upt_rec Let_def)
  let ?a = "[1, 2, 3, 4] :: u8 list" and ?b = "[5, 6, 7, 8] :: u8 list"
  define s1 where "s1 = (mq_start mq)\<lparr>rq := mq_grab 1 mq, calls := [(1, Grabbed False ?a)]\<rparr>"
  define s2 where "s2 = s1\<lparr>rq := mq_grab 0 (rq s1), calls := [(0, Grabbed False ?b), (1, Grabbed False ?a)]\<rparr>"
  define s3 where "s3 = s2\<lparr>rq := mq_fill 0 ?b (rq s2), calls := [(0, Filled False ?b), (1, Grabbed False ?a)]\<rparr>"
  define s4 where "s4 = s3\<lparr>rq := mq_link 0 (rq s3), calls := [(1, Grabbed False ?a)], queued := [?b]\<rparr>"
  define s5 where "s5 = s4\<lparr>rq := mq_fill 1 ?a (rq s4), calls := [(1, Filled False ?a)]\<rparr>"
  define s6 where "s6 = s5\<lparr>rq := mq_link 1 (rq s5), calls := [], queued := [?b, ?a]\<rparr>"
  have "mq_step 4 (mq_start mq) s1"
    using mq_step.Grab [of "mq_start mq" 1 ?a 4 False] mq by (simp add: s1_def mq_start_def)
  moreover have "mq_step 4 s1 s2"
    using mq_step.Grab [of s1 0 ?b 4 False] mq by (simp add: s2_def s1_def mq_start_def mq_grab_def)
  moreover have "mq_step 4 s2 s3"
    using mq_step.Fill [of s2 "[]" 0 False ?b "[(1, Grabbed False ?a)]" 4] by (simp add: s3_def s2_def)
  moreover have "mq_step 4 s3 s4"
    using mq_step.Link [of s3 "[]" 0 False ?b "[(1, Grabbed False ?a)]" 4]
    by (simp add: s4_def s3_def s2_def s1_def mq_start_def)
  moreover have "mq_step 4 s4 s5"
    using mq_step.Fill [of s4 "[]" 1 False ?a "[]" 4] by (simp add: s5_def s4_def)
  moreover have "mq_step 4 s5 s6"
    using mq_step.Link [of s5 "[]" 1 False ?a "[]" 4] by (simp add: s6_def s5_def s4_def)
  ultimately have "mq_reach 4 (mq_start mq) s6" by (meson mq_reach.intros)
  then show ?thesis by (intro exI [of _ s6]) (simp add: s6_def)
qed

theorem message_queue_interleaves_witness:
  "\<exists>s. mq_list (rq s) = [[5, 6, 7, 8], [1, 2, 3, 4]] \<and> calls s = [] \<and>
    mq_reach 4 (mq_start (fst (rt_mq_init 4 4 16 0 (\<lambda>_. None) (\<lambda>_. replicate 4 0) demo_kernel))) s"
proof -
  have align: "rt_align4 4 = 4" by (simp add: rt_align4_def)
  obtain s where s: "mq_reach 4 (mq_start (fst (rt_mq_init 4 4 16 0 (\<lambda>_. None) (\<lambda>_. replicate 4 0) demo_kernel))) s"
    "queued s = [[5, 6, 7, 8], [1, 2, 3, 4]]" "calls s = []" using demo_overlap [OF refl] by blast
  have "mq_list (rq s) = queued s"
    using message_queue_interleaves [of 4 "\<lambda>_. replicate 4 0", OF _ _ _ refl, unfolded align, OF _ _ _ s(1)] by simp
  then show ?thesis using s by metis
qed

end
