(* ===== verification/Serial.thy ===== *)
theory Serial
  imports Ipc
begin

unbundle bit_operations_syntax

text \<open>
  \<^verbatim>\<open>components/drivers/serial/serial.c\<close> without DMA (\<^verbatim>\<open>RT_SERIAL_USING_DMA\<close> is not configured) and the calls of
  \<^verbatim>\<open>src/device.c\<close> on a serial device.  The operations of the UART driver (\<^verbatim>\<open>struct rt_uart_ops\<close>) are function pointers in
  the code and a record of functions on the hardware state \<open>'h\<close> here; \<open>SET_INT\<close> and \<open>CLR_INT\<close> name the direction.
\<close>

definition RT_DEVICE_FLAG_STANDALONE :: u16 where "RT_DEVICE_FLAG_STANDALONE = 0x008"
definition RT_DEVICE_FLAG_ACTIVATED :: u16 where "RT_DEVICE_FLAG_ACTIVATED = 0x010"
definition RT_DEVICE_FLAG_SUSPENDED :: u16 where "RT_DEVICE_FLAG_SUSPENDED = 0x020"
definition RT_DEVICE_FLAG_STREAM :: u16 where "RT_DEVICE_FLAG_STREAM = 0x040"
definition RT_DEVICE_FLAG_INT_RX :: u16 where "RT_DEVICE_FLAG_INT_RX = 0x100"
definition RT_DEVICE_FLAG_DMA_RX :: u16 where "RT_DEVICE_FLAG_DMA_RX = 0x200"
definition RT_DEVICE_FLAG_INT_TX :: u16 where "RT_DEVICE_FLAG_INT_TX = 0x400"
definition RT_DEVICE_FLAG_DMA_TX :: u16 where "RT_DEVICE_FLAG_DMA_TX = 0x800"
definition RT_DEVICE_OFLAG_OPEN :: u16 where "RT_DEVICE_OFLAG_OPEN = 0x008"

lemmas device_flags = RT_DEVICE_FLAG_STANDALONE_def RT_DEVICE_FLAG_ACTIVATED_def RT_DEVICE_FLAG_SUSPENDED_def
  RT_DEVICE_FLAG_STREAM_def RT_DEVICE_FLAG_INT_RX_def RT_DEVICE_FLAG_DMA_RX_def RT_DEVICE_FLAG_INT_TX_def
  RT_DEVICE_FLAG_DMA_TX_def RT_DEVICE_OFLAG_OPEN_def

record serial_configure =
  baud_rate :: u32
  data_bits :: nat
  stop_bits :: nat
  parity :: nat
  bit_order :: nat
  invert :: nat
  bufsz :: nat      \<comment> \<open>16 bits\<close>

datatype uart_cmd = RT_DEVICE_CTRL_SET_INT u16 | RT_DEVICE_CTRL_CLR_INT u16 | UART_OTHER int

record 'h uart_ops =
  op_configure :: "serial_configure \<Rightarrow> 'h \<Rightarrow> int \<times> 'h"
  op_control :: "uart_cmd \<Rightarrow> 'h \<Rightarrow> int \<times> 'h"
  op_putc :: "u8 \<Rightarrow> 'h \<Rightarrow> int \<times> 'h"
  op_getc :: "'h \<Rightarrow> int \<times> 'h"

record rx_fifo =
  fifo_buffer :: "u8 list"
  put_index :: nat
  get_index :: nat
  is_full :: bool

record serial =
  dev_flag :: u16
  open_flag :: u16
  ref_count :: u8
  rx_indicate :: bool      \<comment> \<open>a callback is set\<close>
  config :: serial_configure
  serial_rx :: "rx_fifo option"
  serial_tx :: bool        \<comment> \<open>a transmit FIFO is allocated\<close>

section \<open>The receive FIFO\<close>

text \<open>Lines 1176 to 1188: the interrupt stores a byte; when the indices meet the oldest byte is dropped.\<close>

definition fifo_next :: "nat \<Rightarrow> nat \<Rightarrow> nat" where
  "fifo_next n i = (if n \<le> i + 1 then 0 else i + 1)"

definition fifo_put :: "nat \<Rightarrow> u8 \<Rightarrow> rx_fifo \<Rightarrow> rx_fifo res" where
  "fifo_put n ch f =
     bind_res (arr_put (fifo_buffer f) (put_index f) ch) (\<lambda>b.
       let f = f\<lparr>fifo_buffer := b, put_index := fifo_next n (put_index f)\<rparr> in
       Inr (if put_index f = get_index f then f\<lparr>get_index := fifo_next n (get_index f), is_full := True\<rparr> else f))"

text \<open>Lines 278 to 293: the reader takes a byte; \<open>None\<close> when there is none.\<close>

definition fifo_get :: "nat \<Rightarrow> rx_fifo \<Rightarrow> (u8 option \<times> rx_fifo) res" where
  "fifo_get n f =
     (if get_index f = put_index f \<and> \<not> is_full f then Inr (None, f)
      else bind_res (arr_get (fifo_buffer f) (get_index f)) (\<lambda>ch.
        Inr (Some ch, f\<lparr>get_index := fifo_next n (get_index f), is_full := False\<rparr>)))"

fun serial_int_rx :: "nat \<Rightarrow> nat \<Rightarrow> rx_fifo \<Rightarrow> (u8 list \<times> rx_fifo) res" where
  "serial_int_rx n 0 f = Inr ([], f)"
| "serial_int_rx n (Suc len) f =
     bind_res (fifo_get n f) (\<lambda>(ch, f).
       case ch of
         None \<Rightarrow> Inr ([], f)
       | Some ch \<Rightarrow> bind_res (serial_int_rx n len f) (\<lambda>(chs, f). Inr (ch # chs, f)))"

text \<open>Lines 1201 and 1202.\<close>

definition rx_length :: "nat \<Rightarrow> rx_fifo \<Rightarrow> nat" where
  "rx_length n f = (if get_index f \<le> put_index f then put_index f - get_index f else n - (get_index f - put_index f))"

section \<open>Polling\<close>

fun serial_poll_rx :: "'h uart_ops \<Rightarrow> nat \<Rightarrow> 'h \<Rightarrow> u8 list \<times> 'h" where
  "serial_poll_rx ops 0 h = ([], h)"
| "serial_poll_rx ops (Suc len) h =
     (let (ch, h) = op_getc ops h in
      if ch = -1 then ([], h)
      else if ch = 10 then ([word_of_int ch], h)
      else (let (chs, h) = serial_poll_rx ops len h in (word_of_int ch # chs, h)))"

fun serial_poll_tx :: "'h uart_ops \<Rightarrow> bool \<Rightarrow> u8 list \<Rightarrow> 'h \<Rightarrow> 'h" where
  "serial_poll_tx ops stream [] h = h"
| "serial_poll_tx ops stream (ch # chs) h =
     (let h = (if ch = 10 \<and> stream then snd (op_putc ops 13 h) else h)
      in serial_poll_tx ops stream chs (snd (op_putc ops ch h)))"

text \<open>
  Sending by interrupt: when the hardware takes no byte the thread waits for the completion of the FIFO, with the
  bytes that are still to be sent, and goes on with them when it is woken.
\<close>

fun serial_int_tx :: "'h uart_ops \<Rightarrow> u8 list \<Rightarrow> 'h \<Rightarrow> u8 list \<times> 'h" where
  "serial_int_tx ops [] h = ([], h)"
| "serial_int_tx ops (ch # chs) h =
     (let (r, h) = op_putc ops ch h in if r = -1 then (ch # chs, h) else serial_int_tx ops chs h)"

section \<open>The serial device\<close>

definition rt_serial_init :: "'h uart_ops \<Rightarrow> serial \<times> 'h \<Rightarrow> int \<times> serial \<times> 'h" where
  "rt_serial_init ops = (\<lambda>(s, h).
     let s = s\<lparr>serial_rx := None, serial_tx := False\<rparr>; (r, h) = op_configure ops (config s) h in (r, s, h))"

definition on :: "u16 \<Rightarrow> u16 \<Rightarrow> bool" where
  "on x flag \<longleftrightarrow> x AND flag \<noteq> 0"

text \<open>\<open>mem\<close> tells whether the heap has the memory for a FIFO of a size; a failed allocation fails an assertion.\<close>

definition open_rx :: "'h uart_ops \<Rightarrow> (nat \<Rightarrow> bool) \<Rightarrow> u16 \<Rightarrow> serial \<times> 'h \<Rightarrow> (serial \<times> 'h) res" where
  "open_rx ops mem oflag = (\<lambda>(s, h).
     if \<not> on oflag RT_DEVICE_FLAG_INT_RX then Inr (s, h)
     else
       (case serial_rx s of
          None \<Rightarrow>
            if \<not> mem (bufsz (config s)) then Inl AssertFailed
            else Inr (s\<lparr>serial_rx := Some \<lparr>fifo_buffer = replicate (bufsz (config s)) 0, put_index = 0, get_index = 0,
                          is_full = False\<rparr>,
                        open_flag := open_flag s OR RT_DEVICE_FLAG_INT_RX\<rparr>,
                      snd (op_control ops (RT_DEVICE_CTRL_SET_INT RT_DEVICE_FLAG_INT_RX) h))
        | Some _ \<Rightarrow> Inr (s\<lparr>open_flag := open_flag s OR RT_DEVICE_FLAG_INT_RX\<rparr>, h)))"

definition open_tx :: "'h uart_ops \<Rightarrow> (nat \<Rightarrow> bool) \<Rightarrow> u16 \<Rightarrow> serial \<times> 'h \<Rightarrow> (serial \<times> 'h) res" where
  "open_tx ops mem oflag = (\<lambda>(s, h).
     if \<not> on oflag RT_DEVICE_FLAG_INT_TX then Inr (s, h)
     else if serial_tx s then Inr (s\<lparr>open_flag := open_flag s OR RT_DEVICE_FLAG_INT_TX\<rparr>, h)
     else if \<not> mem 0 then Inl AssertFailed
     else Inr (s\<lparr>serial_tx := True, open_flag := open_flag s OR RT_DEVICE_FLAG_INT_TX\<rparr>,
               snd (op_control ops (RT_DEVICE_CTRL_SET_INT RT_DEVICE_FLAG_INT_TX) h)))"

definition rt_serial_open :: "'h uart_ops \<Rightarrow> (nat \<Rightarrow> bool) \<Rightarrow> u16 \<Rightarrow> serial \<times> 'h \<Rightarrow> (int \<times> serial \<times> 'h) res" where
  "rt_serial_open ops mem oflag = (\<lambda>(s, h).
     if \<exists>flag \<in> {RT_DEVICE_FLAG_DMA_RX, RT_DEVICE_FLAG_DMA_TX, RT_DEVICE_FLAG_INT_RX, RT_DEVICE_FLAG_INT_TX}.
          on oflag flag \<and> \<not> on (dev_flag s) flag
     then Inr (- RT_EIO, s, h)
     else
       (let stream_flag = (if on oflag RT_DEVICE_FLAG_STREAM \<or> on (open_flag s) RT_DEVICE_FLAG_STREAM
              then RT_DEVICE_FLAG_STREAM else 0) in
        bind_res (open_rx ops mem oflag (s\<lparr>open_flag := oflag AND 0xff\<rparr>, h)) (\<lambda>st.
        bind_res (open_tx ops mem oflag st) (\<lambda>(s, h).
          Inr (RT_EOK, s\<lparr>open_flag := open_flag s OR stream_flag\<rparr>, h)))))"

definition close_rx :: "'h uart_ops \<Rightarrow> serial \<times> 'h \<Rightarrow> (serial \<times> 'h) res" where
  "close_rx ops = (\<lambda>(s, h).
     if \<not> on (open_flag s) RT_DEVICE_FLAG_INT_RX then Inr (s, h)
     else if serial_rx s = None then Inl AssertFailed
     else Inr (s\<lparr>serial_rx := None, open_flag := open_flag s AND NOT RT_DEVICE_FLAG_INT_RX\<rparr>,
               snd (op_control ops (RT_DEVICE_CTRL_CLR_INT RT_DEVICE_FLAG_INT_RX) h)))"

definition close_tx :: "'h uart_ops \<Rightarrow> serial \<times> 'h \<Rightarrow> (serial \<times> 'h) res" where
  "close_tx ops = (\<lambda>(s, h).
     if \<not> on (open_flag s) RT_DEVICE_FLAG_INT_TX then Inr (s, h)
     else if \<not> serial_tx s then Inl AssertFailed
     else Inr (s\<lparr>serial_tx := False, open_flag := open_flag s AND NOT RT_DEVICE_FLAG_INT_TX\<rparr>,
               snd (op_control ops (RT_DEVICE_CTRL_CLR_INT RT_DEVICE_FLAG_INT_TX) h)))"

definition rt_serial_close :: "'h uart_ops \<Rightarrow> serial \<times> 'h \<Rightarrow> (int \<times> serial \<times> 'h) res" where
  "rt_serial_close ops st =
     (if 1 < ref_count (fst st) then Inr (RT_EOK, st)
      else bind_res (close_rx ops st) (\<lambda>st. bind_res (close_tx ops st) (\<lambda>st. Inr (RT_EOK, st))))"

definition rt_serial_read :: "'h uart_ops \<Rightarrow> nat \<Rightarrow> serial \<times> 'h \<Rightarrow> (u8 list \<times> serial \<times> 'h) res" where
  "rt_serial_read ops len = (\<lambda>(s, h).
     if len = 0 then Inr ([], s, h)
     else if on (open_flag s) RT_DEVICE_FLAG_INT_RX then
       (case serial_rx s of
          None \<Rightarrow> Inl AssertFailed
        | Some f \<Rightarrow>
            bind_res (serial_int_rx (bufsz (config s)) len f) (\<lambda>(chs, f). Inr (chs, s\<lparr>serial_rx := Some f\<rparr>, h)))
     else (let (chs, h) = serial_poll_rx ops len h in Inr (chs, s, h)))"

text \<open>The bytes of the caller that are not sent yet; the call has returned when there are none.\<close>

definition rt_serial_write :: "'h uart_ops \<Rightarrow> u8 list \<Rightarrow> serial \<times> 'h \<Rightarrow> (u8 list \<times> serial \<times> 'h) res" where
  "rt_serial_write ops data = (\<lambda>(s, h).
     if data = [] then Inr ([], s, h)
     else if on (open_flag s) RT_DEVICE_FLAG_INT_TX then
       (if \<not> serial_tx s then Inl AssertFailed
        else (let (rest, h) = serial_int_tx ops data h in Inr (rest, s, h)))
     else Inr ([], s, serial_poll_tx ops (on (open_flag s) RT_DEVICE_FLAG_STREAM) data h))"

datatype serial_cmd = RT_DEVICE_CTRL_SUSPEND | RT_DEVICE_CTRL_RESUME | RT_DEVICE_CTRL_CONFIG "serial_configure option"
  | SERIAL_OTHER uart_cmd

definition rt_serial_control :: "'h uart_ops \<Rightarrow> serial_cmd \<Rightarrow> serial \<times> 'h \<Rightarrow> int \<times> serial \<times> 'h" where
  "rt_serial_control ops cmd = (\<lambda>(s, h).
     case cmd of
       RT_DEVICE_CTRL_SUSPEND \<Rightarrow> (RT_EOK, s\<lparr>dev_flag := dev_flag s OR RT_DEVICE_FLAG_SUSPENDED\<rparr>, h)
     | RT_DEVICE_CTRL_RESUME \<Rightarrow> (RT_EOK, s\<lparr>dev_flag := dev_flag s AND NOT RT_DEVICE_FLAG_SUSPENDED\<rparr>, h)
     | RT_DEVICE_CTRL_CONFIG None \<Rightarrow> (RT_EOK, s, h)
     | RT_DEVICE_CTRL_CONFIG (Some c) \<Rightarrow>
         if bufsz c \<noteq> bufsz (config s) \<and> ref_count s \<noteq> 0 then (RT_EBUSY, s, h)
         else (RT_EOK, s\<lparr>config := c\<rparr>, if ref_count s \<noteq> 0 then snd (op_configure ops c h) else h)
     | SERIAL_OTHER uc \<Rightarrow> (let (r, h) = op_control ops uc h in (r, s, h)))"

text \<open>
  The interrupt: all bytes the hardware has go into the FIFO, then the callback is called if there is one and
  the FIFO is not empty.  The loop ends when the hardware has no byte; \<open>None\<close> is a loop that does not end.
\<close>

partial_function (option) isr_receive :: "'h uart_ops \<Rightarrow> nat \<Rightarrow> rx_fifo \<Rightarrow> 'h \<Rightarrow> (rx_fifo \<times> 'h) res option" where
  "isr_receive ops n f h =
     (let (ch, h) = op_getc ops h in
      if ch = -1 then Some (Inr (f, h))
      else
        (case fifo_put n (word_of_int ch) f of
           Inl e \<Rightarrow> Some (Inl e)
         | Inr f \<Rightarrow> isr_receive ops n f h))"

definition serial_isr_rx_ind :: "'h uart_ops \<Rightarrow> ('s \<Rightarrow> 's res) \<Rightarrow> serial \<times> 'h \<Rightarrow> 's \<Rightarrow> ((serial \<times> 'h) \<times> 's) res option" where
  "serial_isr_rx_ind ops callback = (\<lambda>(s, h) st.
     case serial_rx s of
       None \<Rightarrow> Some (Inl AssertFailed)
     | Some f \<Rightarrow>
         map_option (\<lambda>r. bind_res r (\<lambda>(f, h).
           bind_res (if rx_indicate s \<and> rx_length (bufsz (config s)) f \<noteq> 0 then callback st else Inr st) (\<lambda>st.
             Inr ((s\<lparr>serial_rx := Some f\<rparr>, h), st))))
           (isr_receive ops (bufsz (config s)) f h))"

section \<open>The device layer\<close>

definition rt_device_init :: "'h uart_ops \<Rightarrow> serial \<times> 'h \<Rightarrow> int \<times> serial \<times> 'h" where
  "rt_device_init ops = (\<lambda>(s, h).
     if \<not> on (dev_flag s) RT_DEVICE_FLAG_ACTIVATED then
       (let (r, s, h) = rt_serial_init ops (s, h) in
        if r \<noteq> RT_EOK then (r, s, h) else (r, s\<lparr>dev_flag := dev_flag s OR RT_DEVICE_FLAG_ACTIVATED\<rparr>, h))
     else (RT_EOK, s, h))"

definition rt_device_open :: "'h uart_ops \<Rightarrow> (nat \<Rightarrow> bool) \<Rightarrow> u16 \<Rightarrow> serial \<times> 'h \<Rightarrow> (int \<times> serial \<times> 'h) res" where
  "rt_device_open ops mem oflag st =
     (let (r, s, h) = rt_device_init ops st in
      if r \<noteq> RT_EOK then Inr (r, s, h)
      else if on (dev_flag s) RT_DEVICE_FLAG_STANDALONE \<and> on (open_flag s) RT_DEVICE_OFLAG_OPEN
      then Inr (- RT_EBUSY, s, h)
      else
        bind_res (rt_serial_open ops mem oflag (s, h)) (\<lambda>(r, s, h).
          if r = RT_EOK \<or> r = - RT_ENOSYS then
            (let s = s\<lparr>open_flag := open_flag s OR RT_DEVICE_OFLAG_OPEN, ref_count := ref_count s + 1\<rparr> in
             if ref_count s = 0 then Inl AssertFailed else Inr (r, s, h))
          else Inr (r, s, h)))"

definition rt_device_close :: "'h uart_ops \<Rightarrow> serial \<times> 'h \<Rightarrow> (int \<times> serial \<times> 'h) res" where
  "rt_device_close ops = (\<lambda>(s, h).
     if ref_count s = 0 then Inr (- RT_ERROR, s, h)
     else
       (let s = s\<lparr>ref_count := ref_count s - 1\<rparr> in
        if ref_count s \<noteq> 0 then Inr (RT_EOK, s, h)
        else
          bind_res (rt_serial_close ops (s, h)) (\<lambda>(r, s, h).
            Inr (r, if r = RT_EOK \<or> r = - RT_ENOSYS then s\<lparr>open_flag := 0\<rparr> else s, h))))"

text \<open>The number of bytes read or written is the length of the list; a device that is not open gives 0.\<close>

definition rt_device_read :: "'h uart_ops \<Rightarrow> nat \<Rightarrow> serial \<times> 'h \<Rightarrow> (u8 list \<times> serial \<times> 'h) res" where
  "rt_device_read ops n st = (if ref_count (fst st) = 0 then Inr ([], st) else rt_serial_read ops n st)"

definition rt_device_write :: "'h uart_ops \<Rightarrow> u8 list \<Rightarrow> serial \<times> 'h \<Rightarrow> (nat \<times> u8 list \<times> serial \<times> 'h) res" where
  "rt_device_write ops data st =
     (if ref_count (fst st) = 0 then Inr (0, [], st)
      else bind_res (rt_serial_write ops data st) (\<lambda>(rest, st). Inr (length data, rest, st)))"

definition rt_device_control :: "'h uart_ops \<Rightarrow> serial_cmd \<Rightarrow> serial \<times> 'h \<Rightarrow> int \<times> serial \<times> 'h" where
  "rt_device_control ops cmd st = rt_serial_control ops cmd st"

definition rt_device_set_rx_indicate :: "serial \<times> 'h \<Rightarrow> serial \<times> 'h" where
  "rt_device_set_rx_indicate = (\<lambda>(s, h). (s\<lparr>rx_indicate := True\<rparr>, h))"

section \<open>The receive FIFO: results\<close>

text \<open>
  A FIFO of \<open>n\<close> bytes keeps at most \<open>n - 1\<close>: equal indices mean empty.  Its contents are the bytes from the
  read index to the write index.
\<close>

definition fifo_ok :: "nat \<Rightarrow> rx_fifo \<Rightarrow> bool" where
  "fifo_ok n f \<longleftrightarrow> 2 \<le> n \<and> length (fifo_buffer f) = n \<and> put_index f < n \<and> get_index f < n \<and>
     (is_full f \<longrightarrow> put_index f \<noteq> get_index f)"

definition fifo_bytes :: "nat \<Rightarrow> rx_fifo \<Rightarrow> u8 list" where
  "fifo_bytes n f = map (\<lambda>i. fifo_buffer f ! ((get_index f + i) mod n)) [0..<rx_length n f]"

text \<open>Arrival into a buffer of capacity \<open>c\<close> that drops the oldest.\<close>

definition keep_last :: "nat \<Rightarrow> 'a list \<Rightarrow> 'a list" where
  "keep_last c xs = drop (length xs - c) xs"

lemma keep_last_append: "keep_last c (keep_last c xs @ ys) = keep_last c (xs @ ys)"
  by (cases "length xs \<le> c") (simp_all add: keep_last_def add.commute)

lemma fifo_next_mod: "i < n \<Longrightarrow> fifo_next n i = (i + 1) mod n"
  by (cases "n = i + 1") (auto simp: fifo_next_def)

lemma ring_index: "g < n \<Longrightarrow> i < n \<Longrightarrow> (g + i) mod n = (if g + i < n then g + i else g + i - n)" for g i n :: nat
  by (simp add: mod_if)

lemma rx_length_ring:
  assumes "get_index f < n" "put_index f < n"
  shows "rx_length n f < n" "(get_index f + rx_length n f) mod n = put_index f"
  using assms by (auto simp: rx_length_def mod_if)

lemma length_fifo_bytes [simp]: "length (fifo_bytes n f) = rx_length n f"
  by (simp add: fifo_bytes_def)

lemma fifo_bytes_empty: "fifo_ok n f \<Longrightarrow> fifo_bytes n f = [] \<longleftrightarrow> get_index f = put_index f"
  by (auto simp: fifo_bytes_def fifo_ok_def rx_length_def)

lemma rx_length_next:
  assumes "get_index f < n" "put_index f < n" "2 \<le> n"
  shows "fifo_next n (put_index f) \<noteq> get_index f \<Longrightarrow>
      rx_length n (f\<lparr>fifo_buffer := b, put_index := fifo_next n (put_index f)\<rparr>) = rx_length n f + 1"
    "fifo_next n (put_index f) = get_index f \<Longrightarrow> rx_length n f = n - 1"
    "get_index f \<noteq> put_index f \<Longrightarrow> 
      rx_length n (f\<lparr>get_index := fifo_next n (get_index f), is_full := e\<rparr>) = rx_length n f - 1"
  using assms by (auto simp: rx_length_def fifo_next_def split: if_splits)

lemma fifo_bytes_next:
  assumes "get_index f < n" "put_index f < n" "2 \<le> n" "length (fifo_buffer f) = n" "fifo_next n (put_index f) \<noteq> get_index f"
  shows "fifo_bytes n (f\<lparr>fifo_buffer := (fifo_buffer f)[put_index f := ch], put_index := fifo_next n (put_index f)\<rparr>) =
     fifo_bytes n f @ [ch]"
proof -
  let ?l = "rx_length n f" and ?b = "(fifo_buffer f)[put_index f := ch]"
  have l: "?l < n" "(get_index f + ?l) mod n = put_index f" using rx_length_ring [OF assms(1,2)] by auto
  have "(get_index f + i) mod n \<noteq> put_index f" if "i < ?l" for i
    using that l ring_index [OF assms(1), of i] ring_index [OF assms(1), of ?l] by (auto split: if_splits)
  then have "?b ! ((get_index f + i) mod n) = fifo_buffer f ! ((get_index f + i) mod n)" if "i < ?l" for i
    using that by (metis nth_list_update_neq)
  then have "map (\<lambda>i. ?b ! ((get_index f + i) mod n)) [0..<?l] = fifo_bytes n f"
    by (simp add: fifo_bytes_def)
  moreover have "?b ! ((get_index f + ?l) mod n) = ch" using l assms(2,4) by simp
  ultimately show ?thesis using rx_length_next(1) [OF assms(1-3,5)] by (simp add: fifo_bytes_def)
qed

lemma fifo_bytes_tl:
  assumes "get_index f < n" "put_index f < n" "2 \<le> n" "get_index f \<noteq> put_index f"
  shows "fifo_bytes n f =
     fifo_buffer f ! get_index f # fifo_bytes n (f\<lparr>get_index := fifo_next n (get_index f), is_full := e\<rparr>)"
proof -
  have pos: "0 < rx_length n f" using assms by (auto simp: rx_length_def)
  have "(fifo_next n (get_index f) + i) mod n = (get_index f + Suc i) mod n" for i
    using assms(1) by (simp add: fifo_next_mod mod_simps)
  moreover have "[0..<rx_length n f] = 0 # map Suc [0..<rx_length n f - 1]"
    using pos by (simp add: map_Suc_upt upt_conv_Cons)
  ultimately show ?thesis
    using rx_length_next(3) [OF assms] assms(1) by (simp add: fifo_bytes_def comp_def)
qed

text \<open>The interrupt appends the byte and keeps the last \<open>n - 1\<close>; nothing is written outside the buffer.\<close>

lemma fifo_put_ok:
  assumes "fifo_ok n f"
  shows "\<exists>f'. fifo_put n ch f = Inr f' \<and> fifo_ok n f' \<and> fifo_bytes n f' = keep_last (n - 1) (fifo_bytes n f @ [ch])"
proof -
  have f: "get_index f < n" "put_index f < n" "2 \<le> n" "length (fifo_buffer f) = n"
    using assms by (auto simp: fifo_ok_def)
  let ?f = "f\<lparr>fifo_buffer := (fifo_buffer f)[put_index f := ch], put_index := fifo_next n (put_index f)\<rparr>"
  have n: "fifo_next n (put_index f) < n" using f by (simp add: fifo_next_def)
  show ?thesis
  proof (cases "fifo_next n (put_index f) = get_index f")
    case False
    moreover have "rx_length n f < n - 1"
      using rx_length_next(1) [OF f(1-3) False] rx_length_ring(1) [of "?f" n] f(1) n by simp
    ultimately show ?thesis
      using f n fifo_bytes_next [OF f False, of ch] assms
      by (auto simp: fifo_put_def fifo_ok_def Let_def keep_last_def)
  next
    case True
    let ?g = "fifo_next n (get_index f)"
    let ?f' = "f\<lparr>fifo_buffer := (fifo_buffer f)[put_index f := ch], put_index := get_index f, get_index := ?g, is_full := True\<rparr>"
    have g: "?g < n" "?g \<noteq> get_index f" using f by (auto simp: fifo_next_def)
    have len: "rx_length n f = n - 1" "rx_length n ?f' = n - 1"
      using rx_length_next(2) [OF f(1-3) True] f g(1) by (auto simp: rx_length_def fifo_next_def)
    have last: "(get_index f + (n - 1)) mod n = put_index f"
      using rx_length_ring(2) [OF f(1,2)] len(1) by simp
    have idx: "(?g + i) mod n = (get_index f + Suc i) mod n" for i
      using f(1) by (simp add: fifo_next_mod mod_simps)
    have nth: "fifo_bytes n ?f' ! i = (fifo_bytes n f @ [ch]) ! Suc i" if i: "i < n - 1" for i
    proof (cases "Suc i = n - 1")
      case True
      then show ?thesis using i len f last idx [of i] by (simp add: nth_append fifo_bytes_def)
    next
      case False
      then have "Suc i < n - 1" using i by simp
      then have "(get_index f + Suc i) mod n \<noteq> put_index f"
        using last ring_index [OF f(1), of "Suc i"] ring_index [OF f(1), of "n - 1"] by (auto split: if_splits)
      then show ?thesis using False i len idx [of i] by (simp add: nth_append fifo_bytes_def)
    qed
    have "fifo_bytes n ?f' = drop 1 (fifo_bytes n f @ [ch])"
      by (rule nth_equalityI) (use len nth f(3) in \<open>simp_all del: drop_append\<close>)
    moreover have "fifo_ok n ?f'" using f g by (simp add: fifo_ok_def)
    moreover have "fifo_put n ch f = Inr ?f'" using f True by (simp add: fifo_put_def Let_def)
    ultimately show ?thesis using len f(3) by (simp add: keep_last_def drop_Suc)
  qed
qed

lemma fifo_get_ok:
  assumes "fifo_ok n f"
  shows "\<exists>f'. fifo_get n f = Inr (case fifo_bytes n f of [] \<Rightarrow> None | ch # _ \<Rightarrow> Some ch, f') \<and>
     fifo_ok n f' \<and> fifo_bytes n f' = tl (fifo_bytes n f)"
proof (cases "get_index f = put_index f")
  case True
  then have "fifo_bytes n f = []" using assms by (simp add: fifo_bytes_empty)
  then show ?thesis using assms True by (auto simp: fifo_get_def fifo_ok_def)
next
  case False
  have f: "get_index f < n" "put_index f < n" "2 \<le> n" "length (fifo_buffer f) = n"
    using assms by (auto simp: fifo_ok_def)
  then show ?thesis
    using fifo_bytes_tl [OF f(1-3) False, of False] False f by (auto simp: fifo_get_def fifo_ok_def fifo_next_def)
qed

lemma serial_int_rx_ok:
  assumes "fifo_ok n f"
  shows "\<exists>f'. serial_int_rx n len f = Inr (take len (fifo_bytes n f), f') \<and> fifo_ok n f' \<and>
     fifo_bytes n f' = drop len (fifo_bytes n f)"
  using assms
proof (induction len arbitrary: f)
  case (Suc len)
  obtain f1 where f1: "fifo_get n f = Inr (case fifo_bytes n f of [] \<Rightarrow> None | ch # _ \<Rightarrow> Some ch, f1)" "fifo_ok n f1"
    "fifo_bytes n f1 = tl (fifo_bytes n f)"
    using fifo_get_ok [OF Suc.prems] by blast
  show ?case
  proof (cases "fifo_bytes n f")
    case Nil
    then show ?thesis using f1 by simp
  next
    case (Cons ch chs)
    then show ?thesis using Suc.IH [OF f1(2)] f1 by auto
  qed
qed simp


section \<open>The device: results\<close>

lemma flag_exp:
  "RT_DEVICE_FLAG_STANDALONE = 2 ^ 3" "RT_DEVICE_FLAG_ACTIVATED = 2 ^ 4" "RT_DEVICE_FLAG_SUSPENDED = 2 ^ 5"
  "RT_DEVICE_FLAG_STREAM = 2 ^ 6" "RT_DEVICE_FLAG_INT_RX = 2 ^ 8" "RT_DEVICE_FLAG_DMA_RX = 2 ^ 9"
  "RT_DEVICE_FLAG_INT_TX = 2 ^ 10" "RT_DEVICE_FLAG_DMA_TX = 2 ^ 11" "RT_DEVICE_OFLAG_OPEN = 2 ^ 3"
  by (simp_all add: device_flags)

lemma on_exp: "on x (2 ^ i) \<longleftrightarrow> bit x i"
  unfolding on_def and_exp_eq_0_iff_not_bit by simp

lemma exp_bit: "n < 16 \<Longrightarrow> bit (2 ^ n :: u16) i \<longleftrightarrow> i = n"
  by (auto simp: bit_exp_iff)

lemma on_bits:
  "on x RT_DEVICE_FLAG_ACTIVATED \<longleftrightarrow> bit x 4" "on x RT_DEVICE_FLAG_INT_RX \<longleftrightarrow> bit x 8"
  "on x RT_DEVICE_FLAG_INT_TX \<longleftrightarrow> bit x 10"
  unfolding flag_exp on_exp by (rule refl)+

lemma flag_bits:
  "bit RT_DEVICE_FLAG_ACTIVATED i \<longleftrightarrow> i = 4" "bit RT_DEVICE_FLAG_SUSPENDED i \<longleftrightarrow> i = 5"
  "bit RT_DEVICE_FLAG_STREAM i \<longleftrightarrow> i = 6" "bit RT_DEVICE_FLAG_INT_RX i \<longleftrightarrow> i = 8"
  "bit RT_DEVICE_FLAG_INT_TX i \<longleftrightarrow> i = 10" "bit RT_DEVICE_OFLAG_OPEN i \<longleftrightarrow> i = 3"
  unfolding flag_exp by (rule exp_bit; simp)+

lemma low_byte_bits: "bit (0xff :: u16) i \<longleftrightarrow> i < 8"
proof -
  have "bit (mask 8 :: u16) i \<longleftrightarrow> i < 16 \<and> i < 8" unfolding bit_mask_iff by simp
  moreover have "(0xff :: u16) = mask 8" by (simp add: mask_eq_exp_minus_1)
  ultimately show ?thesis by auto
qed

lemmas flag_simps = on_bits flag_bits low_byte_bits bit_or_iff bit_and_iff bit_not_iff

text \<open>
  The FIFO has the size of the configuration and its indices are inside it; it exists exactly while the device is
  open for reception by interrupt.
\<close>

definition serial_inv :: "serial \<Rightarrow> bool" where
  "serial_inv s \<longleftrightarrow> 2 \<le> bufsz (config s) \<and>
     (case serial_rx s of
        None \<Rightarrow> \<not> on (open_flag s) RT_DEVICE_FLAG_INT_RX
      | Some f \<Rightarrow> fifo_ok (bufsz (config s)) f \<and> on (open_flag s) RT_DEVICE_FLAG_INT_RX \<and> ref_count s \<noteq> 0) \<and>
     serial_tx s = on (open_flag s) RT_DEVICE_FLAG_INT_TX \<and> (serial_tx s \<longrightarrow> ref_count s \<noteq> 0) \<and>
     (ref_count s \<noteq> 0 \<longrightarrow> on (dev_flag s) RT_DEVICE_FLAG_ACTIVATED)"

text \<open>Who opens an open device again asks for the interrupts that are in use.\<close>

definition reopen_ok :: "u16 \<Rightarrow> serial \<Rightarrow> bool" where
  "reopen_ok oflag s \<longleftrightarrow> (serial_rx s \<noteq> None \<longrightarrow> on oflag RT_DEVICE_FLAG_INT_RX) \<and>
     (serial_tx s \<longrightarrow> on oflag RT_DEVICE_FLAG_INT_TX)"

lemma replicate_fifo_ok: "2 \<le> n \<Longrightarrow> fifo_ok n \<lparr>fifo_buffer = replicate n 0, put_index = 0, get_index = 0, is_full = False\<rparr>"
  by (simp add: fifo_ok_def)

lemma open_rx_ok:
  assumes "open_rx ops mem oflag (s, h) = Inr (s', h')"
  shows "s' = (if on oflag RT_DEVICE_FLAG_INT_RX
     then s\<lparr>serial_rx := Some (case serial_rx s of Some f \<Rightarrow> f
              | None \<Rightarrow> \<lparr>fifo_buffer = replicate (bufsz (config s)) 0, put_index = 0, get_index = 0, is_full = False\<rparr>),
            open_flag := open_flag s OR RT_DEVICE_FLAG_INT_RX\<rparr> else s)"
  using assms by (auto simp: open_rx_def split: if_splits option.splits)

lemma open_tx_ok:
  assumes "open_tx ops mem oflag (s, h) = Inr (s', h')"
  shows "s' = (if on oflag RT_DEVICE_FLAG_INT_TX
     then s\<lparr>serial_tx := True, open_flag := open_flag s OR RT_DEVICE_FLAG_INT_TX\<rparr> else s)"
  using assms by (auto simp: open_tx_def split: if_splits)

lemma serial_open_cases:
  assumes "rt_serial_open ops mem oflag (s, h) = Inr (r, s', h')"
  obtains (refused) "r = - RT_EIO" "s' = s" "h' = h"
  | (opened) s1 h1 s2 where "open_rx ops mem oflag (s\<lparr>open_flag := oflag AND 0xff\<rparr>, h) = Inr (s1, h1)"
      "open_tx ops mem oflag (s1, h1) = Inr (s2, h')" "r = RT_EOK"
      "s' = s2\<lparr>open_flag := open_flag s2 OR
         (if on oflag RT_DEVICE_FLAG_STREAM \<or> on (open_flag s) RT_DEVICE_FLAG_STREAM then RT_DEVICE_FLAG_STREAM else 0)\<rparr>"
proof (cases "\<exists>flag \<in> {RT_DEVICE_FLAG_DMA_RX, RT_DEVICE_FLAG_DMA_TX, RT_DEVICE_FLAG_INT_RX, RT_DEVICE_FLAG_INT_TX}.
    on oflag flag \<and> \<not> on (dev_flag s) flag")
  case True
  then show ?thesis using assms refused unfolding rt_serial_open_def prod.case by simp
next
  case False
  then show ?thesis
    using assms opened unfolding rt_serial_open_def prod.case Let_def
    by (simp only: if_False) (auto elim!: bind_resE)
qed

text \<open>The effect of a successful open.\<close>

lemma serial_open_ok:
  assumes "rt_serial_open ops mem oflag (s, h) = Inr (r, s', h')" "r = RT_EOK"
  shows "config s' = config s" "dev_flag s' = dev_flag s" "ref_count s' = ref_count s"
    "serial_rx s' = (if on oflag RT_DEVICE_FLAG_INT_RX
       then Some (case serial_rx s of Some f \<Rightarrow> f
              | None \<Rightarrow> \<lparr>fifo_buffer = replicate (bufsz (config s)) 0, put_index = 0, get_index = 0, is_full = False\<rparr>)
       else serial_rx s)"
    "serial_tx s' = (serial_tx s \<or> on oflag RT_DEVICE_FLAG_INT_TX)"
    "on (open_flag s') RT_DEVICE_FLAG_INT_RX = on oflag RT_DEVICE_FLAG_INT_RX"
    "on (open_flag s') RT_DEVICE_FLAG_INT_TX = on oflag RT_DEVICE_FLAG_INT_TX"
proof -
  have "r \<noteq> - RT_EIO" using assms(2) by (simp add: rt_errors)
  let ?st = "if on oflag RT_DEVICE_FLAG_STREAM \<or> on (open_flag s) RT_DEVICE_FLAG_STREAM then RT_DEVICE_FLAG_STREAM else 0"
  obtain s1 h1 s2 where
    o: "open_rx ops mem oflag (s\<lparr>open_flag := oflag AND 0xff\<rparr>, h) = Inr (s1, h1)"
      "open_tx ops mem oflag (s1, h1) = Inr (s2, h')" "s' = s2\<lparr>open_flag := open_flag s2 OR ?st\<rparr>"
    using assms(1) \<open>r \<noteq> - RT_EIO\<close> by (cases rule: serial_open_cases) simp_all
  have st: "\<not> bit ?st 8" "\<not> bit ?st 10" by (auto simp: flag_bits)
  note s = o(3) open_tx_ok [OF o(2)] open_rx_ok [OF o(1)]
  show "config s' = config s" "dev_flag s' = dev_flag s" "ref_count s' = ref_count s"
    "serial_tx s' = (serial_tx s \<or> on oflag RT_DEVICE_FLAG_INT_TX)"
    unfolding s by simp_all
  show "serial_rx s' = (if on oflag RT_DEVICE_FLAG_INT_RX
       then Some (case serial_rx s of Some f \<Rightarrow> f
              | None \<Rightarrow> \<lparr>fifo_buffer = replicate (bufsz (config s)) 0, put_index = 0, get_index = 0, is_full = False\<rparr>)
       else serial_rx s)"
    unfolding s by (simp split: option.split)
  have flags: "open_flag s1 = (if on oflag RT_DEVICE_FLAG_INT_RX then (oflag AND 0xff) OR RT_DEVICE_FLAG_INT_RX else oflag AND 0xff)"
    "open_flag s2 = (if on oflag RT_DEVICE_FLAG_INT_TX then open_flag s1 OR RT_DEVICE_FLAG_INT_TX else open_flag s1)"
    unfolding open_tx_ok [OF o(2)] open_rx_ok [OF o(1)] by simp_all
  then have "bit (open_flag s1) 8 = on oflag RT_DEVICE_FLAG_INT_RX" "\<not> bit (open_flag s1) 10"
    by (auto simp: bit_or_iff bit_and_iff flag_bits low_byte_bits)
  then have "bit (open_flag s2) 8 = on oflag RT_DEVICE_FLAG_INT_RX" "bit (open_flag s2) 10 = on oflag RT_DEVICE_FLAG_INT_TX"
    using flags(2) by (auto simp: bit_or_iff flag_bits)
  then show "on (open_flag s') RT_DEVICE_FLAG_INT_RX = on oflag RT_DEVICE_FLAG_INT_RX"
    "on (open_flag s') RT_DEVICE_FLAG_INT_TX = on oflag RT_DEVICE_FLAG_INT_TX"
    using st unfolding o(3) on_bits by (simp_all add: bit_or_iff)
qed

lemma isr_receive_ok:
  assumes "isr_receive ops n f h = Some r"
  shows "fifo_ok n f \<longrightarrow> (\<exists>f' h'. r = Inr (f', h') \<and> fifo_ok n f')"
proof (rule isr_receive.raw_induct [OF _ assms])
  fix rec :: "'a uart_ops \<Rightarrow> nat \<Rightarrow> rx_fifo \<Rightarrow> 'a \<Rightarrow> (rx_fifo \<times> 'a) res option"
    and ops :: "'a uart_ops" and n f h r
  assume IH: "\<And>ops n f h r. rec ops n f h = Some r \<Longrightarrow> fifo_ok n f \<longrightarrow> (\<exists>f' h'. r = Inr (f', h') \<and> fifo_ok n f')"
    and body: "(let (ch, h) = op_getc ops h in
      if ch = -1 then Some (Inr (f, h))
      else (case fifo_put n (word_of_int ch) f of Inl e \<Rightarrow> Some (Inl e) | Inr f \<Rightarrow> rec ops n f h)) = Some r"
  show "fifo_ok n f \<longrightarrow> (\<exists>f' h'. r = Inr (f', h') \<and> fifo_ok n f')"
  proof
    assume f: "fifo_ok n f"
    obtain ch h1 where g: "op_getc ops h = (ch, h1)" by fastforce
    obtain f1 where f1: "fifo_put n (word_of_int ch) f = Inr f1" "fifo_ok n f1"
      using fifo_put_ok [OF f] by blast
    show "\<exists>f' h'. r = Inr (f', h') \<and> fifo_ok n f'"
      using IH [of ops n f1 h1 r] body g f f1 by (auto split: if_splits)
  qed
qed

text \<open>The calls on a device and its interrupt.\<close>

datatype serial_call =
  Dev_open u16 | Dev_close | Dev_read nat | Dev_write "u8 list" | Dev_control serial_cmd | Dev_interrupt

definition serial_call_step :: "'h uart_ops \<Rightarrow> (nat \<Rightarrow> bool) \<Rightarrow> serial_call \<Rightarrow> serial \<times> 'h \<Rightarrow> (serial \<times> 'h) res option" where
  "serial_call_step ops mem c st =
     (case c of
        Dev_open oflag \<Rightarrow> Some (bind_res (rt_device_open ops mem oflag st) (\<lambda>(_, st). Inr st))
      | Dev_close \<Rightarrow> Some (bind_res (rt_device_close ops st) (\<lambda>(_, st). Inr st))
      | Dev_read n \<Rightarrow> Some (bind_res (rt_device_read ops n st) (\<lambda>(_, st). Inr st))
      | Dev_write chs \<Rightarrow> Some (bind_res (rt_device_write ops chs st) (\<lambda>(_, _, st). Inr st))
      | Dev_control cmd \<Rightarrow> Some (Inr (snd (rt_device_control ops cmd st)))
      | Dev_interrupt \<Rightarrow> map_option (\<lambda>r. bind_res r (\<lambda>(st, _). Inr st)) (serial_isr_rx_ind ops Inr st ()))"

definition call_ok :: "serial_call \<Rightarrow> serial \<Rightarrow> bool" where
  "call_ok c s = (case c of
     Dev_open oflag \<Rightarrow> reopen_ok oflag s
   | Dev_control (RT_DEVICE_CTRL_CONFIG (Some cfg)) \<Rightarrow> 2 \<le> bufsz cfg
   | _ \<Rightarrow> True)"

definition assert_or :: "('a \<Rightarrow> bool) \<Rightarrow> 'a res \<Rightarrow> bool" where
  "assert_or P r = (case r of Inl e \<Rightarrow> e = AssertFailed | Inr x \<Rightarrow> P x)"

lemma assert_or_simps [simp]:
  "assert_or P (Inl e) \<longleftrightarrow> e = AssertFailed" "assert_or P (Inr x) \<longleftrightarrow> P x"
  by (simp_all add: assert_or_def)

lemma assert_or_bind: "assert_or P m \<Longrightarrow> (\<And>x. P x \<Longrightarrow> assert_or Q (f x)) \<Longrightarrow> assert_or Q (bind_res m f)"
  by (cases m) simp_all

lemma device_init_inv:
  assumes "serial_inv s" "rt_device_init ops (s, h) = (r, s', h')"
  shows "serial_inv s'" "r = RT_EOK \<Longrightarrow> on (dev_flag s') RT_DEVICE_FLAG_ACTIVATED"
    "reopen_ok oflag s \<Longrightarrow> reopen_ok oflag s'" "config s' = config s"
proof -
  have "\<not> on (dev_flag s) RT_DEVICE_FLAG_ACTIVATED \<Longrightarrow> ref_count s = 0" using assms(1) by (auto simp: serial_inv_def)
  then have none: "\<not> on (dev_flag s) RT_DEVICE_FLAG_ACTIVATED \<Longrightarrow>
     serial_rx s = None \<and> \<not> serial_tx s \<and> \<not> on (open_flag s) RT_DEVICE_FLAG_INT_RX \<and> \<not> on (open_flag s) RT_DEVICE_FLAG_INT_TX"
    using assms(1) by (auto simp: serial_inv_def split: option.splits)
  obtain r1 h1 where c: "op_configure ops (config s) h = (r1, h1)" by fastforce
  have "on (x OR RT_DEVICE_FLAG_ACTIVATED) RT_DEVICE_FLAG_ACTIVATED" for x by (simp add: flag_simps)
  then show "serial_inv s'" "r = RT_EOK \<Longrightarrow> on (dev_flag s') RT_DEVICE_FLAG_ACTIVATED"
    "reopen_ok oflag s \<Longrightarrow> reopen_ok oflag s'" "config s' = config s"
    using assms none c
    by (auto simp: rt_device_init_def rt_serial_init_def serial_inv_def reopen_ok_def Let_def split: if_splits)
qed

lemma serial_open_error: "rt_serial_open ops mem oflag (s, h) = Inl e \<Longrightarrow> e = AssertFailed"
proof -
  have rx: "open_rx ops mem oflag st = Inl e' \<Longrightarrow> e' = AssertFailed" for st e'
    by (cases st) (auto simp: open_rx_def split: if_splits option.splits)
  have tx: "open_tx ops mem oflag st = Inl e' \<Longrightarrow> e' = AssertFailed" for st e'
    by (cases st) (auto simp: open_tx_def split: if_splits)
  show "rt_serial_open ops mem oflag (s, h) = Inl e \<Longrightarrow> e = AssertFailed"
    unfolding rt_serial_open_def prod.case Let_def
    by (auto simp: bind_res_def split: if_splits sum.splits dest: rx tx)
qed

lemma device_open_inv:
  assumes "serial_inv s" "reopen_ok oflag s"
  shows "assert_or (\<lambda>(r, s', h'). serial_inv s') (rt_device_open ops mem oflag (s, h))"
proof -
  obtain r0 s0 h0 where i: "rt_device_init ops (s, h) = (r0, s0, h0)" by (cases "rt_device_init ops (s, h)")
  note inv = device_init_inv [OF assms(1) i]
  show ?thesis
  proof (cases "r0 = RT_EOK \<and> \<not> (on (dev_flag s0) RT_DEVICE_FLAG_STANDALONE \<and> on (open_flag s0) RT_DEVICE_OFLAG_OPEN)")
    case False
    then show ?thesis using inv i by (auto simp: rt_device_open_def Let_def)
  next
    case True
    have act: "on (dev_flag s0) RT_DEVICE_FLAG_ACTIVATED" and re: "reopen_ok oflag s0"
      using inv(2,3) True assms(2) by auto
    have "assert_or (\<lambda>(r, s', h'). serial_inv s') (bind_res (rt_serial_open ops mem oflag (s0, h0)) (\<lambda>(r, s, h).
          if r = RT_EOK \<or> r = - RT_ENOSYS then
            (let s = s\<lparr>open_flag := open_flag s OR RT_DEVICE_OFLAG_OPEN, ref_count := ref_count s + 1\<rparr> in
             if ref_count s = 0 then Inl AssertFailed else Inr (r, s, h))
          else Inr (r, s, h)))"
    proof (cases "rt_serial_open ops mem oflag (s0, h0)")
      case (Inl e)
      then show ?thesis using serial_open_error by fastforce
    next
      case (Inr x)
      obtain r s1 h1 where x: "x = (r, s1, h1)" by (cases x)
      note o = Inr [unfolded x]
      show ?thesis
      proof (cases "r = RT_EOK")
        case True
        note s1 = serial_open_ok [OF o True]
        have o3: "on (y OR RT_DEVICE_OFLAG_OPEN) RT_DEVICE_FLAG_INT_RX = on y RT_DEVICE_FLAG_INT_RX"
          "on (y OR RT_DEVICE_OFLAG_OPEN) RT_DEVICE_FLAG_INT_TX = on y RT_DEVICE_FLAG_INT_TX" for y
          by (simp_all add: flag_simps)
        show ?thesis
          using inv(1) re act s1 o Inr x True replicate_fifo_ok [of "bufsz (config s0)"]
          by (auto simp: Let_def serial_inv_def reopen_ok_def o3 split: option.splits)
      next
        case False
        have "s1 = s0 \<and> r = - RT_EIO" by (rule serial_open_cases [OF o]) (use False in auto)
        then show ?thesis using Inr x inv(1) by (simp add: rt_errors)
      qed
    qed
    then show ?thesis using i True by (auto simp: rt_device_open_def Let_def)
  qed
qed

lemma serial_close_inv:
  assumes "serial_inv s" "ref_count s = 1" "rt_serial_close ops (s\<lparr>ref_count := 0\<rparr>, h) = Inr (r, s', h')"
  shows "serial_inv (s'\<lparr>open_flag := 0\<rparr>)" "r = RT_EOK"
proof -
  have z: "\<not> on 0 f" for f by (simp add: on_def)
  show "serial_inv (s'\<lparr>open_flag := 0\<rparr>)" "r = RT_EOK"
    using assms by (auto simp: rt_serial_close_def close_rx_def close_tx_def serial_inv_def flag_simps z
      bind_res_Inr_iff split: if_splits option.splits)
qed

lemma serial_close_error: "rt_serial_close ops (s, h) = Inl e \<Longrightarrow> e = AssertFailed"
  by (auto simp: rt_serial_close_def close_rx_def close_tx_def split: if_splits)

lemma device_close_inv:
  assumes "serial_inv s"
  shows "assert_or (\<lambda>(r, s', h'). serial_inv s') (rt_device_close ops (s, h))"
proof (cases "ref_count s = 0 \<or> ref_count s - 1 \<noteq> 0")
  case True
  then show ?thesis using assms by (auto simp: rt_device_close_def Let_def serial_inv_def split: option.splits)
next
  case False
  then have one: "ref_count s = 1" by simp
  show ?thesis
  proof (cases "rt_serial_close ops (s\<lparr>ref_count := 0\<rparr>, h)")
    case (Inl e)
    then show ?thesis using serial_close_error [OF Inl] one by (simp add: rt_device_close_def)
  next
    case (Inr x)
    obtain r s1 h1 where x: "x = (r, s1, h1)" by (cases x)
    then show ?thesis using serial_close_inv [OF assms one, of ops h r s1 h1] Inr one
      by (simp add: rt_device_close_def)
  qed
qed

lemma device_read_inv:
  assumes "serial_inv s"
  shows "assert_or (\<lambda>(chs, s', h'). serial_inv s') (rt_device_read ops n (s, h))"
proof (cases "serial_rx s")
  case None
  then show ?thesis using assms
    by (auto simp: rt_device_read_def rt_serial_read_def serial_inv_def Let_def split: prod.splits)
next
  case (Some f)
  then have "fifo_ok (bufsz (config s)) f" using assms by (simp add: serial_inv_def)
  from serial_int_rx_ok [OF this, of n] show ?thesis
    using assms Some by (auto simp: rt_device_read_def rt_serial_read_def serial_inv_def)
qed

lemma device_write_inv:
  assumes "serial_inv s"
  shows "assert_or (\<lambda>(n, rest, s', h'). serial_inv s') (rt_device_write ops chs (s, h))"
  using assms by (auto simp: rt_device_write_def rt_serial_write_def Let_def split: prod.splits)

lemma device_control_inv:
  assumes "serial_inv s" "call_ok (Dev_control cmd) s"
  shows "serial_inv (fst (snd (rt_device_control ops cmd (s, h))))"
proof -
  have flag: "on (x OR RT_DEVICE_FLAG_SUSPENDED) RT_DEVICE_FLAG_ACTIVATED = on x RT_DEVICE_FLAG_ACTIVATED"
    "on (x AND NOT RT_DEVICE_FLAG_SUSPENDED) RT_DEVICE_FLAG_ACTIVATED = on x RT_DEVICE_FLAG_ACTIVATED" for x
    by (simp_all add: flag_simps)
  show ?thesis
  proof (cases cmd)
    case (RT_DEVICE_CTRL_CONFIG c)
    then show ?thesis using assms
      by (auto simp: rt_device_control_def rt_serial_control_def serial_inv_def call_ok_def split: option.splits)
  qed (use assms flag in \<open>auto simp: rt_device_control_def rt_serial_control_def serial_inv_def split: option.splits prod.splits\<close>)
qed

lemma interrupt_inv:
  assumes "serial_inv s" "serial_isr_rx_ind ops Inr (s, h) u = Some r"
  shows "assert_or (\<lambda>((s', h'), u). serial_inv s') r"
proof (cases "serial_rx s")
  case None
  then show ?thesis using assms(2) by (auto simp: serial_isr_rx_ind_def)
next
  case (Some f)
  obtain r1 where r1: "isr_receive ops (bufsz (config s)) f h = Some r1"
    using assms(2) Some by (auto simp: serial_isr_rx_ind_def)
  moreover have "fifo_ok (bufsz (config s)) f" using assms(1) Some by (simp add: serial_inv_def)
  ultimately obtain f1 h1 where f1: "r1 = Inr (f1, h1)" "fifo_ok (bufsz (config s)) f1"
    using isr_receive_ok [OF r1] by blast
  then have "r = Inr ((s\<lparr>serial_rx := Some f1\<rparr>, h1), u)"
    using assms(2) Some r1 by (simp add: serial_isr_rx_ind_def)
  then show ?thesis using assms(1) Some f1(2) by (simp add: serial_inv_def)
qed

lemma assert_or_mono: "assert_or P r \<Longrightarrow> (\<And>x. P x \<Longrightarrow> Q (f x)) \<Longrightarrow> assert_or Q (bind_res r (\<lambda>x. Inr (f x)))"
  by (cases r) simp_all

text \<open>
  C23. The receive FIFO of a serial device is never written or read outside its buffer.  Every call of the device
  layer and every interrupt keeps the invariant that the FIFO has the size of the configuration with its
  indices inside; the only error is a failed assertion.  The condition is that an open device is opened again only
  with the interrupt flags in use, and that a configuration asks for two bytes at least.
\<close>

theorem serial_fifo_in_bounds:
  assumes "serial_inv s" "call_ok c s" "serial_call_step ops mem c (s, h) = Some r"
  shows "assert_or (\<lambda>(s', h'). serial_inv s') r"
proof (cases c)
  case (Dev_open oflag)
  then have r: "r = bind_res (rt_device_open ops mem oflag (s, h)) (\<lambda>(_, st). Inr st)"
    using assms(3) by (simp add: serial_call_step_def)
  have "reopen_ok oflag s" using assms(2) Dev_open by (simp add: call_ok_def)
  from device_open_inv [OF assms(1) this] show ?thesis unfolding r by (rule assert_or_bind) auto
next
  case Dev_close
  then have r: "r = bind_res (rt_device_close ops (s, h)) (\<lambda>(_, st). Inr st)"
    using assms(3) by (simp add: serial_call_step_def)
  from device_close_inv [OF assms(1)] show ?thesis unfolding r by (rule assert_or_bind) auto
next
  case (Dev_read n)
  then have r: "r = bind_res (rt_device_read ops n (s, h)) (\<lambda>(_, st). Inr st)"
    using assms(3) by (simp add: serial_call_step_def)
  from device_read_inv [OF assms(1)] show ?thesis unfolding r by (rule assert_or_bind) auto
next
  case (Dev_write chs)
  then have r: "r = bind_res (rt_device_write ops chs (s, h)) (\<lambda>(_, _, st). Inr st)"
    using assms(3) by (simp add: serial_call_step_def)
  from device_write_inv [OF assms(1)] show ?thesis unfolding r by (rule assert_or_bind) auto
next
  case (Dev_control cmd)
  then have "r = Inr (snd (rt_device_control ops cmd (s, h)))" using assms(3) by (simp add: serial_call_step_def)
  then show ?thesis using device_control_inv [OF assms(1), of cmd ops h] assms(2) Dev_control by (auto split: prod.splits)
next
  case Dev_interrupt
  then obtain r1 where r1: "serial_isr_rx_ind ops Inr (s, h) () = Some r1" "r = bind_res r1 (\<lambda>(st, _). Inr st)"
    using assms(3) by (auto simp: serial_call_step_def)
  from interrupt_inv [OF assms(1) r1(1)] show ?thesis unfolding r1(2) by (rule assert_or_bind) auto
qed

section \<open>The interface to the UART driver\<close>

text \<open>
  What the framework relies on: \<open>held h\<close> are the bytes the hardware holds, and \<^verbatim>\<open>getc\<close> gives them one by one,
  then -1, without changing the settings.  For every such driver the receive interrupt ends, with all held bytes in the FIFO.
\<close>

locale uart_driver =
  fixes ops :: "'h uart_ops" and held :: "'h \<Rightarrow> u8 list" and settings :: "'h \<Rightarrow> 'c"
  assumes getc_none: "held h = [] \<Longrightarrow> op_getc ops h = (-1, h)"
    and getc_some: "held h = ch # chs \<Longrightarrow> \<exists>h'. op_getc ops h = (uint ch, h') \<and> held h' = chs \<and> settings h' = settings h"
begin

lemma isr_receive_drains:
  assumes "fifo_ok n f"
  shows "\<exists>f' h'. isr_receive ops n f h = Some (Inr (f', h')) \<and> fifo_ok n f' \<and>
     fifo_bytes n f' = keep_last (n - 1) (fifo_bytes n f @ held h) \<and> held h' = [] \<and>
     settings h' = settings h"
  using assms
proof (induction "held h" arbitrary: h f)
  case Nil
  have "length (fifo_bytes n f) \<le> n - 1"
    using rx_length_ring(1) [of f n] Nil.prems by (simp add: fifo_ok_def)
  then show ?case
    using getc_none Nil by (subst isr_receive.simps) (simp add: keep_last_def)
next
  case (Cons ch chs)
  obtain h1 where h1: "op_getc ops h = (uint ch, h1)" "held h1 = chs" "settings h1 = settings h" using getc_some Cons.hyps(2) by metis
  obtain f1 where f1: "fifo_put n ch f = Inr f1" "fifo_ok n f1" "fifo_bytes n f1 = keep_last (n - 1) (fifo_bytes n f @ [ch])"
    using fifo_put_ok [OF Cons.prems] by blast
  have "0 \<le> uint ch" by simp
  then have "uint ch \<noteq> -1" by linarith
  then have "isr_receive ops n f h = isr_receive ops n f1 h1"
    using h1 f1 by (subst isr_receive.simps) simp
  moreover have "keep_last (n - 1) (fifo_bytes n f1 @ chs) = keep_last (n - 1) (fifo_bytes n f @ held h)"
    using Cons.hyps(2) keep_last_append [of "n - 1" "fifo_bytes n f @ [ch]" chs] f1(3) by (metis append.assoc append_Cons append_Nil)
  ultimately show ?case
    using Cons.hyps(1) [of h1 f1] h1(2,3) f1(2) by simp
qed

end

text \<open>A device for examples: a reader has one byte to get.\<close>

definition demo_config :: serial_configure where
  "demo_config = \<lparr>baud_rate = 115200, data_bits = 8, stop_bits = 0, parity = 0, bit_order = 0, invert = 0, bufsz = 4\<rparr>"

definition demo_serial :: serial where
  "demo_serial = \<lparr>dev_flag = 0x513, open_flag = 0x10b, ref_count = 1, rx_indicate = True, config = demo_config,
     serial_rx = Some \<lparr>fifo_buffer = [65, 66, 0, 0], put_index = 2, get_index = 1, is_full = False\<rparr>, serial_tx = False\<rparr>"

lemma demo_serial_inv: "serial_inv demo_serial"
  by (simp add: serial_inv_def demo_serial_def demo_config_def fifo_ok_def on_def device_flags)

definition demo_ops :: "unit uart_ops" where
  "demo_ops = \<lparr>op_configure = (\<lambda>_ h. (0, h)), op_control = (\<lambda>_ h. (0, h)), op_putc = (\<lambda>_ h. (1, h)), op_getc = Pair (-1)\<rparr>"

theorem serial_fifo_in_bounds_witness:
  "\<exists>r. serial_call_step demo_ops (\<lambda>_. True) (Dev_open 0x103) (demo_serial, ()) = Some r \<and> assert_or (\<lambda>(s', h'). serial_inv s') r"
proof -
  have "call_ok (Dev_open 0x103) demo_serial"
    by (simp add: call_ok_def reopen_ok_def demo_serial_def on_def RT_DEVICE_FLAG_INT_RX_def)
  note safe = serial_fifo_in_bounds [OF demo_serial_inv this, of demo_ops "\<lambda>_. True" "()"]
  obtain r where "serial_call_step demo_ops (\<lambda>_. True) (Dev_open 0x103) (demo_serial, ()) = Some r"
    by (simp add: serial_call_step_def)
  with safe [OF this] show ?thesis by simp
qed

end
