(* ===== verification/Usart.thy ===== *)
theory Usart
  imports Serial
begin

unbundle bit_operations_syntax

text \<open>
  \<^verbatim>\<open>drivers/drv_usart.c\<close>: the operations of the STM32 UART under the serial device, on the registers they
  touch, its interrupt handler, and what the two layers do together.  Reading the status register and then the
  data register clears RXNE and the error flags; the loop of \<^verbatim>\<open>stm32_putc\<close> ends when the hardware reports
  the byte as sent.  Clocks and pins are not part of the model.
\<close>

datatype uart_flag = PE | FE | NE | ORE | RXNE | TC | TXE | LBD | CTS

datatype word_length = UART_WORDLENGTH_8B | UART_WORDLENGTH_9B
datatype uart_stop = UART_STOPBITS_1 | UART_STOPBITS_2
datatype uart_parity = UART_PARITY_NONE | UART_PARITY_ODD | UART_PARITY_EVEN

record uart_init =
  BaudRate :: u32
  WordLength :: word_length
  StopBits :: uart_stop
  Parity :: uart_parity

record uart =
  SR :: "uart_flag \<Rightarrow> bool"
  DR :: u16                    \<comment> \<open>the received word\<close>
  RXNEIE :: bool
  irq_enabled :: bool
  Init :: uart_init
  transmitted :: "u8 list"     \<comment> \<open>what was written to the data register\<close>

definition uart_config :: "serial_configure \<Rightarrow> uart_init" where
  "uart_config cfg =
     \<lparr>BaudRate = baud_rate cfg,
      WordLength = (if data_bits cfg = 9 then UART_WORDLENGTH_9B else UART_WORDLENGTH_8B),
      StopBits = (if stop_bits cfg = 1 then UART_STOPBITS_2 else UART_STOPBITS_1),
      Parity = (if parity cfg = 1 then UART_PARITY_ODD else if parity cfg = 2 then UART_PARITY_EVEN else UART_PARITY_NONE)\<rparr>"

text \<open>\<open>hal\<close> tells whether \<^verbatim>\<open>HAL_UART_Init\<close> accepts the settings.\<close>

definition stm32_configure :: "(uart_init \<Rightarrow> bool) \<Rightarrow> serial_configure \<Rightarrow> uart \<Rightarrow> int \<times> uart" where
  "stm32_configure hal cfg u =
     (let u = u\<lparr>Init := uart_config cfg\<rparr> in (if hal (Init u) then RT_EOK else - RT_ERROR, u))"

definition stm32_control :: "uart_cmd \<Rightarrow> uart \<Rightarrow> int \<times> uart" where
  "stm32_control cmd u =
     (RT_EOK,
      case cmd of
        RT_DEVICE_CTRL_CLR_INT _ \<Rightarrow> u\<lparr>irq_enabled := False, RXNEIE := False\<rparr>
      | RT_DEVICE_CTRL_SET_INT _ \<Rightarrow> u\<lparr>irq_enabled := True, RXNEIE := True\<rparr>
      | UART_OTHER _ \<Rightarrow> u)"

definition stm32_putc :: "u8 \<Rightarrow> uart \<Rightarrow> int \<times> uart" where
  "stm32_putc c u = (1, u\<lparr>transmitted := transmitted u @ [c], SR := (SR u)(TC := True, TXE := True)\<rparr>)"

text \<open>What reading the status and then the data register clears.\<close>

definition dr_read :: "uart \<Rightarrow> uart" where
  "dr_read u = u\<lparr>SR := (SR u)(PE := False, FE := False, NE := False, ORE := False, RXNE := False)\<rparr>"

definition stm32_getc :: "uart \<Rightarrow> int \<times> uart" where
  "stm32_getc u = (if SR u RXNE then (uint (DR u AND 0xff), dr_read u) else (-1, u))"

definition stm32_uart_ops :: "(uart_init \<Rightarrow> bool) \<Rightarrow> uart uart_ops" where
  "stm32_uart_ops hal =
     \<lparr>op_configure = stm32_configure hal, op_control = stm32_control, op_putc = stm32_putc, op_getc = stm32_getc\<rparr>"

text \<open>Clearing a flag that only the data register clears (TXE) has no effect.\<close>

definition clear_flag :: "uart_flag \<Rightarrow> uart \<Rightarrow> uart" where
  "clear_flag fl u = (if SR u fl then u\<lparr>SR := (SR u)(fl := False)\<rparr> else u)"

definition uart_isr :: "(uart_init \<Rightarrow> bool) \<Rightarrow> ('s \<Rightarrow> 's res) \<Rightarrow> serial \<times> uart \<Rightarrow> 's \<Rightarrow> ((serial \<times> uart) \<times> 's) res option" where
  "uart_isr hal callback = (\<lambda>(s, u) st.
     if SR u RXNE \<and> RXNEIE u then serial_isr_rx_ind (stm32_uart_ops hal) callback (s, u) st
     else
       (let u = (if SR u ORE \<or> SR u NE \<or> SR u FE \<or> SR u PE then dr_read u else u);
            u = clear_flag RXNE (clear_flag TC (clear_flag CTS (clear_flag LBD u)))
        in Some (Inr ((s, u), st))))"

text \<open>
  The hardware: a byte arrives.  A byte that finds the register occupied is lost and sets the overrun flag.
\<close>

definition uart_arrive :: "u8 \<Rightarrow> uart \<Rightarrow> uart" where
  "uart_arrive ch u =
     (if SR u RXNE then u\<lparr>SR := (SR u)(ORE := True)\<rparr> else u\<lparr>SR := (SR u)(RXNE := True), DR := ucast ch\<rparr>)"

section \<open>Results\<close>

lemma ops_simps [simp]:
  "op_configure (stm32_uart_ops hal) = stm32_configure hal" "op_control (stm32_uart_ops hal) = stm32_control"
  "op_putc (stm32_uart_ops hal) = stm32_putc" "op_getc (stm32_uart_ops hal) = stm32_getc"
  by (simp_all add: stm32_uart_ops_def)

lemma dr_read_simps [simp]: "\<not> SR (dr_read u) RXNE" "RXNEIE (dr_read u) = RXNEIE u" "DR (dr_read u) = DR u"
  "transmitted (dr_read u) = transmitted u"
  by (simp_all add: dr_read_def)

text \<open>The received byte.\<close>

definition rx_byte :: "uart \<Rightarrow> u8" where
  "rx_byte u = ucast (DR u)"

lemma getc_byte: "uint (DR u AND 0xff) = uint (rx_byte u)"
proof -
  have m: "(255 :: u16) = mask 8" by (simp add: mask_eq_exp_minus_1)
  have "uint (DR u AND mask 8) = take_bit 8 (uint (DR u))"
    by (simp only: flip: take_bit_eq_mask) (rule unsigned_take_bit_eq)
  then show ?thesis unfolding m rx_byte_def by (simp add: unsigned_ucast_eq)
qed

text \<open>The STM32 holds one received byte at most.\<close>

definition uart_held :: "uart \<Rightarrow> u8 list" where
  "uart_held u = (if SR u RXNE then [rx_byte u] else [])"

definition uart_settings :: "uart \<Rightarrow> bool \<times> bool \<times> uart_init \<times> u8 list" where
  "uart_settings u = (RXNEIE u, irq_enabled u, Init u, transmitted u)"

lemma dr_read_settings [simp]: "uart_settings (dr_read u) = uart_settings u"
  by (simp add: uart_settings_def dr_read_def)

interpretation stm32: uart_driver "stm32_uart_ops hal" uart_held uart_settings for hal
  by unfold_locales (auto simp: uart_held_def stm32_getc_def getc_byte split: if_splits)

text \<open>For evaluation: what the interrupt does with the byte.\<close>

lemma isr_receive_one:
  assumes "SR u RXNE"
  shows "isr_receive (stm32_uart_ops hal) n f u =
     (case fifo_put n (rx_byte u) f of Inl e \<Rightarrow> Some (Inl e) | Inr f \<Rightarrow> Some (Inr (f, dr_read u)))"
proof -
  have "isr_receive (stm32_uart_ops hal) n f (dr_read u) = Some (Inr (f, dr_read u))" for f
    by (subst isr_receive.simps) (simp add: stm32_getc_def)
  moreover have "op_getc (stm32_uart_ops hal) u = (uint (rx_byte u), dr_read u)"
    using assms by (simp add: stm32_getc_def getc_byte)
  moreover have "uint (rx_byte u) \<noteq> -1" using uint_ge_0 [of "rx_byte u"] by linarith
  ultimately show ?thesis by (subst isr_receive.simps) (simp split: sum.split)
qed

lemma keep_last_nonempty: "0 < c \<Longrightarrow> keep_last c (xs @ [x]) \<noteq> []"
  by (simp add: keep_last_def)

lemma rx_length_zero: "fifo_ok n f \<Longrightarrow> rx_length n f = 0 \<longleftrightarrow> fifo_bytes n f = []"
  by (metis length_0_conv length_fifo_bytes)

text \<open>
  One interrupt for a received byte: the byte is the newest of the FIFO, the register is free again, and the
  callback is called; an open device never fails here.
\<close>

lemma uart_isr_byte:
  assumes "serial_inv s" "serial_rx s = Some f" "SR u RXNE" "RXNEIE u"
  shows "\<exists>f' u'. fifo_ok (bufsz (config s)) f' \<and> uart_settings u' = uart_settings u \<and> \<not> SR u' RXNE \<and>
     fifo_bytes (bufsz (config s)) f' = keep_last (bufsz (config s) - 1) (fifo_bytes (bufsz (config s)) f @ [rx_byte u]) \<and>
     uart_isr hal callback (s, u) st =
       Some (bind_res (if rx_indicate s then callback st else Inr st) (\<lambda>st.
         Inr ((s\<lparr>serial_rx := Some f'\<rparr>, u'), st)))"
proof -
  let ?n = "bufsz (config s)"
  have f: "fifo_ok ?n f" and n: "0 < ?n - 1" using assms(1,2) by (auto simp: serial_inv_def)
  obtain f' u' where f': "isr_receive (stm32_uart_ops hal) ?n f u = Some (Inr (f', u'))" "fifo_ok ?n f'"
    "fifo_bytes ?n f' = keep_last (?n - 1) (fifo_bytes ?n f @ uart_held u)" "uart_held u' = []"
    "uart_settings u' = uart_settings u"
    using stm32.isr_receive_drains [OF f, of hal u] by blast
  have "rx_length ?n f' \<noteq> 0"
    using rx_length_zero [OF f'(2)] keep_last_nonempty [OF n] f'(3) assms(3) by (simp add: uart_held_def)
  then show ?thesis
    using assms f' by (intro exI [of _ f'] exI [of _ u']) (simp add: uart_isr_def serial_isr_rx_ind_def uart_held_def split: if_splits)
qed

text \<open>Without a received byte, or with the interrupt masked, nothing but flags changes.\<close>

lemma uart_isr_idle:
  assumes "\<not> (SR u RXNE \<and> RXNEIE u)"
  shows "\<exists>u'. uart_isr hal callback (s, u) st = Some (Inr ((s, u'), st)) \<and> uart_settings u' = uart_settings u \<and> \<not> SR u' RXNE"
proof -
  have "uart_settings (clear_flag fl v) = uart_settings v" for fl v by (simp add: clear_flag_def uart_settings_def)
  moreover have "\<not> SR (clear_flag RXNE v) RXNE" for v by (simp add: clear_flag_def)
  ultimately show ?thesis using assms by (auto simp: uart_isr_def Let_def)
qed

end
