(* ===== verification/Serial_Link.thy ===== *)
theory Serial_Link
  imports Usart "HOL-Library.Sublist"
begin

unbundle bit_operations_syntax

text \<open>
  From the wire to a reading thread: the interrupt stores the byte and releases a semaphore, the thread reads one
  byte at a time and takes the semaphore when there is none.  All receiver threads of the firmware
  (\<^verbatim>\<open>lora.c\<close>, \<^verbatim>\<open>raspberry.c\<close>, \<^verbatim>\<open>gps.c\<close>, \<^verbatim>\<open>compass.c\<close>,
  \<^verbatim>\<open>water.c\<close>) have this loop, e.g. lines 62 to 65 of \<^verbatim>\<open>gps.c\<close>.  The interrupt, other threads and the
  reader interleave between the calls.
\<close>

text \<open>\<^verbatim>\<open>rx_gps_callback\<close> and its like: release the semaphore; one that is not initialised fails the type assertion.\<close>

definition rx_callback :: "rt_semaphore option \<times> kernel \<Rightarrow> (rt_semaphore option \<times> kernel) res" where
  "rx_callback = (\<lambda>(sem, k).
     case sem of
       None \<Rightarrow> Inl AssertFailed
     | Some sem \<Rightarrow> bind_res (rt_sem_release sem k) (\<lambda>(_, sem, k). Inr (Some sem, k)))"

datatype reader = Reading | Found_empty | Waiting

text \<open>
  The history of the line: \<open>got\<close> is what the thread was given, \<open>arrived\<close> every byte of the wire, \<open>overrun\<close>
  whether one arrived while the data register was occupied, \<open>dropped\<close> whether one was stored into a full FIFO.
  \<open>since\<close> counts the byte interrupts since the reader last had to wait, and \<open>starved\<close> tells whether one of them came
  when 65535 had come before: only then can the 16-bit value of the semaphore wrap.
\<close>

record link =
  ldev :: "serial \<times> uart"
  lsem :: rt_semaphore
  lker :: kernel
  lread :: reader
  got :: "u8 list"
  arrived :: "u8 list"
  overrun :: bool
  dropped :: bool
  since :: nat
  starved :: bool

definition serial_bytes :: "serial \<Rightarrow> u8 list" where
  "serial_bytes s = (case serial_rx s of None \<Rightarrow> [] | Some f \<Rightarrow> fifo_bytes (bufsz (config s)) f)"

definition link_bytes :: "link \<Rightarrow> u8 list" where
  "link_bytes L = serial_bytes (fst (ldev L))"

text \<open>What the reader was given, what the FIFO holds and what the data register holds.\<close>

definition line_bytes :: "link \<Rightarrow> u8 list" where
  "line_bytes L = got L @ link_bytes L @ uart_held (snd (ldev L))"

definition fifo_room :: "link \<Rightarrow> bool" where
  "fifo_room L \<longleftrightarrow> length (link_bytes L) + 1 < bufsz (config (fst (ldev L)))"

definition link_waiters :: "link \<Rightarrow> tid list" where
  "link_waiters L = tlists (lker L) (Suspended (ob_id (lsem L)))"

definition byte_ready :: "link \<Rightarrow> bool" where
  "byte_ready L \<longleftrightarrow> SR (snd (ldev L)) RXNE \<and> RXNEIE (snd (ldev L))"

text \<open>The line after an interrupt, with its history.\<close>

definition after_interrupt :: "link \<Rightarrow> serial \<times> uart \<Rightarrow> rt_semaphore \<Rightarrow> kernel \<Rightarrow> link" where
  "after_interrupt L dev sem k =
     L\<lparr>ldev := dev, lsem := sem, lker := k,
       dropped := (dropped L \<or> byte_ready L \<and> \<not> fifo_room L),
       since := (if byte_ready L then since L + 1 else since L),
       starved := (starved L \<or> byte_ready L \<and> 65535 \<le> since L)\<rparr>"

inductive link_step :: "(uart_init \<Rightarrow> bool) \<Rightarrow> tid \<Rightarrow> link \<Rightarrow> link \<Rightarrow> bool" for hal t where
  Arrive: "link_step hal t L (L\<lparr>ldev := apsnd (uart_arrive ch) (ldev L), arrived := arrived L @ [ch],
      overrun := (overrun L \<or> SR (snd (ldev L)) RXNE)\<rparr>)"
| Interrupt: "uart_isr hal rx_callback (ldev L) (Some (lsem L), lker L) = Some (Inr (dev, Some sem, k)) \<Longrightarrow>
    link_step hal t L (after_interrupt L dev sem k)"
| Read: "lread L = Reading \<Longrightarrow> caller t (lker L) \<Longrightarrow>
    rt_device_read (stm32_uart_ops hal) 1 (ldev L) = Inr (chs, dev) \<Longrightarrow>
    link_step hal t L (L\<lparr>ldev := dev, got := got L @ chs, lread := (if chs = [] then Found_empty else Reading)\<rparr>)"
| Take: "lread L = Found_empty \<Longrightarrow> caller t (lker L) \<Longrightarrow> rt_sem_take (lsem L) (-1) (lker L) = Inr (r, sem, k) \<Longrightarrow>
    link_step hal t L (L\<lparr>lsem := sem, lker := k, lread := (if r = None then Waiting else Reading),
      since := (if r = None then 0 else since L)\<rparr>)"
| Wake: "lread L = Waiting \<Longrightarrow> caller t (lker L) \<Longrightarrow> link_step hal t L (L\<lparr>lread := Reading\<rparr>)"
| Other: "kernel_inv k \<Longrightarrow> tlists k (Suspended (ob_id (lsem L))) = link_waiters L \<Longrightarrow> link_step hal t L (L\<lparr>lker := k\<rparr>)"

inductive link_reach :: "(uart_init \<Rightarrow> bool) \<Rightarrow> tid \<Rightarrow> link \<Rightarrow> link \<Rightarrow> bool" for hal t L0 where
  Start: "link_reach hal t L0 L0"
| Step: "link_reach hal t L0 L \<Longrightarrow> link_step hal t L L' \<Longrightarrow> link_reach hal t L0 L'"

definition link_start :: "link \<Rightarrow> bool" where
  "link_start L \<longleftrightarrow> serial_inv (fst (ldev L)) \<and> serial_rx (fst (ldev L)) \<noteq> None \<and> rx_indicate (fst (ldev L)) \<and>
     RXNEIE (snd (ldev L)) \<and> sem_ok (lsem L) (lker L) \<and> link_waiters L = [] \<and> lread L = Reading \<and>
     line_bytes L = arrived L \<and> \<not> overrun L \<and> \<not> dropped L \<and>
     unat (sem_value (lsem L)) \<le> since L \<and> \<not> starved L"

section \<open>The invariant\<close>

text \<open>While bytes are there the reader does not sleep, and when it is about to wait the semaphore has a unit.\<close>

definition awake_inv :: "link \<Rightarrow> bool" where
  "awake_inv L \<longleftrightarrow> (link_waiters L \<noteq> [] \<longrightarrow> link_bytes L = []) \<and>
     (lread L = Found_empty \<and> link_bytes L \<noteq> [] \<longrightarrow> sem_value (lsem L) > 0) \<and>
     unat (sem_value (lsem L)) \<le> since L"

definition order_inv :: "link \<Rightarrow> bool" where
  "order_inv L \<longleftrightarrow> subseq (line_bytes L) (arrived L) \<and>
     (\<not> overrun L \<and> \<not> dropped L \<longrightarrow> line_bytes L = arrived L)"

definition link_inv :: "tid \<Rightarrow> link \<Rightarrow> bool" where
  "link_inv t L \<longleftrightarrow> serial_inv (fst (ldev L)) \<and> serial_rx (fst (ldev L)) \<noteq> None \<and> rx_indicate (fst (ldev L)) \<and>
     RXNEIE (snd (ldev L)) \<and> sem_ok (lsem L) (lker L) \<and>
     (link_waiters L = [] \<or> link_waiters L = [t] \<and> lread L = Waiting) \<and>
     (\<not> starved L \<longrightarrow> awake_inv L) \<and> order_inv L"

lemma link_start_inv: "link_start L \<Longrightarrow> link_inv t L"
  by (simp add: link_start_def link_inv_def awake_inv_def order_inv_def)

lemma isr_bytes_state:
  assumes "serial_inv s" "serial_rx s = Some f" "fifo_ok (bufsz (config s)) f'"
  shows "serial_inv (s\<lparr>serial_rx := Some f'\<rparr>)"
  using assms by (simp add: serial_inv_def)

lemma subseq_keep_last: "subseq (us @ keep_last c xs) (us @ xs)"
proof -
  have "subseq (keep_last c xs) xs" by (simp add: keep_last_def suffix_drop suffix_imp_subseq)
  then show ?thesis by (simp add: list_emb_append_mono)
qed

lemma order_inv_mono:
  assumes "order_inv L" "subseq (line_bytes L') (line_bytes L)" "arrived L' = arrived L"
    "overrun L \<Longrightarrow> overrun L'" "dropped L \<Longrightarrow> dropped L'" "\<not> dropped L' \<Longrightarrow> line_bytes L' = line_bytes L"
  shows "order_inv L'"
  using assms subseq_order.trans [of "line_bytes L'" "line_bytes L" "arrived L"] by (auto simp: order_inv_def)

text \<open>What the release does to the semaphore, whether or not the reader waits.\<close>

lemma release_awake:
  assumes ok: "sem_ok sem k" and w: "tlists k (Suspended (ob_id sem)) \<in> {[], [t]}"
    and rel: "rt_sem_release sem k = Inr (RT_EOK, sem', k')"
  shows "sem_ok sem' k' \<and> ob_id sem' = ob_id sem \<and> tlists k' (Suspended (ob_id sem)) = [] \<and>
    sem_value sem' = (if tlists k (Suspended (ob_id sem)) = [] then sem_value sem + 1 else sem_value sem)"
proof (cases "tlists k (Suspended (ob_id sem))")
  case Nil
  then show ?thesis using ok rel by (auto simp: rt_sem_release_def sem_ok_def)
next
  case (Cons v vs)
  then show ?thesis using sem_release_ok [OF ok] rel w by auto
qed

lemma next_unit:
  fixes v :: u16
  assumes "unat v \<le> n" "n < 65535"
  shows "v + 1 > 0 \<and> unat (v + 1) \<le> n + 1"
proof -
  have "unat v < 65535" using assms by simp
  then have "unat (v + 1) = unat v + 1" by (simp add: unat_word_ariths)
  then show ?thesis using assms by (simp add: word_gt_0 unat_eq_zero [symmetric] del: unat_eq_zero)
qed

lemma link_interrupt:
  assumes inv: "link_inv t L"
    and isr: "uart_isr hal rx_callback (ldev L) (Some (lsem L), lker L) = Some (Inr (dev, Some sem, k))"
  shows "link_inv t (after_interrupt L dev sem k)"
proof (cases "byte_ready L")
  case False
  obtain s u where su: "ldev L = (s, u)" by fastforce
  then have nr: "\<not> (SR u RXNE \<and> RXNEIE u)" "\<not> SR u RXNE" using False inv by (auto simp: byte_ready_def link_inv_def)
  obtain u' where "dev = (s, u')" "sem = lsem L" "k = lker L" "uart_settings u' = uart_settings u" "\<not> SR u' RXNE"
    using uart_isr_idle [OF nr(1), of hal rx_callback s "(Some (lsem L), lker L)"] isr su by auto
  then show ?thesis using inv False su nr(2)
    by (simp add: link_inv_def awake_inv_def order_inv_def line_bytes_def uart_held_def link_bytes_def link_waiters_def
        uart_settings_def after_interrupt_def)
next
  case True
  obtain s u where su: "ldev L = (s, u)" by fastforce
  then have r: "SR u RXNE" "RXNEIE u" using True by (simp_all add: byte_ready_def)
  have s: "serial_inv s" "rx_indicate s" "sem_ok (lsem L) (lker L)" using inv su by (simp_all add: link_inv_def)
  obtain f where f: "serial_rx s = Some f" using inv su by (auto simp: link_inv_def)
  let ?n = "bufsz (config s)"
  let ?L = "after_interrupt L dev sem k"
  obtain f' u' where f': "fifo_ok ?n f'" "uart_settings u' = uart_settings u" "\<not> SR u' RXNE"
    "fifo_bytes ?n f' = keep_last (?n - 1) (fifo_bytes ?n f @ [rx_byte u])"
    "uart_isr hal rx_callback (s, u) (Some (lsem L), lker L) =
       Some (bind_res (if rx_indicate s then rx_callback (Some (lsem L), lker L) else Inr (Some (lsem L), lker L)) (\<lambda>st.
         Inr ((s\<lparr>serial_rx := Some f'\<rparr>, u'), st)))"
    using uart_isr_byte [OF s(1) f r, of hal rx_callback "(Some (lsem L), lker L)"] by blast
  have dev: "dev = (s\<lparr>serial_rx := Some f'\<rparr>, u')" and
    rel: "rt_sem_release (lsem L) (lker L) = Inr (RT_EOK, sem, k)"
    using f'(5) isr su s(2) sem_release_ok [OF s(3)] by (auto simp: rx_callback_def bind_res_Inr_iff)
  have sem: "sem_ok sem k" "ob_id sem = ob_id (lsem L)" "link_waiters ?L = []"
    "sem_value sem = (if link_waiters L = [] then sem_value (lsem L) + 1 else sem_value (lsem L))"
    using release_awake [OF s(3) _ rel, of t] inv by (auto simp: link_inv_def link_waiters_def after_interrupt_def)
  have bytes: "link_bytes L = fifo_bytes ?n f" "link_bytes ?L = keep_last (?n - 1) (link_bytes L @ [rx_byte u])"
    "uart_held (snd (ldev ?L)) = []" "uart_held u = [rx_byte u]"
    using f f'(3,4) r su dev by (simp_all add: link_bytes_def serial_bytes_def after_interrupt_def uart_held_def)
  have all: "link_bytes ?L = link_bytes L @ [rx_byte u]" if "fifo_room L"
    using that su unfolding bytes(2) by (simp add: keep_last_def fifo_room_def)
  have order: "order_inv ?L"
  proof (rule order_inv_mono)
    show "order_inv L" using inv by (simp add: link_inv_def)
    show "subseq (line_bytes ?L) (line_bytes L)"
      using subseq_keep_last [of "got L" "?n - 1" "link_bytes L @ [rx_byte u]"] bytes su
      by (simp add: line_bytes_def after_interrupt_def)
    show "line_bytes ?L = line_bytes L" if "\<not> dropped ?L"
      using that True all bytes(3,4) su by (simp add: line_bytes_def after_interrupt_def)
  qed (simp_all add: after_interrupt_def)
  have "awake_inv ?L" if "\<not> starved ?L"
  proof -
    have old: "awake_inv L" "since L < 65535" using that inv True by (auto simp: after_interrupt_def link_inv_def)
    then have "unat (sem_value (lsem L)) \<le> since L" by (simp add: awake_inv_def)
    note unit = next_unit [OF this old(2)]
    have "sem_value sem > 0" if "lread L = Found_empty" using that inv sem(4) unit by (auto simp: link_inv_def)
    moreover have "unat (sem_value sem) \<le> since L + 1" using unit old(1) sem(4) by (auto simp: awake_inv_def)
    ultimately show ?thesis using sem(3) True by (auto simp: awake_inv_def after_interrupt_def)
  qed
  moreover have "serial_inv (s\<lparr>serial_rx := Some f'\<rparr>)" using isr_bytes_state s(1) f f'(1) by blast
  ultimately show ?thesis
    using inv su dev sem(1,3) s(2) r(2) f'(2) order
    by (simp add: link_inv_def after_interrupt_def uart_settings_def)
qed

lemma link_read:
  assumes "link_inv t L" "lread L = Reading" "rt_device_read (stm32_uart_ops hal) 1 (ldev L) = Inr (chs, dev)"
  shows "link_inv t (L\<lparr>ldev := dev, got := got L @ chs, lread := (if chs = [] then Found_empty else Reading)\<rparr>)"
proof -
  obtain s u where su: "ldev L = (s, u)" by fastforce
  have s: "serial_inv s" using assms(1) su by (simp add: link_inv_def)
  obtain f where f: "serial_rx s = Some f" using assms(1) su by (auto simp: link_inv_def)
  let ?n = "bufsz (config s)"
  have ok: "fifo_ok ?n f" "ref_count s \<noteq> 0" "on (open_flag s) RT_DEVICE_FLAG_INT_RX"
    using s f by (simp_all add: serial_inv_def)
  obtain f' where f': "serial_int_rx ?n 1 f = Inr (take 1 (fifo_bytes ?n f), f')" "fifo_ok ?n f'"
    "fifo_bytes ?n f' = drop 1 (fifo_bytes ?n f)"
    using serial_int_rx_ok [OF ok(1), of 1] by blast
  have dev: "dev = (s\<lparr>serial_rx := Some f'\<rparr>, u)" and chs: "chs = take 1 (serial_bytes s)"
    using assms(3) su f f'(1) ok by (simp_all add: rt_device_read_def rt_serial_read_def serial_bytes_def)
  have rest: "serial_bytes (s\<lparr>serial_rx := Some f'\<rparr>) = drop 1 (serial_bytes s)"
    using f f'(3) by (simp add: serial_bytes_def)
  have "serial_inv (s\<lparr>serial_rx := Some f'\<rparr>)" using isr_bytes_state s(1) f f'(2) by blast
  then show ?thesis
    using assms(1,2) su dev chs rest by (cases "serial_bytes s") (auto simp: link_inv_def awake_inv_def order_inv_def line_bytes_def link_bytes_def link_waiters_def)
qed

lemma link_take:
  assumes "link_inv t L" "lread L = Found_empty" "caller t (lker L)" "rt_sem_take (lsem L) (-1) (lker L) = Inr (r, sem, k)"
  shows "link_inv t (L\<lparr>lsem := sem, lker := k, lread := (if r = None then Waiting else Reading),
      since := (if r = None then 0 else since L)\<rparr>)"
proof -
  have ok: "sem_ok (lsem L) (lker L)" and nw: "link_waiters L = []" using assms(1,2) by (auto simp: link_inv_def)
  have "(-1 :: int) < 2 ^ 31 - 1" by simp
  note take = sem_take_ok [OF ok assms(3) this]
  show ?thesis
  proof (cases "sem_value (lsem L) > 0")
    case True
    then have w: "r \<noteq> None" "sem_ok sem k" "k = lker L" "ob_id sem = ob_id (lsem L)" "sem_value sem = sem_value (lsem L) - 1"
      using take assms(4) by (auto simp: rt_sem_take_def)
    moreover have "unat (sem_value sem) \<le> unat (sem_value (lsem L))"
      using True w(5) by (simp add: word_gt_0 unat_minus_one)
    ultimately show ?thesis using assms(1) nw
      by (auto simp: link_inv_def awake_inv_def order_inv_def line_bytes_def link_waiters_def link_bytes_def)
  next
    case False
    then have w: "r = None" "sem = lsem L" "sem_ok sem k"
      "tlists k (Suspended (ob_id (lsem L))) = wait_order (ob_flag (lsem L)) (\<lambda>s. current_priority (threads (lker L) s)) t (link_waiters L)"
      using take assms(4) by (auto simp: link_waiters_def)
    then have "tlists k (Suspended (ob_id (lsem L))) = [t]"
      using nw flag_cases [of "ob_flag (lsem L)"] ok by (auto simp: wait_order_def sem_ok_def ipc_flags)
    moreover have "sem_value (lsem L) = 0" "starved L \<or> link_bytes L = []"
      using assms(1,2) False by (auto simp: link_inv_def awake_inv_def word_gt_0)
    ultimately show ?thesis using assms(1) w
      by (auto simp: link_inv_def awake_inv_def order_inv_def line_bytes_def link_waiters_def link_bytes_def)
  qed
qed

lemma link_arrive:
  assumes "link_inv t L"
  shows "link_inv t (L\<lparr>ldev := apsnd (uart_arrive ch) (ldev L), arrived := arrived L @ [ch],
      overrun := (overrun L \<or> SR (snd (ldev L)) RXNE)\<rparr>)" (is "link_inv t ?L")
proof -
  obtain s u where su: "ldev L = (s, u)" by fastforce
  have rie: "RXNEIE (uart_arrive ch u) = RXNEIE u" by (simp add: uart_arrive_def)
  have "ucast (ucast ch :: u16) = ch" by (rule ucast_up_ucast_id) (simp add: is_up)
  then have "uart_held (uart_arrive ch u) = (if SR u RXNE then uart_held u else uart_held u @ [ch])"
    by (simp add: uart_held_def uart_arrive_def rx_byte_def)
  then have "line_bytes ?L = (if SR u RXNE then line_bytes L else line_bytes L @ [ch])"
    by (simp add: line_bytes_def link_bytes_def su)
  moreover have "order_inv L" using assms by (simp add: link_inv_def)
  ultimately have "order_inv ?L"
    using su by (auto simp: order_inv_def intro: list_emb_append2 list_emb_append_mono [of _ "line_bytes L" "arrived L" "[ch]" "[ch]"])
  then show ?thesis
    using assms su rie by (simp add: link_inv_def awake_inv_def link_bytes_def link_waiters_def)
qed

lemma link_step_inv: "link_step hal t L L' \<Longrightarrow> link_inv t L \<Longrightarrow> link_inv t L'"
proof (induction rule: link_step.induct)
  case (Arrive L ch)
  then show ?case by (intro link_arrive)
next
  case (Interrupt L dev sem k)
  then show ?case by (intro link_interrupt)
next
  case (Read L chs dev)
  then show ?case by (intro link_read)
next
  case (Take L r sem k)
  then show ?case by (intro link_take)
next
  case (Wake L)
  have "t \<notin> set (link_waiters L)"
    using waiting_member [of "{}" "lker L" "Suspended (ob_id (lsem L))" t] Wake
    by (auto simp: link_waiters_def link_inv_def sem_ok_def kernel_inv_def caller_def)
  then show ?case using Wake
    by (auto simp: link_inv_def awake_inv_def order_inv_def line_bytes_def link_waiters_def link_bytes_def)
next
  case (Other k L)
  then have "link_waiters (L\<lparr>lker := k\<rparr>) = link_waiters L" by (simp add: link_waiters_def)
  moreover have "link_bytes (L\<lparr>lker := k\<rparr>) = link_bytes L" "line_bytes (L\<lparr>lker := k\<rparr>) = line_bytes L"
    by (simp_all add: line_bytes_def link_bytes_def)
  moreover have "sem_ok (lsem L) k" using Other by (simp add: link_inv_def sem_ok_def link_waiters_def)
  ultimately show ?case using Other(3) by (simp add: link_inv_def awake_inv_def order_inv_def)
qed

lemma link_reach_inv: "link_reach hal t L0 L \<Longrightarrow> link_start L0 \<Longrightarrow> link_inv t L"
  by (induction rule: link_reach.induct) (auto intro: link_start_inv link_step_inv)

section \<open>Results\<close>



text \<open>
  At the limit of the semaphore the release wraps its value to 0, and the reader that found the FIFO empty just
  before sleeps although a byte is there.
\<close>

lemma release_at_limit:
  assumes "tlists k (Suspended (ob_id sem)) = []" "sem_value sem = 0xFFFF"
  shows "rt_sem_release sem k = Inr (RT_EOK, sem\<lparr>sem_value := 0\<rparr>, k)"
  using assms by (simp add: rt_sem_release_def)

section \<open>An instance\<close>

definition demo_uart :: uart where
  "demo_uart = \<lparr>SR = (\<lambda>_. False), DR = 0, RXNEIE = True, irq_enabled = True, Init = uart_config demo_config, transmitted = []\<rparr>"

definition demo_link :: link where
  "demo_link = \<lparr>ldev = (demo_serial, demo_uart), lsem = demo_sem, lker = demo_kernel, lread = Reading,
     got = [65], arrived = [65, 66], overrun = False, dropped = False, since = 0, starved = False\<rparr>"

lemma demo_link_bytes: "link_bytes demo_link = [66]"
  by (simp add: link_bytes_def serial_bytes_def demo_link_def demo_serial_def demo_config_def fifo_bytes_def rx_length_def)

lemma demo_link_start: "link_start demo_link"
proof -
  have "line_bytes demo_link = arrived demo_link"
    unfolding line_bytes_def demo_link_bytes by (simp add: demo_link_def demo_uart_def uart_held_def)
  then show ?thesis
    using demo_serial_inv demo_sem_ok demo_no_waiter(1)
    by (simp add: link_start_def link_waiters_def demo_link_def demo_serial_def demo_uart_def demo_sem_def)
qed

definition demo_arrived :: link where
  "demo_arrived = demo_link\<lparr>ldev := (demo_serial, uart_arrive 67 demo_uart), arrived := [65, 66, 67]\<rparr>"

lemma demo_arrival: "link_reach hal 0 demo_link demo_arrived"
  using link_reach.Step [OF link_reach.Start link_step.Arrive [of hal 0 demo_link 67]]
  by (simp add: demo_arrived_def demo_link_def demo_uart_def)

lemma demo_arrived_bytes: "link_bytes demo_arrived = [66]"
  using demo_link_bytes by (simp add: link_bytes_def demo_link_def demo_arrived_def)



end
