(* ===== verification/Uart_Setup.thy ===== *)
theory Uart_Setup
  imports Serial_Link
begin

unbundle bit_operations_syntax

text \<open>
  The set-up of the five serial lines (\<^verbatim>\<open>init_lora\<close>, \<^verbatim>\<open>init_raspberry\<close>, \<^verbatim>\<open>init_gps\<close>,
  \<^verbatim>\<open>init_compass\<close>, \<^verbatim>\<open>init_water\<close>): each is a sequence of calls on the device and the
  semaphore of its thread, between which bytes may arrive and interrupt.  The device is found under its name.
\<close>

record line_setup =
  sdev :: "serial \<times> uart"
  ssem :: "rt_semaphore option"     \<comment> \<open>\<open>None\<close>: not initialised\<close>
  sker :: kernel

text \<open>\<^verbatim>\<open>RT_SERIAL_CONFIG_DEFAULT\<close> with \<^verbatim>\<open>RT_SERIAL_RB_BUFSZ\<close> of \<^verbatim>\<open>rtconfig.h\<close>, and a registered UART.\<close>

definition RT_SERIAL_CONFIG_DEFAULT :: serial_configure where
  "RT_SERIAL_CONFIG_DEFAULT =
     \<lparr>baud_rate = 115200, data_bits = 8, stop_bits = 0, parity = 0, bit_order = 0, invert = 0, bufsz = 64\<rparr>"

definition RT_DEVICE_FLAG_RDWR :: u16 where "RT_DEVICE_FLAG_RDWR = 0x003"

definition rt_hw_usart_init :: serial where
  "rt_hw_usart_init =
     \<lparr>dev_flag = RT_DEVICE_FLAG_RDWR OR RT_DEVICE_FLAG_INT_RX OR RT_DEVICE_FLAG_INT_TX, open_flag = 0, ref_count = 0,
      rx_indicate = False, config = RT_SERIAL_CONFIG_DEFAULT, serial_rx = None, serial_tx = False\<rparr>"

text \<open>The calls of the set-up on this state, each with its result.\<close>

type_synonym call = "line_setup \<Rightarrow> (int \<times> line_setup) res"

definition line_config :: "u32 \<Rightarrow> nat \<Rightarrow> serial_configure" where
  "line_config baud sz = RT_SERIAL_CONFIG_DEFAULT\<lparr>baud_rate := baud, data_bits := 8, stop_bits := 0, bufsz := sz, parity := 0\<rparr>"

definition call_config :: "(uart_init \<Rightarrow> bool) \<Rightarrow> serial_configure \<Rightarrow> call" where
  "call_config hal cfg st =
     (let (r, dev) = rt_device_control (stm32_uart_ops hal) (RT_DEVICE_CTRL_CONFIG (Some cfg)) (sdev st)
      in Inr (r, st\<lparr>sdev := dev\<rparr>))"

definition call_open :: "(uart_init \<Rightarrow> bool) \<Rightarrow> (nat \<Rightarrow> bool) \<Rightarrow> u16 \<Rightarrow> call" where
  "call_open hal mem oflag st =
     bind_res (rt_device_open (stm32_uart_ops hal) mem oflag (sdev st)) (\<lambda>(r, dev). Inr (r, st\<lparr>sdev := dev\<rparr>))"

definition call_indicate :: call where
  "call_indicate st = Inr (RT_EOK, st\<lparr>sdev := rt_device_set_rx_indicate (sdev st)\<rparr>)"

definition call_sem_init :: "nat \<Rightarrow> call" where
  "call_sem_init n st =
     bind_res (rt_sem_init n 0 RT_IPC_FLAG_FIFO (sker st)) (\<lambda>(sem, k). Inr (RT_EOK, st\<lparr>ssem := Some sem, sker := k\<rparr>))"

text \<open>A byte arrives; the handler runs if its interrupt is enabled.\<close>

definition setup_byte :: "(uart_init \<Rightarrow> bool) \<Rightarrow> u8 \<Rightarrow> line_setup \<Rightarrow> line_setup res option" where
  "setup_byte hal ch st =
     (let (s, u) = sdev st; u = uart_arrive ch u in
      if irq_enabled u \<and> RXNEIE u then
        map_option (\<lambda>r. bind_res r (\<lambda>(dev, sem, k). Inr (st\<lparr>sdev := dev, ssem := sem, sker := k\<rparr>)))
          (uart_isr hal rx_callback (s, u) (ssem st, sker st))
      else Some (Inr (st\<lparr>sdev := (s, u)\<rparr>)))"

fun setup_bytes :: "(uart_init \<Rightarrow> bool) \<Rightarrow> u8 list \<Rightarrow> line_setup \<Rightarrow> line_setup res option" where
  "setup_bytes hal [] st = Some (Inr st)"
| "setup_bytes hal (ch # chs) st =
     (case setup_byte hal ch st of
        Some (Inr st) \<Rightarrow> setup_bytes hal chs st
      | r \<Rightarrow> r)"

text \<open>
  The calls in order, with the bytes that arrive before each; a call marked \<open>True\<close> ends the function if its
  result is negative.  The result of the function is \<open>ret\<close> at its end.
\<close>

fun run_setup :: "(uart_init \<Rightarrow> bool) \<Rightarrow> int \<Rightarrow> (bool \<times> call) list \<Rightarrow> (nat \<Rightarrow> u8 list) \<Rightarrow> line_setup \<Rightarrow> (int \<times> line_setup) res option" where
  "run_setup hal ret [] bytes st = Some (Inr (ret, st))"
| "run_setup hal ret ((ends, f) # fs) bytes st =
     (case setup_bytes hal (bytes 0) st of
        None \<Rightarrow> None
      | Some (Inl e) \<Rightarrow> Some (Inl e)
      | Some (Inr st) \<Rightarrow>
          (case f st of
             Inl e \<Rightarrow> Some (Inl e)
           | Inr (r, st) \<Rightarrow> if ends \<and> r < 0 then Some (Inr (r, st)) else run_setup hal ret fs (\<lambda>i. bytes (Suc i)) st))"

definition init_lora :: "(uart_init \<Rightarrow> bool) \<Rightarrow> (nat \<Rightarrow> bool) \<Rightarrow> nat \<Rightarrow> (bool \<times> call) list" where
  "init_lora hal mem sem =
     [(False, call_config hal (line_config 9600 128)), (False, call_open hal mem RT_DEVICE_FLAG_INT_RX),
      (False, call_sem_init sem), (False, call_indicate)]"

definition init_raspberry :: "(uart_init \<Rightarrow> bool) \<Rightarrow> (nat \<Rightarrow> bool) \<Rightarrow> nat \<Rightarrow> (bool \<times> call) list" where
  "init_raspberry hal mem sem =
     [(False, call_config hal (line_config 115200 7000)), (False, call_open hal mem RT_DEVICE_FLAG_INT_RX),
      (False, call_sem_init sem), (False, call_indicate)]"

definition init_water :: "(uart_init \<Rightarrow> bool) \<Rightarrow> (nat \<Rightarrow> bool) \<Rightarrow> nat \<Rightarrow> (bool \<times> call) list" where
  "init_water hal mem sem =
     [(False, call_config hal (line_config 9600 700)), (False, call_open hal mem RT_DEVICE_FLAG_INT_RX),
      (False, call_sem_init sem), (False, call_indicate)]"

definition init_gps :: "(uart_init \<Rightarrow> bool) \<Rightarrow> (nat \<Rightarrow> bool) \<Rightarrow> nat \<Rightarrow> (bool \<times> call) list" where
  "init_gps hal mem sem =
     [(True, call_open hal mem (RT_DEVICE_FLAG_RDWR OR RT_DEVICE_FLAG_INT_RX)),
      (False, call_config hal (line_config 115200 1024)), (False, call_indicate), (True, call_sem_init sem)]"

definition init_compass :: "(uart_init \<Rightarrow> bool) \<Rightarrow> (nat \<Rightarrow> bool) \<Rightarrow> nat \<Rightarrow> (bool \<times> call) list" where
  "init_compass hal mem sem =
     [(False, call_config hal (line_config 115200 512)), (False, call_indicate),
      (True, call_open hal mem (RT_DEVICE_FLAG_RDWR OR RT_DEVICE_FLAG_INT_RX)), (True, call_sem_init sem)]"

section \<open>What may happen while a line is set up\<close>

text \<open>
  The FIFO is there before the interrupt is enabled, and the callback is set only when the semaphore is
  initialised; nobody waits for the semaphore yet.
\<close>

definition setup_inv :: "line_setup \<Rightarrow> bool" where
  "setup_inv st \<longleftrightarrow> serial_inv (fst (sdev st)) \<and>
     (irq_enabled (snd (sdev st)) \<and> RXNEIE (snd (sdev st)) \<longrightarrow> serial_rx (fst (sdev st)) \<noteq> None) \<and>
     (rx_indicate (fst (sdev st)) \<longrightarrow> ssem st \<noteq> None) \<and>
     (\<forall>sem. ssem st = Some sem \<longrightarrow> tlists (sker st) (Suspended (ob_id sem)) = [])"

text \<open>What the calls and the bytes leave alone.\<close>

definition same_line :: "line_setup \<Rightarrow> line_setup \<Rightarrow> bool" where
  "same_line st st' \<longleftrightarrow> config (fst (sdev st')) = config (fst (sdev st)) \<and> dev_flag (fst (sdev st')) = dev_flag (fst (sdev st)) \<and>
     open_flag (fst (sdev st')) = open_flag (fst (sdev st)) \<and> ref_count (fst (sdev st')) = ref_count (fst (sdev st)) \<and>
     rx_indicate (fst (sdev st')) = rx_indicate (fst (sdev st)) \<and> serial_tx (fst (sdev st')) = serial_tx (fst (sdev st)) \<and>
     (serial_rx (fst (sdev st')) = None) = (serial_rx (fst (sdev st)) = None) \<and>
     (ssem st' = None) = (ssem st = None)"

lemma same_line_refl: "same_line st st" and same_line_trans: "same_line st st' \<Longrightarrow> same_line st' st'' \<Longrightarrow> same_line st st''"
  by (simp_all add: same_line_def)

lemma setup_byte_ok:
  assumes "setup_inv st"
  shows "\<exists>st'. setup_byte hal ch st = Some (Inr st') \<and> setup_inv st' \<and> same_line st st'"
proof -
  obtain s u where su: "sdev st = (s, u)" by fastforce
  let ?u = "uart_arrive ch u"
  have u: "irq_enabled ?u = irq_enabled u" "RXNEIE ?u = RXNEIE u" "SR ?u RXNE" by (simp_all add: uart_arrive_def)
  show ?thesis
  proof (cases "irq_enabled u \<and> RXNEIE u")
    case False
    then show ?thesis using assms su u by (auto simp: setup_byte_def Let_def setup_inv_def same_line_def)
  next
    case True
    then obtain f where f: "serial_rx s = Some f" using assms su by (auto simp: setup_inv_def)
    have s: "serial_inv s" using assms su by (simp add: setup_inv_def)
    obtain f' u' where f': "fifo_ok (bufsz (config s)) f'" "uart_settings u' = uart_settings ?u" "uart_isr hal rx_callback (s, ?u) (ssem st, sker st) =
       Some (bind_res (if rx_indicate s then rx_callback (ssem st, sker st) else Inr (ssem st, sker st)) (\<lambda>st.
         Inr ((s\<lparr>serial_rx := Some f'\<rparr>, u'), st)))"
      using uart_isr_byte [OF s f u(3), of hal rx_callback "(ssem st, sker st)"] True u(2) by auto
    have inv': "serial_inv (s\<lparr>serial_rx := Some f'\<rparr>)" using isr_bytes_state s f f'(1) by blast
    show ?thesis
    proof (cases "rx_indicate s")
      case False
      then show ?thesis using True f f' u su inv' assms
        by (auto simp: setup_byte_def setup_inv_def same_line_def)
    next
      case cb: True
      then obtain sem where sem: "ssem st = Some sem" "tlists (sker st) (Suspended (ob_id sem)) = []"
        using assms su by (auto simp: setup_inv_def)
      then have "rx_callback (ssem st, sker st) = Inr (Some (sem\<lparr>sem_value := sem_value sem + 1\<rparr>), sker st)"
        by (simp add: rx_callback_def rt_sem_release_def)
      then show ?thesis using True f f' u su inv' sem cb
        by (auto simp: setup_byte_def setup_inv_def same_line_def)
    qed
  qed
qed

lemma setup_bytes_ok:
  "setup_inv st \<Longrightarrow> \<exists>st'. setup_bytes hal chs st = Some (Inr st') \<and> setup_inv st' \<and> same_line st st'"
proof (induction chs arbitrary: st)
  case (Cons ch chs)
  obtain st1 where st1: "setup_byte hal ch st = Some (Inr st1)" "setup_inv st1" "same_line st st1"
    using setup_byte_ok [OF Cons.prems] by blast
  then show ?case using Cons.IH [OF st1(2)] same_line_trans by fastforce
qed (simp add: same_line_refl)

text \<open>Opening for reception by interrupt alone.\<close>

definition rx_only :: "u16 \<Rightarrow> bool" where
  "rx_only oflag \<longleftrightarrow> on oflag RT_DEVICE_FLAG_INT_RX \<and> \<not> on oflag RT_DEVICE_FLAG_INT_TX \<and>
     \<not> on oflag RT_DEVICE_FLAG_DMA_RX \<and> \<not> on oflag RT_DEVICE_FLAG_DMA_TX"

definition can_open :: "(nat \<Rightarrow> bool) \<Rightarrow> serial \<Rightarrow> bool" where
  "can_open mem s \<longleftrightarrow> on (dev_flag s) RT_DEVICE_FLAG_INT_RX \<and> \<not> serial_tx s \<and> mem (bufsz (config s)) \<and> ref_count s \<noteq> 0xFF"

lemma serial_open_total:
  assumes "rx_only oflag" "can_open mem s"
  shows "\<exists>s' u'. rt_serial_open (stm32_uart_ops hal) mem oflag (s, u) = Inr (RT_EOK, s', u') \<and> rx_indicate s' = rx_indicate s \<and>
     serial_rx s' \<noteq> None"
proof (cases "serial_rx s")
  case None
  then show ?thesis using assms
    by (simp add: rt_serial_open_def open_rx_def open_tx_def rx_only_def can_open_def stm32_control_def Let_def)
next
  case (Some f)
  then show ?thesis using assms
    by (simp add: rt_serial_open_def open_rx_def open_tx_def rx_only_def can_open_def stm32_control_def Let_def)
qed

definition line_part :: "serial \<Rightarrow> bool \<times> u8 \<times> rx_fifo option \<times> bool \<times> serial_configure \<times> bool" where
  "line_part s = (rx_indicate s, ref_count s, serial_rx s, serial_tx s, config s, on (dev_flag s) RT_DEVICE_FLAG_INT_RX)"

lemma device_init_line:
  assumes "rt_device_init (stm32_uart_ops hal) (s, u) = (r, s', u')" "serial_inv s"
  shows "line_part s' = line_part s \<and> irq_enabled u' = irq_enabled u \<and> RXNEIE u' = RXNEIE u"
proof (cases "on (dev_flag s) RT_DEVICE_FLAG_ACTIVATED")
  case True
  then show ?thesis using assms(1) by (simp add: rt_device_init_def)
next
  case False
  then have none: "serial_rx s = None" "\<not> serial_tx s" "ref_count s = 0"
    using assms(2) by (auto simp: serial_inv_def split: option.splits)
  have "on (dev_flag s OR RT_DEVICE_FLAG_ACTIVATED) RT_DEVICE_FLAG_INT_RX = on (dev_flag s) RT_DEVICE_FLAG_INT_RX"
    by (simp add: flag_simps)
  then show ?thesis using assms(1) False none
    by (cases "hal (uart_config (config s))")
      (auto simp: rt_device_init_def rt_serial_init_def stm32_configure_def Let_def line_part_def rt_errors)
qed

lemma call_open_ok:
  assumes "setup_inv st" "rx_only oflag" "can_open mem (fst (sdev st))"
  shows "\<exists>r st'. call_open hal mem oflag st = Inr (r, st') \<and> setup_inv st' \<and> ssem st' = ssem st \<and> sker st' = sker st \<and>
     rx_indicate (fst (sdev st')) = rx_indicate (fst (sdev st)) \<and> (r = RT_EOK \<longrightarrow> serial_rx (fst (sdev st')) \<noteq> None)"
proof -
  obtain s u where su: "sdev st = (s, u)" by fastforce
  obtain r0 s0 u0 where i: "rt_device_init (stm32_uart_ops hal) (s, u) = (r0, s0, u0)"
    by (cases "rt_device_init (stm32_uart_ops hal) (s, u)")
  have inv: "serial_inv s" using assms(1) su by (simp add: setup_inv_def)
  have i': "line_part s0 = line_part s" "irq_enabled u0 = irq_enabled u" "RXNEIE u0 = RXNEIE u"
    using device_init_line [OF i inv] by simp_all
  have re: "reopen_ok oflag s" using assms(2,3) su by (simp add: reopen_ok_def rx_only_def can_open_def)
  have "\<exists>r s' u'. rt_device_open (stm32_uart_ops hal) mem oflag (s, u) = Inr (r, s', u') \<and> rx_indicate s' = rx_indicate s \<and>
     (serial_rx s' \<noteq> None \<or> (serial_rx s' = serial_rx s \<and> irq_enabled u' = irq_enabled u \<and> RXNEIE u' = RXNEIE u \<and> r \<noteq> RT_EOK))"
  proof (cases "r0 = RT_EOK \<and> \<not> (on (dev_flag s0) RT_DEVICE_FLAG_STANDALONE \<and> on (open_flag s0) RT_DEVICE_OFLAG_OPEN)")
    case False
    then show ?thesis using i i' by (auto simp: rt_device_open_def Let_def rt_errors line_part_def)
  next
    case True
    have "can_open mem s0" using assms(3) su i'(1) by (simp add: can_open_def line_part_def)
    then obtain s1 u1 where o: "rt_serial_open (stm32_uart_ops hal) mem oflag (s0, u0) = Inr (RT_EOK, s1, u1)"
      "rx_indicate s1 = rx_indicate s0" "serial_rx s1 \<noteq> None" using serial_open_total [OF assms(2)] by metis
    have "ref_count s1 + 1 \<noteq> 0"
    proof
      assume "ref_count s1 + 1 = 0"
      then have "ref_count s1 = -1" by (simp add: eq_neg_iff_add_eq_0)
      moreover have "(-1 :: u8) = 0xFF" by simp
      ultimately have "ref_count s1 = 0xFF" by (rule trans)
      then show False using serial_open_ok(3) [OF o(1)] i'(1) assms(3) su by (simp add: can_open_def line_part_def)
    qed
    then show ?thesis using True i i'(1) o by (auto simp: rt_device_open_def line_part_def)
  qed
  then obtain r s' u' where o: "rt_device_open (stm32_uart_ops hal) mem oflag (s, u) = Inr (r, s', u')"
    "rx_indicate s' = rx_indicate s" "serial_rx s' \<noteq> None \<or>
       (serial_rx s' = serial_rx s \<and> irq_enabled u' = irq_enabled u \<and> RXNEIE u' = RXNEIE u \<and> r \<noteq> RT_EOK)" by blast
  moreover have "serial_inv s'" using device_open_inv [OF inv re, of "stm32_uart_ops hal" mem u] o(1) by simp
  ultimately show ?thesis using assms(1) su
    by (intro exI [of _ r] exI [of _ "st\<lparr>sdev := (s', u')\<rparr>"]) (auto simp: call_open_def setup_inv_def)
qed

lemma call_config_ok:
  assumes "setup_inv st" "2 \<le> bufsz cfg"
  shows "\<exists>r st'. call_config hal cfg st = Inr (r, st') \<and> setup_inv st' \<and> ssem st' = ssem st \<and> sker st' = sker st \<and>
     rx_indicate (fst (sdev st')) = rx_indicate (fst (sdev st)) \<and> serial_rx (fst (sdev st')) = serial_rx (fst (sdev st)) \<and>
     serial_tx (fst (sdev st')) = serial_tx (fst (sdev st)) \<and> dev_flag (fst (sdev st')) = dev_flag (fst (sdev st)) \<and>
     ref_count (fst (sdev st')) = ref_count (fst (sdev st)) \<and>
     config (fst (sdev st')) = (if bufsz cfg \<noteq> bufsz (config (fst (sdev st))) \<and> ref_count (fst (sdev st)) \<noteq> 0
       then config (fst (sdev st)) else cfg)"
proof -
  obtain s u where su: "sdev st = (s, u)" by fastforce
  have "serial_inv (fst (snd (rt_device_control (stm32_uart_ops hal) (RT_DEVICE_CTRL_CONFIG (Some cfg)) (s, u))))"
    by (rule device_control_inv) (use assms su in \<open>auto simp: setup_inv_def call_ok_def\<close>)
  then show ?thesis using assms(1) su
    by (auto simp: call_config_def rt_device_control_def rt_serial_control_def setup_inv_def stm32_configure_def Let_def)
qed

lemma call_sem_init_ok:
  assumes "setup_inv st"
  shows "\<exists>st'. call_sem_init n st = Inr (RT_EOK, st') \<and> setup_inv st' \<and> sdev st' = sdev st \<and> ssem st' \<noteq> None"
  using assms by (auto simp: call_sem_init_def rt_sem_init_def setup_inv_def)

lemma call_indicate_ok:
  assumes "setup_inv st" "ssem st \<noteq> None"
  shows "\<exists>st'. call_indicate st = Inr (RT_EOK, st') \<and> setup_inv st' \<and> ssem st' = ssem st \<and>
     rx_indicate (fst (sdev st')) \<and> serial_rx (fst (sdev st')) = serial_rx (fst (sdev st))"
proof -
  obtain s u where su: "sdev st = (s, u)" by fastforce
  have "serial_inv (s\<lparr>rx_indicate := True\<rparr>) = serial_inv s" by (simp add: serial_inv_def split: option.split)
  then show ?thesis using assms su by (auto simp: call_indicate_def rt_device_set_rx_indicate_def setup_inv_def)
qed

section \<open>Results\<close>

text \<open>Before the set-up: nobody uses the line for reception, and its data fits.\<close>

definition fresh_line :: "(nat \<Rightarrow> bool) \<Rightarrow> serial_configure \<Rightarrow> line_setup \<Rightarrow> bool" where
  "fresh_line mem cfg st \<longleftrightarrow> setup_inv st \<and> \<not> rx_indicate (fst (sdev st)) \<and> can_open mem (fst (sdev st)) \<and>
     mem (bufsz cfg) \<and> 2 \<le> bufsz cfg"

text \<open>The calls \<open>fs\<close> complete from a state, whatever bytes arrive, and the result satisfies \<open>P\<close>.\<close>

definition completes :: "(uart_init \<Rightarrow> bool) \<Rightarrow> int \<Rightarrow> (bool \<times> call) list \<Rightarrow> (int \<Rightarrow> line_setup \<Rightarrow> bool) \<Rightarrow> line_setup \<Rightarrow> bool" where
  "completes hal ret fs P st \<longleftrightarrow> (\<forall>bytes. \<exists>r st'. run_setup hal ret fs bytes st = Some (Inr (r, st')) \<and> P r st')"

lemma completes_Nil [intro]: "P ret st \<Longrightarrow> completes hal ret [] P st"
  by (simp add: completes_def)

lemma completes_Cons:
  assumes "setup_inv st"
    and "\<And>st1. setup_inv st1 \<Longrightarrow> same_line st st1 \<Longrightarrow> \<exists>r st2. f st1 = Inr (r, st2) \<and> completes hal ret fs P st2"
  shows "completes hal ret ((False, f) # fs) P st"
  unfolding completes_def
proof
  fix bytes :: "nat \<Rightarrow> u8 list"
  obtain st1 where st1: "setup_bytes hal (bytes 0) st = Some (Inr st1)" "setup_inv st1" "same_line st st1"
    using setup_bytes_ok [OF assms(1)] by blast
  obtain r st2 where f: "f st1 = Inr (r, st2)" "completes hal ret fs P st2" using assms(2) [OF st1(2,3)] by blast
  from f(2) have "\<exists>r st'. run_setup hal ret fs (\<lambda>i. bytes (Suc i)) st2 = Some (Inr (r, st')) \<and> P r st'"
    unfolding completes_def by (rule spec)
  then show "\<exists>r st'. run_setup hal ret ((False, f) # fs) bytes st = Some (Inr (r, st')) \<and> P r st'"
    using st1(1) f(1) by simp
qed

text \<open>The order of \<^verbatim>\<open>init_lora\<close>, \<^verbatim>\<open>init_raspberry\<close> and \<^verbatim>\<open>init_water\<close>, from its end.\<close>

definition line_up :: "int \<Rightarrow> int \<Rightarrow> line_setup \<Rightarrow> bool" where
  "line_up ret r st \<longleftrightarrow> r = ret \<and> setup_inv st \<and> ssem st \<noteq> None \<and> rx_indicate (fst (sdev st))"

lemma indicate_completes:
  assumes "setup_inv st" "ssem st \<noteq> None"
  shows "completes hal ret [(False, call_indicate)] (line_up ret) st"
proof (rule completes_Cons [OF assms(1)])
  fix st1 assume "setup_inv st1" "same_line st st1"
  then show "\<exists>r st2. call_indicate st1 = Inr (r, st2) \<and> completes hal ret [] (line_up ret) st2"
    using call_indicate_ok [of st1] assms(2) by (auto simp: same_line_def line_up_def completes_def)
qed

lemma sem_init_completes:
  assumes "setup_inv st"
  shows "completes hal ret [(False, call_sem_init n), (False, call_indicate)] (line_up ret) st"
proof (rule completes_Cons [OF assms(1)])
  fix st1 assume "setup_inv st1"
  then show "\<exists>r st2. call_sem_init n st1 = Inr (r, st2) \<and> completes hal ret [(False, call_indicate)] (line_up ret) st2"
    using call_sem_init_ok [of st1 n] indicate_completes by blast
qed

lemma open_completes:
  assumes "setup_inv st" "can_open mem (fst (sdev st))"
  shows "completes hal ret
     [(False, call_open hal mem RT_DEVICE_FLAG_INT_RX), (False, call_sem_init n), (False, call_indicate)] (line_up ret) st"
proof (rule completes_Cons [OF assms(1)])
  fix st1 assume st1: "setup_inv st1" "same_line st st1"
  have "rx_only RT_DEVICE_FLAG_INT_RX" by (simp add: rx_only_def on_def device_flags)
  moreover have "can_open mem (fst (sdev st1))" using assms(2) st1(2) by (simp add: same_line_def can_open_def)
  ultimately show "\<exists>r st2. call_open hal mem RT_DEVICE_FLAG_INT_RX st1 = Inr (r, st2) \<and>
      completes hal ret [(False, call_sem_init n), (False, call_indicate)] (line_up ret) st2"
    using call_open_ok [OF st1(1)] sem_init_completes by blast
qed

lemma config_completes:
  assumes "fresh_line mem cfg st"
  shows "completes hal ret [(False, call_config hal cfg), (False, call_open hal mem RT_DEVICE_FLAG_INT_RX),
      (False, call_sem_init n), (False, call_indicate)] (line_up ret) st"
proof (rule completes_Cons)
  show "setup_inv st" using assms by (simp add: fresh_line_def)
next
  fix st1 assume st1: "setup_inv st1" "same_line st st1"
  have can: "can_open mem (fst (sdev st1))" "2 \<le> bufsz cfg" "mem (bufsz cfg)"
    using assms st1(2) by (simp_all add: fresh_line_def same_line_def can_open_def)
  obtain r st2 where c: "call_config hal cfg st1 = Inr (r, st2)" "setup_inv st2" "can_open mem (fst (sdev st2))"
    using call_config_ok [OF st1(1) can(2), of hal] can(1,3) by (auto simp: can_open_def)
  then show "\<exists>r st2. call_config hal cfg st1 = Inr (r, st2) \<and> completes hal ret
     [(False, call_open hal mem RT_DEVICE_FLAG_INT_RX), (False, call_sem_init n), (False, call_indicate)] (line_up ret) st2"
    using open_completes by blast
qed

text \<open>
  Setting up the remote control, the server and the water line never fails, whatever bytes arrive between its
  calls: the callback is set last, when the semaphore and the FIFO are there.
\<close>

theorem line_setup_safe:
  assumes "fresh_line mem (line_config 9600 128) st" "fresh_line mem (line_config 115200 7000) st"
    "fresh_line mem (line_config 9600 700) st"
  shows "completes hal 0 (init_lora hal mem n) (line_up 0) st \<and> completes hal 0 (init_raspberry hal mem n) (line_up 0) st \<and>
    completes hal 1 (init_water hal mem n) (line_up 1) st"
  unfolding init_lora_def init_raspberry_def init_water_def
  using config_completes [OF assms(1)] config_completes [OF assms(2)] config_completes [OF assms(3)] by blast

section \<open>The lines of the boat\<close>

definition reset_uart :: uart where
  "reset_uart = \<lparr>SR = (\<lambda>_. False), DR = 0, RXNEIE = False, irq_enabled = False, Init = uart_config RT_SERIAL_CONFIG_DEFAULT,
     transmitted = []\<rparr>"

definition new_line :: "kernel \<Rightarrow> line_setup" where
  "new_line k = \<lparr>sdev = (rt_hw_usart_init, reset_uart), ssem = None, sker = k\<rparr>"

lemmas setup_evals = run_setup.simps setup_bytes.simps new_line_def rt_hw_usart_init_def reset_uart_def
  call_config_def call_open_def call_indicate_def call_sem_init_def rt_device_control_def rt_serial_control_def
  rt_device_open_def rt_device_init_def rt_serial_init_def stm32_configure_def rt_serial_open_def open_rx_def open_tx_def
  stm32_control_def rt_device_set_rx_indicate_def rt_sem_init_def line_config_def RT_SERIAL_CONFIG_DEFAULT_def
  RT_DEVICE_FLAG_RDWR_def on_def device_flags rt_errors setup_byte_def uart_isr_def serial_isr_rx_ind_def
  uart_arrive_def isr_receive_one rx_callback_def

text \<open>The console is opened on \<^verbatim>\<open>uart2\<close> at start-up, the line of the server; there is no console before.\<close>

definition rt_console_set_device :: "(uart_init \<Rightarrow> bool) \<Rightarrow> (nat \<Rightarrow> bool) \<Rightarrow> line_setup \<Rightarrow> line_setup res" where
  "rt_console_set_device hal mem st =
     bind_res (call_open hal mem (RT_DEVICE_FLAG_RDWR OR RT_DEVICE_FLAG_STREAM) st) (\<lambda>(_, st). Inr st)"

text \<open>The room of the FIFO after a set-up on a line on which nothing arrives; the heap and the HAL have no objection.\<close>

definition buffer_after :: "(bool \<times> call) list \<Rightarrow> line_setup \<Rightarrow> nat option" where
  "buffer_after fs st =
     (case run_setup (\<lambda>_. True) 0 fs (\<lambda>_. []) st of
        Some (Inr (_, st)) \<Rightarrow> map_option (\<lambda>f. length (fifo_buffer f)) (serial_rx (fst (sdev st)))
      | _ \<Rightarrow> None)"

abbreviation "yes \<equiv> \<lambda>_. True"


text \<open>
  The radar and compass line and the position line are live before their semaphore exists: a byte that arrives
  just before \<^verbatim>\<open>rt_sem_init\<close> releases an object that is no semaphore, and the assertion of
  \<^verbatim>\<open>rt_sem_release\<close> stops the boat.
\<close>

theorem early_byte_stops:
  "run_setup yes 0 (init_compass yes yes n) (\<lambda>i. if i = 3 then [ch] else []) (new_line k) = Some (Inl AssertFailed) \<and>
   run_setup yes 0 (init_gps yes yes n) (\<lambda>i. if i = 3 then [ch] else []) (new_line k) = Some (Inl AssertFailed)"
proof
  show "run_setup yes 0 (init_compass yes yes n) (\<lambda>i. if i = 3 then [ch] else []) (new_line k) = Some (Inl AssertFailed)"
    by (simp add: init_compass_def setup_evals Let_def fifo_put_def fifo_next_def rx_length_def)
  show "run_setup yes 0 (init_gps yes yes n) (\<lambda>i. if i = 3 then [ch] else []) (new_line k) = Some (Inl AssertFailed)"
    by (simp add: init_gps_def setup_evals Let_def fifo_put_def fifo_next_def rx_length_def)
qed

lemma new_line_fresh: "2 \<le> bufsz cfg \<Longrightarrow> fresh_line yes cfg (new_line k)"
  by (simp add: fresh_line_def setup_inv_def serial_inv_def can_open_def setup_evals)

theorem line_setup_safe_witness:
  "completes yes 0 (init_lora yes yes 7) (line_up 0) (new_line demo_kernel)"
  using line_setup_safe [of yes "new_line demo_kernel" yes 7] new_line_fresh by (simp add: line_config_def)

definition call_close :: "(uart_init \<Rightarrow> bool) \<Rightarrow> call" where
  "call_close hal st = bind_res (rt_device_close (stm32_uart_ops hal) (sdev st)) (\<lambda>(r, dev). Inr (r, st\<lparr>sdev := dev\<rparr>))"

definition small_line :: "kernel \<Rightarrow> line_setup" where
  "small_line k = \<lparr>sdev = (rt_hw_usart_init\<lparr>config := line_config 115200 4\<rparr>, reset_uart), ssem = None, sker = k\<rparr>"

text \<open>
  The condition of \<open>serial_fifo_in_bounds\<close> is needed.  A second open without the interrupt flag clears the
  flag, so the two closes keep the old buffer; a larger size is then accepted, since nobody has the device open,
  and the interrupt, which is still enabled, writes past the buffer.
\<close>

theorem serial_reopen_overruns:
  "run_setup yes 0
     [(False, call_open yes yes RT_DEVICE_FLAG_INT_RX), (False, call_open yes yes RT_DEVICE_FLAG_RDWR),
      (False, call_close yes), (False, call_close yes), (False, call_config yes (line_config 115200 6)), (False, Inr \<circ> Pair 0)]
     (\<lambda>i. if i = 5 then [1, 2, 3, 4, 5] else []) (small_line k) = Some (Inl OutOfBounds)"
  by (simp add: setup_evals Let_def fifo_put_def fifo_next_def rx_length_def call_close_def rt_device_close_def
    rt_serial_close_def close_rx_def close_tx_def small_line_def dr_read_def arr_put_past_end)

section \<open>Requests on the lines\<close>

text \<open>
  One turn of \<^verbatim>\<open>send_water_data\<close>; its index is never advanced, so it stays 0 and only the first probe is asked.  One turn
  of \<^verbatim>\<open>lora_send\<close>, whose thread is not started.
\<close>

definition send_water_data :: "(uart_init \<Rightarrow> bool) \<Rightarrow> nat \<Rightarrow> serial \<times> uart \<Rightarrow> (nat \<times> u8 list \<times> serial \<times> uart) res" where
  "send_water_data hal index dev =
     (if index = 0 then rt_device_write (stm32_uart_ops hal) [0x06, 0x03, 0x00, 0x00, 0x00, 0x04, 0x45, 0xBE] dev
      else if index = 1 \<or> index = 2 then rt_device_write (stm32_uart_ops hal) [0xFF, 0xFF, 0xFF] dev
      else Inr (0, [], dev))"

definition lora_send :: "(uart_init \<Rightarrow> bool) \<Rightarrow> serial \<times> uart \<Rightarrow> (nat \<times> u8 list \<times> serial \<times> uart) res" where
  "lora_send hal dev = rt_device_write (stm32_uart_ops hal) [82, 84, 45, 111, 107, 33, 13, 10] dev"

lemma poll_tx_sends:
  "transmitted (serial_poll_tx (stm32_uart_ops hal) stream chs u) =
     transmitted u @ concat (map (\<lambda>ch. if ch = 10 \<and> stream then [13, 10] else [ch]) chs)"
  by (induction chs arbitrary: u) (simp_all add: Let_def stm32_putc_def)

lemma device_write_sends:
  assumes "ref_count s \<noteq> 0" "\<not> on (open_flag s) RT_DEVICE_FLAG_INT_TX" "\<not> on (open_flag s) RT_DEVICE_FLAG_STREAM" "chs \<noteq> []"
  shows "\<exists>u'. rt_device_write (stm32_uart_ops hal) chs (s, u) = Inr (length chs, [], s, u') \<and>
    transmitted u' = transmitted u @ chs"
  using assms by (simp add: rt_device_write_def rt_serial_write_def poll_tx_sends)

lemma water_request:
  assumes "ref_count s \<noteq> 0" "\<not> on (open_flag s) RT_DEVICE_FLAG_INT_TX" "\<not> on (open_flag s) RT_DEVICE_FLAG_STREAM"
  shows "\<exists>u'. send_water_data hal 0 (s, u) = Inr (8, [], s, u') \<and>
    transmitted u' = transmitted u @ [0x06, 0x03, 0x00, 0x00, 0x00, 0x04, 0x45, 0xBE]"
  using device_write_sends [OF assms, of "[0x06, 0x03, 0x00, 0x00, 0x00, 0x04, 0x45, 0xBE]" hal u]
  by (simp add: send_water_data_def eval_nat_numeral)

end
