(* ===== verification/Heap_Mem.thy ===== *)
theory Heap_Mem
  imports Usv_Prelude
begin

unbundle bit_operations_syntax

text \<open>
  \<^verbatim>\<open>mem.c\<close>, the small-memory heap of the kernel: every block has a header of 12 bytes with the offsets of the
  next and the previous block; free neighbours are merged, and \<open>lfree\<close> is where the search for free memory
  starts.  A pointer into the heap is its offset from \<^verbatim>\<open>heap_ptr\<close>, which is aligned.  The headers are a function of
  the offset; the contents of the blocks are not part of the state.  Each call holds the heap's semaphore and is
  atomic.  Hooks and the memory trace are not configured.
\<close>

definition HEAP_MAGIC :: u16 where "HEAP_MAGIC = 0x1ea0"
definition MIN_SIZE :: nat where "MIN_SIZE = 12"
definition SIZEOF_STRUCT_MEM :: nat where "SIZEOF_STRUCT_MEM = 12"

record heap_mem =
  magic :: u16
  used :: u16
  nxt :: nat
  prv :: nat

record heap =
  hdr :: "nat \<Rightarrow> heap_mem"
  lfree :: nat
  mem_size_aligned :: nat
  used_mem :: u32
  max_mem :: u32

definition heap_end :: "heap \<Rightarrow> nat" where
  "heap_end h = mem_size_aligned h + SIZEOF_STRUCT_MEM"

definition upd_hdr :: "nat \<Rightarrow> (heap_mem \<Rightarrow> heap_mem) \<Rightarrow> heap \<Rightarrow> heap" where
  "upd_hdr p f h = h\<lparr>hdr := (hdr h)(p := f (hdr h p))\<rparr>"

definition RT_ALIGN :: "u32 \<Rightarrow> u32" where
  "RT_ALIGN s = (s + 3) AND NOT 3"

section \<open>The operations\<close>

definition plug_forward :: "nat \<Rightarrow> heap \<Rightarrow> heap" where
  "plug_forward mem h =
     (let nmem = nxt (hdr h mem) in
      if mem \<noteq> nmem \<and> used (hdr h nmem) = 0 \<and> nmem \<noteq> heap_end h then
        (let h = (if lfree h = nmem then h\<lparr>lfree := mem\<rparr> else h);
             h = upd_hdr mem (\<lambda>b. b\<lparr>nxt := nxt (hdr h nmem)\<rparr>) h
         in upd_hdr (nxt (hdr h nmem)) (\<lambda>b. b\<lparr>prv := mem\<rparr>) h)
      else h)"

definition plug_backward :: "nat \<Rightarrow> heap \<Rightarrow> heap" where
  "plug_backward mem h =
     (let pmem = prv (hdr h mem) in
      if pmem \<noteq> mem \<and> used (hdr h pmem) = 0 then
        (let h = (if lfree h = mem then h\<lparr>lfree := pmem\<rparr> else h);
             h = upd_hdr pmem (\<lambda>b. b\<lparr>nxt := nxt (hdr h mem)\<rparr>) h
         in upd_hdr (nxt (hdr h mem)) (\<lambda>b. b\<lparr>prv := pmem\<rparr>) h)
      else h)"

definition plug_holes :: "nat \<Rightarrow> heap \<Rightarrow> heap res" where
  "plug_holes mem h =
     (if \<not> mem < heap_end h \<or> used (hdr h mem) \<noteq> 0 then Inl AssertFailed
      else Inr (plug_backward mem (plug_forward mem h)))"

text \<open>A heap between two addresses; \<open>None\<close> when there is no room for the two headers.\<close>

definition rt_system_heap_init :: "nat \<Rightarrow> nat \<Rightarrow> heap option" where
  "rt_system_heap_init begin_addr end_addr =
     (let begin_align = (begin_addr + 3) div 4 * 4; end_align = end_addr div 4 * 4 in
      if end_align > 2 * SIZEOF_STRUCT_MEM \<and> end_align - 2 * SIZEOF_STRUCT_MEM \<ge> begin_align then
        (let m = end_align - begin_align - 2 * SIZEOF_STRUCT_MEM; e = m + SIZEOF_STRUCT_MEM in
         Some \<lparr>hdr = (\<lambda>_. \<lparr>magic = 0, used = 0, nxt = 0, prv = 0\<rparr>)
                 (0 := \<lparr>magic = HEAP_MAGIC, used = 0, nxt = e, prv = 0\<rparr>,
                  e := \<lparr>magic = HEAP_MAGIC, used = 1, nxt = e, prv = e\<rparr>),
               lfree = 0, mem_size_aligned = m, used_mem = 0, max_mem = 0\<rparr>)
      else None)"

definition count_used :: "nat \<Rightarrow> heap \<Rightarrow> heap" where
  "count_used n h =
     (let h = h\<lparr>used_mem := used_mem h + of_nat n\<rparr>
      in if max_mem h < used_mem h then h\<lparr>max_mem := used_mem h\<rparr> else h)"

text \<open>The search of \<^verbatim>\<open>rt_malloc\<close> from an offset on; \<open>None\<close> is a search that does not end.\<close>

definition fits :: "heap \<Rightarrow> nat \<Rightarrow> nat \<Rightarrow> bool" where
  "fits h n ptr \<longleftrightarrow> used (hdr h ptr) = 0 \<and> n \<le> nxt (hdr h ptr) - (ptr + SIZEOF_STRUCT_MEM)"

partial_function (option) heap_search :: "heap \<Rightarrow> nat \<Rightarrow> nat \<Rightarrow> nat \<Rightarrow> nat option option" where
  "heap_search h n limit ptr =
     (if \<not> ptr < limit then Some None
      else if fits h n ptr then Some (Some ptr)
      else heap_search h n limit (nxt (hdr h ptr)))"

text \<open>The block found is split if the rest can hold a block of its own.\<close>

definition heap_take :: "nat \<Rightarrow> nat \<Rightarrow> heap \<Rightarrow> heap" where
  "heap_take mem n h =
     (if n + SIZEOF_STRUCT_MEM + MIN_SIZE \<le> nxt (hdr h mem) - (mem + SIZEOF_STRUCT_MEM) then
        (let ptr2 = mem + SIZEOF_STRUCT_MEM + n;
             h = upd_hdr ptr2 (\<lambda>_. \<lparr>magic = HEAP_MAGIC, used = 0, nxt = nxt (hdr h mem), prv = mem\<rparr>) h;
             h = upd_hdr mem (\<lambda>b. b\<lparr>nxt := ptr2, used := 1\<rparr>) h;
             h = (if nxt (hdr h ptr2) \<noteq> heap_end h then upd_hdr (nxt (hdr h ptr2)) (\<lambda>b. b\<lparr>prv := ptr2\<rparr>) h else h)
         in upd_hdr mem (\<lambda>b. b\<lparr>magic := HEAP_MAGIC\<rparr>) (count_used (n + SIZEOF_STRUCT_MEM) h))
      else
        (let h = upd_hdr mem (\<lambda>b. b\<lparr>used := 1\<rparr>) h
         in upd_hdr mem (\<lambda>b. b\<lparr>magic := HEAP_MAGIC\<rparr>) (count_used (nxt (hdr h mem) - mem) h)))"

partial_function (option) lfree_advance :: "heap \<Rightarrow> nat \<Rightarrow> nat option" where
  "lfree_advance h p =
     (if used (hdr h p) \<noteq> 0 \<and> p \<noteq> heap_end h then lfree_advance h (nxt (hdr h p)) else Some p)"

text \<open>What follows when the block \<open>mem\<close> is found, with \<open>lfree\<close> moved on if it was this block.\<close>

definition malloc_place :: "nat \<Rightarrow> nat \<Rightarrow> heap \<Rightarrow> (nat option \<times> heap) res option" where
  "malloc_place mem n h =
     (let h = heap_take mem n h in
      case (if mem = lfree h then lfree_advance h (lfree h) else Some (lfree h)) of
        None \<Rightarrow> None
      | Some p \<Rightarrow>
          (let h = h\<lparr>lfree := p\<rparr> in
           Some (if mem + SIZEOF_STRUCT_MEM + n \<le> heap_end h \<and> mem mod 4 = 0 \<and> (p = heap_end h \<or> used (hdr h p) = 0)
                 then Inr (Some (mem + SIZEOF_STRUCT_MEM), h) else Inl AssertFailed)))"

definition malloc_size :: "u32 \<Rightarrow> u32" where
  "malloc_size s = (if RT_ALIGN s < of_nat MIN_SIZE then of_nat MIN_SIZE else RT_ALIGN s)"

definition rt_malloc :: "u32 \<Rightarrow> heap \<Rightarrow> (nat option \<times> heap) res option" where
  "rt_malloc s h =
     (if s = 0 \<or> mem_size_aligned h < unat (RT_ALIGN s) then Some (Inr (None, h))
      else
        (let n = malloc_size s in
         case heap_search h (unat n) (unat (of_nat (mem_size_aligned h) - n)) (lfree h) of
           None \<Rightarrow> None
         | Some None \<Rightarrow> Some (Inr (None, h))
         | Some (Some mem) \<Rightarrow> malloc_place mem (unat n) h))"

text \<open>Freeing a pointer; the header in front of it is in the heap only from \<open>SIZEOF_STRUCT_MEM\<close> on.\<close>

definition rt_free :: "nat option \<Rightarrow> heap \<Rightarrow> heap res" where
  "rt_free rmem h =
     (case rmem of
        None \<Rightarrow> Inr h
      | Some r \<Rightarrow>
          if r mod 4 \<noteq> 0 \<or> heap_end h \<le> r then Inl AssertFailed
          else if r < SIZEOF_STRUCT_MEM then Inl OutOfBounds
          else
            (let mem = r - SIZEOF_STRUCT_MEM in
             if used (hdr h mem) = 0 \<or> magic (hdr h mem) \<noteq> HEAP_MAGIC then Inl AssertFailed
             else
               (let h = upd_hdr mem (\<lambda>b. b\<lparr>used := 0, magic := HEAP_MAGIC\<rparr>) h;
                    h = (if mem < lfree h then h\<lparr>lfree := mem\<rparr> else h);
                    h = h\<lparr>used_mem := used_mem h - of_nat (nxt (hdr h mem) - mem)\<rparr>
                in plug_holes mem h)))"

text \<open>The block keeps its place when it shrinks by more than a block; else its contents move.\<close>

definition realloc_shrink :: "nat \<Rightarrow> nat \<Rightarrow> nat \<Rightarrow> heap \<Rightarrow> heap res" where
  "realloc_shrink mem sz n h =
     (let h = h\<lparr>used_mem := used_mem h - of_nat (sz - n)\<rparr>;
          ptr2 = mem + SIZEOF_STRUCT_MEM + n;
          h = upd_hdr ptr2 (\<lambda>_. \<lparr>magic = HEAP_MAGIC, used = 0, nxt = nxt (hdr h mem), prv = mem\<rparr>) h;
          h = upd_hdr mem (\<lambda>b. b\<lparr>nxt := ptr2\<rparr>) h;
          h = (if nxt (hdr h ptr2) \<noteq> heap_end h then upd_hdr (nxt (hdr h ptr2)) (\<lambda>b. b\<lparr>prv := ptr2\<rparr>) h else h)
      in plug_holes ptr2 h)"

definition rt_realloc :: "nat option \<Rightarrow> u32 \<Rightarrow> heap \<Rightarrow> (nat option \<times> heap) res option" where
  "rt_realloc rmem newsize h =
     (let n = RT_ALIGN newsize in
      if mem_size_aligned h < unat n then Some (Inr (None, h))
      else if n = 0 then Some (bind_res (rt_free rmem h) (\<lambda>h. Inr (None, h)))
      else
        (case rmem of
           None \<Rightarrow> rt_malloc n h
         | Some r \<Rightarrow>
             if heap_end h \<le> r then Some (Inr (rmem, h))
             else if r < SIZEOF_STRUCT_MEM then Some (Inl OutOfBounds)
             else
               (let mem = r - SIZEOF_STRUCT_MEM; sz = nxt (hdr h mem) - mem - SIZEOF_STRUCT_MEM in
                if sz = unat n then Some (Inr (rmem, h))
                else if unat n + SIZEOF_STRUCT_MEM + MIN_SIZE < sz then
                  Some (bind_res (realloc_shrink mem sz (unat n) h) (\<lambda>h. Inr (rmem, h)))
                else
                  (case rt_malloc n h of
                     None \<Rightarrow> None
                   | Some res \<Rightarrow>
                       Some (bind_res res (\<lambda>(q, h).
                         case q of
                           None \<Rightarrow> Inr (None, h)
                         | Some _ \<Rightarrow> bind_res (rt_free rmem h) (\<lambda>h. Inr (q, h))))))))"

definition rt_calloc :: "u32 \<Rightarrow> u32 \<Rightarrow> heap \<Rightarrow> (nat option \<times> heap) res option" where
  "rt_calloc count s h = rt_malloc (count * s) h"

definition rt_memory_info :: "heap \<Rightarrow> nat \<times> u32 \<times> u32" where
  "rt_memory_info h = (mem_size_aligned h, used_mem h, max_mem h)"

section \<open>The chain of blocks\<close>

lemmas mem_sizes = SIZEOF_STRUCT_MEM_def MIN_SIZE_def heap_end_def

lemma upd_hdr_simps [simp]:
  "hdr (upd_hdr p f h) = (hdr h)(p := f (hdr h p))" "lfree (upd_hdr p f h) = lfree h"
  "mem_size_aligned (upd_hdr p f h) = mem_size_aligned h" "heap_end (upd_hdr p f h) = heap_end h"
  "used_mem (upd_hdr p f h) = used_mem h" "max_mem (upd_hdr p f h) = max_mem h"
  by (simp_all add: upd_hdr_def heap_end_def)

lemma heap_end_simps [simp]:
  "heap_end (h\<lparr>lfree := p\<rparr>) = heap_end h" "heap_end (h\<lparr>used_mem := n\<rparr>) = heap_end h"
  by (simp_all add: heap_end_def)

lemma count_used_simps [simp]:
  "hdr (count_used n h) = hdr h" "lfree (count_used n h) = lfree h" "heap_end (count_used n h) = heap_end h"
  "mem_size_aligned (count_used n h) = mem_size_aligned h" "used_mem (count_used n h) = used_mem h + of_nat n"
  by (simp_all add: count_used_def heap_end_def Let_def)

text \<open>Blocks \<open>xs\<close> from offset \<open>a\<close> up to \<open>e\<close>, where \<open>p\<close> is the block before \<open>a\<close>.\<close>

fun seg :: "(nat \<Rightarrow> heap_mem) \<Rightarrow> nat \<Rightarrow> nat \<Rightarrow> nat list \<Rightarrow> nat \<Rightarrow> bool" where
  "seg m p a [] e \<longleftrightarrow> a = e"
| "seg m p a (x # xs) e \<longleftrightarrow> x = a \<and> prv (m a) = p \<and> magic (m a) = HEAP_MAGIC \<and> 4 dvd a \<and>
     a + SIZEOF_STRUCT_MEM < nxt (m a) \<and> seg m a (nxt (m a)) xs e"

lemma seg_append: "seg m p a (xs @ ys) e \<longleftrightarrow> (\<exists>b. seg m p a xs b \<and> seg m (last (p # xs)) b ys e)"
  by (induction xs arbitrary: p a) (auto simp: Cons_eq_append_conv split: if_splits)

lemma seg_cong: "(\<And>x. x \<in> set xs \<Longrightarrow> m' x = m x) \<Longrightarrow> seg m' p a xs e = seg m p a xs e"
  by (induction xs arbitrary: p a) auto

lemma seg_same_links:
  "seg m p a xs e \<Longrightarrow> (\<And>x. x \<in> set xs \<Longrightarrow> nxt (m' x) = nxt (m x) \<and> prv (m' x) = prv (m x) \<and> magic (m' x) = HEAP_MAGIC) \<Longrightarrow>
   seg m' p a xs e"
  by (induction xs arbitrary: p a) auto

lemma seg_bounds: "seg m p a xs e \<Longrightarrow> a \<le> e \<and> (\<forall>x \<in> set xs. a \<le> x \<and> x + SIZEOF_STRUCT_MEM < e)"
proof (induction xs arbitrary: p a)
  case (Cons x xs)
  then have "nxt (m a) \<le> e \<and> (\<forall>y \<in> set xs. nxt (m a) \<le> y \<and> y + SIZEOF_STRUCT_MEM < e)" by auto
  then show ?case using Cons.prems by auto
qed simp

lemma seg_sorted: "seg m p a xs e \<Longrightarrow> sorted_wrt (<) xs"
proof (induction xs arbitrary: p a)
  case (Cons x xs)
  then have "seg m a (nxt (m a)) xs e" "a + SIZEOF_STRUCT_MEM < nxt (m a)" "x = a" by auto
  then show ?case using seg_bounds [of m a "nxt (m a)" xs e] Cons.IH by (auto simp: mem_sizes)
qed simp

lemma seg_head:
  assumes "seg m p a zs e" "\<And>z zs'. zs = z # zs' \<Longrightarrow> m' z = (m z)\<lparr>prv := q\<rparr> \<and> (\<forall>y \<in> set zs'. m' y = m y)"
  shows "seg m' q a zs e"
proof (cases zs)
  case (Cons z zs')
  then have "seg m' z (nxt (m z)) zs' e = seg m z (nxt (m z)) zs' e"
    using assms(2) by (intro seg_cong) auto
  then show ?thesis using assms Cons by auto
qed (use assms(1) in simp)

text \<open>A block \<open>q\<close> is cut off the end of the block \<open>x\<close>, and two neighbours become one.\<close>

lemma seg_insert:
  assumes "seg m p a (ys @ x # zs) e"
    and "x + SIZEOF_STRUCT_MEM < q" "q + SIZEOF_STRUCT_MEM < nxt (m x)" "4 dvd q"
    and "nxt (m' x) = q" "prv (m' x) = prv (m x)" "magic (m' x) = HEAP_MAGIC"
    and "nxt (m' q) = nxt (m x)" "prv (m' q) = x" "magic (m' q) = HEAP_MAGIC"
    and "\<forall>y \<in> set ys. m' y = m y"
    and "\<And>z zs'. zs = z # zs' \<Longrightarrow> m' z = (m z)\<lparr>prv := q\<rparr> \<and> (\<forall>y \<in> set zs'. m' y = m y)"
  shows "seg m' p a (ys @ x # q # zs) e"
proof -
  obtain b where b: "seg m p a ys b" "seg m (last (p # ys)) b (x # zs) e"
    using assms(1) unfolding seg_append by blast
  have "seg m' p a ys b" using b(1) assms(11) seg_cong [of ys m' m] by blast
  moreover have "seg m x (nxt (m x)) zs e" using b(2) by auto
  then have "seg m' q (nxt (m x)) zs e" using assms(12) by (rule seg_head)
  ultimately show ?thesis unfolding seg_append using b(2) assms by auto
qed

lemma seg_merge:
  assumes "seg m p a (ys @ x # y # zs) e"
    and "nxt (m' x) = nxt (m y)" "prv (m' x) = prv (m x)" "magic (m' x) = magic (m x)"
    and "\<forall>y \<in> set ys. m' y = m y"
    and "\<And>z zs'. zs = z # zs' \<Longrightarrow> m' z = (m z)\<lparr>prv := x\<rparr> \<and> (\<forall>y \<in> set zs'. m' y = m y)"
  shows "seg m' p a (ys @ x # zs) e"
proof -
  obtain b where b: "seg m p a ys b" "seg m (last (p # ys)) b (x # y # zs) e"
    using assms(1) unfolding seg_append by blast
  have "seg m' p a ys b" using b(1) assms(5) seg_cong [of ys m' m] by blast
  moreover have "seg m y (nxt (m y)) zs e" using b(2) by auto
  then have "seg m' x (nxt (m y)) zs e" using assms(6) by (rule seg_head)
  ultimately show ?thesis unfolding seg_append using b(2) assms by auto
qed

text \<open>The blocks around one of them.\<close>

lemma seg_around:
  assumes "seg m p a (ys @ x # zs) e"
  shows "\<forall>y \<in> set ys. y < x" "\<forall>z \<in> set zs. x < z" "x < e" "\<forall>z \<in> set zs. z < e" "\<forall>y \<in> set ys. y < e"
    "zs = [] \<Longrightarrow> nxt (m x) = e" "zs \<noteq> [] \<Longrightarrow> nxt (m x) = hd zs" "x + SIZEOF_STRUCT_MEM < nxt (m x)" "nxt (m x) \<le> e"
    "prv (m x) = last (p # ys)" "magic (m x) = HEAP_MAGIC" "4 dvd x"
proof -
  have s: "sorted_wrt (<) (ys @ x # zs)" using seg_sorted [OF assms] .
  then show "\<forall>y \<in> set ys. y < x" "\<forall>z \<in> set zs. x < z" by (auto simp: sorted_wrt_append)
  have "y < e" if "y \<in> set (ys @ x # zs)" for y using seg_bounds [OF assms] that by (fastforce simp: mem_sizes)
  then show "x < e" "\<forall>z \<in> set zs. z < e" "\<forall>y \<in> set ys. y < e" by simp_all
  obtain b where b: "seg m (last (p # ys)) b (x # zs) e" using assms unfolding seg_append by blast
  then show "zs = [] \<Longrightarrow> nxt (m x) = e" "zs \<noteq> [] \<Longrightarrow> nxt (m x) = hd zs" "x + SIZEOF_STRUCT_MEM < nxt (m x)"
    "prv (m x) = last (p # ys)" "magic (m x) = HEAP_MAGIC" "4 dvd x"
    by (auto simp: neq_Nil_conv)
  show "nxt (m x) \<le> e" using b seg_bounds [of m x "nxt (m x)" zs e] by auto
qed

section \<open>Merging\<close>

abbreviation separated :: "heap \<Rightarrow> nat list \<Rightarrow> bool" where
  "separated h \<equiv> successively (\<lambda>x y. used (hdr h x) \<noteq> 0 \<or> used (hdr h y) \<noteq> 0)"

text \<open>Merging moves no allocated block: their headers keep \<open>used\<close> and \<open>nxt\<close>.\<close>

definition same_blocks :: "heap \<Rightarrow> heap \<Rightarrow> bool" where
  "same_blocks h h' \<longleftrightarrow> (\<forall>x. used (hdr h' x) = used (hdr h x)) \<and> (\<forall>x. used (hdr h x) \<noteq> 0 \<longrightarrow> nxt (hdr h' x) = nxt (hdr h x)) \<and>
     mem_size_aligned h' = mem_size_aligned h \<and> used_mem h' = used_mem h"

lemma plug_forward_ok:
  assumes seg: "seg (hdr h) 0 0 (ys @ mem # zs) (heap_end h)" and free: "used (hdr h mem) = 0"
  obtains zs' where "seg (hdr (plug_forward mem h)) 0 0 (ys @ mem # zs') (heap_end h)" "same_blocks h (plug_forward mem h)"
    "zs' = zs \<and> (zs = [] \<or> used (hdr h (hd zs)) \<noteq> 0) \<and> lfree (plug_forward mem h) = lfree h \<or>
     (\<exists>z. zs = z # zs' \<and> used (hdr h z) = 0 \<and> lfree (plug_forward mem h) = (if lfree h = z then mem else lfree h))"
proof (cases "zs = [] \<or> used (hdr h (hd zs)) \<noteq> 0")
  case True
  then have "plug_forward mem h = h"
    using seg_around(6,7) [OF seg] by (cases "zs = []") (auto simp: plug_forward_def)
  then show ?thesis using True seg by (intro that [of zs]) (auto simp: same_blocks_def)
next
  case False
  then obtain z zs' where zs: "zs = z # zs'" "used (hdr h z) = 0" by (cases zs) auto
  note a = seg_around [OF seg]
  have z: "nxt (hdr h mem) = z" "mem < z" "z < heap_end h" using a zs by auto
  let ?h = "plug_forward mem h" and ?n = "nxt (hdr h z)"
  have seg': "seg (hdr h) 0 0 ((ys @ [mem]) @ z # zs') (heap_end h)" using seg zs by simp
  note az = seg_around [OF seg']
  have zn: "z < ?n" "mem \<noteq> ?n" using az(8) z by (auto simp: mem_sizes)
  have eq: "hdr ?h = (hdr h)(mem := (hdr h mem)\<lparr>nxt := ?n\<rparr>, ?n := (hdr h ?n)\<lparr>prv := mem\<rparr>)"
    "lfree ?h = (if lfree h = z then mem else lfree h)" "mem_size_aligned ?h = mem_size_aligned h" "used_mem ?h = used_mem h"
    using z zs zn by (auto simp: plug_forward_def Let_def fun_upd_def)
  have "seg (hdr ?h) 0 0 (ys @ mem # zs') (heap_end h)"
  proof (rule seg_merge)
    show "seg (hdr h) 0 0 (ys @ mem # z # zs') (heap_end h)" using seg zs by simp
    show "\<forall>y \<in> set ys. hdr ?h y = hdr h y" using a(1) z zn unfolding eq by auto
    show "hdr ?h w = (hdr h w)\<lparr>prv := mem\<rparr> \<and> (\<forall>y \<in> set ws. hdr ?h y = hdr h y)" if "zs' = w # ws" for w ws
    proof -
      have "sorted_wrt (<) (ys @ mem # z # w # ws)" using seg_sorted [OF seg] zs that by simp
      moreover have "?n = w" using az(7) that by simp
      ultimately show ?thesis unfolding eq by (auto simp: sorted_wrt_append)
    qed
  qed (use zn in \<open>simp_all add: eq\<close>)
  moreover have "same_blocks h ?h" using free eq by (auto simp: same_blocks_def)
  ultimately show ?thesis using zs eq(2) by (intro that) auto
qed

lemma plug_backward_ok:
  assumes seg: "seg (hdr h) 0 0 (ys @ mem # zs) (heap_end h)" and free: "used (hdr h mem) = 0"
  obtains ys' m where "seg (hdr (plug_backward mem h)) 0 0 (ys' @ m # zs) (heap_end h)" "same_blocks h (plug_backward mem h)"
    "m = mem \<and> ys' = ys \<and> (ys = [] \<or> used (hdr h (last ys)) \<noteq> 0) \<and> lfree (plug_backward mem h) = lfree h \<or>
     ys = ys' @ [m] \<and> used (hdr h m) = 0 \<and> lfree (plug_backward mem h) = (if lfree h = mem then m else lfree h)"
proof -
  note a = seg_around [OF seg]
  have first: "ys = [] \<Longrightarrow> mem = 0" using seg by auto
  show ?thesis
  proof (cases "ys = [] \<or> used (hdr h (last ys)) \<noteq> 0")
    case True
    then have "plug_backward mem h = h"
      using a(10) first by (cases "ys = []") (auto simp: plug_backward_def)
    then show ?thesis using True seg by (intro that [of ys mem]) (auto simp: same_blocks_def)
  next
    case False
    then obtain ys' m where ys: "ys = ys' @ [m]" "used (hdr h m) = 0" by (cases ys rule: rev_cases) auto
    have m: "prv (hdr h mem) = m" "m < mem" using a(1,10) ys by auto
    let ?h = "plug_backward mem h" and ?n = "nxt (hdr h mem)"
    have mn: "mem < ?n" "m \<noteq> ?n" using a(8) m by (auto simp: mem_sizes)
    have eq: "hdr ?h = (hdr h)(m := (hdr h m)\<lparr>nxt := ?n\<rparr>, ?n := (hdr h ?n)\<lparr>prv := m\<rparr>)"
      "lfree ?h = (if lfree h = mem then m else lfree h)" "mem_size_aligned ?h = mem_size_aligned h" "used_mem ?h = used_mem h"
      using m ys mn by (auto simp: plug_backward_def Let_def fun_upd_def)
    have "seg (hdr ?h) 0 0 (ys' @ m # zs) (heap_end h)"
    proof (rule seg_merge)
      show "seg (hdr h) 0 0 (ys' @ m # mem # zs) (heap_end h)" using seg ys by simp
      have "\<forall>y \<in> set ys'. y < m" using seg_sorted [OF seg] ys by (auto simp: sorted_wrt_append)
      then show "\<forall>y \<in> set ys'. hdr ?h y = hdr h y" using m mn unfolding eq by auto
      show "hdr ?h w = (hdr h w)\<lparr>prv := m\<rparr> \<and> (\<forall>y \<in> set ws. hdr ?h y = hdr h y)" if "zs = w # ws" for w ws
      proof -
        have "sorted_wrt (<) (ys' @ m # mem # w # ws)" using seg_sorted [OF seg] ys that by simp
        moreover have "?n = w" using a(7) that by simp
        ultimately show ?thesis unfolding eq by (auto simp: sorted_wrt_append)
      qed
    qed (use mn in \<open>simp_all add: eq\<close>)
    moreover have "same_blocks h ?h" using ys(2) eq by (auto simp: same_blocks_def)
    ultimately show ?thesis using ys eq(2) by (intro that) auto
  qed
qed

lemma same_blocks_trans: "same_blocks h h' \<Longrightarrow> same_blocks h' h'' \<Longrightarrow> same_blocks h h''"
  by (simp add: same_blocks_def)

lemma same_blocks_separated: "same_blocks h h' \<Longrightarrow> separated h' xs = separated h xs"
  by (simp add: same_blocks_def)

definition live :: "heap \<Rightarrow> nat list \<Rightarrow> nat list" where
  "live h xs = filter (\<lambda>x. used (hdr h x) \<noteq> 0) xs"

lemma same_blocks_live: "same_blocks h h' \<Longrightarrow> live h' xs = live h xs"
  by (simp add: same_blocks_def live_def)

text \<open>
  After merging no two neighbours are free, the allocated blocks are the same, and \<open>lfree\<close> is a block still.
\<close>

lemma plug_holes_ok:
  assumes seg: "seg (hdr h) 0 0 (ys @ mem # zs) (heap_end h)" and free: "used (hdr h mem) = 0"
    and sep: "separated h ys" "separated h zs"
    and lf: "lfree h \<in> set (ys @ mem # zs) \<or> lfree h = heap_end h"
  obtains h' xs where "plug_holes mem h = Inr h'" "seg (hdr h') 0 0 xs (heap_end h)" "same_blocks h h'" "separated h' xs"
    "live h' xs = live h (ys @ mem # zs)" "set xs \<subseteq> set (ys @ mem # zs)" "lfree h' \<in> set xs \<or> lfree h' = heap_end h"
    "lfree h' = lfree h \<or> used (hdr h (lfree h')) = 0 \<and> lfree h' < lfree h"
proof -
  note a = seg_around [OF seg]
  let ?h1 = "plug_forward mem h"
  obtain zs' where f: "seg (hdr ?h1) 0 0 (ys @ mem # zs') (heap_end h)" "same_blocks h ?h1"
    "zs' = zs \<and> (zs = [] \<or> used (hdr h (hd zs)) \<noteq> 0) \<and> lfree ?h1 = lfree h \<or>
     (\<exists>z. zs = z # zs' \<and> used (hdr h z) = 0 \<and> lfree ?h1 = (if lfree h = z then mem else lfree h))"
    by (rule plug_forward_ok [OF seg free])
  have e1: "heap_end ?h1 = heap_end h" using f(2) by (simp add: same_blocks_def heap_end_def)
  have u1: "used (hdr ?h1 x) = used (hdr h x)" for x using f(2) by (simp add: same_blocks_def)
  let ?h2 = "plug_backward mem ?h1"
  obtain ys' m where b: "seg (hdr ?h2) 0 0 (ys' @ m # zs') (heap_end h)" "same_blocks ?h1 ?h2"
    "m = mem \<and> ys' = ys \<and> (ys = [] \<or> used (hdr ?h1 (last ys)) \<noteq> 0) \<and> lfree ?h2 = lfree ?h1 \<or>
     ys = ys' @ [m] \<and> used (hdr ?h1 m) = 0 \<and> lfree ?h2 = (if lfree ?h1 = mem then m else lfree ?h1)"
    using plug_backward_ok [of ?h1 ys mem zs'] f(1) free unfolding e1 u1 by metis
  have same: "same_blocks h ?h2" using same_blocks_trans f(2) b(2) by blast
  show ?thesis
  proof (rule that [of ?h2 "ys' @ m # zs'"])
    show "plug_holes mem h = Inr ?h2" using a(3) free by (simp add: plug_holes_def)
    show "seg (hdr ?h2) 0 0 (ys' @ m # zs') (heap_end h)" "same_blocks h ?h2" by (fact b(1), fact same)
    show "live ?h2 (ys' @ m # zs') = live h (ys @ mem # zs)"
      using f(3) b(3) free u1 unfolding same_blocks_live [OF same] by (auto simp: live_def)
    show "set (ys' @ m # zs') \<subseteq> set (ys @ mem # zs)" using f(3) b(3) by auto
    show "lfree ?h2 \<in> set (ys' @ m # zs') \<or> lfree ?h2 = heap_end h" using f(3) b(3) lf by (auto split: if_splits)
    show "lfree ?h2 = lfree h \<or> used (hdr h (lfree ?h2)) = 0 \<and> lfree ?h2 < lfree h"
      using f(3) b(3) free u1 a(1,2) by (auto split: if_splits)
    have "separated h (mem # zs')" using f(3) sep(2) by (auto simp: successively_Cons)
    then have "separated h (m # zs')" using free b(3) u1 by (auto simp: successively_Cons)
    moreover have "separated h (ys' @ [m])"
      using b(3) sep(1) u1 by (auto simp: successively_append_iff)
    ultimately show "separated ?h2 (ys' @ m # zs')"
      unfolding same_blocks_separated [OF same] by (auto simp: successively_append_iff)
  qed
qed

section \<open>The invariant\<close>

text \<open>
  The headers chain the whole heap into blocks, no two free neighbours are left unmerged, \<open>lfree\<close> is a free block
  or the end, and the statistics count the allocated blocks.
\<close>

definition live_bytes :: "heap \<Rightarrow> nat list \<Rightarrow> nat" where
  "live_bytes h xs = sum_list (map (\<lambda>x. nxt (hdr h x) - x) (live h xs))"

definition heap_inv :: "heap \<Rightarrow> nat list \<Rightarrow> bool" where
  "heap_inv h xs \<longleftrightarrow> seg (hdr h) 0 0 xs (heap_end h) \<and> used (hdr h (heap_end h)) \<noteq> 0 \<and> separated h xs \<and>
     (lfree h \<in> set xs \<and> used (hdr h (lfree h)) = 0 \<or> lfree h = heap_end h) \<and>
     used_mem h = of_nat (live_bytes h xs) \<and> heap_end h < 2 ^ 32 \<and> MIN_SIZE \<le> mem_size_aligned h"

text \<open>The search starts at the lowest free block.\<close>

definition lfree_lowest :: "heap \<Rightarrow> nat list \<Rightarrow> bool" where
  "lfree_lowest h xs \<longleftrightarrow> (\<forall>x \<in> set xs. used (hdr h x) = 0 \<longrightarrow> lfree h \<le> x)"

text \<open>The allocated blocks with their sizes, by the address of their data.\<close>

definition allocated :: "heap \<Rightarrow> nat list \<Rightarrow> (nat \<times> nat) set" where
  "allocated h xs = (\<lambda>x. (x + SIZEOF_STRUCT_MEM, nxt (hdr h x) - (x + SIZEOF_STRUCT_MEM))) ` set (live h xs)"

lemma same_blocks_bytes:
  assumes "same_blocks h h'" "live h' xs' = live h xs"
  shows "live_bytes h' xs' = live_bytes h xs"
proof -
  have "nxt (hdr h' x) = nxt (hdr h x)" if "x \<in> set (live h xs)" for x
    using that assms(1) by (simp add: live_def same_blocks_def)
  then show ?thesis unfolding live_bytes_def assms(2) by (intro arg_cong [where f = sum_list] map_cong) simp_all
qed

lemma same_blocks_allocated: "same_blocks h h' \<Longrightarrow> live h' xs' = live h xs \<Longrightarrow> allocated h' xs' = allocated h xs"
  by (auto simp: allocated_def same_blocks_def live_def intro!: image_cong)

lemma heap_init_inv:
  assumes "rt_system_heap_init b e = Some h" "e < 2 ^ 32" "b + 42 \<le> e"
  shows "heap_inv h [0] \<and> lfree_lowest h [0] \<and> allocated h [0] = {}"
proof -
  define b4 where "b4 = (b + 3) div 4 * 4"
  define e4 where "e4 = e div 4 * 4"
  have be: "b4 + 36 \<le> e4" "e4 \<le> e" unfolding b4_def e4_def using assms(3) by presburger+
  define m where "m = e4 - b4 - 2 * SIZEOF_STRUCT_MEM"
  have m: "12 \<le> m" "m + 12 < 2 ^ 32" "m + 12 \<noteq> 0" using be assms(2) by (simp_all add: m_def SIZEOF_STRUCT_MEM_def)
  have room: "e4 > 2 * SIZEOF_STRUCT_MEM \<and> e4 - 2 * SIZEOF_STRUCT_MEM \<ge> b4" using be by (simp add: SIZEOF_STRUCT_MEM_def)
  have h: "h = \<lparr>hdr = (\<lambda>_. \<lparr>magic = 0, used = 0, nxt = 0, prv = 0\<rparr>)
                 (0 := \<lparr>magic = HEAP_MAGIC, used = 0, nxt = m + 12, prv = 0\<rparr>,
                  m + 12 := \<lparr>magic = HEAP_MAGIC, used = 1, nxt = m + 12, prv = m + 12\<rparr>),
               lfree = 0, mem_size_aligned = m, used_mem = 0, max_mem = 0\<rparr>"
    using assms(1) room unfolding rt_system_heap_init_def Let_def b4_def [symmetric] e4_def [symmetric] m_def [symmetric]
    by (simp add: SIZEOF_STRUCT_MEM_def)
  have "heap_end h = m + 12" by (simp add: h mem_sizes)
  then show ?thesis using m
    by (simp add: h heap_inv_def lfree_lowest_def allocated_def live_def live_bytes_def SIZEOF_STRUCT_MEM_def MIN_SIZE_def)
qed

section \<open>Freeing\<close>

lemma live_append: "live h (xs @ ys) = live h xs @ live h ys"
  by (simp add: live_def)

lemma live_cong: "(\<And>x. x \<in> set xs \<Longrightarrow> used (hdr h' x) = used (hdr h x)) \<Longrightarrow> live h' xs = live h xs"
  by (simp add: live_def cong: filter_cong)

lemma separated_cong: "(\<And>x. x \<in> set xs \<Longrightarrow> used (hdr h' x) = used (hdr h x)) \<Longrightarrow> separated h' xs = separated h xs"
  by (rule successively_cong) auto

lemma live_bytes_append: "live_bytes h (xs @ ys) = live_bytes h xs + live_bytes h ys"
  by (simp add: live_bytes_def live_append)

lemma live_bytes_cong:
  assumes "\<And>x. x \<in> set xs \<Longrightarrow> used (hdr h' x) = used (hdr h x) \<and> nxt (hdr h' x) = nxt (hdr h x)"
  shows "live_bytes h' xs = live_bytes h xs"
proof -
  have live: "live h' xs = live h xs" using assms live_cong by blast
  have "nxt (hdr h' x) = nxt (hdr h x)" if "x \<in> set (live h xs)" for x
    using that assms by (auto simp: live_def)
  then show ?thesis unfolding live_bytes_def live by (intro arg_cong [where f = sum_list] map_cong) simp_all
qed

lemma live_Cons: "live h (x # xs) = (if used (hdr h x) \<noteq> 0 then x # live h xs else live h xs)"
  by (simp add: live_def)

lemma live_bytes_Cons:
  "live_bytes h (x # xs) = (if used (hdr h x) \<noteq> 0 then nxt (hdr h x) - x else 0) + live_bytes h xs"
  by (simp add: live_bytes_def live_Cons)

lemma other_blocks:
  assumes "\<And>x. x \<noteq> m \<Longrightarrow> hdr h' x = hdr h x" "m \<notin> set xs"
  shows "separated h' xs = separated h xs" "live h' xs = live h xs" "live_bytes h' xs = live_bytes h xs"
proof -
  have u: "x \<in> set xs \<Longrightarrow> hdr h' x = hdr h x" for x using assms by (cases "x = m") auto
  show "separated h' xs = separated h xs" using u by (intro separated_cong) simp
  show "live h' xs = live h xs" using u by (intro live_cong) simp
  show "live_bytes h' xs = live_bytes h xs" using u by (intro live_bytes_cong) simp
qed

lemma rt_free_ok:
  assumes inv: "heap_inv h xs" and al: "(r, n) \<in> allocated h xs"
  obtains h' xs' where "rt_free (Some r) h = Inr h'" "heap_inv h' xs'" "allocated h' xs' = allocated h xs - {(r, n)}"
    "lfree_lowest h xs \<Longrightarrow> lfree_lowest h' xs'" "mem_size_aligned h' = mem_size_aligned h"
proof -
  obtain mem where mem: "mem \<in> set xs" "used (hdr h mem) \<noteq> 0" "r = mem + SIZEOF_STRUCT_MEM"
    "n = nxt (hdr h mem) - r" using al by (auto simp: allocated_def live_def)
  obtain ys zs where xs: "xs = ys @ mem # zs" using mem(1) by (meson split_list)
  have seg: "seg (hdr h) 0 0 (ys @ mem # zs) (heap_end h)" using inv xs by (simp add: heap_inv_def)
  note a = seg_around [OF seg]
  have notin: "mem \<notin> set ys" "mem \<notin> set zs" "mem \<noteq> heap_end h" using a(1-3) by auto
  let ?h1 = "upd_hdr mem (\<lambda>b. b\<lparr>used := 0, magic := HEAP_MAGIC\<rparr>) h"
  let ?h2 = "if mem < lfree h then ?h1\<lparr>lfree := mem\<rparr> else ?h1"
  define h3 where "h3 = ?h2\<lparr>used_mem := used_mem ?h2 - of_nat (nxt (hdr ?h2 mem) - mem)\<rparr>"
  have r: "r mod 4 = 0" "r < heap_end h" "\<not> r < SIZEOF_STRUCT_MEM" "r - SIZEOF_STRUCT_MEM = mem"
    using mem(3) a(8,9,12) by (auto simp: SIZEOF_STRUCT_MEM_def)
  have call: "rt_free (Some r) h = plug_holes mem h3"
    using r mem(2) a(11) unfolding rt_free_def h3_def by (simp add: Let_def)
  have h3: "hdr h3 = (hdr h)(mem := (hdr h mem)\<lparr>used := 0, magic := HEAP_MAGIC\<rparr>)" "heap_end h3 = heap_end h"
    "mem_size_aligned h3 = mem_size_aligned h" "lfree h3 = (if mem < lfree h then mem else lfree h)"
    "used_mem h3 = used_mem h - of_nat (nxt (hdr h mem) - mem)"
    by (auto simp: h3_def fun_upd_def heap_end_def)
  have magic: "x \<in> set xs \<Longrightarrow> magic (hdr h x) = HEAP_MAGIC" for x
    using seg_around(11) inv unfolding heap_inv_def by (metis split_list)
  have seg3: "seg (hdr h3) 0 0 (ys @ mem # zs) (heap_end h3)"
    unfolding h3(2) by (rule seg_same_links [OF seg]) (use magic xs in \<open>auto simp: h3\<close>)
  have free3: "used (hdr h3 mem) = 0" by (simp add: h3)
  have other: "x \<noteq> mem \<Longrightarrow> hdr h3 x = hdr h x" for x by (simp add: h3)
  have sep: "separated h ys" "separated h zs" using inv xs by (auto simp: heap_inv_def successively_append_iff successively_Cons)
  have sep3: "separated h3 ys" "separated h3 zs" 
    using sep other_blocks(1) [OF other notin(1)] other_blocks(1) [OF other notin(2)] by simp_all
  have lf: "lfree h3 \<in> set (ys @ mem # zs) \<or> lfree h3 = heap_end h3"
    using inv xs by (auto simp: h3 heap_inv_def)
  obtain h' xs' where h': "plug_holes mem h3 = Inr h'" "seg (hdr h') 0 0 xs' (heap_end h3)" "same_blocks h3 h'" "separated h' xs'"
    "live h' xs' = live h3 (ys @ mem # zs)" "set xs' \<subseteq> set (ys @ mem # zs)" "lfree h' \<in> set xs' \<or> lfree h' = heap_end h3"
    "lfree h' = lfree h3 \<or> used (hdr h3 (lfree h')) = 0 \<and> lfree h' < lfree h3"
    by (rule plug_holes_ok [OF seg3 free3 sep3 lf])
  have e: "heap_end h' = heap_end h" "mem_size_aligned h' = mem_size_aligned h" "used_mem h' = used_mem h3"
    using h'(3) h3 by (simp_all add: same_blocks_def heap_end_def)
  have u: "used (hdr h' x) = used (hdr h3 x)" for x using h'(3) by (simp add: same_blocks_def)
  have live3: "live h3 (ys @ mem # zs) = live h ys @ live h zs"
    using other_blocks(2) [OF other notin(1)] other_blocks(2) [OF other notin(2)] free3 by (simp add: live_append live_Cons)
  have "live_bytes h3 (ys @ mem # zs) = live_bytes h ys + live_bytes h zs"
    using other_blocks(3) [OF other notin(1)] other_blocks(3) [OF other notin(2)] free3
    by (simp add: live_bytes_append live_bytes_Cons)
  moreover have "live_bytes h xs = live_bytes h ys + (nxt (hdr h mem) - mem) + live_bytes h zs"
    using mem(2) by (simp add: xs live_bytes_append live_bytes_Cons)
  ultimately have bytes: "used_mem h' = of_nat (live_bytes h' xs')"
    using inv e(3) h3(5) same_blocks_bytes [OF h'(3,5)] by (simp add: heap_inv_def)
  have "allocated h3 (ys @ mem # zs) = allocated h xs - {(r, n)}"
  proof -
    have nxt3: "nxt (hdr h3 x) = nxt (hdr h x)" for x by (simp add: h3)
    have "allocated h3 (ys @ mem # zs) = (\<lambda>x. (x + SIZEOF_STRUCT_MEM, nxt (hdr h x) - (x + SIZEOF_STRUCT_MEM))) ` (set (live h xs) - {mem})"
      unfolding allocated_def live3 nxt3 using notin xs mem(2) by (intro image_cong) (auto simp: live_def)
    also have "\<dots> = allocated h xs - {(r, n)}" using mem by (auto simp: allocated_def image_iff)
    finally show ?thesis .
  qed
  then have al': "allocated h' xs' = allocated h xs - {(r, n)}" using same_blocks_allocated [OF h'(3,5)] by simp
  show ?thesis
  proof (rule that [of h' xs'])
    show "rt_free (Some r) h = Inr h'" using call h'(1) by simp
    have "used (hdr h3 (heap_end h)) \<noteq> 0" using inv other notin(3) by (simp add: heap_inv_def)
    moreover have "lfree h' \<in> set xs' \<and> used (hdr h' (lfree h')) = 0 \<or> lfree h' = heap_end h'"
    proof (cases "lfree h' = lfree h3")
      case True
      have "used (hdr h3 (lfree h3)) = 0 \<or> lfree h3 = heap_end h"
        using inv free3 other by (cases "lfree h = mem") (auto simp: h3(4) heap_inv_def)
      then show ?thesis using True h'(7) u e(1) h3(2) by auto
    next
      case False
      then show ?thesis using h'(7,8) u e(1) h3(2) by auto
    qed
    ultimately show "heap_inv h' xs'" using inv h'(2,4) e bytes h3(2) unfolding heap_inv_def u by simp
    show "allocated h' xs' = allocated h xs - {(r, n)}" "mem_size_aligned h' = mem_size_aligned h" by (fact al', fact e(2))
    show "lfree_lowest h' xs'" if "lfree_lowest h xs"
      unfolding lfree_lowest_def
    proof (intro ballI impI)
      fix x assume x: "x \<in> set xs'" "used (hdr h' x) = 0"
      then have "x \<in> set xs" "used (hdr h3 x) = 0" using h'(6) xs u by auto
      then have "lfree h3 \<le> x" using that other [of x] h3(4) by (cases "x = mem") (auto simp: lfree_lowest_def)
      then show "lfree h' \<le> x" using h'(8) by auto
    qed
  qed
qed

section \<open>Allocating\<close>

text \<open>The search over the blocks from \<open>ptr\<close> on.\<close>

lemma heap_search_seg:
  "seg (hdr h) p a zs (heap_end h) \<Longrightarrow> limit \<le> heap_end h \<Longrightarrow>
   heap_search h n limit a = Some (find (\<lambda>x. fits h n x \<and> x < limit) zs)"
proof (induction zs arbitrary: p a)
  case Nil
  then show ?case by (subst heap_search.simps) simp
next
  case (Cons z zs)
  then have z: "z = a" "seg (hdr h) a (nxt (hdr h a)) zs (heap_end h)" "a + SIZEOF_STRUCT_MEM < nxt (hdr h a)" by auto
  show ?case
  proof (cases "a < limit")
    case True
    then show ?thesis using Cons.IH [OF z(2) Cons.prems(2)] z(1) by (subst heap_search.simps) simp
  next
    case False
    then have "\<not> x < limit" if "x \<in> set zs" for x using seg_bounds [OF z(2)] z(3) that by force
    then have "find (\<lambda>x. fits h n x \<and> x < limit) zs = None" by (auto simp: find_None_iff)
    then show ?thesis using False z(1) by (subst heap_search.simps) simp
  qed
qed

lemma heap_search_end: "\<not> a < limit \<Longrightarrow> heap_search h n limit a = Some None"
  by (subst heap_search.simps) simp

lemma lfree_advance_seg:
  "seg (hdr h) p a zs (heap_end h) \<Longrightarrow>
   lfree_advance h a = Some (case find (\<lambda>x. used (hdr h x) = 0) zs of None \<Rightarrow> heap_end h | Some x \<Rightarrow> x)"
proof (induction zs arbitrary: p a)
  case Nil
  then show ?case by (subst lfree_advance.simps) simp
next
  case (Cons z zs)
  then have z: "z = a" "seg (hdr h) a (nxt (hdr h a)) zs (heap_end h)" by auto
  have "a < heap_end h" using seg_bounds [OF Cons.prems] z(1) by auto
  then show ?case using Cons.IH [OF z(2)] z(1) by (subst lfree_advance.simps) auto
qed

text \<open>Taking a free block: it becomes allocated, whole or with a free rest behind it.\<close>

lemma heap_take_ok:
  assumes seg: "seg (hdr h) 0 0 (ys @ mem # zs) (heap_end h)" and free: "used (hdr h mem) = 0"
    and n: "fits h n mem" "4 dvd n" "0 < n" and sep: "separated h (ys @ mem # zs)"
    and end_used: "used (hdr h (heap_end h)) \<noteq> 0"
  obtains zs' where "seg (hdr (heap_take mem n h)) 0 0 (ys @ mem # zs') (heap_end h)"
    "heap_end (heap_take mem n h) = heap_end h" "mem_size_aligned (heap_take mem n h) = mem_size_aligned h"
    "lfree (heap_take mem n h) = lfree h" "used (hdr (heap_take mem n h) (heap_end h)) \<noteq> 0"
    "used (hdr (heap_take mem n h) mem) \<noteq> 0" "separated (heap_take mem n h) (ys @ mem # zs')"
    "n \<le> nxt (hdr (heap_take mem n h) mem) - (mem + SIZEOF_STRUCT_MEM)"
    "\<forall>x \<in> set ys \<union> set zs. used (hdr (heap_take mem n h) x) = used (hdr h x) \<and> nxt (hdr (heap_take mem n h) x) = nxt (hdr h x)"
    "live (heap_take mem n h) zs' = live h zs" "set zs \<subseteq> set zs'" "\<forall>x \<in> set zs'. mem < x"
    "used_mem (heap_take mem n h) = used_mem h + of_nat (nxt (hdr (heap_take mem n h) mem) - mem)"
proof -
  note a = seg_around [OF seg]
  let ?b = "hdr h mem" and ?t = "heap_take mem n h"
  have sorted: "sorted_wrt (<) (ys @ mem # zs)" by (rule seg_sorted [OF seg])
  show ?thesis
  proof (cases "n + SIZEOF_STRUCT_MEM + MIN_SIZE \<le> nxt ?b - (mem + SIZEOF_STRUCT_MEM)")
    case False
    have t: "hdr ?t = (hdr h)(mem := ?b\<lparr>used := 1, magic := HEAP_MAGIC\<rparr>)" "heap_end ?t = heap_end h"
      "mem_size_aligned ?t = mem_size_aligned h" "lfree ?t = lfree h" "used_mem ?t = used_mem h + of_nat (nxt ?b - mem)"
      using False by (auto simp: heap_take_def Let_def fun_upd_def fun_eq_iff)
    have other: "x \<noteq> mem \<Longrightarrow> hdr ?t x = hdr h x" for x by (simp add: t)
    have magic: "x \<in> set (ys @ mem # zs) \<Longrightarrow> magic (hdr h x) = HEAP_MAGIC" for x
      using seg_around(11) seg by (metis split_list)
    have notin: "mem \<notin> set ys" "mem \<notin> set zs" using a(1,2) by auto
    show ?thesis
    proof (rule that [of zs])
      show "seg (hdr ?t) 0 0 (ys @ mem # zs) (heap_end h)" by (rule seg_same_links [OF seg]) (use magic in \<open>auto simp: t\<close>)
      have "separated h ys" "separated h zs" using sep by (auto simp: successively_append_iff successively_Cons)
      then have "separated ?t ys" "separated ?t zs"
        using other_blocks(1) [OF other notin(1)] other_blocks(1) [OF other notin(2)] by simp_all
      then show "separated ?t (ys @ mem # zs)" by (auto simp: successively_append_iff successively_Cons t)
      show "live ?t zs = live h zs" by (rule other_blocks(2) [OF other notin(2)])
    qed (use t a n(1) notin end_used other in \<open>auto simp: fits_def\<close>)
  next
    case True
    define q where "q = mem + SIZEOF_STRUCT_MEM + n"
    have q: "mem + SIZEOF_STRUCT_MEM < q" "q + SIZEOF_STRUCT_MEM < nxt ?b" "4 dvd q" "mem < q" "q < heap_end h" "q \<noteq> nxt ?b"
      using True n(2,3) a(8,9,12) by (auto simp: q_def mem_sizes)
    let ?rest = "\<lparr>magic = HEAP_MAGIC, used = 0, nxt = nxt ?b, prv = mem\<rparr>"
    let ?m1 = "(hdr h)(q := ?rest, mem := ?b\<lparr>nxt := q, used := 1, magic := HEAP_MAGIC\<rparr>)"
    have t: "hdr ?t = (if nxt ?b \<noteq> heap_end h then ?m1(nxt ?b := (hdr h (nxt ?b))\<lparr>prv := q\<rparr>) else ?m1)"
      "heap_end ?t = heap_end h" "mem_size_aligned ?t = mem_size_aligned h" "lfree ?t = lfree h"
      "used_mem ?t = used_mem h + of_nat (q - mem)"
      using True q a(8) unfolding heap_take_def q_def [symmetric]
      by (auto simp: Let_def fun_upd_def fun_eq_iff q_def)
    have zs_out: "\<forall>x \<in> set zs. nxt ?b \<le> x"
      using a(7) sorted by (cases zs) (auto simp: sorted_wrt_append)
    have ys_out: "\<forall>x \<in> set ys. x < mem" by (fact a(1))
    have tm: "hdr ?t mem = ?b\<lparr>nxt := q, used := 1, magic := HEAP_MAGIC\<rparr>" "hdr ?t q = ?rest"
      using q a(8) by (auto simp: t)
    have tys: "\<forall>x \<in> set ys. hdr ?t x = hdr h x" using ys_out q a(8) by (auto simp: t)
    have tzs: "hdr ?t x = (if x = nxt ?b then (hdr h x)\<lparr>prv := q\<rparr> else hdr h x)" if "x \<in> set zs" for x
      using that zs_out q a(4) by (force simp: t)
    show ?thesis
    proof (rule that [of "q # zs"])
      show "seg (hdr ?t) 0 0 (ys @ mem # q # zs) (heap_end h)"
      proof (rule seg_insert [OF seg q(1,2,3)])
        show "hdr ?t z = (hdr h z)\<lparr>prv := q\<rparr> \<and> (\<forall>y \<in> set zs'. hdr ?t y = hdr h y)" if "zs = z # zs'" for z zs'
          using that tzs a(7) sorted by (auto simp: sorted_wrt_append)
      qed (use tm tys in simp_all)
      have used: "used (hdr ?t x) = used (hdr h x)" if "x \<in> set ys \<union> set zs" for x using tys tzs that by auto
      have "separated h ys" "separated h zs" "zs \<noteq> [] \<longrightarrow> used (hdr h (hd zs)) \<noteq> 0"
        using sep free by (auto simp: successively_append_iff successively_Cons)
      then have "separated ?t ys" "separated ?t zs" "zs \<noteq> [] \<longrightarrow> used (hdr ?t (hd zs)) \<noteq> 0"
        using separated_cong [of ys ?t h] separated_cong [of zs ?t h] used by auto
      then show "separated ?t (ys @ mem # q # zs)" using tm by (auto simp: successively_append_iff successively_Cons)
      show "live ?t (q # zs) = live h zs" using live_cong [of zs ?t h] used tm(2) by (simp add: live_def)
      show "\<forall>x \<in> set ys \<union> set zs. used (hdr ?t x) = used (hdr h x) \<and> nxt (hdr ?t x) = nxt (hdr h x)"
        using used tys tzs by auto
      show "used (hdr ?t (heap_end h)) \<noteq> 0" using end_used q(5) a(3) by (auto simp: t)
      show "\<forall>x \<in> set (q # zs). mem < x" using q(4) a(2) by auto
    qed (use t tm in \<open>auto simp: q_def\<close>)
  qed
qed

text \<open>Rounding up to a multiple of 4, with the wrap-around of the addition.\<close>

lemma unat_RT_ALIGN: "unat (RT_ALIGN s) = unat (s + 3) div 4 * 4"
proof -
  have m: "(3 :: u32) = mask 2" by (simp add: mask_eq_exp_minus_1)
  have "unat ((x :: u32) AND NOT (mask 2)) = push_bit 2 (drop_bit 2 (unat x))" for x
  proof (rule bit_eqI)
    fix n
    have "2 \<le> n \<Longrightarrow> Suc (Suc (n - 2)) = n" by simp
    then show "bit (unat ((x :: u32) AND NOT (mask 2))) n = bit (push_bit 2 (drop_bit 2 (unat x))) n"
      by (auto simp: bit_simps dest: bit_imp_le_length)
  qed
  then have "unat ((s + mask 2) AND NOT (mask 2)) = unat (s + mask 2) div 4 * 4"
    by (simp add: push_bit_eq_mult drop_bit_eq_div)
  then show ?thesis unfolding RT_ALIGN_def m .
qed

lemma RT_ALIGN_ge: "unat s < 2 ^ 32 - 3 \<Longrightarrow> unat s \<le> unat (RT_ALIGN s)"
proof -
  assume "unat s < 2 ^ 32 - 3"
  then have "unat (s + 3) = unat s + 3" by (simp add: unat_plus_simple [THEN iffD1] unat_word_ariths)
  then show ?thesis unfolding unat_RT_ALIGN by presburger
qed

lemma malloc_size_max: "unat (malloc_size s) = max 12 (unat (RT_ALIGN s))"
  by (auto simp: malloc_size_def MIN_SIZE_def word_less_nat_alt)

lemma malloc_size_ok:
  assumes "unat (RT_ALIGN s) \<le> m" "12 \<le> m"
  shows "unat (malloc_size s) \<le> m" "4 dvd unat (malloc_size s)" "0 < unat (malloc_size s)"
  unfolding malloc_size_max using assms by (simp_all add: unat_RT_ALIGN max_def)

lemma malloc_size_ge: "unat s < 2 ^ 32 - 3 \<Longrightarrow> unat s \<le> unat (malloc_size s)"
  using RT_ALIGN_ge [of s] by (simp add: malloc_size_max)

lemma unat_offset: "m < 2 ^ 32 \<Longrightarrow> unat (of_nat m :: u32) = m"
  by (simp add: unat_of_nat take_bit_nat_eq_self)

lemma find_split: "find P xs = Some x \<Longrightarrow> \<exists>us zs. xs = us @ x # zs \<and> P x \<and> (\<forall>u \<in> set us. \<not> P u)"
proof (induction xs)
  case (Cons y xs)
  show ?case
  proof (cases "P y")
    case True
    then show ?thesis using Cons.prems by (intro exI [of _ "[]"] exI [of _ xs]) auto
  next
    case False
    then obtain us zs where "xs = us @ x # zs" "P x" "\<forall>u \<in> set us. \<not> P u" using Cons by auto
    then show ?thesis using False by (intro exI [of _ "y # us"] exI [of _ zs]) auto
  qed
qed simp

text \<open>What the search of an allocation finds.\<close>

lemma malloc_search:
  assumes inv: "heap_inv h xs" and n: "unat (n :: u32) \<le> mem_size_aligned h" "0 < unat n"
  defines "limit \<equiv> unat (of_nat (mem_size_aligned h) - n)"
  shows "limit = mem_size_aligned h - unat n"
    "lfree h = heap_end h \<Longrightarrow> heap_search h (unat n) limit (lfree h) = Some None"
    "xs = us @ lfree h # zs \<Longrightarrow>
       heap_search h (unat n) limit (lfree h) = Some (find (\<lambda>x. fits h (unat n) x \<and> x < limit) (lfree h # zs))"
proof -
  have "mem_size_aligned h < 2 ^ 32" using inv by (simp add: heap_inv_def heap_end_def)
  note m = unat_offset [OF this]
  show limit: "limit = mem_size_aligned h - unat n"
    using n unfolding limit_def by (subst unat_sub) (auto simp: word_le_nat_alt m)
  show "heap_search h (unat n) limit (lfree h) = Some None" if "lfree h = heap_end h"
    by (rule heap_search_end) (simp add: that limit heap_end_def)
  show "heap_search h (unat n) limit (lfree h) = Some (find (\<lambda>x. fits h (unat n) x \<and> x < limit) (lfree h # zs))"
    if xs: "xs = us @ lfree h # zs"
  proof -
    have "seg (hdr h) 0 0 (us @ lfree h # zs) (heap_end h)" using inv xs by (simp add: heap_inv_def)
    then obtain p where "seg (hdr h) p (lfree h) (lfree h # zs) (heap_end h)" unfolding seg_append by auto
    then show ?thesis by (rule heap_search_seg) (simp add: limit heap_end_def)
  qed
qed

text \<open>The call after the search has found the block \<open>mem\<close>.\<close>

lemma malloc_finish:
  assumes inv: "heap_inv h xs" and xs: "xs = ys @ mem # zs" and fit: "fits h n mem" "4 dvd n" "0 < n"
    and lf: "lfree h = mem \<or> lfree h \<in> set ys"
  obtains h' xs' m where "malloc_place mem n h = Some (Inr (Some (mem + SIZEOF_STRUCT_MEM), h'))"
    "heap_inv h' xs'" "allocated h' xs' = insert (mem + SIZEOF_STRUCT_MEM, m) (allocated h xs)" "n \<le> m"
    "lfree_lowest h xs \<longrightarrow> lfree_lowest h' xs'" "mem_size_aligned h' = mem_size_aligned h"
proof -
  have seg: "seg (hdr h) 0 0 (ys @ mem # zs) (heap_end h)" using inv xs by (simp add: heap_inv_def)
  have free: "used (hdr h mem) = 0" using fit(1) by (simp add: fits_def)
  note a = seg_around [OF seg]
  let ?t = "heap_take mem n h"
  have "separated h (ys @ mem # zs)" "used (hdr h (heap_end h)) \<noteq> 0" using inv xs by (simp_all add: heap_inv_def)
  then obtain zs' where
    t: "seg (hdr ?t) 0 0 (ys @ mem # zs') (heap_end h)"
      "heap_end ?t = heap_end h" "mem_size_aligned ?t = mem_size_aligned h" "lfree ?t = lfree h"
      "used (hdr ?t (heap_end h)) \<noteq> 0" "used (hdr ?t mem) \<noteq> 0" "separated ?t (ys @ mem # zs')"
      "n \<le> nxt (hdr ?t mem) - (mem + SIZEOF_STRUCT_MEM)"
      "\<forall>x \<in> set ys \<union> set zs. used (hdr ?t x) = used (hdr h x) \<and> nxt (hdr ?t x) = nxt (hdr h x)"
      "live ?t zs' = live h zs" "set zs \<subseteq> set zs'" "\<forall>x \<in> set zs'. mem < x"
      "used_mem ?t = used_mem h + of_nat (nxt (hdr ?t mem) - mem)"
    by (rule heap_take_ok [OF seg free fit])
  note at = seg_around [OF t(1)]
  define p where "p = (if mem = lfree h then case find (\<lambda>x. used (hdr ?t x) = 0) zs' of None \<Rightarrow> heap_end h | Some x \<Rightarrow> x else lfree h)"
  have adv: "(if mem = lfree h then lfree_advance ?t (lfree h) else Some (lfree h)) = Some p"
  proof (cases "mem = lfree h")
    case True
    obtain q where "seg (hdr ?t) q mem (mem # zs') (heap_end ?t)" using t(1,2) unfolding seg_append by auto
    from lfree_advance_seg [OF this] show ?thesis by (simp add: p_def t(2,6) split: option.split flip: True)
  qed (simp add: p_def)
  have p: "p \<in> set (ys @ mem # zs') \<and> used (hdr ?t p) = 0 \<or> p = heap_end h"
  proof (cases "mem = lfree h")
    case True
    show ?thesis
    proof (cases "find (\<lambda>x. used (hdr ?t x) = 0) zs'")
      case (Some x)
      then show ?thesis using find_split [OF Some] True by (auto simp: p_def)
    qed (use True in \<open>simp add: p_def\<close>)
  next
    case False
    then have "lfree h \<in> set ys" using lf by auto
    moreover have "used (hdr h (lfree h)) = 0"
      using inv calculation a(5) by (auto simp: heap_inv_def)
    ultimately show ?thesis using False t(9) by (simp add: p_def)
  qed
  let ?h = "?t\<lparr>lfree := p\<rparr>"
  have hd: "hdr ?h = hdr ?t" "heap_end ?h = heap_end h" "mem_size_aligned ?h = mem_size_aligned h" "lfree ?h = p"
    using t(2,3) by (simp_all add: heap_end_def)
  have views: "live ?h ws = live ?t ws" "live_bytes ?h ws = live_bytes ?t ws" for ws
    by (simp_all add: live_def live_bytes_def)
  have ysv: "live ?t ys = live h ys" "live_bytes ?t ys = live_bytes h ys"
    using t(9) live_cong [of ys ?t h] live_bytes_cong [of ys ?t h] by auto
  have zsv: "live_bytes ?t zs' = live_bytes h zs"
  proof -
    have "map (\<lambda>x. nxt (hdr ?t x) - x) (live h zs) = map (\<lambda>x. nxt (hdr h x) - x) (live h zs)"
      using t(9) by (auto simp: live_def)
    then show ?thesis unfolding live_bytes_def t(10) by (rule arg_cong)
  qed
  have bytes: "used_mem ?h = of_nat (live_bytes ?h (ys @ mem # zs'))"
    using inv free t(6,13) ysv zsv
    by (simp add: heap_inv_def xs views live_bytes_append live_bytes_Cons add.commute add.left_commute)
  have inv': "heap_inv ?h (ys @ mem # zs')"
    using inv t(1,5,7) p bytes hd unfolding heap_inv_def by simp
  have al: "allocated ?h (ys @ mem # zs') = insert (mem + SIZEOF_STRUCT_MEM, nxt (hdr ?t mem) - (mem + SIZEOF_STRUCT_MEM)) (allocated h xs)"
  proof -
    have same: "nxt (hdr ?t x) = nxt (hdr h x)" if "x \<in> set (live h xs)" for x
      using that t(9) free by (auto simp: live_def xs)
    have "set (live ?h (ys @ mem # zs')) = insert mem (set (live h xs))"
      using ysv(1) t(6,10) free by (auto simp: views xs live_append live_Cons)
    then show ?thesis using same by (auto simp: allocated_def hd)
  qed
  have low: "lfree_lowest ?h (ys @ mem # zs')" if low: "lfree_lowest h xs"
    unfolding lfree_lowest_def hd
  proof (intro ballI impI)
    fix x assume x: "x \<in> set (ys @ mem # zs')" "used (hdr ?t x) = 0"
    then have x': "x \<in> set ys \<and> used (hdr h x) = 0 \<or> x \<in> set zs'" using t(6,9) by auto
    show "p \<le> x"
    proof (cases "mem = lfree h")
      case True
      have nys: "\<not> (x \<in> set ys \<and> used (hdr h x) = 0)" using low a(1) True by (fastforce simp: lfree_lowest_def xs)
      then have xz: "x \<in> set zs'" using x' by blast
      then obtain y where y: "find (\<lambda>x. used (hdr ?t x) = 0) zs' = Some y"
        using x(2) by (cases "find (\<lambda>x. used (hdr ?t x) = 0) zs'") (auto simp: find_None_iff)
      from find_split [OF y] obtain us vs where uv: "zs' = us @ y # vs" "\<forall>u \<in> set us. used (hdr ?t u) \<noteq> 0" by auto
      have "sorted_wrt (<) (us @ y # vs)" using seg_sorted [OF t(1)] uv(1) by (simp add: sorted_wrt_append)
      then show ?thesis using xz uv x(2) y True by (auto simp: p_def sorted_wrt_append)
    next
      case False
      then have "lfree h < mem" using lf a(1) by auto
      then show ?thesis using x' low t(12) False by (auto simp: p_def lfree_lowest_def xs)
    qed
  qed
  have le: "mem + SIZEOF_STRUCT_MEM + n \<le> heap_end h" using t(8) at(8,9) by linarith
  have "malloc_place mem n h = Some (Inr (Some (mem + SIZEOF_STRUCT_MEM), ?h))"
  proof -
    have "p = heap_end h \<or> used (hdr ?t p) = 0" using p by blast
    then have ok: "mem + SIZEOF_STRUCT_MEM + n \<le> heap_end ?h \<and> mem mod 4 = 0 \<and> (p = heap_end ?h \<or> used (hdr ?h p) = 0)"
      using le at(12) hd(1,2) by simp
    show ?thesis unfolding malloc_place_def Let_def t(4) adv by (simp only: option.case ok simp_thms if_True)
  qed
  from that [OF this inv' al t(8) impI [OF low] hd(3)] show ?thesis .
qed

section \<open>Results\<close>

text \<open>Allocated blocks lie inside the heap and do not overlap, headers included.\<close>

lemma seg_disjoint:
  assumes "seg m p a xs e" "x \<in> set xs" "y \<in> set xs" "x < y"
  shows "nxt (m x) \<le> y"
proof -
  obtain ys zs where xs: "xs = ys @ x # zs" using assms(2) by (meson split_list)
  note a = seg_around [OF assms(1) [unfolded xs]]
  have "y \<in> set zs" using assms(3,4) a(1) xs by force
  moreover have "sorted_wrt (<) zs" using seg_sorted [OF assms(1)] xs by (simp add: sorted_wrt_append)
  ultimately show ?thesis using a(7) by (cases zs) auto
qed

lemma allocated_block:
  assumes "heap_inv h xs" "(q, n) \<in> allocated h xs"
  obtains x where "x \<in> set xs" "used (hdr h x) \<noteq> 0" "q = x + SIZEOF_STRUCT_MEM" "q + n = nxt (hdr h x)"
    "nxt (hdr h x) \<le> heap_end h" "0 < n" "4 dvd q"
proof -
  obtain x where x: "x \<in> set xs" "used (hdr h x) \<noteq> 0" "q = x + SIZEOF_STRUCT_MEM"
    "n = nxt (hdr h x) - q" using assms(2) by (auto simp: allocated_def live_def)
  obtain ys zs where xs: "xs = ys @ x # zs" using x(1) by (meson split_list)
  have "seg (hdr h) 0 0 (ys @ x # zs) (heap_end h)" using assms(1) xs by (simp add: heap_inv_def)
  note a = seg_around [OF this]
  have "4 dvd q" using a(12) x(3) by (simp add: SIZEOF_STRUCT_MEM_def)
  then show ?thesis using that [of x] x a(8,9) by simp
qed

lemma allocated_disjoint:
  assumes inv: "heap_inv h xs" and b: "(q, n) \<in> allocated h xs" "(q', n') \<in> allocated h xs" "(q, n) \<noteq> (q', n')"
  shows "q + n + SIZEOF_STRUCT_MEM \<le> q' \<or> q' + n' + SIZEOF_STRUCT_MEM \<le> q"
proof -
  have seg: "seg (hdr h) 0 0 xs (heap_end h)" using inv by (simp add: heap_inv_def)
  obtain x where x: "x \<in> set xs" "q = x + SIZEOF_STRUCT_MEM" "q + n = nxt (hdr h x)"
    using allocated_block [OF inv b(1)] by metis
  obtain y where y: "y \<in> set xs" "q' = y + SIZEOF_STRUCT_MEM" "q' + n' = nxt (hdr h y)"
    using allocated_block [OF inv b(2)] by metis
  have "x \<noteq> y" using b(3) x(2,3) y(2,3) by auto
  then consider "x < y" | "y < x" by linarith
  then show ?thesis
    using seg_disjoint [OF seg x(1) y(1)] seg_disjoint [OF seg y(1) x(1)] x(2,3) y(2,3) by cases auto
qed

text \<open>The outcome of a request, with all blocks before and after.\<close>

lemma rt_malloc_ok:
  assumes inv: "heap_inv h xs"
  obtains (none) "rt_malloc s h = Some (Inr (None, h))"
  | (some) q h' xs' m where "rt_malloc s h = Some (Inr (Some q, h'))" "heap_inv h' xs'"
      "allocated h' xs' = insert (q, m) (allocated h xs)" "q \<notin> fst ` allocated h xs" "unat (malloc_size s) \<le> m"
      "lfree_lowest h xs \<Longrightarrow> lfree_lowest h' xs'" "mem_size_aligned h' = mem_size_aligned h"
      "s \<noteq> 0" "unat (RT_ALIGN s) \<le> mem_size_aligned h"
proof (cases "s = 0 \<or> mem_size_aligned h < unat (RT_ALIGN s) \<or> lfree h = heap_end h")
  case True
  show ?thesis
  proof (cases "s = 0 \<or> mem_size_aligned h < unat (RT_ALIGN s)")
    case True
    then show ?thesis by (intro none) (simp add: rt_malloc_def)
  next
    case False
    then have le: "unat (RT_ALIGN s) \<le> mem_size_aligned h" "12 \<le> mem_size_aligned h" and e: "lfree h = heap_end h"
      using True inv by (auto simp: heap_inv_def MIN_SIZE_def)
    note n = malloc_size_ok [OF le]
    show ?thesis using malloc_search(2) [OF inv n(1,3) e] False by (intro none) (simp add: rt_malloc_def Let_def)
  qed
next
  case False
  then have s: "\<not> (s = 0 \<or> mem_size_aligned h < unat (RT_ALIGN s))" and
    le: "unat (RT_ALIGN s) \<le> mem_size_aligned h" "12 \<le> mem_size_aligned h" and lf: "lfree h \<in> set xs"
    using inv by (auto simp: heap_inv_def MIN_SIZE_def)
  let ?n = "malloc_size s" and ?limit = "unat (of_nat (mem_size_aligned h) - malloc_size s)"
  note n = malloc_size_ok [OF le]
  obtain us zs where xs: "xs = us @ lfree h # zs" using lf by (meson split_list)
  note search = malloc_search(3) [OF inv n(1,3) xs]
  show ?thesis
  proof (cases "find (\<lambda>x. fits h (unat ?n) x \<and> x < ?limit) (lfree h # zs)")
    case None
    then show ?thesis using search s by (intro none) (simp add: rt_malloc_def Let_def)
  next
    case (Some mem)
    obtain vs ws where f: "lfree h # zs = vs @ mem # ws" "fits h (unat ?n) mem" using find_split [OF Some] by auto
    have xs': "xs = (us @ vs) @ mem # ws" using xs f(1) by simp
    have lf': "lfree h = mem \<or> lfree h \<in> set (us @ vs)" using f(1) by (cases vs) auto
    obtain h' xs' m where h': "malloc_place mem (unat ?n) h = Some (Inr (Some (mem + SIZEOF_STRUCT_MEM), h'))"
      "heap_inv h' xs'" "allocated h' xs' = insert (mem + SIZEOF_STRUCT_MEM, m) (allocated h xs)" "unat ?n \<le> m"
      "lfree_lowest h xs \<longrightarrow> lfree_lowest h' xs'" "mem_size_aligned h' = mem_size_aligned h"
      by (rule malloc_finish [OF inv xs' f(2) n(2,3) lf'])
    have "rt_malloc s h = Some (Inr (Some (mem + SIZEOF_STRUCT_MEM), h'))"
      using s search Some h'(1) by (simp add: rt_malloc_def Let_def)
    moreover have "mem + SIZEOF_STRUCT_MEM \<notin> fst ` allocated h xs"
      using f(2) by (auto simp: allocated_def live_def fits_def)
    ultimately show ?thesis using h' s le some [of "mem + SIZEOF_STRUCT_MEM" h' xs' m] by simp
  qed
qed

text \<open>Why an allocation fails when \<open>lfree\<close> is the lowest free block.\<close>

lemma rt_malloc_none:
  assumes inv: "heap_inv h xs" and low: "lfree_lowest h xs" and s: "s \<noteq> 0" "unat (RT_ALIGN s) \<le> mem_size_aligned h"
    and none: "rt_malloc s h = Some (Inr (None, h))"
    and x: "x \<in> set xs" "used (hdr h x) = 0" "unat (malloc_size s) \<le> nxt (hdr h x) - (x + SIZEOF_STRUCT_MEM)"
  shows "x + SIZEOF_STRUCT_MEM + unat (malloc_size s) = heap_end h"
proof -
  have le: "12 \<le> mem_size_aligned h" using inv by (simp add: heap_inv_def MIN_SIZE_def)
  let ?n = "malloc_size s" and ?limit = "unat (of_nat (mem_size_aligned h) - malloc_size s)"
  note n = malloc_size_ok [OF s(2) le]
  obtain ys zs where xs: "xs = ys @ x # zs" using x(1) by (meson split_list)
  have seg: "seg (hdr h) 0 0 (ys @ x # zs) (heap_end h)" using inv xs by (simp add: heap_inv_def)
  note a = seg_around [OF seg]
  have "lfree h \<le> x" using low x(1,2) by (simp add: lfree_lowest_def)
  then have lf: "lfree h \<in> set xs" using inv a(3) by (auto simp: heap_inv_def)
  obtain us vs where us: "xs = us @ lfree h # vs" using lf by (meson split_list)
  have "find (\<lambda>x. fits h (unat ?n) x \<and> x < ?limit) (lfree h # vs) = None"
  proof (rule ccontr)
    assume "find (\<lambda>x. fits h (unat ?n) x \<and> x < ?limit) (lfree h # vs) \<noteq> None"
    then obtain mem where m: "find (\<lambda>x. fits h (unat ?n) x \<and> x < ?limit) (lfree h # vs) = Some mem" by blast
    obtain vs' ws where f: "lfree h # vs = vs' @ mem # ws" "fits h (unat ?n) mem" using find_split [OF m] by auto
    have xs': "xs = (us @ vs') @ mem # ws" using us f(1) by simp
    have lf': "lfree h = mem \<or> lfree h \<in> set (us @ vs')" using f(1) by (cases vs') auto
    obtain h' where "malloc_place mem (unat ?n) h = Some (Inr (Some (mem + SIZEOF_STRUCT_MEM), h'))"
      by (rule malloc_finish [OF inv xs' f(2) n(2,3) lf'])
    then show False using malloc_search(3) [OF inv n(1,3) us] none s m by (simp add: rt_malloc_def Let_def)
  qed
  moreover have "x \<in> set (lfree h # vs)"
  proof -
    have "sorted_wrt (<) (us @ lfree h # vs)" using seg_sorted [of "hdr h" 0 0 xs "heap_end h"] inv us by (simp add: heap_inv_def)
    then show ?thesis using x(1) us \<open>lfree h \<le> x\<close> by (auto simp: sorted_wrt_append)
  qed
  ultimately have "\<not> x < ?limit" using x(2,3) unfolding find_None_iff by (auto simp: fits_def)
  then have "mem_size_aligned h - unat ?n \<le> x" using malloc_search(1) [OF inv n(1,3)] by simp
  then show ?thesis using x(3) a(8,9) n(1) by (simp add: heap_end_def)
qed

end
