(* ===== verification/Heap_Alloc.thy ===== *)
theory Heap_Alloc
  imports Heap_Mem
begin

unbundle bit_operations_syntax

text \<open>
  What the heap of the kernel promises its callers.  The interface \<open>allocator\<close> is stated once and the heap
  interprets it: any sequence of requests and releases succeeds, and the blocks in use never overlap.
\<close>

section \<open>Allocators\<close>

datatype 'r request = Alloc 'r | Release nat

text \<open>A client releases only blocks it owns; another release is no request at all.\<close>

fun run_requests :: "('r \<Rightarrow> 's \<Rightarrow> (nat option \<times> 's) option) \<Rightarrow> (nat \<Rightarrow> 's \<Rightarrow> 's option) \<Rightarrow> ('s \<Rightarrow> (nat \<times> nat) set) \<Rightarrow>
    'r request list \<Rightarrow> 's \<Rightarrow> 's option" where
  "run_requests alloc release owned [] s = Some s"
| "run_requests alloc release owned (Alloc r # cs) s =
     (case alloc r s of None \<Rightarrow> None | Some (_, s) \<Rightarrow> run_requests alloc release owned cs s)"
| "run_requests alloc release owned (Release p # cs) s =
     (if p \<in> fst ` owned s then
        (case release p s of None \<Rightarrow> None | Some s \<Rightarrow> run_requests alloc release owned cs s)
      else run_requests alloc release owned cs s)"

definition apart :: "(nat \<times> nat) set \<Rightarrow> bool" where
  "apart bs \<longleftrightarrow> (\<forall>(p, n) \<in> bs. \<forall>(q, m) \<in> bs. (p, n) \<noteq> (q, m) \<longrightarrow> p + n \<le> q \<or> q + m \<le> p)"

locale allocator =
  fixes alloc :: "'r \<Rightarrow> 's \<Rightarrow> (nat option \<times> 's) option" and release :: "nat \<Rightarrow> 's \<Rightarrow> 's option"
    and inv :: "'s \<Rightarrow> bool" and owned :: "'s \<Rightarrow> (nat \<times> nat) set" and serves :: "'r \<Rightarrow> nat \<Rightarrow> bool"
  assumes alloc_ok: "inv s \<Longrightarrow> \<exists>q s'. alloc r s = Some (q, s') \<and> inv s' \<and>
      (case q of None \<Rightarrow> owned s' = owned s
       | Some p \<Rightarrow> p \<notin> fst ` owned s \<and> (\<exists>n. serves r n \<and> owned s' = insert (p, n) (owned s)))"
    and release_ok: "inv s \<Longrightarrow> (p, n) \<in> owned s \<Longrightarrow> \<exists>s'. release p s = Some s' \<and> inv s' \<and> owned s' = owned s - {(p, n)}"
    and owned_apart: "inv s \<Longrightarrow> apart (owned s)"
begin

lemma run_ok:
  assumes "inv s"
  shows "\<exists>s'. run_requests alloc release owned cs s = Some s' \<and> inv s' \<and> apart (owned s')"
  using assms
proof (induction cs arbitrary: s)
  case Nil
  then show ?case using owned_apart by simp
next
  case (Cons c cs)
  show ?case
  proof (cases c)
    case (Alloc r)
    obtain q s1 where "alloc r s = Some (q, s1)" "inv s1" using alloc_ok [OF Cons.prems, of r] by blast
    then show ?thesis using Cons.IH [of s1] Alloc by simp
  next
    case (Release p)
    show ?thesis
    proof (cases "p \<in> fst ` owned s")
      case True
      then obtain n where "(p, n) \<in> owned s" by auto
      then obtain s1 where "release p s = Some s1" "inv s1" using release_ok [OF Cons.prems] by blast
      then show ?thesis using Cons.IH [of s1] Release True by simp
    qed (use Cons Release in simp)
  qed
qed

text \<open>What a block once granted keeps while its owner does not release it.\<close>

lemma kept:
  assumes "inv s" "(p, n) \<in> owned s" "Release p \<notin> set cs" "run_requests alloc release owned cs s = Some s'"
  shows "(p, n) \<in> owned s'"
  using assms
proof (induction cs arbitrary: s)
  case (Cons c cs)
  show ?case
  proof (cases c)
    case (Alloc r)
    obtain q s1 where a: "alloc r s = Some (q, s1)" "inv s1"
      "case q of None \<Rightarrow> owned s1 = owned s
       | Some p \<Rightarrow> p \<notin> fst ` owned s \<and> (\<exists>n. serves r n \<and> owned s1 = insert (p, n) (owned s))"
      using alloc_ok [OF Cons.prems(1), of r] by blast
    then have "(p, n) \<in> owned s1" using Cons.prems(2) by (auto split: option.splits)
    then show ?thesis using Cons.IH [of s1] a(1,2) Cons.prems(3,4) Alloc by simp
  next
    case (Release r)
    show ?thesis
    proof (cases "r \<in> fst ` owned s")
      case True
      then obtain m where m: "(r, m) \<in> owned s" by auto
      obtain s1 where "release r s = Some s1" "inv s1" "owned s1 = owned s - {(r, m)}"
        using release_ok [OF Cons.prems(1) m] by blast
      then show ?thesis using Cons.IH [of s1] Cons.prems Release True by auto
    qed (use Cons Release in auto)
  qed
qed simp

end

section \<open>The heap as an allocator\<close>

text \<open>The blocks of a heap, found by following the headers; there are fewer than bytes.\<close>

fun walk :: "(nat \<Rightarrow> heap_mem) \<Rightarrow> nat \<Rightarrow> nat \<Rightarrow> nat \<Rightarrow> nat list" where
  "walk m 0 a e = []"
| "walk m (Suc k) a e = (if a = e then [] else a # walk m k (nxt (m a)) e)"

definition blocks :: "heap \<Rightarrow> nat list" where
  "blocks h = walk (hdr h) (heap_end h) 0 (heap_end h)"

lemma walk_seg: "seg m p a xs e \<Longrightarrow> e \<le> a + k \<Longrightarrow> walk m k a e = xs"
proof (induction xs arbitrary: p a k)
  case Nil
  then show ?case by (cases k) auto
next
  case (Cons x xs)
  then have s: "x = a" "seg m a (nxt (m a)) xs e" "a < nxt (m a)" by auto
  have "a < e" using seg_bounds [OF Cons.prems(1)] s(1) by auto
  then show ?case using Cons.IH [OF s(2), of "k - 1"] Cons.prems(2) s(1,3) by (cases k) auto
qed

lemma blocks_unique: "heap_inv h xs \<Longrightarrow> blocks h = xs"
  unfolding blocks_def heap_inv_def by (rule walk_seg) auto

definition heap_ok :: "heap \<Rightarrow> bool" where
  "heap_ok h \<longleftrightarrow> heap_inv h (blocks h)"

definition owned :: "heap \<Rightarrow> (nat \<times> nat) set" where
  "owned h = allocated h (blocks h)"

definition lfree_ok :: "heap \<Rightarrow> bool" where
  "lfree_ok h \<longleftrightarrow> lfree_lowest h (blocks h)"

lemma heap_okI: "heap_inv h xs \<Longrightarrow> heap_ok h \<and> owned h = allocated h xs \<and> lfree_ok h = lfree_lowest h xs"
  using blocks_unique by (simp add: heap_ok_def owned_def lfree_ok_def)

text \<open>Requests of any size and releases, as total operations on the heaps that satisfy the invariant.\<close>

definition heap_alloc :: "u32 \<Rightarrow> heap \<Rightarrow> (nat option \<times> heap) option" where
  "heap_alloc s h = (case rt_malloc s h of Some (Inr r) \<Rightarrow> Some r | _ \<Rightarrow> None)"

definition heap_release :: "nat \<Rightarrow> heap \<Rightarrow> heap option" where
  "heap_release p h = (case rt_free (Some p) h of Inr h \<Rightarrow> Some h | Inl _ \<Rightarrow> None)"

definition heap_good :: "heap \<Rightarrow> bool" where
  "heap_good h \<longleftrightarrow> heap_ok h \<and> lfree_ok h"

lemma heap_alloc_ok:
  assumes "heap_good h"
  shows "\<exists>q h'. heap_alloc s h = Some (q, h') \<and> heap_good h' \<and>
      (case q of None \<Rightarrow> owned h' = owned h
       | Some p \<Rightarrow> p \<notin> fst ` owned h \<and> (\<exists>n. unat (malloc_size s) \<le> n \<and> owned h' = insert (p, n) (owned h)))"
proof -
  have inv: "heap_inv h (blocks h)" "lfree_lowest h (blocks h)" using assms by (simp_all add: heap_good_def heap_ok_def lfree_ok_def)
  show ?thesis
  proof (rule rt_malloc_ok [OF inv(1), of s])
    assume "rt_malloc s h = Some (Inr (None, h))"
    then show ?thesis using assms by (simp add: heap_alloc_def)
  next
    fix q h' xs' m
    assume a: "rt_malloc s h = Some (Inr (Some q, h'))" "heap_inv h' xs'" "allocated h' xs' = insert (q, m) (allocated h (blocks h))"
      "q \<notin> fst ` allocated h (blocks h)" "unat (malloc_size s) \<le> m" "lfree_lowest h (blocks h) \<Longrightarrow> lfree_lowest h' xs'"
    then have "heap_good h'" "owned h' = insert (q, m) (owned h)"
      using heap_okI [OF a(2)] inv(2) by (simp_all add: heap_good_def owned_def)
    then show ?thesis using a by (auto simp: heap_alloc_def owned_def)
  qed
qed

lemma heap_release_ok:
  assumes "heap_good h" "(p, n) \<in> owned h"
  shows "\<exists>h'. heap_release p h = Some h' \<and> heap_good h' \<and> owned h' = owned h - {(p, n)}"
proof -
  have inv: "heap_inv h (blocks h)" "lfree_lowest h (blocks h)" using assms by (simp_all add: heap_good_def heap_ok_def lfree_ok_def)
  have "(p, n) \<in> allocated h (blocks h)" using assms(2) by (simp add: owned_def)
  then show ?thesis
  proof (rule rt_free_ok [OF inv(1)])
    fix h' xs'
    assume f: "rt_free (Some p) h = Inr h'" "heap_inv h' xs'" "allocated h' xs' = allocated h (blocks h) - {(p, n)}"
      "lfree_lowest h (blocks h) \<Longrightarrow> lfree_lowest h' xs'"
    then show ?thesis using heap_okI [OF f(2)] inv(2) by (simp add: heap_good_def heap_release_def owned_def)
  qed
qed

lemma heap_owned_apart: "heap_good h \<Longrightarrow> apart (owned h)"
proof -
  assume "heap_good h"
  then have inv: "heap_inv h (blocks h)" by (simp add: heap_good_def heap_ok_def)
  show ?thesis unfolding apart_def owned_def using allocated_disjoint [OF inv] by fastforce
qed

interpretation small_mem: allocator heap_alloc heap_release heap_good owned "\<lambda>s n. unat (malloc_size s) \<le> n"
  by unfold_locales (rule heap_alloc_ok heap_release_ok heap_owned_apart; assumption)+

section \<open>Changing the size of a block\<close>

lemma realloc_shrink_ok:
  assumes inv: "heap_inv h xs" and mem: "mem \<in> set xs" "used (hdr h mem) \<noteq> 0"
    and sz: "sz = nxt (hdr h mem) - mem - SIZEOF_STRUCT_MEM" and n: "0 < n" "4 dvd n" "n + SIZEOF_STRUCT_MEM + MIN_SIZE < sz"
  obtains h' xs' where "realloc_shrink mem sz n h = Inr h'" "heap_inv h' xs'"
    "allocated h' xs' = insert (mem + SIZEOF_STRUCT_MEM, n) (allocated h xs - {(mem + SIZEOF_STRUCT_MEM, sz)})"
proof -
  obtain ys zs where xs: "xs = ys @ mem # zs" using mem(1) by (meson split_list)
  have seg: "seg (hdr h) 0 0 (ys @ mem # zs) (heap_end h)" using inv xs by (simp add: heap_inv_def)
  note a = seg_around [OF seg]
  let ?b = "hdr h mem"
  define q where "q = mem + SIZEOF_STRUCT_MEM + n"
  have nx: "nxt ?b = mem + SIZEOF_STRUCT_MEM + sz" using sz a(8) by simp
  have q: "mem + SIZEOF_STRUCT_MEM < q" "q + SIZEOF_STRUCT_MEM < nxt ?b" "4 dvd q" "mem < q" "q < heap_end h" "q \<noteq> nxt ?b"
    using n nx a(9,12) by (auto simp: q_def mem_sizes)
  let ?rest = "\<lparr>magic = HEAP_MAGIC, used = 0, nxt = nxt ?b, prv = mem\<rparr>"
  let ?m1 = "(hdr h)(q := ?rest, mem := ?b\<lparr>nxt := q\<rparr>)"
  define t where "t = (let h = h\<lparr>used_mem := used_mem h - of_nat (sz - n)\<rparr>;
      h = upd_hdr q (\<lambda>_. \<lparr>magic = HEAP_MAGIC, used = 0, nxt = nxt (hdr h mem), prv = mem\<rparr>) h;
      h = upd_hdr mem (\<lambda>b. b\<lparr>nxt := q\<rparr>) h
      in if nxt (hdr h q) \<noteq> heap_end h then upd_hdr (nxt (hdr h q)) (\<lambda>b. b\<lparr>prv := q\<rparr>) h else h)"
  have call: "realloc_shrink mem sz n h = plug_holes q t"
    by (simp add: realloc_shrink_def t_def q_def Let_def)
  have t: "hdr t = (if nxt ?b \<noteq> heap_end h then ?m1(nxt ?b := (hdr h (nxt ?b))\<lparr>prv := q\<rparr>) else ?m1)"
    "heap_end t = heap_end h" "mem_size_aligned t = mem_size_aligned h" "lfree t = lfree h"
    "used_mem t = used_mem h - of_nat (sz - n)"
    using q a(8) by (auto simp: t_def Let_def fun_upd_def fun_eq_iff)
  have sorted: "sorted_wrt (<) (ys @ mem # zs)" by (rule seg_sorted [OF seg])
  have zs_out: "\<forall>x \<in> set zs. nxt ?b \<le> x" using a(7) sorted by (cases zs) (auto simp: sorted_wrt_append)
  have tm: "hdr t mem = ?b\<lparr>nxt := q\<rparr>" "hdr t q = ?rest" using q a(8) by (auto simp: t)
  have tys: "\<forall>x \<in> set ys. hdr t x = hdr h x" using a(1) q a(8) by (auto simp: t)
  have tzs: "hdr t x = (if x = nxt ?b then (hdr h x)\<lparr>prv := q\<rparr> else hdr h x)" if "x \<in> set zs" for x
    using that zs_out q a(4) by (force simp: t)
  have same: "used (hdr t x) = used (hdr h x) \<and> nxt (hdr t x) = nxt (hdr h x)" if "x \<in> set ys \<union> set zs" for x
    using that tys tzs by auto
  have segt: "seg (hdr t) 0 0 ((ys @ [mem]) @ q # zs) (heap_end t)"
  proof -
    have "seg (hdr t) 0 0 (ys @ mem # q # zs) (heap_end h)"
    proof (rule seg_insert [OF seg q(1,2,3)])
      show "hdr t z = (hdr h z)\<lparr>prv := q\<rparr> \<and> (\<forall>y \<in> set zs'. hdr t y = hdr h y)" if "zs = z # zs'" for z zs'
        using that tzs a(7) sorted by (auto simp: sorted_wrt_append)
    qed (use tm tys a(11) in simp_all)
    then show ?thesis by (simp add: t(2))
  qed
  have free: "used (hdr t q) = 0" by (simp add: tm)
  have "separated h ys" "separated h zs" using inv by (auto simp: heap_inv_def xs successively_append_iff successively_Cons)
  then have "separated t ys" "separated t zs" using separated_cong [of ys t h] separated_cong [of zs t h] same by auto
  then have sep: "separated t (ys @ [mem])" "separated t zs" using mem(2) tm by (auto simp: successively_append_iff)
  have lf: "lfree t \<in> set ((ys @ [mem]) @ q # zs) \<or> lfree t = heap_end t" using inv xs by (auto simp: heap_inv_def t)
  obtain h' xs' where h': "plug_holes q t = Inr h'" "seg (hdr h') 0 0 xs' (heap_end t)" "same_blocks t h'" "separated h' xs'"
    "live h' xs' = live t ((ys @ [mem]) @ q # zs)" "set xs' \<subseteq> set ((ys @ [mem]) @ q # zs)"
    "lfree h' \<in> set xs' \<or> lfree h' = heap_end t" "lfree h' = lfree t \<or> used (hdr t (lfree h')) = 0 \<and> lfree h' < lfree t"
    by (rule plug_holes_ok [OF segt free sep lf])
  have e: "heap_end h' = heap_end h" "mem_size_aligned h' = mem_size_aligned h" "used_mem h' = used_mem t"
    using h'(3) t by (simp_all add: same_blocks_def heap_end_def)
  have u: "used (hdr h' x) = used (hdr t x)" for x using h'(3) by (simp add: same_blocks_def)
  have livet: "live t ((ys @ [mem]) @ q # zs) = live h ys @ mem # live h zs"
    using live_cong [of ys t h] live_cong [of zs t h] same tm mem(2) by (simp add: live_append live_Cons)
  have "live_bytes t ((ys @ [mem]) @ q # zs) + (sz - n) = live_bytes h xs"
    using live_bytes_cong [of ys t h] live_bytes_cong [of zs t h] same tm mem(2) n(3) nx
    by (simp add: xs live_bytes_append live_bytes_Cons q_def)
  then have "of_nat (live_bytes h xs) = of_nat (live_bytes t ((ys @ [mem]) @ q # zs)) + (of_nat (sz - n) :: u32)"
    by (metis of_nat_add)
  then have bytes: "used_mem h' = of_nat (live_bytes h' xs')"
    using inv e(3) t(5) same_blocks_bytes [OF h'(3,5)] by (simp add: heap_inv_def)
  have al: "allocated h' xs' = insert (mem + SIZEOF_STRUCT_MEM, n) (allocated h xs - {(mem + SIZEOF_STRUCT_MEM, sz)})"
  proof -
    have "allocated t ((ys @ [mem]) @ q # zs) =
        insert (mem + SIZEOF_STRUCT_MEM, n) ((\<lambda>x. (x + SIZEOF_STRUCT_MEM, nxt (hdr h x) - (x + SIZEOF_STRUCT_MEM))) ` set (live h ys @ live h zs))"
      unfolding allocated_def livet using same tm by (auto simp: live_def q_def image_iff)
    also have "\<dots> = insert (mem + SIZEOF_STRUCT_MEM, n) (allocated h xs - {(mem + SIZEOF_STRUCT_MEM, sz)})"
    proof -
      let ?g = "\<lambda>x. (x + SIZEOF_STRUCT_MEM, nxt (hdr h x) - (x + SIZEOF_STRUCT_MEM))" and ?S = "set (live h ys @ live h zs)"
      have "set (live h xs) = insert mem ?S" using mem(2) by (simp add: xs live_append live_Cons)
      moreover have "mem \<notin> ?S" using a(1,2) by (auto simp: live_def)
      moreover have "?g mem = (mem + SIZEOF_STRUCT_MEM, sz)" using nx by simp
      moreover have "?g x = ?g y \<longleftrightarrow> x = y" for x y by auto
      ultimately have "?g ` ?S = allocated h xs - {(mem + SIZEOF_STRUCT_MEM, sz)}" unfolding allocated_def by auto
      then show ?thesis by simp
    qed
    finally show ?thesis using same_blocks_allocated [OF h'(3,5)] by simp
  qed
  have "used (hdr t (heap_end h)) \<noteq> 0" using inv q a(3,8) by (auto simp: t heap_inv_def)
  moreover have "lfree h' \<in> set xs' \<and> used (hdr h' (lfree h')) = 0 \<or> lfree h' = heap_end h'"
  proof (cases "lfree h' = lfree t")
    case True
    have "used (hdr t (lfree t)) = 0 \<or> lfree t = heap_end h"
      using inv same mem(2) by (auto simp: t(4) heap_inv_def xs)
    then show ?thesis using True h'(7) u e(1) t(2) by auto
  next
    case False
    then show ?thesis using h'(7,8) u e(1) t(2) by auto
  qed
  ultimately have "heap_inv h' xs'" using inv h'(2,4) e bytes t(2) unfolding heap_inv_def u by simp
  then show ?thesis using that h'(1) call al by metis
qed

text \<open>
  Changing the size of an allocated block: the same place when the size is the same or much smaller, a new place
  otherwise; without memory nothing changes.
\<close>

lemma rt_realloc_ok:
  assumes ok: "heap_ok h" and own: "(p, n) \<in> owned h" and s: "s \<noteq> 0" "unat s < 2 ^ 32 - 3"
  shows "\<exists>q h'. rt_realloc (Some p) s h = Some (Inr (q, h')) \<and> heap_ok h' \<and>
     (case q of None \<Rightarrow> h' = h | Some r \<Rightarrow> \<exists>m. unat s \<le> m \<and> owned h' = insert (r, m) (owned h - {(p, n)}))"
proof -
  have inv: "heap_inv h (blocks h)" using ok by (simp add: heap_ok_def)
  have al: "(p, n) \<in> allocated h (blocks h)" using own by (simp add: owned_def)
  obtain mem where mem: "mem \<in> set (blocks h)" "used (hdr h mem) \<noteq> 0" "p = mem + SIZEOF_STRUCT_MEM"
    "p + n = nxt (hdr h mem)" "nxt (hdr h mem) \<le> heap_end h" "0 < n" by (rule allocated_block [OF inv al])
  let ?n = "RT_ALIGN s"
  have sn: "unat s \<le> unat ?n" by (rule RT_ALIGN_ge [OF s(2)])
  have pos: "0 < unat ?n" "?n \<noteq> 0" using sn s(1) by (auto simp: unat_gt_0 unat_eq_0)
  have p: "\<not> heap_end h \<le> p" "\<not> p < SIZEOF_STRUCT_MEM" "p - SIZEOF_STRUCT_MEM = mem"
    "nxt (hdr h mem) - mem - SIZEOF_STRUCT_MEM = n" using mem by auto
  consider (large) "mem_size_aligned h < unat ?n" | (same) "unat ?n \<le> mem_size_aligned h" "n = unat ?n"
    | (shrink) "unat ?n \<le> mem_size_aligned h" "n \<noteq> unat ?n" "unat ?n + SIZEOF_STRUCT_MEM + MIN_SIZE < n"
    | (move) "unat ?n \<le> mem_size_aligned h" "n \<noteq> unat ?n" "\<not> unat ?n + SIZEOF_STRUCT_MEM + MIN_SIZE < n" by linarith
  then show ?thesis
  proof cases
    case large
    then show ?thesis using ok by (simp add: rt_realloc_def Let_def)
  next
    case same
    then have "rt_realloc (Some p) s h = Some (Inr (Some p, h))" using p pos by (simp add: rt_realloc_def Let_def)
    moreover have "insert (p, n) (owned h - {(p, n)}) = owned h" using own by auto
    ultimately show ?thesis using ok sn same(2) by (intro exI [of _ "Some p"] exI [of _ h]) (auto intro!: exI [of _ n])
  next
    case shrink
    obtain h' xs' where h': "realloc_shrink mem n (unat ?n) h = Inr h'" "heap_inv h' xs'"
      "allocated h' xs' = insert (mem + SIZEOF_STRUCT_MEM, unat ?n) (allocated h (blocks h) - {(mem + SIZEOF_STRUCT_MEM, n)})"
      by (rule realloc_shrink_ok [OF inv mem(1,2) p(4) [symmetric] pos(1) _ shrink(3)]) (simp add: unat_RT_ALIGN)
    then have "rt_realloc (Some p) s h = Some (Inr (Some p, h'))"
      using p pos shrink by (simp add: rt_realloc_def Let_def)
    then show ?thesis using heap_okI [OF h'(2)] h'(3) sn mem(3)
      by (intro exI [of _ "Some p"] exI [of _ h']) (auto simp: owned_def intro!: exI [of _ "unat ?n"])
  next
    case move
    have call: "rt_realloc (Some p) s h = (case rt_malloc ?n h of None \<Rightarrow> None
      | Some res \<Rightarrow> Some (bind_res res (\<lambda>(q, h). case q of None \<Rightarrow> Inr (None, h)
          | Some _ \<Rightarrow> bind_res (rt_free (Some p) h) (\<lambda>h. Inr (q, h)))))"
      using p pos move by (simp add: rt_realloc_def Let_def)
    show ?thesis
    proof (rule rt_malloc_ok [OF inv, of ?n])
      assume "rt_malloc ?n h = Some (Inr (None, h))"
      then show ?thesis using ok by (simp add: call)
    next
      fix r h1 xs1 m
      assume a: "rt_malloc ?n h = Some (Inr (Some r, h1))" "heap_inv h1 xs1"
        "allocated h1 xs1 = insert (r, m) (allocated h (blocks h))" "r \<notin> fst ` allocated h (blocks h)"
        "unat (malloc_size ?n) \<le> m" "unat (RT_ALIGN ?n) \<le> mem_size_aligned h"
      have "(p, n) \<in> allocated h1 xs1" using a(3) al by simp
      then show ?thesis
      proof (rule rt_free_ok [OF a(2)])
        fix h2 xs2
        assume f: "rt_free (Some p) h1 = Inr h2" "heap_inv h2 xs2" "allocated h2 xs2 = allocated h1 xs1 - {(p, n)}"
        have "rt_realloc (Some p) s h = Some (Inr (Some r, h2))" using a(1) f(1) by (simp add: call)
        moreover have "(r, m) \<noteq> (p, n)" using a(4) al by force
        then have "owned h2 = insert (r, m) (owned h - {(p, n)})"
          using heap_okI [OF f(2)] f(3) a(3) by (auto simp: owned_def)
        moreover have "unat ?n < 2 ^ 32 - 3" using move(1) inv by (simp add: heap_inv_def heap_end_def SIZEOF_STRUCT_MEM_def)
        then have "unat s \<le> m" using malloc_size_ge [of ?n] sn a(5) by linarith
        ultimately show ?thesis using heap_okI [OF f(2)]
          by (intro exI [of _ "Some r"] exI [of _ h2]) auto
      qed
    qed
  qed
qed

section \<open>Results\<close>

text \<open>
  C35. Any sequence of allocations and releases on a fresh heap succeeds without a failed assertion, and at its end
  the blocks in use do not overlap.
\<close>

theorem heap_blocks_apart:
  assumes "rt_system_heap_init b e = Some h" "e < 2 ^ 32" "b + 42 \<le> e"
  shows "\<exists>h'. run_requests heap_alloc heap_release owned cs h = Some h' \<and> heap_ok h' \<and> apart (owned h')"
proof -
  have "heap_good h" using heap_init_inv [OF assms] heap_okI by (auto simp: heap_good_def)
  from small_mem.run_ok [OF this, of cs] show ?thesis by (auto simp: heap_good_def)
qed

text \<open>
  A block once allocated has at least the requested size, rounded up, and stays allocated and whole under any
  requests of others until its owner releases it.
\<close>

theorem heap_block_kept:
  assumes "heap_good h" "heap_alloc s h = Some (Some p, h1)" "Release p \<notin> set cs"
    "run_requests heap_alloc heap_release owned cs h1 = Some h2" "unat s < 2 ^ 32 - 3" "s \<noteq> 0"
  shows "\<exists>n. unat s \<le> n \<and> (p, n) \<in> owned h2"
proof -
  from heap_alloc_ok [OF assms(1), of s] assms(2) obtain n where n: "heap_good h1" "unat (malloc_size s) \<le> n"
    "owned h1 = insert (p, n) (owned h)" by auto
  have "unat s \<le> unat (malloc_size s)" by (rule malloc_size_ge [OF assms(5)])
  moreover have "(p, n) \<in> owned h2" using small_mem.kept [OF n(1) _ assms(3,4)] n(3) by simp
  ultimately show ?thesis using n(2) by (meson order_trans)
qed

text \<open>
  Freed memory is merged completely: when nothing is allocated, the heap is one free block again, and the
  statistics show no byte in use.
\<close>

theorem heap_no_fragments:
  assumes "heap_ok h" "owned h = {}"
  shows "blocks h = [0] \<and> used_mem h = 0"
proof -
  have inv: "heap_inv h (blocks h)" using assms(1) by (simp add: heap_ok_def)
  have live: "live h (blocks h) = []" using assms(2) by (simp add: owned_def allocated_def)
  have seg: "seg (hdr h) 0 0 (blocks h) (heap_end h)" "separated h (blocks h)" using inv by (simp_all add: heap_inv_def)
  have free: "x \<in> set (blocks h) \<Longrightarrow> used (hdr h x) = 0" for x using live by (auto simp: live_def filter_empty_conv)
  have "blocks h = [0]"
  proof (cases "blocks h")
    case Nil
    then show ?thesis using seg(1) inv by (simp add: heap_end_def SIZEOF_STRUCT_MEM_def)
  next
    case (Cons x xs)
    then have "x = 0" "xs = []" using seg free by (auto simp: neq_Nil_conv successively_Cons) (cases xs; auto)
    then show ?thesis using Cons by simp
  qed
  moreover have "used_mem h = 0" using inv live by (simp add: heap_inv_def live_bytes_def)
  ultimately show ?thesis by simp
qed

text \<open>
  An allocation of a size that fits into memory fails only when no free block has the room, with one
  exception: a block at the very end of the heap that fits exactly is never taken.
\<close>

theorem malloc_failure:
  assumes "heap_good h" "s \<noteq> 0" "unat (RT_ALIGN s) \<le> mem_size_aligned h" "heap_alloc s h = Some (None, h')"
  shows "h' = h \<and> (\<forall>x \<in> set (blocks h). used (hdr h x) = 0 \<longrightarrow>
     nxt (hdr h x) < x + SIZEOF_STRUCT_MEM + unat (malloc_size s) \<or>
     x + SIZEOF_STRUCT_MEM + unat (malloc_size s) = heap_end h)"
proof -
  have inv: "heap_inv h (blocks h)" "lfree_lowest h (blocks h)" using assms by (simp_all add: heap_good_def heap_ok_def lfree_ok_def)
  have none: "rt_malloc s h = Some (Inr (None, h))"
    using rt_malloc_ok [OF inv(1), of s] assms(4) by (force simp: heap_alloc_def)
  then have "h' = h" using assms(4) by (simp add: heap_alloc_def)
  moreover have "nxt (hdr h x) < x + SIZEOF_STRUCT_MEM + unat (malloc_size s) \<or> x + SIZEOF_STRUCT_MEM + unat (malloc_size s) = heap_end h"
    if "x \<in> set (blocks h)" "used (hdr h x) = 0" for x
    using rt_malloc_none [OF inv assms(2,3) none that] by linarith
  ultimately show ?thesis by blast
qed

text \<open>A heap of 200 bytes for examples.\<close>

definition demo_heap :: heap where
  "demo_heap = \<lparr>hdr = (\<lambda>_. \<lparr>magic = 0, used = 0, nxt = 0, prv = 0\<rparr>)
       (0 := \<lparr>magic = HEAP_MAGIC, used = 0, nxt = 212, prv = 0\<rparr>,
        212 := \<lparr>magic = HEAP_MAGIC, used = 1, nxt = 212, prv = 212\<rparr>),
     lfree = 0, mem_size_aligned = 200, used_mem = 0, max_mem = 0\<rparr>"

lemma demo_heap_init: "rt_system_heap_init 0x20000000 0x200000E0 = Some demo_heap"
  by (simp add: rt_system_heap_init_def demo_heap_def Let_def mem_sizes)

lemma malloc_size_wraps: "malloc_size 0xFFFFFFFE = 12"
  by (simp add: malloc_size_def RT_ALIGN_def MIN_SIZE_def)

lemmas heap_evals = rt_malloc_def malloc_place_def heap_take_def count_used_def heap_search.simps lfree_advance.simps
  fits_def RT_ALIGN_def malloc_size_def mem_sizes upd_hdr_def Let_def

text \<open>
  A request that wraps when it is rounded up to a multiple of four is answered with a block of twelve bytes.
\<close>

theorem malloc_wraps:
  "\<exists>h'. rt_malloc 0xFFFFFFFE demo_heap = Some (Inr (Some 12, h')) \<and> used (hdr h' 0) = 1 \<and> nxt (hdr h' 0) = 24"
  by (simp add: heap_evals demo_heap_def)

text \<open>A block at the end of the heap that fits exactly is refused.\<close>

lemma exact_fit_refused: "rt_malloc 200 demo_heap = Some (Inr (None, demo_heap)) \<and> fits demo_heap 200 0"
  by (simp add: heap_evals demo_heap_def)

text \<open>
  Shrinking a block can hide memory: the free rest is below the lowest free block, which \<^verbatim>\<open>rt_realloc\<close> does
  not move down, and a request it could serve fails.
\<close>

theorem realloc_hides_hole:
  "\<exists>h1 h2 h3. rt_malloc 100 demo_heap = Some (Inr (Some 12, h1)) \<and> rt_malloc 40 h1 = Some (Inr (Some 124, h2)) \<and>
     rt_realloc (Some 12) 20 h2 = Some (Inr (Some 12, h3)) \<and> nxt (hdr h3 0) = 32 \<and> fits h3 60 32 \<and>
     rt_malloc 60 h3 = Some (Inr (None, h3))"
  by (simp add: heap_evals rt_realloc_def realloc_shrink_def plug_holes_def plug_forward_def plug_backward_def demo_heap_def)

theorem heap_blocks_apart_witness:
  "\<exists>h'. run_requests heap_alloc heap_release owned [Alloc 100, Alloc 40, Release 12] demo_heap = Some h' \<and> heap_ok h'"
  using heap_blocks_apart [OF demo_heap_init, of "[Alloc 100, Alloc 40, Release 12]"] by auto

lemma demo_heap_good: "heap_good demo_heap" and demo_heap_free: "owned demo_heap = {}"
  using heap_init_inv [OF demo_heap_init] heap_okI by (auto simp: heap_good_def)

theorem heap_block_kept_witness:
  "\<exists>h1 h2 n. heap_alloc 100 demo_heap = Some (Some 12, h1) \<and> run_requests heap_alloc heap_release owned [Alloc 40] h1 = Some h2 \<and>
     100 \<le> n \<and> (12, n) \<in> owned h2"
proof -
  obtain h1 where h1: "heap_alloc 100 demo_heap = Some (Some 12, h1)"
    by (simp add: heap_alloc_def heap_evals demo_heap_def)
  obtain h2 where h2: "run_requests heap_alloc heap_release owned [Alloc 40] h1 = Some h2"
    using heap_alloc_ok [OF demo_heap_good, of 100] small_mem.run_ok [of h1 "[Alloc 40]"] h1 by auto
  have "\<exists>n. unat (100 :: u32) \<le> n \<and> (12, n) \<in> owned h2" by (rule heap_block_kept [OF demo_heap_good h1 _ h2]) simp_all
  then show ?thesis using h1 h2 by auto
qed

theorem heap_no_fragments_witness: "blocks demo_heap = [0] \<and> used_mem demo_heap = 0"
  using heap_no_fragments demo_heap_good demo_heap_free by (simp add: heap_good_def)

theorem malloc_failure_witness:
  "heap_alloc 200 demo_heap = Some (None, demo_heap) \<and> blocks demo_heap = [0] \<and>
     (212 < 0 + SIZEOF_STRUCT_MEM + unat (malloc_size 200) \<or> 0 + SIZEOF_STRUCT_MEM + unat (malloc_size 200) = heap_end demo_heap)"
proof -
  have "heap_alloc 200 demo_heap = Some (None, demo_heap)" using exact_fit_refused by (simp add: heap_alloc_def)
  moreover have "unat (RT_ALIGN 200) \<le> mem_size_aligned demo_heap" by (simp add: RT_ALIGN_def demo_heap_def)
  moreover have "blocks demo_heap = [0]" using blocks_unique [of demo_heap "[0]"] heap_init_inv [OF demo_heap_init] by simp
  moreover have "used (hdr demo_heap 0) = 0" "nxt (hdr demo_heap 0) = 212" by (simp_all add: demo_heap_def)
  ultimately show ?thesis using malloc_failure [OF demo_heap_good, of 200 demo_heap] by simp
qed

text \<open>
  C34. Every operation keeps the heap well formed (the headers chain it into disjoint blocks, no two free neighbours,
  the statistics right) and fails no assertion: requests of any size, releasing and resizing an owned block.
\<close>

theorem heap_well_formed:
  assumes "heap_ok h" "(p, n) \<in> owned h" "t \<noteq> 0" "unat t < 2 ^ 32 - 3"
  shows "(\<exists>q h'. rt_malloc s h = Some (Inr (q, h')) \<and> heap_ok h') \<and> (\<exists>h'. rt_free (Some p) h = Inr h' \<and> heap_ok h') \<and>
     (\<exists>q h'. rt_realloc (Some p) t h = Some (Inr (q, h')) \<and> heap_ok h')"
proof (intro conjI)
  have inv: "heap_inv h (blocks h)" using assms(1) by (simp add: heap_ok_def)
  show "\<exists>q h'. rt_malloc s h = Some (Inr (q, h')) \<and> heap_ok h'"
    by (rule rt_malloc_ok [OF inv, of s]) (use assms(1) heap_okI in auto)
  have "(p, n) \<in> allocated h (blocks h)" using assms(2) by (simp add: owned_def)
  then show "\<exists>h'. rt_free (Some p) h = Inr h' \<and> heap_ok h'"
    by (rule rt_free_ok [OF inv]) (use heap_okI in auto)
  show "\<exists>q h'. rt_realloc (Some p) t h = Some (Inr (q, h')) \<and> heap_ok h'"
    using rt_realloc_ok [OF assms] by blast
qed

theorem heap_well_formed_witness:
  "\<exists>h p h'. heap_alloc 100 demo_heap = Some (Some p, h) \<and> rt_free (Some p) h = Inr h' \<and> heap_ok h'"
proof -
  obtain h where h: "heap_alloc 100 demo_heap = Some (Some 12, h)"
    by (simp add: heap_alloc_def heap_evals demo_heap_def)
  then obtain n where "heap_good h" "(12, n) \<in> owned h" using heap_alloc_ok [OF demo_heap_good, of 100] by auto
  then show ?thesis using heap_well_formed [of h 12 n 20] h by (auto simp: heap_good_def)
qed

end
