(* ===== verification/Soft_Timer.thy ===== *)
theory Soft_Timer
  imports Thread_Timer
begin

text \<open>
  The soft timers of \<^verbatim>\<open>timer.c\<close>: their check, the thread that runs it, and the set-up of the timers.  The check
  holds a pointer to the node it will look at next while a time-out function runs with the scheduler unlocked;
  \<open>cb n\<close> is what happens then, the function of timer \<open>n\<close> and everything that runs before the timer thread
  goes on.  A node that is in no list is linked to itself.
\<close>

section \<open>The code\<close>

text \<open>\<^verbatim>\<open>n->next\<close> for the node of a timer; \<open>None\<close> is the list head.\<close>

definition next_node :: "timer_id list \<Rightarrow> timer_id \<Rightarrow> timer_id option" where
  "next_node ts tm =
     (case dropWhile (\<lambda>t. t \<noteq> tm) ts of
        [] \<Rightarrow> Some tm
      | _ # rest \<Rightarrow> (case rest of [] \<Rightarrow> None | t # _ \<Rightarrow> Some t))"

text \<open>The body of the loop for an expired timer.\<close>

definition soft_timer_expire :: "(nat \<Rightarrow> kernel \<Rightarrow> kernel res) \<Rightarrow> timer_id \<Rightarrow> kernel \<Rightarrow> kernel res" where
  "soft_timer_expire cb tm k =
     bind_res (rt_exit_critical (timer_remove tm k)) (\<lambda>k.
     bind_res (call_timeout cb tm k) (\<lambda>k.
       let k = rt_enter_critical k;
           again = (periodic (timers k tm) \<and> activated (timers k tm));
           k = upd_timer tm (\<lambda>x. x\<lparr>activated := False\<rparr>) k
       in if again then rt_timer_start tm k else Inr k))"

partial_function (option) soft_timer_loop ::
  "(nat \<Rightarrow> kernel \<Rightarrow> kernel res) \<Rightarrow> timer_id option \<Rightarrow> tick \<Rightarrow> kernel \<Rightarrow> kernel res option" where
  "soft_timer_loop cb n current_tick k =
     (case n of
        None \<Rightarrow> Some (rt_exit_critical k)
      | Some tm \<Rightarrow>
          if current_tick - timeout_tick (timers k tm) < RT_TICK_MAX div 2 then
            (case soft_timer_expire cb tm k of
               Inl e \<Rightarrow> Some (Inl e)
             | Inr k' \<Rightarrow> soft_timer_loop cb (next_node (rt_soft_timer_list k) tm) (rt_tick k') k')
          else Some (rt_exit_critical k))"

definition rt_soft_timer_check :: "(nat \<Rightarrow> kernel \<Rightarrow> kernel res) \<Rightarrow> kernel \<Rightarrow> kernel res option" where
  "rt_soft_timer_check cb k =
     (let k' = rt_enter_critical k in
      soft_timer_loop cb (case rt_soft_timer_list k' of [] \<Rightarrow> None | tm # _ \<Rightarrow> Some tm) (rt_tick k) k')"

text \<open>
  One turn of \<^verbatim>\<open>rt_thread_timer_entry\<close> is \<open>timer_thread_wait\<close>, up to the switch, and \<open>timer_thread_resumed\<close>,
  which follows at once when the thread does not wait.
\<close>

datatype timer_wait = Suspends | Sleeps | Goes_on

definition timer_thread_wait :: "kernel \<Rightarrow> (timer_wait \<times> kernel) res" where
  "timer_thread_wait k =
     (let next_timeout = rt_timer_list_next_timeout (rt_soft_timer_list k) k in
      if next_timeout = RT_TICK_MAX then
        (case rt_current_thread k of
           None \<Rightarrow> Inl NullDeref
         | Some t \<Rightarrow> bind_res (rt_thread_suspend t k) (\<lambda>(_, k). bind_res (rt_schedule k) (\<lambda>k. Inr (Suspends, k))))
      else if next_timeout - rt_tick k < RT_TICK_MAX div 2 then
        bind_res (rt_thread_sleep (next_timeout - rt_tick k) k) (\<lambda>k. Inr (Sleeps, k))
      else Inr (Goes_on, k))"

definition timer_thread_resumed :: "(nat \<Rightarrow> kernel \<Rightarrow> kernel res) \<Rightarrow> timer_wait \<Rightarrow> kernel \<Rightarrow> kernel res option" where
  "timer_thread_resumed cb w k =
     rt_soft_timer_check cb (if w = Sleeps then rt_thread_sleep_resumed (timer_thread k) k else k)"

definition rt_system_timer_init :: "kernel \<Rightarrow> kernel" where
  "rt_system_timer_init k = k\<lparr>rt_timer_list := []\<rparr>"

definition rt_system_timer_thread_init :: "kernel \<Rightarrow> kernel res" where
  "rt_system_timer_thread_init k =
     bind_res (thread_init (timer_thread k) 4 10 True (k\<lparr>rt_soft_timer_list := []\<rparr>)) (rt_thread_startup (timer_thread k))"

section \<open>One step\<close>

lemma critical_simps [simp]:
  "timer_part (rt_enter_critical k) = timer_part k" "threads (rt_enter_critical k) = threads k"
  "rt_scheduler_lock_nest (rt_enter_critical k) = rt_scheduler_lock_nest k + 1"
  "rt_current_thread (rt_enter_critical k) = rt_current_thread k"
  by (simp_all add: rt_enter_critical_def timer_part_def)

lemma kernel_inv_lock: "kernel_inv (k\<lparr>rt_scheduler_lock_nest := n\<rparr>) = kernel_inv k"
  by (simp add: kernel_inv_def timers_inv_def sched_inv_def group_ok_def lists_ok_def threads_ok_def)

lemma enter_inv [simp]: "kernel_inv (rt_enter_critical k) = kernel_inv k"
  by (simp add: rt_enter_critical_def kernel_inv_lock)

lemma exit_critical_ok:
  assumes "kernel_inv k" "rt_scheduler_lock_nest k = 1"
  obtains k' where "rt_exit_critical k = Inr k'" "kernel_inv k'" "timer_part k' = timer_part k"
    "rt_scheduler_lock_nest k' = 0" "\<And>t. error (threads k' t) = error (threads k t)"
proof -
  let ?k = "k\<lparr>rt_scheduler_lock_nest := 0\<rparr>"
  have "kernel_inv ?k" using assms(1) by (simp add: kernel_inv_lock)
  then obtain k' where k': "rt_schedule ?k = Inr k'" "kernel_inv k'" by (rule schedule_inv)
  have "rt_exit_critical k = Inr k'"
    using assms k'(1) by (cases "rt_current_thread k") (auto simp: rt_exit_critical_def Let_def kernel_inv_def)
  moreover have "timer_part k' = timer_part k" using schedule_timer_part [OF k'(1)] by (simp add: timer_part_def)
  ultimately show ?thesis
    using that k' schedule_lock [OF k'(1)] schedule_error [OF k'(1)] by simp
qed

text \<open>The error codes of the threads are the part of the state a time-out function is seen to change.\<close>

definition errors :: "kernel \<Rightarrow> tid \<Rightarrow> int" where
  "errors k = (\<lambda>t. error (threads k t))"

text \<open>Time-out functions that return, leave timers and time alone, and change the error codes as \<open>step\<close> says.\<close>

definition keeps_timers :: "(nat \<Rightarrow> (tid \<Rightarrow> int) \<Rightarrow> tid \<Rightarrow> int) \<Rightarrow> (nat \<Rightarrow> kernel \<Rightarrow> kernel res) \<Rightarrow> bool" where
  "keeps_timers step cb \<longleftrightarrow> (\<forall>n k. kernel_inv k \<and> rt_scheduler_lock_nest k = 0 \<longrightarrow>
     (\<exists>k'. cb n k = Inr k' \<and> kernel_inv k' \<and> timer_part k' = timer_part k \<and> rt_scheduler_lock_nest k' = 0 \<and>
        errors k' = step n (errors k)))"

lemma keeps_timersD:
  assumes "keeps_timers step cb" "kernel_inv k" "rt_scheduler_lock_nest k = 0"
  obtains k' where "cb n k = Inr k'" "kernel_inv k'" "timer_part k' = timer_part k" "rt_scheduler_lock_nest k' = 0"
    "errors k' = step n (errors k)"
  using assms unfolding keeps_timers_def by blast

lemma soft_expire_ok:
  assumes "keeps_timers step cb" "kernel_inv k" "rt_scheduler_lock_nest k = 1" "\<not> periodic (timers k (Timer n))"
  obtains k' where "soft_timer_expire cb (Timer n) k = Inr k'" "kernel_inv k'" "rt_scheduler_lock_nest k' = 1"
    "rt_soft_timer_list k' = removeAll (Timer n) (rt_soft_timer_list k)" "rt_tick k' = rt_tick k"
    "timers k' = (timers k)(Timer n := (timers k (Timer n))\<lparr>activated := False\<rparr>)" "errors k' = step n (errors k)"
proof -
  let ?k0 = "timer_remove (Timer n) k"
  have "kernel_inv ?k0" "rt_scheduler_lock_nest ?k0 = 1" using assms(2,3) by (simp_all add: kernel_inv_timer_remove)
  then obtain k1 where k1: "rt_exit_critical ?k0 = Inr k1" "kernel_inv k1" "timer_part k1 = timer_part ?k0"
    "rt_scheduler_lock_nest k1 = 0" "\<And>t. error (threads k1 t) = error (threads ?k0 t)"
    using exit_critical_ok [of ?k0] by metis
  obtain k2 where k2: "cb n k1 = Inr k2" "kernel_inv k2" "timer_part k2 = timer_part k1" "rt_scheduler_lock_nest k2 = 0"
    "errors k2 = step n (errors k1)"
    using keeps_timersD [OF assms(1) k1(2,4)] by blast
  let ?k3 = "upd_timer (Timer n) (\<lambda>x. x\<lparr>activated := False\<rparr>) (rt_enter_critical k2)"
  note parts = timer_part_eqs [OF k2(3)] timer_part_eqs [OF k1(3)]
    timer_part_eqs [OF critical_simps(1) [of k2]]
  have "errors k1 = errors k" using k1(5) by (simp add: errors_def)
  moreover have "kernel_inv ?k3" using k2(2) by (intro kernel_inv_upd_timer) (simp_all add: parts)
  moreover have "soft_timer_expire cb (Timer n) k = Inr ?k3"
    using k1(1) k2(1) assms(4) parts by (simp add: soft_timer_expire_def call_timeout_def Let_def)
  ultimately show ?thesis using that [of ?k3] k2(4,5) parts by (simp add: errors_def)
qed

definition due :: "kernel \<Rightarrow> nat \<Rightarrow> bool" where
  "due k n \<longleftrightarrow> rt_tick k - timeout_tick (timers k (Timer n)) < RT_TICK_MAX div 2"

lemma soft_timer_loop_ok:
  "keeps_timers step cb \<Longrightarrow> kernel_inv k \<Longrightarrow> rt_scheduler_lock_nest k = 1 \<Longrightarrow> rt_soft_timer_list k = map Timer ns \<Longrightarrow> distinct ns \<Longrightarrow>
     (\<forall>n \<in> set ns. \<not> periodic (timers k (Timer n))) \<Longrightarrow>
     \<exists>k'. soft_timer_loop cb (case map Timer ns of [] \<Rightarrow> None | tm # _ \<Rightarrow> Some tm) (rt_tick k) k = Some (Inr k') \<and> kernel_inv k' \<and>
       rt_scheduler_lock_nest k' = 0 \<and> rt_soft_timer_list k' = map Timer (dropWhile (due k) ns) \<and>
       errors k' = fold step (takeWhile (due k) ns) (errors k) \<and>
       (\<forall>n \<in> set (takeWhile (due k) ns). \<not> activated (timers k' (Timer n))) \<and> rt_tick k' = rt_tick k \<and>
       (\<forall>tm. tm \<notin> Timer ` set ns \<longrightarrow> timers k' tm = timers k tm)"
proof (induction ns arbitrary: k)
  case Nil
  obtain k' where k': "rt_exit_critical k = Inr k'" "kernel_inv k'" "timer_part k' = timer_part k"
    "rt_scheduler_lock_nest k' = 0" "\<And>t. error (threads k' t) = error (threads k t)"
    using exit_critical_ok [OF Nil.prems(2,3)] by metis
  then show ?case using Nil.prems(4) timer_part_eqs [OF k'(3)]
    by (subst soft_timer_loop.simps) (simp add: errors_def)
next
  case (Cons n ns)
  show ?case
  proof (cases "due k n")
    case False
    obtain k' where k': "rt_exit_critical k = Inr k'" "kernel_inv k'" "timer_part k' = timer_part k"
      "rt_scheduler_lock_nest k' = 0" "\<And>t. error (threads k' t) = error (threads k t)"
      using exit_critical_ok [OF Cons.prems(2,3)] by metis
    then show ?thesis using Cons.prems(4) False timer_part_eqs [OF k'(3)]
      by (subst soft_timer_loop.simps) (simp add: errors_def due_def)
  next
    case True
    have "\<not> periodic (timers k (Timer n))" using Cons.prems(6) by simp
    then obtain k1 where k1: "soft_timer_expire cb (Timer n) k = Inr k1" "kernel_inv k1" "rt_scheduler_lock_nest k1 = 1"
      "rt_soft_timer_list k1 = removeAll (Timer n) (rt_soft_timer_list k)" "rt_tick k1 = rt_tick k"
      "timers k1 = (timers k)(Timer n := (timers k (Timer n))\<lparr>activated := False\<rparr>)" "errors k1 = step n (errors k)"
      using soft_expire_ok [OF Cons.prems(1,2,3)] by metis
    have n: "Timer n \<notin> set (map Timer ns)" using Cons.prems(5) by auto
    have l: "rt_soft_timer_list k1 = map Timer ns" using k1(4) Cons.prems(4) n by simp
    have d: "due k1 = due k" unfolding due_def k1(5,6) by (auto simp: fun_eq_iff)
    have pr: "distinct ns" "\<forall>m \<in> set ns. \<not> periodic (timers k1 (Timer m))" using k1(6) Cons.prems(5,6) by auto
    obtain k' where k': "soft_timer_loop cb (case map Timer ns of [] \<Rightarrow> None | tm # _ \<Rightarrow> Some tm) (rt_tick k1) k1 = Some (Inr k')"
      "kernel_inv k'" "rt_scheduler_lock_nest k' = 0" "rt_soft_timer_list k' = map Timer (dropWhile (due k1) ns)"
      "errors k' = fold step (takeWhile (due k1) ns) (errors k1)"
      "\<forall>n \<in> set (takeWhile (due k1) ns). \<not> activated (timers k' (Timer n))" "rt_tick k' = rt_tick k1"
      "\<forall>tm. tm \<notin> Timer ` set ns \<longrightarrow> timers k' tm = timers k1 tm"
      using Cons.IH [OF Cons.prems(1) k1(2,3) l pr] by blast
    have "soft_timer_loop cb (Some (Timer n)) (rt_tick k) k = Some (Inr k')"
    proof -
      have "next_node (Timer n # map Timer ns) (Timer n) = (case map Timer ns of [] \<Rightarrow> None | t # _ \<Rightarrow> Some t)"
        by (simp add: next_node_def)
      then show ?thesis using True k1(1) k'(1) Cons.prems(4) by (subst soft_timer_loop.simps) (simp add: due_def)
    qed
    moreover have "\<not> activated (timers k' (Timer n))" using k'(8) k1(6) n by auto
    ultimately show ?thesis using k' k1 True d n by (auto simp: d)
  qed
qed

text \<open>
  The list of soft timers in the order of their time-outs, within half the range of the tick counter from \<open>base\<close> on.
  Starting a timer for less than that keeps it so.
\<close>

definition soft_ordered :: "tick \<Rightarrow> kernel \<Rightarrow> bool" where
  "soft_ordered base k \<longleftrightarrow> unat (rt_tick k - base) < 2 ^ 31 - 1 \<and>
     (\<forall>tm \<in> set (rt_soft_timer_list k). due_in (timeout_of k) base tm < 2 ^ 31 - 1) \<and>
     sorted (map (due_in (timeout_of k) base) (rt_soft_timer_list k))"

lemma soft_insert_ordered:
  assumes "soft_ordered base k" "due_in (timeout_of k) base tm < 2 ^ 31 - 1"
  shows "soft_ordered base (k\<lparr>rt_soft_timer_list :=
    timer_insert (timeout_of k) (timeout_of k tm) tm (rt_soft_timer_list k)\<rparr>)"
proof -
  have "timeout_of (k\<lparr>rt_soft_timer_list := ts\<rparr>) = timeout_of k" for ts by (simp add: timeout_of_def fun_eq_iff)
  then show ?thesis
    using timer_insert_sorted [of "rt_soft_timer_list k" "timeout_of k" base tm] assms by (auto simp: soft_ordered_def)
qed

lemma due_front:
  assumes "soft_ordered base k" "rt_soft_timer_list k = map Timer ns"
  shows "takeWhile (due k) ns = filter (due k) ns" "dropWhile (due k) ns = filter (\<lambda>n. \<not> due k n) ns"
proof -
  let ?d = "\<lambda>n. due_in (timeout_of k) base (Timer n)" and ?c = "unat (rt_tick k - base)"
  have eq: "due k n \<longleftrightarrow> ?d n \<le> ?c" if "n \<in> set ns" for n
    using tick_later [of "rt_tick k" base "timeout_of k (Timer n)"] assms that
    by (simp add: due_def soft_ordered_def due_in_def timeout_of_def)
  have sorted: "sorted (map ?d ns)" using assms by (simp add: soft_ordered_def comp_def)
  have "takeWhile (due k) ns = takeWhile (\<lambda>n. ?d n \<le> ?c) ns" by (rule takeWhile_cong) (simp_all add: eq)
  also have "\<dots> = filter (\<lambda>n. ?d n \<le> ?c) ns" by (rule takeWhile_sorted [OF sorted])
  also have "\<dots> = filter (due k) ns" by (rule filter_cong) (simp_all add: eq)
  finally show "takeWhile (due k) ns = filter (due k) ns" .
  have "dropWhile (due k) ns = dropWhile (\<lambda>n. ?d n \<le> ?c) ns" by (rule dropWhile_cong) (simp_all add: eq)
  also have "\<dots> = filter (\<lambda>n. ?c < ?d n) ns" by (rule dropWhile_sorted [OF sorted])
  also have "\<dots> = filter (\<lambda>n. \<not> due k n) ns" by (rule filter_cong) (simp_all add: eq not_le)
  finally show "dropWhile (due k) ns = filter (\<lambda>n. \<not> due k n) ns" .
qed

text \<open>
  C33. The check of the soft timers returns: it calls the time-out functions of exactly the due timers, wherever they are
  in the list, each once and in the order of their time-outs, takes them out of the list and leaves them
  inactive, keeps the others and the kernel's invariant.  Stated for one-shot timers in the order of their
  time-outs, which starting a timer keeps, and for time-out functions during which neither they nor what else runs
  changes the tick or the timers.
\<close>

theorem soft_timers_fire:
  assumes "keeps_timers step cb" "kernel_inv k" "rt_scheduler_lock_nest k = 0" "rt_soft_timer_list k = map Timer ns" "distinct ns"
    and "soft_ordered base k" "\<forall>n \<in> set ns. \<not> periodic (timers k (Timer n))"
  shows "\<exists>k'. rt_soft_timer_check cb k = Some (Inr k') \<and> kernel_inv k' \<and>
    rt_soft_timer_list k' = map Timer (filter (\<lambda>n. \<not> due k n) ns) \<and>
    errors k' = fold step (filter (due k) ns) (errors k) \<and>
    (\<forall>n \<in> set ns. due k n \<longrightarrow> \<not> activated (timers k' (Timer n)))"
proof -
  let ?k = "rt_enter_critical k"
  note p = timer_part_eqs [OF critical_simps(1) [of k]]
  note front = due_front [OF assms(6,4)]
  have d: "due ?k = due k" "errors ?k = errors k" by (simp_all add: due_def p fun_eq_iff errors_def)
  obtain k' where "soft_timer_loop cb (case map Timer ns of [] \<Rightarrow> None | tm # _ \<Rightarrow> Some tm) (rt_tick k) ?k = Some (Inr k')"
    "kernel_inv k'" "rt_soft_timer_list k' = map Timer (filter (\<lambda>n. \<not> due k n) ns)"
    "errors k' = fold step (filter (due k) ns) (errors k)"
    "\<forall>n \<in> set (filter (due k) ns). \<not> activated (timers k' (Timer n))"
    using soft_timer_loop_ok [OF assms(1), of ?k ns] assms(2-5,7) unfolding d p front by auto
  then show ?thesis using assms(4) by (simp add: rt_soft_timer_check_def Let_def p)
qed

section \<open>Stopping the next timer\<close>

lemma keeps_timers_skip: "keeps_timers (\<lambda>_ e. e) (\<lambda>_ k. Inr k)"
  by (simp add: keeps_timers_def)

lemma expire_again:
  assumes "\<And>k. cb b k = Inr k" "kernel_inv k" "rt_scheduler_lock_nest k = 1" "\<not> periodic (timers k (Timer b))"
    "Timer b \<notin> set (rt_soft_timer_list k)"
  obtains k' where "soft_timer_expire cb (Timer b) k = Inr k'" "kernel_inv k'" "rt_scheduler_lock_nest k' = 1"
    "Timer b \<notin> set (rt_soft_timer_list k')" "\<not> periodic (timers k' (Timer b))" "due k' b = due k b"
proof -
  have "soft_timer_expire cb (Timer b) k = soft_timer_expire (\<lambda>_ k. Inr k) (Timer b) k"
    using assms(1) by (simp add: soft_timer_expire_def call_timeout_def)
  moreover obtain k' where "soft_timer_expire (\<lambda>_ k. Inr k) (Timer b) k = Inr k'" "kernel_inv k'" "rt_scheduler_lock_nest k' = 1"
    "rt_soft_timer_list k' = removeAll (Timer b) (rt_soft_timer_list k)" "rt_tick k' = rt_tick k"
    "timers k' = (timers k)(Timer b := (timers k (Timer b))\<lparr>activated := False\<rparr>)"
    using soft_expire_ok [OF keeps_timers_skip assms(2,3,4)] by metis
  ultimately show ?thesis using that [of k'] assms(4) by (simp add: due_def)
qed

lemma next_node_unlinked: "tm \<notin> set ts \<Longrightarrow> next_node ts tm = Some tm"
proof -
  assume "tm \<notin> set ts"
  then have "dropWhile (\<lambda>t. t \<noteq> tm) ts = []" by (auto simp: dropWhile_eq_Nil_conv)
  then show ?thesis unfolding next_node_def by (simp only: list.case)
qed


text \<open>The loop looks at the unlinked node of \<open>b\<close>, which is due.\<close>

definition stuck :: "nat \<Rightarrow> timer_id option \<Rightarrow> tick \<Rightarrow> kernel \<Rightarrow> bool" where
  "stuck b n t k \<longleftrightarrow> n = Some (Timer b) \<and> t = rt_tick k \<and> kernel_inv k \<and> rt_scheduler_lock_nest k = 1 \<and>
     \<not> periodic (timers k (Timer b)) \<and> Timer b \<notin> set (rt_soft_timer_list k) \<and> due k b"

lemma soft_timer_loop_stuck:
  assumes "soft_timer_loop cb n t k = Some y"
  shows "(\<forall>k. cb b k = Inr k) \<longrightarrow> \<not> stuck b n t k"
proof (rule soft_timer_loop.raw_induct [where P = "\<lambda>cb n t k y. (\<forall>k. cb b k = Inr k) \<longrightarrow> \<not> stuck b n t k", OF _ assms], intro impI notI)
  fix f cb n t k y
  assume ih: "\<And>cb n t k y. f cb n t k = Some y \<Longrightarrow> (\<forall>k. cb b k = Inr k) \<longrightarrow> \<not> stuck b n t k"
    and y: "(case n of None \<Rightarrow> Some (rt_exit_critical k)
      | Some tm \<Rightarrow> if t - timeout_tick (timers k tm) < RT_TICK_MAX div 2
          then case soft_timer_expire cb tm k of Inl e \<Rightarrow> Some (Inl e)
               | Inr k' \<Rightarrow> f cb (next_node (rt_soft_timer_list k) tm) (rt_tick k') k'
          else Some (rt_exit_critical k)) = Some y"
    and cb: "\<forall>k. cb b k = Inr k" and s: "stuck b n t k"
  obtain k' where k': "soft_timer_expire cb (Timer b) k = Inr k'" "kernel_inv k'" "rt_scheduler_lock_nest k' = 1"
    "Timer b \<notin> set (rt_soft_timer_list k')" "\<not> periodic (timers k' (Timer b))" "due k' b = due k b"
    by (rule expire_again [of cb b k]) (use s cb in \<open>auto simp: stuck_def\<close>)
  then have "f cb (Some (Timer b)) (rt_tick k') k' = Some y"
    using y s next_node_unlinked [of "Timer b" "rt_soft_timer_list k"] by (simp add: stuck_def due_def)
  moreover have "stuck b (Some (Timer b)) (rt_tick k') k'" using k' s by (simp add: stuck_def)
  ultimately show False using ih cb by blast
qed

text \<open>
  When the time-out function of a soft timer stops the timer behind it, which is due as well, the check never
  returns: it goes on with the node it remembered, calls the function of the stopped timer, and again and again,
  because an unlinked node is its own successor.  The timer thread has a higher priority than the threads of the application.
\<close>

theorem soft_timer_stops_next:
  assumes "kernel_inv k" "rt_scheduler_lock_nest k = 0" "rt_soft_timer_list k = Timer a # Timer b # ts" "a \<noteq> b"
    and "\<not> periodic (timers k (Timer a))" "\<not> periodic (timers k (Timer b))" "activated (timers k (Timer b))" "due k a" "due k b"
    and cb: "\<And>k. cb a k = Inr (snd (rt_timer_stop (Timer b) k))" "\<And>k. cb b k = Inr k"
  shows "rt_soft_timer_check cb k = None"
proof -
  let ?k = "rt_enter_critical k"
  note p = timer_part_eqs [OF critical_simps(1) [of k]]
  have "kernel_inv (timer_remove (Timer a) ?k)" "rt_scheduler_lock_nest (timer_remove (Timer a) ?k) = 1"
    using assms(1,2) by (simp_all add: kernel_inv_timer_remove)
  then obtain k1 where k1: "rt_exit_critical (timer_remove (Timer a) ?k) = Inr k1" "kernel_inv k1"
    "timer_part k1 = timer_part (timer_remove (Timer a) ?k)" "rt_scheduler_lock_nest k1 = 0"
    using exit_critical_ok [of "timer_remove (Timer a) ?k"] by metis
  note p1 = timer_part_eqs [OF k1(3)]
  let ?k2 = "snd (rt_timer_stop (Timer b) k1)"
  let ?k3 = "upd_timer (Timer a) (\<lambda>x. x\<lparr>activated := False\<rparr>) (rt_enter_critical ?k2)"
  note p2 = timer_part_eqs [OF critical_simps(1) [of ?k2]]
  have inv2: "kernel_inv ?k2"
    using k1(2) unfolding kernel_inv_def timers_inv_def timer_stop_timers by (auto simp: distinct_removeAll timer_stop_timers)
  have t2: "timers ?k2 tm = (if tm = Timer b then (timers k tm)\<lparr>activated := False\<rparr> else timers k tm)" for tm
    using assms(7) by (simp add: rt_timer_stop_def p1 p)
  have tick: "rt_tick ?k3 = rt_tick k" by (simp add: p p1 p2)
  have "Timer a \<notin> set (rt_timer_list ?k2)" by (auto simp: rt_timer_stop_def p1)
  then have "kernel_inv ?k3" using inv2 by (intro kernel_inv_upd_timer) (simp_all add: p2)
  moreover have "rt_scheduler_lock_nest ?k3 = 1" using k1(4) by simp
  moreover have "\<not> periodic (timers ?k3 (Timer b))" "due ?k3 b" using assms(4,6,9) by (simp_all add: due_def p p1 p2 t2)
  moreover have "Timer b \<notin> set (rt_soft_timer_list ?k2)" using assms(7) by (simp add: rt_timer_stop_def p1 p)
  then have "Timer b \<notin> set (rt_soft_timer_list ?k3)" by (simp add: p2)
  ultimately have "stuck b (Some (Timer b)) (rt_tick ?k3) ?k3" by (simp add: stuck_def)
  then have stuck: "soft_timer_loop cb (Some (Timer b)) (rt_tick ?k3) ?k3 = None"
    using soft_timer_loop_stuck [of cb "Some (Timer b)" "rt_tick ?k3" ?k3 _ b] cb(2) by fastforce
  have "soft_timer_expire cb (Timer a) ?k = Inr ?k3"
    using k1(1) cb(1) assms(4,5) by (simp add: soft_timer_expire_def call_timeout_def Let_def p2 t2)
  moreover have "next_node (rt_soft_timer_list ?k) (Timer a) = Some (Timer b)" by (simp add: next_node_def p assms(3))
  ultimately have "soft_timer_loop cb (Some (Timer a)) (rt_tick k) ?k = None"
    using stuck assms(8) by (subst soft_timer_loop.simps) (simp add: due_def p)
  then show ?thesis by (simp add: rt_soft_timer_check_def Let_def p assms(3))
qed

section \<open>The last tick\<close>

text \<open>
  The value of \<^verbatim>\<open>RT_TICK_MAX\<close> stands for an empty list, so a soft timer whose time-out is at that tick does not
  count: the timer thread suspends itself without a timer of its own, although the timer is in the list.
\<close>

theorem soft_timer_at_max_lost:
  assumes "kernel_inv k" "rt_current_thread k = Some t" "stat (threads k t) = RT_THREAD_RUNNING"
    "rt_soft_timer_list k = tm # ts" "timeout_tick (timers k tm) = RT_TICK_MAX"
  shows "\<exists>k'. timer_thread_wait k = Inr (Suspends, k') \<and> stat (threads k' t) = RT_THREAD_SUSPEND \<and>
    Thread_timer t \<notin> set (rt_timer_list k') \<and> kernel_inv k'"
proof -
  obtain k1 where k1: "rt_thread_suspend t k = Inr (RT_EOK, k1)" "kernel_inv k1"
    "stat (threads k1 t) = RT_THREAD_SUSPEND" "Thread_timer t \<notin> set (rt_timer_list k1)"
    using thread_suspend_inv [OF assms(1), of t] assms(3) by metis
  obtain k2 where k2: "rt_schedule k1 = Inr k2" "kernel_inv k2" using schedule_inv [OF k1(2)] by blast
  have "threads k2 t = threads k1 t"
    using schedule_suspended [OF _ k2(1), of t] k1(2,3) by (simp add: kernel_inv_def)
  then show ?thesis
    using k1 k2 assms(2,4,5) timer_part_eqs(2) [OF schedule_timer_part [OF k2(1)]]
    by (simp add: timer_thread_wait_def rt_timer_list_next_timeout_def)
qed

section \<open>Examples\<close>

text \<open>The demo system with two soft timers, due at 3 and at 4, at the tick 5.\<close>

definition demo_soft :: kernel where
  "demo_soft = demo_sleep\<lparr>rt_soft_timer_list := map Timer [0, 1], rt_scheduler_lock_nest := 0,
     timers := (timers demo_sleep)(Timer 0 := demo_timer\<lparr>activated := True, soft_timer := True, timeout_tick := 3\<rparr>,
       Timer 1 := demo_timer\<lparr>activated := True, soft_timer := True, timeout_tick := 4\<rparr>)\<rparr>"

lemma demo_soft_inv: "kernel_inv demo_soft"
  using demo_sleep_inv
  by (auto simp: kernel_inv_def timers_inv_def sched_inv_def group_ok_def lists_ok_def threads_ok_def demo_soft_def)

lemma demo_soft_timers: "rt_soft_timer_list demo_soft = map Timer [0, 1]" "rt_scheduler_lock_nest demo_soft = 0"
  "\<not> periodic (timers demo_soft (Timer n))" "due demo_soft 0" "due demo_soft 1" "activated (timers demo_soft (Timer 1))"
  by (auto simp: demo_soft_def demo_timer_def due_def RT_TICK_MAX_def demo_sleep_def)

theorem soft_timers_fire_witness:
  "\<exists>k'. rt_soft_timer_check (\<lambda>n k. Inr (upd_thread n (\<lambda>th. th\<lparr>error := 7\<rparr>) k)) demo_soft = Some (Inr k') \<and>
     rt_soft_timer_list k' = [] \<and> error (threads k' 0) = 7 \<and> error (threads k' 1) = 7 \<and> \<not> activated (timers k' (Timer 1))"
proof -
  let ?cb = "\<lambda>n k. Inr (upd_thread n (\<lambda>th. th\<lparr>error := 7\<rparr>) k)"
  have inv: "kernel_inv (upd_thread n (\<lambda>th. th\<lparr>error := 7\<rparr>) k)" if "kernel_inv k" for n k
    using that timer_part_eqs [OF timer_part_simps(1) [of n "\<lambda>th. th\<lparr>error := 7\<rparr>" k]]
    by (auto simp: kernel_inv_def timers_inv_def sched_inv_upd)
  have err: "errors (upd_thread n (\<lambda>th. th\<lparr>error := 7\<rparr>) k) = (errors k)(n := 7)" for n k
    by (simp add: errors_def fun_eq_iff)
  have "rt_scheduler_lock_nest (upd_thread n f k) = rt_scheduler_lock_nest k" for n f k
    by (simp add: upd_thread_def)
  then have cb: "keeps_timers (\<lambda>n e. e(n := 7)) ?cb" using inv err by (simp add: keeps_timers_def)
  have "soft_ordered 0 demo_soft"
    by (simp add: soft_ordered_def demo_soft_def demo_sleep_def timeout_of_def due_in_def)
  from soft_timers_fire [OF cb demo_soft_inv demo_soft_timers(2,1) _ this] show ?thesis
    using demo_soft_timers by (auto simp: errors_def fun_eq_iff)
qed

theorem soft_timer_stops_next_witness:
  "rt_soft_timer_check (\<lambda>n k. if n = 0 then Inr (snd (rt_timer_stop (Timer 1) k)) else Inr k) demo_soft = None"
  by (rule soft_timer_stops_next [of _ 0 1 "[]", OF demo_soft_inv demo_soft_timers(2)])
    (use demo_soft_timers in simp_all)

theorem soft_timer_at_max_lost_witness:
  "\<exists>k'. timer_thread_wait (demo_soft\<lparr>timers := (timers demo_soft)(Timer 0 := demo_timer\<lparr>timeout_tick := RT_TICK_MAX\<rparr>)\<rparr>) =
     Inr (Suspends, k') \<and> stat (threads k' 1) = RT_THREAD_SUSPEND \<and> Thread_timer 1 \<notin> set (rt_timer_list k') \<and> kernel_inv k'"
proof (rule soft_timer_at_max_lost [where tm = "Timer 0" and ts = "[Timer 1]"])
  show "kernel_inv (demo_soft\<lparr>timers := (timers demo_soft)(Timer 0 := demo_timer\<lparr>timeout_tick := RT_TICK_MAX\<rparr>)\<rparr>)"
    using demo_soft_inv
    by (auto simp: kernel_inv_def timers_inv_def sched_inv_def group_ok_def lists_ok_def threads_ok_def demo_soft_def demo_sleep_def)
qed (simp_all add: demo_soft_def demo_sleep_def demo_thread_def)

end
