(* ===== verification/Mem_String.thy ===== *)
theory Mem_String
  imports Usv_Prelude "HOL-Library.Sublist"
begin

unbundle bit_operations_syntax

text \<open>
  The memory and string functions of the kernel, \<^verbatim>\<open>src/rt-thread/src/kservice.c\<close>, on a byte memory: an address
  is a natural number, a byte that is not mapped is \<open>None\<close> and reading or writing it is \<open>OutOfBounds\<close>.  Words are
  little-endian.  \<^verbatim>\<open>rt_memset\<close> and \<^verbatim>\<open>rt_memcpy\<close> are the variants without \<^verbatim>\<open>RT_USING_TINY_SIZE\<close>, which move four
  words, one word and then single bytes at a time.  A search for a terminating NUL may run through the whole
  memory; it is a partial function, which is shown to end in every finite memory.
  The functions that return their first argument return only the new memory here.
\<close>

section \<open>The code\<close>

type_synonym memory = "nat \<Rightarrow> u8 option"

definition load8 :: "memory \<Rightarrow> nat \<Rightarrow> u8 res" where
  "load8 m a = (case m a of None \<Rightarrow> Inl OutOfBounds | Some v \<Rightarrow> Inr v)"

definition store8 :: "nat \<Rightarrow> u8 \<Rightarrow> memory \<Rightarrow> memory res" where
  "store8 a v m = (if m a = None then Inl OutOfBounds else Inr (m(a \<mapsto> v)))"

definition load32 :: "memory \<Rightarrow> nat \<Rightarrow> u32 res" where
  "load32 m a =
     bind_res (load8 m a) (\<lambda>b0. bind_res (load8 m (a + 1)) (\<lambda>b1.
     bind_res (load8 m (a + 2)) (\<lambda>b2. bind_res (load8 m (a + 3)) (\<lambda>b3.
       Inr (ucast b0 OR push_bit 8 (ucast b1) OR push_bit 16 (ucast b2) OR push_bit 24 (ucast b3))))))"

definition store32 :: "nat \<Rightarrow> u32 \<Rightarrow> memory \<Rightarrow> memory res" where
  "store32 a w m =
     bind_res (store8 a (ucast w) m) (\<lambda>m. bind_res (store8 (a + 1) (ucast (drop_bit 8 w)) m) (\<lambda>m.
     bind_res (store8 (a + 2) (ucast (drop_bit 16 w)) m) (store8 (a + 3) (ucast (drop_bit 24 w)))))"

subsection \<open>\<^verbatim>\<open>rt_memset\<close>\<close>

fun set_bytes :: "nat \<Rightarrow> u8 \<Rightarrow> nat \<Rightarrow> memory \<Rightarrow> memory res" where
  "set_bytes a v 0 m = Inr m"
| "set_bytes a v (Suc n) m = bind_res (store8 a v m) (set_bytes (a + 1) v n)"

function set_words :: "nat \<Rightarrow> u32 \<Rightarrow> nat \<Rightarrow> memory \<Rightarrow> (nat \<times> nat \<times> memory) res" where
  "set_words a w count m =
     (if 4 \<le> count then bind_res (store32 a w m) (set_words (a + 4) w (count - 4)) else Inr (a, count, m))"
  by auto
termination by (relation "measure (\<lambda>(a, w, count, m). count)") auto

function set_blocks :: "nat \<Rightarrow> u32 \<Rightarrow> nat \<Rightarrow> memory \<Rightarrow> (nat \<times> nat \<times> memory) res" where
  "set_blocks a w count m =
     (if 16 \<le> count
      then bind_res (store32 a w m) (\<lambda>m. bind_res (store32 (a + 4) w m) (\<lambda>m. bind_res (store32 (a + 8) w m) (\<lambda>m.
           bind_res (store32 (a + 12) w m) (set_blocks (a + 16) w (count - 16)))))
      else Inr (a, count, m))"
  by auto
termination by (relation "measure (\<lambda>(a, w, count, m). count)") auto

declare set_words.simps [simp del] set_blocks.simps [simp del]

definition rt_memset :: "nat \<Rightarrow> int \<Rightarrow> u32 \<Rightarrow> memory \<Rightarrow> memory res" where
  "rt_memset s c count m =
     (let d = i2u c AND 0xFF; n = unat count in
      bind_res
        (if 4 \<le> n \<and> s mod 4 = 0 then
           (let buffer = push_bit 8 d OR d; buffer = buffer OR push_bit 16 buffer in
            bind_res (set_blocks s buffer n m) (\<lambda>(a, n, m). set_words a buffer n m))
         else Inr (s, n, m))
        (\<lambda>(a, n, m). set_bytes a (ucast d) n m))"

subsection \<open>\<^verbatim>\<open>rt_memcpy\<close> and \<^verbatim>\<open>rt_memmove\<close>\<close>

fun copy_bytes :: "nat \<Rightarrow> nat \<Rightarrow> nat \<Rightarrow> memory \<Rightarrow> memory res" where
  "copy_bytes d s 0 m = Inr m"
| "copy_bytes d s (Suc n) m = bind_res (load8 m s) (\<lambda>v. bind_res (store8 d v m) (copy_bytes (d + 1) (s + 1) n))"

definition copy_word :: "nat \<Rightarrow> nat \<Rightarrow> memory \<Rightarrow> memory res" where
  "copy_word d s m = bind_res (load32 m s) (\<lambda>w. store32 d w m)"

function copy_words :: "nat \<Rightarrow> nat \<Rightarrow> nat \<Rightarrow> memory \<Rightarrow> (nat \<times> nat \<times> nat \<times> memory) res" where
  "copy_words d s len m =
     (if 4 \<le> len then bind_res (copy_word d s m) (copy_words (d + 4) (s + 4) (len - 4)) else Inr (d, s, len, m))"
  by auto
termination by (relation "measure (\<lambda>(d, s, len, m). len)") auto

function copy_blocks :: "nat \<Rightarrow> nat \<Rightarrow> nat \<Rightarrow> memory \<Rightarrow> (nat \<times> nat \<times> nat \<times> memory) res" where
  "copy_blocks d s len m =
     (if 16 \<le> len
      then bind_res (copy_word d s m) (\<lambda>m. bind_res (copy_word (d + 4) (s + 4) m) (\<lambda>m.
           bind_res (copy_word (d + 8) (s + 8) m) (\<lambda>m. bind_res (copy_word (d + 12) (s + 12) m)
             (copy_blocks (d + 16) (s + 16) (len - 16)))))
      else Inr (d, s, len, m))"
  by auto
termination by (relation "measure (\<lambda>(d, s, len, m). len)") auto

declare copy_words.simps [simp del] copy_blocks.simps [simp del]

text \<open>
  \<^verbatim>\<open>int len\<close> is compared as an unsigned number in the word loops; the byte loop counts it down as a signed one,
  which overflows when it starts negative.
\<close>

definition rt_memcpy :: "nat \<Rightarrow> nat \<Rightarrow> u32 \<Rightarrow> memory \<Rightarrow> memory res" where
  "rt_memcpy dst src count m =
     (let len = unat count in
      bind_res
        (if 16 \<le> len \<and> dst mod 4 = 0 \<and> src mod 4 = 0 then
           bind_res (copy_blocks dst src len m) (\<lambda>(d, s, len, m). copy_words d s len m)
         else Inr (dst, src, len, m))
        (\<lambda>(d, s, len, m). if len < 2 ^ 31 then copy_bytes d s len m else Inl SignedOverflow))"

text \<open>\<^verbatim>\<open>while (n--) *(--tmp) = *(--s);\<close>\<close>

fun copy_down :: "nat \<Rightarrow> nat \<Rightarrow> nat \<Rightarrow> memory \<Rightarrow> memory res" where
  "copy_down d s 0 m = Inr m"
| "copy_down d s (Suc n) m = bind_res (load8 m (s + n)) (\<lambda>v. bind_res (store8 (d + n) v m) (copy_down d s n))"

definition rt_memmove :: "nat \<Rightarrow> nat \<Rightarrow> u32 \<Rightarrow> memory \<Rightarrow> memory res" where
  "rt_memmove dest src n m =
     (if src < dest \<and> dest < src + unat n then copy_down dest src (unat n) m else copy_bytes dest src (unat n) m)"

section \<open>Moving and filling memory\<close>

definition mapped :: "memory \<Rightarrow> nat \<Rightarrow> nat \<Rightarrow> bool" where
  "mapped m a n \<longleftrightarrow> {a ..< a + n} \<subseteq> dom m"

lemma mapped_le: "mapped m a n \<Longrightarrow> a \<le> b \<Longrightarrow> b + k \<le> a + n \<Longrightarrow> mapped m b k"
  by (auto simp: mapped_def subset_eq)

lemma mapped_dom: "dom m' = dom m \<Longrightarrow> mapped m' a n = mapped m a n"
  by (simp add: mapped_def)

lemma mappedD: "mapped m a n \<Longrightarrow> a \<le> x \<Longrightarrow> x < a + n \<Longrightarrow> \<exists>v. m x = Some v"
  by (auto simp: mapped_def subset_eq)

lemma load8_Some [simp]: "m a = Some v \<Longrightarrow> load8 m a = Inr v"
  by (simp add: load8_def)

lemma store8_Some [simp]: "m a = Some u \<Longrightarrow> store8 a v m = Inr (m(a \<mapsto> v))"
  by (simp add: store8_def)

text \<open>The memory after filling and after copying, byte by byte.\<close>

definition filled :: "nat \<Rightarrow> u8 \<Rightarrow> nat \<Rightarrow> memory \<Rightarrow> memory" where
  "filled a v n m = (\<lambda>x. if a \<le> x \<and> x < a + n then Some v else m x)"

definition copied :: "nat \<Rightarrow> nat \<Rightarrow> nat \<Rightarrow> memory \<Rightarrow> memory" where
  "copied d s n m = (\<lambda>x. if d \<le> x \<and> x < d + n then m (s + (x - d)) else m x)"

lemma dom_filled: "mapped m a n \<Longrightarrow> dom (filled a v n m) = dom m"
  by (auto simp: filled_def mapped_def split: if_splits)

lemma dom_copied: "mapped m d n \<Longrightarrow> mapped m s n \<Longrightarrow> dom (copied d s n m) = dom m"
proof -
  assume d: "mapped m d n" and s: "mapped m s n"
  have "m (s + (x - d)) \<noteq> None" if "d \<le> x" "x < d + n" for x using mappedD [OF s, of "s + (x - d)"] that by auto
  moreover have "m x \<noteq> None" if "d \<le> x" "x < d + n" for x using mappedD [OF d that] by auto
  ultimately show ?thesis by (auto simp: copied_def dom_def)
qed

lemma mapped_filled: "mapped m a n \<Longrightarrow> mapped (filled a v n m) b k = mapped m b k"
  by (rule mapped_dom) (rule dom_filled)

lemma mapped_copied: "mapped m d n \<Longrightarrow> mapped m s n \<Longrightarrow> mapped (copied d s n m) b k = mapped m b k"
  by (rule mapped_dom) (rule dom_copied)

lemma filled_append: "filled (a + k) v n (filled a v k m) = filled a v (k + n) m"
  by (auto simp: filled_def)

lemma copied_append:
  assumes "d \<le> s \<or> s + k + n \<le> d"
  shows "copied (d + k) (s + k) n (copied d s k m) = copied d s (k + n) m"
proof
  fix x
  have "s + k + (x - (d + k)) = s + (x - d)" if "d + k \<le> x" using that by linarith
  moreover have "\<not> (d \<le> s + (x - d) \<and> s + (x - d) < d + k)" if "d + k \<le> x" "x < d + k + n"
    using that assms by linarith
  ultimately show "copied (d + k) (s + k) n (copied d s k m) x = copied d s (k + n) m x"
    by (auto simp: copied_def)
qed

lemma moved_0 [simp]: "filled a v 0 m = m" "copied d s 0 m = m"
  by (auto simp: filled_def copied_def fun_eq_iff)

lemma set_bytes_filled: "mapped m a n \<Longrightarrow> set_bytes a v n m = Inr (filled a v n m)"
proof (induction n arbitrary: a m)
  case 0
  then show ?case by simp
next
  case (Suc n)
  then obtain u where u: "m a = Some u" using mappedD [of m a "Suc n" a] by auto
  have f: "m(a \<mapsto> v) = filled a v 1 m" by (auto simp: filled_def)
  have "mapped m a 1" "mapped m (a + 1) n" using Suc.prems by (auto intro: mapped_le)
  then have "mapped (filled a v 1 m) (a + 1) n" by (simp add: mapped_filled)
  then show ?case using u f filled_append [of a 1 v n m] by (simp add: Suc.IH)
qed

lemma copy_bytes_copied:
  "mapped m d n \<Longrightarrow> mapped m s n \<Longrightarrow> d \<le> s \<or> s + n \<le> d \<Longrightarrow> copy_bytes d s n m = Inr (copied d s n m)"
proof (induction n arbitrary: d s m)
  case 0
  then show ?case by simp
next
  case (Suc n)
  then obtain u v where u: "m d = Some u" "m s = Some v" using mappedD [of m d "Suc n" d] mappedD [of m s "Suc n" s] by auto
  have f: "m(d \<mapsto> v) = copied d s 1 m" using u by (auto simp: copied_def fun_eq_iff le_less_Suc_eq)
  have "mapped m d 1" "mapped m s 1" "mapped m (d + 1) n" "mapped m (s + 1) n" using Suc.prems by (auto intro: mapped_le)
  then have "mapped (copied d s 1 m) (d + 1) n" "mapped (copied d s 1 m) (s + 1) n" by (simp_all add: mapped_copied)
  then have "copy_bytes (d + 1) (s + 1) n (copied d s 1 m) = Inr (copied (d + 1) (s + 1) n (copied d s 1 m))"
    using Suc.prems by (intro Suc.IH) auto
  then show ?case using u f copied_append [of d s 1 n m] Suc.prems by simp
qed

lemma copy_down_copied:
  "mapped m d n \<Longrightarrow> mapped m s n \<Longrightarrow> s \<le> d \<Longrightarrow> copy_down d s n m = Inr (copied d s n m)"
proof (induction n arbitrary: m)
  case 0
  then show ?case by simp
next
  case (Suc n)
  then obtain u v where u: "m (d + n) = Some u" "m (s + n) = Some v"
    using mappedD [of m d "Suc n" "d + n"] mappedD [of m s "Suc n" "s + n"] by auto
  let ?m = "m(d + n \<mapsto> v)"
  have dom: "dom ?m = dom m" using u by auto
  have "mapped m d n" "mapped m s n" using Suc.prems by (auto intro: mapped_le)
  then have "copy_down d s n ?m = Inr (copied d s n ?m)" using Suc.prems by (intro Suc.IH) (simp_all only: mapped_dom [OF dom])
  moreover have "copied d s n ?m = copied d s (Suc n) m"
  proof
    fix x
    show "copied d s n ?m x = copied d s (Suc n) m x"
      using u Suc.prems(3) by (cases "x = d + n") (auto simp: copied_def)
  qed
  ultimately show ?case using u by simp
qed

lemma word_bytes:
  fixes b0 b1 b2 b3 :: u8
  defines "w \<equiv> (ucast b0 OR push_bit 8 (ucast b1) OR push_bit 16 (ucast b2) OR push_bit 24 (ucast b3) :: u32)"
  shows "ucast w = b0" "ucast (drop_bit 8 w) = b1" "ucast (drop_bit 16 w) = b2" "ucast (drop_bit 24 w) = b3"
  unfolding w_def by (rule bit_word_eqI; auto simp: bit_simps dest: bit_imp_le_length)+

lemma copy_word_copied:
  assumes "mapped m d 4" "mapped m s 4"
  shows "copy_word d s m = Inr (copied d s 4 m)"
proof -
  obtain b0 b1 b2 b3 where s: "m s = Some b0" "m (s + 1) = Some b1" "m (s + 2) = Some b2" "m (s + 3) = Some b3"
    using mappedD [OF assms(2), of s] mappedD [OF assms(2), of "s + 1"] mappedD [OF assms(2), of "s + 2"]
      mappedD [OF assms(2), of "s + 3"] by auto
  obtain c0 c1 c2 c3 where d: "m d = Some c0" "m (d + 1) = Some c1" "m (d + 2) = Some c2" "m (d + 3) = Some c3"
    using mappedD [OF assms(1), of d] mappedD [OF assms(1), of "d + 1"] mappedD [OF assms(1), of "d + 2"]
      mappedD [OF assms(1), of "d + 3"] by auto
  define w :: u32 where "w = ucast b0 OR push_bit 8 (ucast b1) OR push_bit 16 (ucast b2) OR push_bit 24 (ucast b3)"
  have w: "ucast w = b0" "ucast (drop_bit 8 w) = b1" "ucast (drop_bit 16 w) = b2" "ucast (drop_bit 24 w) = b3"
    unfolding w_def by (rule word_bytes)+
  have "load32 m s = Inr w" using s by (simp add: load32_def w_def)
  then have "copy_word d s m = Inr (m(d \<mapsto> b0, d + 1 \<mapsto> b1, d + 2 \<mapsto> b2, d + 3 \<mapsto> b3))"
    using d w by (simp add: copy_word_def store32_def store8_def)
  also have "m(d \<mapsto> b0, d + 1 \<mapsto> b1, d + 2 \<mapsto> b2, d + 3 \<mapsto> b3) = copied d s 4 m"
  proof
    fix x
    consider "x = d" | "x = d + 1" | "x = d + 2" | "x = d + 3" | "x < d \<or> d + 4 \<le> x" by linarith
    then show "(m(d \<mapsto> b0, d + 1 \<mapsto> b1, d + 2 \<mapsto> b2, d + 3 \<mapsto> b3)) x = copied d s 4 m x"
      using s by cases (auto simp: copied_def)
  qed
  finally show ?thesis .
qed

lemma copy_step:
  assumes "mapped m d (4 + n)" "mapped m s (4 + n)" "d \<le> s \<or> s + (4 + n) \<le> d"
  shows "copy_word d s m = Inr (copied d s 4 m)" "mapped (copied d s 4 m) (d + 4) n" "mapped (copied d s 4 m) (s + 4) n"
    "copied (d + 4) (s + 4) k (copied d s 4 m) = copied d s (4 + k) m \<or> n < k"
proof -
  have m: "mapped m d 4" "mapped m s 4" "mapped m (d + 4) n" "mapped m (s + 4) n" using assms by (auto intro: mapped_le)
  show "copy_word d s m = Inr (copied d s 4 m)" using m by (intro copy_word_copied)
  show "mapped (copied d s 4 m) (d + 4) n" "mapped (copied d s 4 m) (s + 4) n" using m by (simp_all add: mapped_copied)
  show "copied (d + 4) (s + 4) k (copied d s 4 m) = copied d s (4 + k) m \<or> n < k"
    using copied_append [of d s 4 k m] assms(3) by fastforce
qed

lemma copy_words_copied:
  "mapped m d len \<Longrightarrow> mapped m s len \<Longrightarrow> d \<le> s \<or> s + len \<le> d \<Longrightarrow>
     \<exists>k \<le> len. copy_words d s len m = Inr (d + k, s + k, len - k, copied d s k m)"
proof (induction len arbitrary: d s m rule: less_induct)
  case (less len)
  show ?case
  proof (cases "4 \<le> len")
    case False
    then show ?thesis by (subst copy_words.simps) (auto intro: exI [of _ 0])
  next
    case True
    then obtain n where n: "len = 4 + n" by (metis le_Suc_ex)
    note st = copy_step [OF less.prems [unfolded n]]
    obtain k where k: "k \<le> n" "copy_words (d + 4) (s + 4) n (copied d s 4 m) =
        Inr (d + 4 + k, s + 4 + k, n - k, copied (d + 4) (s + 4) k (copied d s 4 m))"
      using less.IH [OF _ st(2,3)] less.prems(3) n by auto
    then have "copy_words d s len m = Inr (d + (4 + k), s + (4 + k), len - (4 + k), copied d s (4 + k) m)"
      using st(1) st(4) [of k] n by (subst copy_words.simps) (auto simp: add.assoc)
    then show ?thesis using k(1) n by (intro exI [of _ "4 + k"]) simp
  qed
qed

lemma copy_blocks_copied:
  "mapped m d len \<Longrightarrow> mapped m s len \<Longrightarrow> d \<le> s \<or> s + len \<le> d \<Longrightarrow>
     \<exists>k \<le> len. copy_blocks d s len m = Inr (d + k, s + k, len - k, copied d s k m)"
proof (induction len arbitrary: d s m rule: less_induct)
  case (less len)
  show ?case
  proof (cases "16 \<le> len")
    case False
    then show ?thesis by (subst copy_blocks.simps) (auto intro: exI [of _ 0])
  next
    case True
    then obtain n where n: "len = 4 + (4 + (4 + (4 + n)))" using le_Suc_ex [OF True] by auto
    define m1 m2 m3 m4 where "m1 = copied d s 4 m" and "m2 = copied (d + 4) (s + 4) 4 m1"
      and "m3 = copied (d + 8) (s + 8) 4 m2" and "m4 = copied (d + 12) (s + 12) 4 m3"
    note s1 = copy_step [OF less.prems [unfolded n], folded m1_def]
    have o: "d + 4 \<le> s + 4 \<or> s + 4 + (4 + (4 + (4 + n))) \<le> d + 4" "d + 8 \<le> s + 8 \<or> s + 8 + (4 + (4 + n)) \<le> d + 8"
      "d + 12 \<le> s + 12 \<or> s + 12 + (4 + n) \<le> d + 12" "d + 16 \<le> s + 16 \<or> s + 16 + n \<le> d + 16"
      using less.prems(3) unfolding n by auto
    have "copied (d + 4) (s + 4) 4 m1 = m2" by (simp add: m2_def)
    note s2 = copy_step [OF s1(2,3) o(1), folded m2_def]
    have "d + 4 + 4 = d + 8" "s + 4 + 4 = s + 8" by simp_all
    note s2 = s2 [unfolded this]
    note s3 = copy_step [OF s2(2,3) o(2), folded m3_def]
    have "d + 8 + 4 = d + 12" "s + 8 + 4 = s + 12" by simp_all
    note s3 = s3 [unfolded this]
    note s4 = copy_step [OF s3(2,3) o(3), folded m4_def]
    have "d + 12 + 4 = d + 16" "s + 12 + 4 = s + 16" by simp_all
    note s4 = s4 [unfolded this]
    obtain k where k: "k \<le> n" "copy_blocks (d + 16) (s + 16) n m4 = Inr (d + 16 + k, s + 16 + k, n - k, copied (d + 16) (s + 16) k m4)"
      using less.IH [OF _ s4(2,3) o(4)] n by auto
    have "copied (d + 16) (s + 16) k m4 = copied d s (16 + k) m"
      using s4(4) [of k] s3(4) [of "4 + k"] s2(4) [of "4 + (4 + k)"] s1(4) [of "4 + (4 + (4 + k))"] k(1) by simp
    then have "copy_blocks d s len m = Inr (d + (16 + k), s + (16 + k), len - (16 + k), copied d s (16 + k) m)"
      using k s1(1) s2(1) s3(1) s4(1) n by (subst copy_blocks.simps) (simp add: add.assoc)
    then show ?thesis using k(1) n by (intro exI [of _ "16 + k"]) simp
  qed
qed

text \<open>\<^verbatim>\<open>rt_memcpy\<close> copies every byte when the destination does not begin inside the source.\<close>

lemma rt_memcpy_copied:
  assumes "mapped m dst (unat count)" "mapped m src (unat count)" "dst \<le> src \<or> src + unat count \<le> dst" "unat count < 2 ^ 31"
  shows "rt_memcpy dst src count m = Inr (copied dst src (unat count) m)"
proof -
  define n where "n = unat count"
  note a = assms [folded n_def]
  have rest: "copy_bytes (dst + k) (src + k) (n - k) (copied dst src k m) = Inr (copied dst src n m)" if "k \<le> n" for k
  proof -
    have m: "mapped m dst k" "mapped m src k" "mapped m (dst + k) (n - k)" "mapped m (src + k) (n - k)"
      using a that by (auto intro: mapped_le)
    then have "copy_bytes (dst + k) (src + k) (n - k) (copied dst src k m) =
        Inr (copied (dst + k) (src + k) (n - k) (copied dst src k m))"
      using a(3) that by (intro copy_bytes_copied) (auto simp: mapped_copied)
    then show ?thesis using copied_append [of dst src k "n - k" m] a(3) that by simp
  qed
  have words: "\<exists>k \<le> n. bind_res (copy_blocks dst src n m) (\<lambda>(d, s, len, m). copy_words d s len m) =
      Inr (dst + k, src + k, n - k, copied dst src k m)"
  proof -
    obtain j where j: "j \<le> n" "copy_blocks dst src n m = Inr (dst + j, src + j, n - j, copied dst src j m)"
      using copy_blocks_copied [OF a(1-3)] by auto
    have m: "mapped m dst j" "mapped m src j" "mapped m (dst + j) (n - j)" "mapped m (src + j) (n - j)"
      using a j(1) by (auto intro: mapped_le)
    then obtain k where k: "k \<le> n - j" "copy_words (dst + j) (src + j) (n - j) (copied dst src j m) =
        Inr (dst + j + k, src + j + k, n - j - k, copied (dst + j) (src + j) k (copied dst src j m))"
      using copy_words_copied [of "copied dst src j m" "dst + j" "n - j" "src + j"] a(3) j(1) by (auto simp: mapped_copied)
    have "copied (dst + j) (src + j) k (copied dst src j m) = copied dst src (j + k) m"
      using a(3) j(1) k(1) by (intro copied_append) auto
    then show ?thesis using j k by (intro exI [of _ "j + k"]) (simp add: add.assoc)
  qed
  show ?thesis
    using words rest rest [of 0] a(4) unfolding rt_memcpy_def Let_def n_def [symmetric] by auto
qed

text \<open>
  C27. \<^verbatim>\<open>rt_memmove\<close> copies every byte whatever the overlap of source and destination, changes nothing else, and
  \<^verbatim>\<open>rt_memcpy\<close>, which moves words, does the same unless the destination begins inside the source.
\<close>

theorem memmove_moves:
  assumes "mapped m dst (unat count)" "mapped m src (unat count)" "unat count < 2 ^ 31"
  shows "rt_memmove dst src count m = Inr (copied dst src (unat count) m) \<and>
    (dst \<le> src \<or> src + unat count \<le> dst \<longrightarrow> rt_memcpy dst src count m = rt_memmove dst src count m)"
proof -
  have "rt_memmove dst src count m = Inr (copied dst src (unat count) m)"
    using copy_down_copied [OF assms(1,2)] copy_bytes_copied [OF assms(1,2)] by (auto simp: rt_memmove_def)
  then show ?thesis using rt_memcpy_copied [OF assms(1,2) _ assms(3)] by simp
qed

text \<open>Twenty-four bytes at address 4, whose value is their address.\<close>

definition demo_memory :: memory where
  "demo_memory = (\<lambda>a. if 4 \<le> a \<and> a < 28 then Some (of_nat a) else None)"

lemma demo_mapped [simp]: "4 \<le> a \<Longrightarrow> a + n \<le> 28 \<Longrightarrow> mapped demo_memory a n"
  by (auto simp: mapped_def demo_memory_def)

theorem memmove_moves_witness:
  "rt_memmove 8 4 18 demo_memory = Inr (copied 8 4 18 demo_memory) \<and> rt_memcpy 4 8 18 demo_memory = rt_memmove 4 8 18 demo_memory"
  using memmove_moves [of demo_memory 8 18 4] memmove_moves [of demo_memory 4 18 8] by simp

text \<open>With the destination inside the source a word is stored over the bytes to be copied next.\<close>

lemma memcpy_overlap:
  "\<exists>m. rt_memcpy 8 4 16 demo_memory = Inr m \<and> m 12 = Some 4 \<and> copied 8 4 16 demo_memory 12 = Some 8"
proof -
  have "copy_words 24 20 0 m = Inr (24, 20, 0, m)" "copy_blocks 24 20 0 m = Inr (24, 20, 0, m)" for m
    by (simp_all add: copy_words.simps copy_blocks.simps)
  then have "rt_memcpy 8 4 16 demo_memory =
      Inr (copied 20 16 4 (copied 16 12 4 (copied 12 8 4 (copied 8 4 4 demo_memory))))"
    by (subst rt_memcpy_def) (subst copy_blocks.simps, simp add: copy_word_copied mapped_copied)
  then show ?thesis by (simp add: copied_def demo_memory_def)
qed

section \<open>Filling\<close>

lemma memset_word:
  fixes v :: u8
  defines "b \<equiv> push_bit 8 (ucast v) OR (ucast v) :: u32"
  defines "w \<equiv> b OR push_bit 16 b"
  shows "ucast w = v" "ucast (drop_bit 8 w) = v" "ucast (drop_bit 16 w) = v" "ucast (drop_bit 24 w) = v"
  unfolding w_def b_def by (rule bit_word_eqI; auto simp: bit_simps dest: bit_imp_le_length)+

lemma ucast_u8_u32: "ucast (ucast v :: u32) = v" for v :: u8
  by (rule bit_word_eqI) (auto simp: bit_simps dest: bit_imp_le_length)

lemma memset_low_byte: "x AND 0xFF = (ucast (ucast x :: u8) :: u32)" for x :: u32
proof -
  have "x AND 0xFF = take_bit 8 x" by (simp add: take_bit_eq_mask mask_eq_exp_minus_1)
  then show ?thesis by (simp only:) (rule bit_word_eqI; auto simp: bit_simps)
qed

lemma store32_filled:
  assumes "mapped m a 4" "ucast w = v" "ucast (drop_bit 8 w) = v" "ucast (drop_bit 16 w) = v" "ucast (drop_bit 24 w) = v"
  shows "store32 a w m = Inr (filled a v 4 m)"
proof -
  obtain c0 c1 c2 c3 where d: "m a = Some c0" "m (a + 1) = Some c1" "m (a + 2) = Some c2" "m (a + 3) = Some c3"
    using mappedD [OF assms(1), of a] mappedD [OF assms(1), of "a + 1"] mappedD [OF assms(1), of "a + 2"]
      mappedD [OF assms(1), of "a + 3"] by auto
  have "store32 a w m = Inr (m(a \<mapsto> v, a + 1 \<mapsto> v, a + 2 \<mapsto> v, a + 3 \<mapsto> v))"
    using d assms(2-) by (simp add: store32_def store8_def)
  also have "m(a \<mapsto> v, a + 1 \<mapsto> v, a + 2 \<mapsto> v, a + 3 \<mapsto> v) = filled a v 4 m"
  proof
    fix x
    consider "x = a" | "x = a + 1" | "x = a + 2" | "x = a + 3" | "x < a \<or> a + 4 \<le> x" by linarith
    then show "(m(a \<mapsto> v, a + 1 \<mapsto> v, a + 2 \<mapsto> v, a + 3 \<mapsto> v)) x = filled a v 4 m x"
      by cases (auto simp: filled_def)
  qed
  finally show ?thesis .
qed

lemma set_words_filled:
  assumes w: "ucast w = v" "ucast (drop_bit 8 w) = v" "ucast (drop_bit 16 w) = v" "ucast (drop_bit 24 w) = v"
  shows "mapped m a n \<Longrightarrow> \<exists>k \<le> n. set_words a w n m = Inr (a + k, n - k, filled a v k m)"
proof (induction n arbitrary: a m rule: less_induct)
  case (less len)
  show ?case
  proof (cases "4 \<le> len")
    case False
    then show ?thesis by (subst set_words.simps) (auto intro: exI [of _ 0])
  next
    case True
    then obtain n where n: "len = 4 + n" by (metis le_Suc_ex)
    have m: "mapped m a 4" "mapped m (a + 4) n" using less.prems n by (auto intro: mapped_le)
    then obtain k where "k \<le> n" "set_words (a + 4) w n (filled a v 4 m) = Inr (a + 4 + k, n - k, filled (a + 4) v k (filled a v 4 m))"
      using less.IH [of n "filled a v 4 m" "a + 4"] n by (auto simp: mapped_filled)
    then show ?thesis using store32_filled [OF m(1) w] n
      by (subst set_words.simps) (auto simp: filled_append add.assoc intro!: exI [of _ "4 + k"])
  qed
qed

lemma set_blocks_filled:
  assumes w: "ucast w = v" "ucast (drop_bit 8 w) = v" "ucast (drop_bit 16 w) = v" "ucast (drop_bit 24 w) = v"
  shows "mapped m a n \<Longrightarrow> \<exists>k \<le> n. set_blocks a w n m = Inr (a + k, n - k, filled a v k m)"
proof (induction n arbitrary: a m rule: less_induct)
  case (less len)
  show ?case
  proof (cases "16 \<le> len")
    case False
    then show ?thesis by (subst set_blocks.simps) (auto intro: exI [of _ 0])
  next
    case True
    then obtain n where n: "len = 16 + n" by (metis le_Suc_ex)
    have m: "mapped m a 4" "mapped m (a + 4) 4" "mapped m (a + 8) 4" "mapped m (a + 12) 4" "mapped m a 8" "mapped m a 12"
      "mapped m a 16" "mapped m (a + 16) n"
      using less.prems n by (auto intro: mapped_le)
    have f: "store32 (a + 4) w (filled a v 4 m) = Inr (filled a v 8 m)" "store32 (a + 8) w (filled a v 8 m) = Inr (filled a v 12 m)"
      "store32 (a + 12) w (filled a v 12 m) = Inr (filled a v 16 m)"
      using m filled_append [of a 4 v 4 m] filled_append [of a 8 v 4 m] filled_append [of a 12 v 4 m]
      by (simp_all add: store32_filled [OF _ w] mapped_filled)
    obtain k where "k \<le> n" "set_blocks (a + 16) w n (filled a v 16 m) = Inr (a + 16 + k, n - k, filled (a + 16) v k (filled a v 16 m))"
      using less.IH [of n "filled a v 16 m" "a + 16"] n m by (auto simp: mapped_filled)
    then show ?thesis using store32_filled [OF m(1) w] f n
      by (subst set_blocks.simps) (auto simp: filled_append add.assoc intro!: exI [of _ "16 + k"])
  qed
qed

text \<open>
  \<^verbatim>\<open>rt_memset\<close> sets every byte of the area to the low byte of its argument and changes nothing else, by whichever
  of its loops.
\<close>

theorem memset_fills:
  assumes "mapped m s (unat count)"
  shows "rt_memset s c count m = Inr (filled s (ucast (i2u c)) (unat count) m)"
proof -
  define n where "n = unat count"
  define v :: u8 where "v = ucast (i2u c)"
  define b :: u32 where "b = push_bit 8 (ucast v) OR (ucast v)"
  note w = memset_word [of v, folded b_def]
  have a: "mapped m s n" using assms by (simp add: n_def)
  have rest: "set_bytes (s + k) v (n - k) (filled s v k m) = Inr (filled s v n m)" if "k \<le> n" for k
  proof -
    have "mapped m s k" "mapped m (s + k) (n - k)" using a that by (auto intro: mapped_le)
    then show ?thesis using that by (simp add: set_bytes_filled mapped_filled filled_append)
  qed
  have words: "\<exists>k \<le> n. bind_res (set_blocks s (b OR push_bit 16 b) n m) (\<lambda>(a, n, m). set_words a (b OR push_bit 16 b) n m) =
      Inr (s + k, n - k, filled s v k m)"
  proof -
    obtain j where j: "j \<le> n" "set_blocks s (b OR push_bit 16 b) n m = Inr (s + j, n - j, filled s v j m)"
      using set_blocks_filled [OF w a] by auto
    then have "mapped m s j" "mapped m (s + j) (n - j)" using a by (auto intro: mapped_le)
    then obtain k where "k \<le> n - j" "set_words (s + j) (b OR push_bit 16 b) (n - j) (filled s v j m) =
        Inr (s + j + k, n - j - k, filled (s + j) v k (filled s v j m))"
      using set_words_filled [OF w, of "filled s v j m" "s + j" "n - j"] by (auto simp: mapped_filled)
    then show ?thesis using j by (intro exI [of _ "j + k"]) (simp add: filled_append add.assoc)
  qed
  have d: "i2u c AND 0xFF = (ucast v :: u32)" "ucast (ucast v :: u32) = v"
    by (simp_all only: memset_low_byte v_def ucast_u8_u32)
  show ?thesis
    using words rest rest [of 0] unfolding rt_memset_def Let_def d n_def [symmetric] v_def [symmetric] b_def [symmetric] by auto
qed

theorem memset_fills_witness: "rt_memset 4 (-1) 21 demo_memory = Inr (filled 4 0xFF 21 demo_memory)"
proof -
  have "mapped demo_memory 4 (unat (21 :: u32))" by (auto simp: mapped_def demo_memory_def)
  then have "rt_memset 4 (-1) 21 demo_memory = Inr (filled 4 (ucast (i2u (-1))) (unat (21 :: u32)) demo_memory)" by (rule memset_fills)
  moreover have "ucast (i2u (-1)) = (0xFF :: u8)" "unat (21 :: u32) = 21" by code_simp+
  ultimately show ?thesis by simp
qed

end
