(* ===== verification/Kernel_String.thy ===== *)
theory Kernel_String
  imports Mem_String "HOL-Library.List_Lexorder"
begin

text \<open>
  The string functions of the kernel, \<^verbatim>\<open>src/rt-thread/src/kservice.c\<close>, on the byte memory of \<open>Mem_String\<close>.
  \<open>cstr m a t\<close> says that the string \<open>t\<close> and its terminating NUL are at the address \<open>a\<close>.
\<close>

section \<open>The code\<close>

fun mem_compare :: "memory \<Rightarrow> nat \<Rightarrow> nat \<Rightarrow> nat \<Rightarrow> int res" where
  "mem_compare m cs ct 0 = Inr 0"
| "mem_compare m cs ct (Suc count) =
     bind_res (load8 m cs) (\<lambda>x. bind_res (load8 m ct) (\<lambda>y.
       if uint x - uint y \<noteq> 0 then Inr (uint x - uint y) else mem_compare m (cs + 1) (ct + 1) count))"

definition rt_memcmp :: "memory \<Rightarrow> nat \<Rightarrow> nat \<Rightarrow> u32 \<Rightarrow> int res" where
  "rt_memcmp m cs ct count = mem_compare m cs ct (unat count)"

text \<open>\<^verbatim>\<open>for (sc = s; *sc != 0; ++sc);\<close>\<close>

partial_function (option) str_end :: "memory \<Rightarrow> nat \<Rightarrow> nat res option" where
  "str_end m sc = (case m sc of None \<Rightarrow> Some (Inl OutOfBounds)
     | Some c \<Rightarrow> if c \<noteq> 0 then str_end m (sc + 1) else Some (Inr sc))"

definition rt_strlen :: "memory \<Rightarrow> nat \<Rightarrow> u32 res option" where
  "rt_strlen m s = map_option (\<lambda>r. bind_res r (\<lambda>sc. Inr (of_nat (sc - s)))) (str_end m s)"

text \<open>\<^verbatim>\<open>for (sc = s; *sc != 0 && sc - s < maxlen; ++sc);\<close> \<open>k\<close> is \<^verbatim>\<open>maxlen - (sc - s)\<close>.\<close>

fun str_nend :: "memory \<Rightarrow> nat \<Rightarrow> nat \<Rightarrow> nat res" where
  "str_nend m sc 0 = bind_res (load8 m sc) (\<lambda>_. Inr sc)"
| "str_nend m sc (Suc k) = bind_res (load8 m sc) (\<lambda>c. if c \<noteq> 0 then str_nend m (sc + 1) k else Inr sc)"

definition rt_strnlen :: "memory \<Rightarrow> nat \<Rightarrow> u32 \<Rightarrow> u32 res" where
  "rt_strnlen m s maxlen = bind_res (str_nend m s (unat maxlen)) (\<lambda>sc. Inr (of_nat (sc - s)))"

partial_function (option) rt_strcmp :: "memory \<Rightarrow> nat \<Rightarrow> nat \<Rightarrow> int res option" where
  "rt_strcmp m cs ct = (case m cs of None \<Rightarrow> Some (Inl OutOfBounds) | Some x \<Rightarrow>
     (case m ct of None \<Rightarrow> Some (Inl OutOfBounds) | Some y \<Rightarrow>
        if x \<noteq> 0 \<and> x = y then rt_strcmp m (cs + 1) (ct + 1) else Some (Inr (uint x - uint y))))"

text \<open>The difference is stored in a \<^verbatim>\<open>signed char\<close>.\<close>

fun str_ncompare :: "memory \<Rightarrow> nat \<Rightarrow> nat \<Rightarrow> nat \<Rightarrow> int res" where
  "str_ncompare m cs ct 0 = Inr 0"
| "str_ncompare m cs ct (Suc count) =
     bind_res (load8 m cs) (\<lambda>x. bind_res (load8 m ct) (\<lambda>y.
       if sint (x - y) \<noteq> 0 \<or> x = 0 then Inr (sint (x - y)) else str_ncompare m (cs + 1) (ct + 1) count))"

definition rt_strncmp :: "memory \<Rightarrow> nat \<Rightarrow> nat \<Rightarrow> u32 \<Rightarrow> int res" where
  "rt_strncmp m cs ct count = str_ncompare m cs ct (unat count)"

definition to_lower :: "int \<Rightarrow> int" where
  "to_lower c = (if 65 \<le> c \<and> c \<le> 90 then c + 32 else c)"

partial_function (option) rt_strcasecmp :: "memory \<Rightarrow> nat \<Rightarrow> nat \<Rightarrow> u32 res option" where
  "rt_strcasecmp m a b = (case m a of None \<Rightarrow> Some (Inl OutOfBounds) | Some x \<Rightarrow>
     (case m b of None \<Rightarrow> Some (Inl OutOfBounds) | Some y \<Rightarrow>
        let ca = to_lower (uint x); cb = to_lower (uint y)
        in if ca = cb \<and> ca \<noteq> 0 then rt_strcasecmp m (a + 1) (b + 1) else Some (Inr (i2u (ca - cb)))))"

fun str_ncopy :: "nat \<Rightarrow> nat \<Rightarrow> nat \<Rightarrow> memory \<Rightarrow> memory res" where
  "str_ncopy d s 0 m = Inr m"
| "str_ncopy d s (Suc n) m =
     bind_res (load8 m s) (\<lambda>c. bind_res (store8 d c m) (\<lambda>m.
       if c = 0 then set_bytes (d + 1) 0 n m else str_ncopy (d + 1) (s + 1) n m))"

definition rt_strncpy :: "nat \<Rightarrow> nat \<Rightarrow> u32 \<Rightarrow> memory \<Rightarrow> memory res" where
  "rt_strncpy dst src n m = str_ncopy dst src (unat n) m"

text \<open>\<^verbatim>\<open>while (l1 >= l2)\<close>; the lengths are \<^verbatim>\<open>int\<close>.\<close>

function str_search :: "memory \<Rightarrow> nat \<Rightarrow> nat \<Rightarrow> int \<Rightarrow> int \<Rightarrow> nat option res" where
  "str_search m s1 s2 l1 l2 =
     (if l2 \<le> l1
      then bind_res (rt_memcmp m s1 s2 (i2u l2)) (\<lambda>r. if r = 0 then Inr (Some s1) else str_search m (s1 + 1) s2 (l1 - 1) l2)
      else Inr None)"
  by auto
termination by (relation "measure (\<lambda>(m, s1, s2, l1, l2). nat (l1 - l2 + 1))") auto

declare str_search.simps [simp del]

definition rt_strstr :: "memory \<Rightarrow> nat \<Rightarrow> nat \<Rightarrow> nat option res option" where
  "rt_strstr m s1 s2 =
     (case rt_strlen m s2 of None \<Rightarrow> None | Some (Inl e) \<Rightarrow> Some (Inl e)
      | Some (Inr l2) \<Rightarrow>
          if u2i l2 = 0 then Some (Inr (Some s1))
          else (case rt_strlen m s1 of None \<Rightarrow> None | Some (Inl e) \<Rightarrow> Some (Inl e)
                | Some (Inr l1) \<Rightarrow> Some (str_search m s1 s2 (u2i l1) (u2i l2))))"

section \<open>Length\<close>

fun cstr :: "memory \<Rightarrow> nat \<Rightarrow> u8 list \<Rightarrow> bool" where
  "cstr m a [] \<longleftrightarrow> m a = Some 0"
| "cstr m a (c # t) \<longleftrightarrow> m a = Some c \<and> c \<noteq> 0 \<and> cstr m (a + 1) t"

lemma cstr_nth: "cstr m a t \<Longrightarrow> i < length t \<Longrightarrow> m (a + i) = Some (t ! i) \<and> t ! i \<noteq> 0"
proof (induction t arbitrary: a i)
  case (Cons c t)
  then show ?case using Cons.IH [of "a + 1" "i - 1"] by (cases i) auto
qed simp

lemma cstr_end: "cstr m a t \<Longrightarrow> m (a + length t) = Some 0"
  by (induction t arbitrary: a) force+

lemma str_end_cstr: "cstr m a t \<Longrightarrow> str_end m a = Some (Inr (a + length t))"
proof (induction t arbitrary: a)
  case Nil
  then show ?case by (subst str_end.simps) simp
next
  case (Cons c t)
  then show ?case by (subst str_end.simps) simp
qed

lemma str_end_stops: "finite (dom m) \<Longrightarrow> \<exists>r. str_end m a = Some r"
proof (induction "card (dom m \<inter> {a ..})" arbitrary: a rule: less_induct)
  case less
  show ?case
  proof (cases "m a")
    case None
    then show ?thesis by (subst str_end.simps) simp
  next
    case (Some c)
    have "a \<in> dom m \<inter> {a ..} - dom m \<inter> {a + 1 ..}" using Some by auto
    moreover have "dom m \<inter> {a + 1 ..} \<subseteq> dom m \<inter> {a ..}" by auto
    ultimately have "dom m \<inter> {a + 1 ..} \<subset> dom m \<inter> {a ..}" by blast
    then have "card (dom m \<inter> {a + 1 ..}) < card (dom m \<inter> {a ..})" using less.prems by (intro psubset_card_mono) auto
    then show ?thesis using less Some by (subst str_end.simps) auto
  qed
qed

text \<open>
  \<^verbatim>\<open>rt_strlen\<close> returns in every finite memory, and for a string it returns its length.
\<close>

theorem strlen_length:
  assumes "finite (dom m)"
  shows "(\<exists>r. rt_strlen m a = Some r) \<and> (cstr m a t \<longrightarrow> rt_strlen m a = Some (Inr (of_nat (length t))))"
  using str_end_stops [OF assms, of a] str_end_cstr [of m a t] by (auto simp: rt_strlen_def)

lemma rt_strlen_cstr: "cstr m a t \<Longrightarrow> rt_strlen m a = Some (Inr (of_nat (length t)))"
  using str_end_cstr [of m a t] by (simp add: rt_strlen_def)

text \<open>The string \<open>abcab\<close> at address 8 and its part \<open>cab\<close> at 10.\<close>

definition demo_string :: memory where
  "demo_string = [8 \<mapsto> 97, 9 \<mapsto> 98, 10 \<mapsto> 99, 11 \<mapsto> 97, 12 \<mapsto> 98, 13 \<mapsto> 0]"

lemma demo_cstr: "cstr demo_string 8 [97, 98, 99, 97, 98]" "cstr demo_string 10 [99, 97, 98]"
  by (simp_all add: demo_string_def)

theorem strlen_length_witness: "rt_strlen demo_string 10 = Some (Inr 3)"
  using strlen_length [of demo_string 10 "[99, 97, 98]"] demo_cstr(2) by (simp add: demo_string_def)

lemma str_nend_cstr: "cstr m a t \<Longrightarrow> str_nend m a k = Inr (a + min (length t) k)"
proof (induction t arbitrary: a k)
  case Nil
  then show ?case by (cases k) auto
next
  case (Cons c t)
  then show ?case by (cases k) auto
qed

lemma rt_strnlen_cstr: "cstr m a t \<Longrightarrow> rt_strnlen m a n = Inr (of_nat (min (length t) (unat n)))"
  by (simp add: rt_strnlen_def str_nend_cstr)

text \<open>
  \<^verbatim>\<open>rt_strnlen\<close> reads one character beyond the limit it was given: it tests the character before the limit.
\<close>

lemma str_nend_overread:
  "(\<And>i. i < k \<Longrightarrow> \<exists>c. m (a + i) = Some c \<and> c \<noteq> 0) \<Longrightarrow> m (a + k) = None \<Longrightarrow> str_nend m a k = Inl OutOfBounds"
proof (induction k arbitrary: a)
  case 0
  then show ?case by (simp add: load8_def)
next
  case (Suc k)
  have "str_nend m (a + 1) k = Inl OutOfBounds"
  proof (rule Suc.IH)
    show "\<exists>c. m (a + 1 + i) = Some c \<and> c \<noteq> 0" if "i < k" for i using Suc.prems(1) [of "Suc i"] that by simp
    show "m (a + 1 + k) = None" using Suc.prems(2) by simp
  qed
  then show ?case using Suc.prems(1) [of 0] by auto
qed

theorem strnlen_overreads:
  assumes "\<And>i. i < unat n \<Longrightarrow> \<exists>c. m (a + i) = Some c \<and> c \<noteq> 0" "m (a + unat n) = None"
  shows "rt_strnlen m a n = Inl OutOfBounds"
proof -
  have "str_nend m a (unat n) = Inl OutOfBounds" by (rule str_nend_overread) (use assms in auto)
  then show ?thesis by (simp add: rt_strnlen_def)
qed

theorem strnlen_overreads_witness: "rt_strnlen [4 \<mapsto> 97, 5 \<mapsto> 98] 4 2 = Inl OutOfBounds"
  by (rule strnlen_overreads) (auto simp: less_2_cases_iff)

section \<open>Comparing\<close>

lemma uint_pos [simp]: "0 < uint x \<longleftrightarrow> x \<noteq> 0"
  by (metis uint_0_iff uint_ge_0 order_le_less less_irrefl)

lemma rt_strcmp_order:
  "cstr m a t \<Longrightarrow> cstr m b u \<Longrightarrow> \<exists>r. rt_strcmp m a b = Some (Inr r) \<and> (r = 0 \<longleftrightarrow> t = u) \<and> (r < 0 \<longleftrightarrow> t < u)"
proof (induction t arbitrary: a b u)
  case Nil
  then show ?case by (cases u) (subst rt_strcmp.simps; auto simp: uint_0_iff word_gt_0 word_less_def)+
next
  case (Cons c t)
  show ?case
  proof (cases u)
    case Nil
    then show ?thesis using Cons.prems by (subst rt_strcmp.simps) (auto simp: uint_0_iff word_gt_0 word_less_def)
  next
    case u: (Cons d v)
    show ?thesis
    proof (cases "c = d")
      case True
      then show ?thesis using Cons.prems u Cons.IH [of "a + 1" "b + 1" v] by (subst rt_strcmp.simps) auto
    next
      case False
      then have "uint c \<noteq> uint d" by (simp add: word_uint_eq_iff)
      then show ?thesis using Cons.prems u False by (subst rt_strcmp.simps) (auto simp: word_less_def)
    qed
  qed
qed

lemma sint_diff_zero: "sint (x - y) = 0 \<longleftrightarrow> x = y" "sint (- y) = 0 \<longleftrightarrow> y = 0" "sint y = 0 \<longleftrightarrow> y = 0" for x y :: u8
  by (simp_all add: signed_eq_0_iff)

lemma str_ncompare_zero:
  "cstr m a t \<Longrightarrow> cstr m b u \<Longrightarrow> \<exists>r. str_ncompare m a b n = Inr r \<and> (r = 0 \<longleftrightarrow> take n t = take n u)"
proof (induction n arbitrary: a b t u)
  case (Suc n)
  show ?case
  proof (cases t)
    case Nil
    then show ?thesis using Suc.prems by (cases u) (auto simp: sint_diff_zero)
  next
    case t: (Cons c t')
    show ?thesis
    proof (cases u)
      case Nil
      then show ?thesis using Suc.prems t by (auto simp: sint_diff_zero)
    next
      case (Cons d u')
      then show ?thesis using Suc.prems t Suc.IH [of "a + 1" t' "b + 1" u'] by (auto simp: sint_diff_zero)
    qed
  qed
qed simp

lemma i2u_zero: "\<bar>x\<bar> < 2 ^ 31 \<Longrightarrow> i2u x = 0 \<longleftrightarrow> x = 0"
  using u2i_i2u [of x] by (auto simp: int_min_def int_max_def i2u_def u2i_def)

lemma to_lower_bounds: "0 \<le> to_lower (uint (x :: u8)) \<and> to_lower (uint x) < 512 \<and> (to_lower (uint x) = 0 \<longleftrightarrow> x = 0)"
  using uint_lt2p [of x] by (auto simp: to_lower_def uint_0_iff)

lemma rt_strcasecmp_zero:
  "cstr m a t \<Longrightarrow> cstr m b u \<Longrightarrow>
     \<exists>r. rt_strcasecmp m a b = Some (Inr r) \<and> (r = 0 \<longleftrightarrow> map (\<lambda>c. to_lower (uint c)) t = map (\<lambda>c. to_lower (uint c)) u)"
proof (induction t arbitrary: a b u)
  case Nil
  have z: "to_lower 0 = 0" by (simp add: to_lower_def)
  from Nil show ?case
  proof (cases u)
    case (Cons d v)
    then have "to_lower (uint d) \<noteq> 0" "\<bar>to_lower (uint d)\<bar> < 2 ^ 31" using Nil.prems to_lower_bounds [of d] by auto
    then show ?thesis using Nil.prems Cons i2u_zero [of "- to_lower (uint d)"] by (subst rt_strcasecmp.simps) (auto simp: z)
  qed (subst rt_strcasecmp.simps, auto simp: z i2u_def)
next
  case (Cons c t)
  have z: "to_lower 0 = 0" by (simp add: to_lower_def)
  have c: "to_lower (uint c) \<noteq> 0" "\<bar>to_lower (uint c)\<bar> < 2 ^ 31" using Cons.prems to_lower_bounds [of c] by auto
  show ?case
  proof (cases u)
    case Nil
    then show ?thesis using Cons.prems c i2u_zero [of "to_lower (uint c)"] by (subst rt_strcasecmp.simps) (auto simp: z)
  next
    case u: (Cons d v)
    have "\<bar>to_lower (uint c) - to_lower (uint d)\<bar> < 2 ^ 31" using to_lower_bounds [of c] to_lower_bounds [of d] by auto
    then show ?thesis using Cons.prems u c Cons.IH [of "a + 1" "b + 1" v] i2u_zero [of "to_lower (uint c) - to_lower (uint d)"]
      by (subst rt_strcasecmp.simps) (auto simp: Let_def)
  qed
qed

text \<open>
  The comparisons: \<^verbatim>\<open>rt_strcmp\<close> has the sign of the lexicographic order, \<^verbatim>\<open>rt_strncmp\<close> is zero exactly for strings
  with the same first characters, \<^verbatim>\<open>rt_strcasecmp\<close> exactly for strings that agree up to case.
\<close>

theorem strings_compared:
  assumes "cstr m a t" "cstr m b u"
  shows "\<exists>r1 r2 r3. rt_strcmp m a b = Some (Inr r1) \<and> (r1 = 0 \<longleftrightarrow> t = u) \<and> (r1 < 0 \<longleftrightarrow> t < u) \<and>
    rt_strncmp m a b n = Inr r2 \<and> (r2 = 0 \<longleftrightarrow> take (unat n) t = take (unat n) u) \<and>
    rt_strcasecmp m a b = Some (Inr r3) \<and> (r3 = 0 \<longleftrightarrow> map (\<lambda>c. to_lower (uint c)) t = map (\<lambda>c. to_lower (uint c)) u)"
  using rt_strcmp_order [OF assms] str_ncompare_zero [OF assms, of "unat n"] rt_strcasecmp_zero [OF assms]
  unfolding rt_strncmp_def by blast

theorem strings_compared_witness:
  "\<exists>r1 r2 r3. rt_strcmp demo_string 8 10 = Some (Inr r1) \<and> r1 < 0 \<and> rt_strncmp demo_string 8 10 2 = Inr r2 \<and> r2 \<noteq> 0 \<and>
     rt_strcasecmp demo_string 8 10 = Some (Inr r3) \<and> r3 \<noteq> 0"
proof -
  have "([97, 98, 99, 97, 98] :: u8 list) < [99, 97, 98]" by simp
  then show ?thesis using strings_compared [OF demo_cstr, of 2] by auto
qed

text \<open>
  The sign of \<^verbatim>\<open>rt_strncmp\<close> is not that of the order: a difference of 128 or more turns negative in the \<^verbatim>\<open>signed char\<close>.
\<close>

lemma strncmp_wrong_sign: "rt_strncmp [4 \<mapsto> 200, 5 \<mapsto> 0, 6 \<mapsto> 65, 7 \<mapsto> 0] 4 6 1 = Inr (-121)"
  by (simp add: rt_strncmp_def)

section \<open>Copying\<close>

text \<open>The memory after \<^verbatim>\<open>rt_strncpy\<close>: the first \<open>n\<close> characters of the string, padded with NUL.\<close>

definition padded :: "nat \<Rightarrow> u8 list \<Rightarrow> nat \<Rightarrow> memory \<Rightarrow> memory" where
  "padded d t n m = (\<lambda>x. if d \<le> x \<and> x < d + n then Some (if x - d < length t then t ! (x - d) else 0) else m x)"

lemma cstr_cong: "(\<And>i. i \<le> length t \<Longrightarrow> m' (a + i) = m (a + i)) \<Longrightarrow> cstr m' a t = cstr m a t"
proof (induction t arbitrary: a)
  case Nil
  then show ?case using Nil [of 0] by simp
next
  case (Cons c t)
  have "cstr m' (a + 1) t = cstr m (a + 1) t" by (rule Cons.IH) (use Cons.prems [of "Suc _"] in simp)
  then show ?case using Cons.prems [of 0] by simp
qed

lemma str_ncopy_padded:
  "cstr m s t \<Longrightarrow> mapped m d n \<Longrightarrow> d + n \<le> s \<or> s + length t < d \<Longrightarrow> str_ncopy d s n m = Inr (padded d t n m)"
proof (induction n arbitrary: d s t m)
  case 0
  then show ?case by (auto simp: padded_def fun_eq_iff)
next
  case (Suc n)
  obtain u where u: "m d = Some u" using mappedD [OF Suc.prems(2), of d] by auto
  have m: "mapped m (d + 1) n" using Suc.prems(2) by (rule mapped_le) auto
  then have m': "mapped (m(d \<mapsto> v)) (d + 1) n" for v using u by (subst mapped_dom [of _ m]) auto
  show ?case
  proof (cases t)
    case Nil
    then have "str_ncopy d s (Suc n) m = set_bytes (d + 1) 0 n (m(d \<mapsto> 0))" using Suc.prems(1) u by simp
    also have "\<dots> = Inr (filled (d + 1) 0 n (m(d \<mapsto> 0)))" by (rule set_bytes_filled) (rule m')
    also have "filled (d + 1) 0 n (m(d \<mapsto> 0)) = padded d t (Suc n) m" using Nil by (auto simp: filled_def padded_def)
    finally show ?thesis .
  next
    case (Cons c t')
    then have "str_ncopy d s (Suc n) m = str_ncopy (d + 1) (s + 1) n (m(d \<mapsto> c))" using Suc.prems(1) u by simp
    also have "\<dots> = Inr (padded (d + 1) t' n (m(d \<mapsto> c)))"
    proof (rule Suc.IH)
      have "cstr (m(d \<mapsto> c)) (s + 1) t' = cstr m (s + 1) t'"
        by (rule cstr_cong) (use Suc.prems(3) Cons in auto)
      then show "cstr (m(d \<mapsto> c)) (s + 1) t'" using Suc.prems(1) Cons by simp
      show "mapped (m(d \<mapsto> c)) (d + 1) n" by (rule m')
      show "d + 1 + n \<le> s + 1 \<or> s + 1 + length t' < d + 1" using Suc.prems(3) Cons by auto
    qed
    also have "padded (d + 1) t' n (m(d \<mapsto> c)) = padded d t (Suc n) m"
    proof
      fix x
      show "padded (d + 1) t' n (m(d \<mapsto> c)) x = padded d t (Suc n) m x"
        using Cons Suc_diff_Suc [of d x] by (cases "d < x") (auto simp: padded_def nth_Cons')
    qed
    finally show ?thesis .
  qed
qed

text \<open>
  \<^verbatim>\<open>rt_strncpy\<close> writes exactly \<open>n\<close> characters: the string and NULs behind it, or its first \<open>n\<close> characters without a
  NUL when it is longer.
\<close>

theorem strncpy_pads:
  assumes "cstr m s t" "mapped m d (unat n)" "d + unat n \<le> s \<or> s + length t < d"
  shows "rt_strncpy d s n m = Inr (padded d t (unat n) m) \<and>
    (length t < unat n \<longrightarrow> cstr (padded d t (unat n) m) d t)"
proof -
  have "cstr (padded d t (unat n) m) d t" if l: "length t < unat n"
  proof -
    have "cstr m' a t" if "cstr m s t" "\<And>i. i < length t \<Longrightarrow> m' (a + i) = Some (t ! i)" "m' (a + length t) = Some 0" for m' a t s
      using that
    proof (induction t arbitrary: a s)
      case (Cons c t)
      have "cstr m' (a + 1) t" by (rule Cons.IH [of "s + 1"]) (use Cons.prems Cons.prems(2) [of "Suc _"] in auto)
      then show ?case using Cons.prems Cons.prems(2) [of 0] by simp
    qed simp
    then show ?thesis using assms(1) l by (auto simp: padded_def)
  qed
  then show ?thesis using str_ncopy_padded [OF assms] by (simp add: rt_strncpy_def)
qed

theorem strncpy_pads_witness:
  "\<exists>m. rt_strncpy 30 10 5 (filled 30 7 8 demo_string) = Inr m \<and> cstr m 30 [99, 97, 98] \<and> m 34 = Some 0 \<and> m 35 = Some 7"
proof -
  have "cstr (filled 30 7 8 demo_string) 10 [99, 97, 98]" by (simp add: filled_def demo_string_def)
  moreover have "mapped (filled 30 7 8 demo_string) 30 (unat (5 :: u32))" by (auto simp: mapped_def filled_def)
  ultimately show ?thesis using strncpy_pads [of "filled 30 7 8 demo_string" 10 "[99, 97, 98]" 30 5]
    by (simp add: padded_def filled_def)
qed

section \<open>Searching\<close>

fun bytes :: "memory \<Rightarrow> nat \<Rightarrow> u8 list \<Rightarrow> bool" where
  "bytes m a [] = True"
| "bytes m a (c # t) \<longleftrightarrow> m a = Some c \<and> bytes m (a + 1) t"

lemma bytes_cstr: "cstr m a t \<Longrightarrow> bytes m a (take k t)"
  by (induction t arbitrary: a k) (auto simp: take_Cons split: nat.splits)

lemma mem_compare_zero:
  "bytes m a t \<Longrightarrow> bytes m b u \<Longrightarrow> length t = length u \<Longrightarrow> \<exists>r. mem_compare m a b (length u) = Inr r \<and> (r = 0 \<longleftrightarrow> t = u)"
proof (induction t u arbitrary: a b rule: list_induct2')
  case (4 c t d u)
  then show ?case using "4.IH" [of "a + 1" "b + 1"] by (auto simp: word_uint_eq_iff)
qed simp_all

lemma str_search_first:
  "cstr m a t \<Longrightarrow> cstr m b u \<Longrightarrow> u \<noteq> [] \<Longrightarrow> length u < 2 ^ 31 \<Longrightarrow>
     \<exists>r. str_search m a b (int (length t)) (int (length u)) = Inr r \<and>
       (case r of None \<Rightarrow> \<not> sublist u t
        | Some p \<Rightarrow> \<exists>i. p = a + i \<and> prefix u (drop i t) \<and> (\<forall>j < i. \<not> prefix u (drop j t)))"
proof (induction t arbitrary: a)
  case Nil
  then show ?case by (subst str_search.simps) auto
next
  case (Cons c t)
  have n: "unat (i2u (int (length u))) = length u" using Cons.prems(4) by (simp add: unat_i2u)
  show ?case
  proof (cases "length u \<le> length (c # t)")
    case False
    then have "\<not> sublist u (c # t)" by (meson sublist_length_le)
    then show ?thesis using False by (subst str_search.simps) auto
  next
    case True
    have "bytes m b (take (length u) u)" "bytes m a (take (length u) (c # t))"
      using Cons.prems bytes_cstr by blast+
    then obtain r where r: "mem_compare m a b (length u) = Inr r" "r = 0 \<longleftrightarrow> take (length u) (c # t) = u"
      using mem_compare_zero [of m a "take (length u) (c # t)" b u] True by auto
    have p: "prefix u (c # t) \<longleftrightarrow> take (length u) (c # t) = u"
      by (metis append_eq_conv_conj prefix_def)
    show ?thesis
    proof (cases "r = 0")
      case True
      then have "str_search m a b (int (length (c # t))) (int (length u)) = Inr (Some a)"
        using r \<open>length u \<le> length (c # t)\<close> by (subst str_search.simps) (simp add: rt_memcmp_def n)
      then show ?thesis using True r(2) p by (auto intro!: exI [of _ 0])
    next
      case False
      have s: "str_search m a b (int (length (c # t))) (int (length u)) = str_search m (a + 1) b (int (length t)) (int (length u))"
        using r(1) False \<open>length u \<le> length (c # t)\<close> by (subst str_search.simps) (simp add: rt_memcmp_def n)
      obtain q where q: "str_search m (a + 1) b (int (length t)) (int (length u)) = Inr q"
        "case q of None \<Rightarrow> \<not> sublist u t
        | Some p \<Rightarrow> \<exists>i. p = a + 1 + i \<and> prefix u (drop i t) \<and> (\<forall>j < i. \<not> prefix u (drop j t))"
        using Cons.IH [of "a + 1"] Cons.prems by auto
      have np: "\<not> prefix u (c # t)" using False r(2) p by simp
      show ?thesis
      proof (cases q)
        case None
        then show ?thesis using q s np by (auto simp: sublist_Cons_right)
      next
        case (Some x)
        then obtain i where i: "x = a + 1 + i" "prefix u (drop i t)" "\<forall>j < i. \<not> prefix u (drop j t)" using q(2) by auto
        have "\<not> prefix u (drop j (c # t))" if "j < Suc i" for j using that np i(3) by (cases j) auto
        then have "\<exists>i. x = a + i \<and> prefix u (drop i (c # t)) \<and> (\<forall>j < i. \<not> prefix u (drop j (c # t)))"
          using i by (intro exI [of _ "Suc i"]) simp
        then show ?thesis unfolding s q(1) Some by simp
      qed
    qed
  qed
qed

text \<open>
  C28. \<^verbatim>\<open>rt_strstr\<close> returns and finds the first occurrence of one string in another: a pointer to where it begins,
  with no occurrence before, or null exactly when there is none.
\<close>

theorem strstr_first:
  assumes "cstr m a t" "cstr m b u" "length t < 2 ^ 31" "length u < 2 ^ 31"
  shows "\<exists>r. rt_strstr m a b = Some (Inr r) \<and>
    (case r of None \<Rightarrow> \<not> sublist u t
     | Some p \<Rightarrow> \<exists>i. p = a + i \<and> prefix u (drop i t) \<and> (\<forall>j < i. \<not> prefix u (drop j t)))"
proof -
  have l: "u2i (of_nat (length t)) = int (length t)" "u2i (of_nat (length u)) = int (length u)"
    using assms(3,4) u2i_i2u [of "int (length t)"] u2i_i2u [of "int (length u)"]
    by (simp_all add: i2u_def int_min_def int_max_def)
  show ?thesis
  proof (cases "u = []")
    case True
    then show ?thesis using rt_strlen_cstr [OF assms(2)] l(2)
      by (auto simp: rt_strstr_def intro!: exI [of _ "Some a"] exI [of _ "0 :: nat"])
  next
    case False
    then show ?thesis using str_search_first [OF assms(1,2) False assms(4)] rt_strlen_cstr [OF assms(1)] rt_strlen_cstr [OF assms(2)] l
      by (simp add: rt_strstr_def)
  qed
qed

theorem strstr_first_witness: "rt_strstr demo_string 8 10 = Some (Inr (Some 10))"
proof -
  obtain r where r: "rt_strstr demo_string 8 10 = Some (Inr r)"
    "case r of None \<Rightarrow> \<not> sublist [99, 97, 98] [97, 98, 99, 97, 98 :: u8]
     | Some p \<Rightarrow> \<exists>i. p = 8 + i \<and> prefix [99, 97, 98] (drop i [97, 98, 99, 97, 98 :: u8]) \<and>
         (\<forall>j < i. \<not> prefix [99, 97, 98] (drop j [97, 98, 99, 97, 98 :: u8]))"
    using strstr_first [OF demo_cstr] by auto
  have "sublist [99, 97, 98] [97, 98, 99, 97, 98 :: u8]" by (simp add: sublist_Cons_right)
  then obtain i where i: "r = Some (8 + i)" "prefix [99, 97, 98] (drop i [97, 98, 99, 97, 98 :: u8])"
    using r(2) by (cases r) auto
  have "\<not> prefix [99, 97, 98] (drop i [97, 98, 99, 97, 98 :: u8])" if "i = 0 \<or> i = 1 \<or> i = 3 \<or> i = 4 \<or> 5 \<le> i"
    using that by auto
  then have "i = 2" using i(2) by linarith
  then show ?thesis using r(1) i(1) by simp
qed

end
