(* ===== verification/Object_Registry.thy ===== *)
theory Object_Registry
  imports Kernel_String
begin

unbundle bit_operations_syntax

text \<open>
  The registry of kernel objects, \<^verbatim>\<open>src/rt-thread/src/object.c\<close>, and the registry of devices on it in
  \<^verbatim>\<open>src/rt-thread/src/device.c\<close>.  An object is its address; its name is the eight bytes there, in the byte memory of
  \<open>Mem_String\<close>, which \<^verbatim>\<open>rt_strncpy\<close> writes and \<^verbatim>\<open>rt_strncmp\<close> compares.  The container has one list of objects per
  class, in the order of the configured table.  Critical sections and the hooks, which the program does not
  set, leave no trace here; objects allocated on the heap are not modelled.
\<close>

section \<open>The code\<close>

definition RT_NAME_MAX :: u32 where "RT_NAME_MAX = 8"

definition Class_Thread :: u8 where "Class_Thread = 1"
definition Class_Semaphore :: u8 where "Class_Semaphore = 2"
definition Class_Mutex :: u8 where "Class_Mutex = 3"
definition Class_Event :: u8 where "Class_Event = 4"
definition Class_MailBox :: u8 where "Class_MailBox = 5"
definition Class_MessageQueue :: u8 where "Class_MessageQueue = 6"
definition Class_MemPool :: u8 where "Class_MemPool = 8"
definition Class_Device :: u8 where "Class_Device = 9"
definition Class_Timer :: u8 where "Class_Timer = 10"
definition Class_Unknown :: u8 where "Class_Unknown = 12"
definition Class_Static :: u8 where "Class_Static = 0x80"

lemmas class_defs = Class_Thread_def Class_Semaphore_def Class_Mutex_def Class_Event_def Class_MailBox_def
  Class_MessageQueue_def Class_MemPool_def Class_Device_def Class_Timer_def Class_Unknown_def Class_Static_def

record registry =
  rmem :: memory
  otype :: "nat \<Rightarrow> u8"
  container :: "(u8 \<times> nat list) list"   \<comment> \<open>\<^verbatim>\<open>rt_object_container\<close>: class and list, first object first\<close>
  dev_flag :: "nat \<Rightarrow> u16"
  dev_open_flag :: "nat \<Rightarrow> u16"
  dev_ref_count :: "nat \<Rightarrow> u8"

definition rt_object_container :: "(u8 \<times> nat list) list" where
  "rt_object_container = map (\<lambda>c. (c, [])) [Class_Thread, Class_Semaphore, Class_Mutex, Class_Event, Class_MailBox,
     Class_MessageQueue, Class_MemPool, Class_Device, Class_Timer]"

text \<open>The index of the entry of a class.\<close>

fun rt_object_get_information :: "u8 \<Rightarrow> (u8 \<times> nat list) list \<Rightarrow> nat option" where
  "rt_object_get_information ty [] = None"
| "rt_object_get_information ty (e # es) =
     (if fst e = ty then Some 0 else map_option Suc (rt_object_get_information ty es))"

definition rt_object_init :: "nat \<Rightarrow> u8 \<Rightarrow> nat \<Rightarrow> registry \<Rightarrow> registry res" where
  "rt_object_init ob ty name r =
     (case rt_object_get_information ty (container r) of
        None \<Rightarrow> Inl AssertFailed
      | Some i \<Rightarrow>
          if ob \<in> set (snd (container r ! i)) then Inl AssertFailed
          else bind_res (rt_strncpy ob name RT_NAME_MAX (rmem r)) (\<lambda>m.
            Inr (r\<lparr>otype := (otype r)(ob := ty OR Class_Static), rmem := m,
              container := (container r)[i := (fst (container r ! i), ob # snd (container r ! i))]\<rparr>)))"

definition rt_object_detach :: "nat option \<Rightarrow> registry \<Rightarrow> registry res" where
  "rt_object_detach p r =
     (case p of
        None \<Rightarrow> Inl AssertFailed
      | Some ob \<Rightarrow> Inr (r\<lparr>otype := (otype r)(ob := 0),
          container := map (\<lambda>(c, obs). (c, remove1 ob obs)) (container r)\<rparr>))"

definition rt_object_is_systemobject :: "nat option \<Rightarrow> registry \<Rightarrow> bool res" where
  "rt_object_is_systemobject p r =
     (case p of None \<Rightarrow> Inl AssertFailed | Some ob \<Rightarrow> Inr (otype r ob AND Class_Static \<noteq> 0))"

definition rt_object_get_type :: "nat option \<Rightarrow> registry \<Rightarrow> u8 res" where
  "rt_object_get_type p r =
     (case p of None \<Rightarrow> Inl AssertFailed | Some ob \<Rightarrow> Inr (otype r ob AND NOT Class_Static))"

text \<open>The loop of \<^verbatim>\<open>rt_object_find\<close> and of \<^verbatim>\<open>rt_device_find\<close>.\<close>

fun find_name :: "memory \<Rightarrow> nat list \<Rightarrow> nat \<Rightarrow> nat option res" where
  "find_name m [] name = Inr None"
| "find_name m (ob # obs) name =
     bind_res (rt_strncmp m ob name RT_NAME_MAX) (\<lambda>r. if r = 0 then Inr (Some ob) else find_name m obs name)"

definition rt_object_find :: "nat option \<Rightarrow> u8 \<Rightarrow> registry \<Rightarrow> nat option res" where
  "rt_object_find name ty r =
     (case name of None \<Rightarrow> Inr None
      | Some n \<Rightarrow>
          if Class_Unknown < ty then Inr None
          else (case rt_object_get_information ty (container r) of
                  None \<Rightarrow> Inl AssertFailed
                | Some i \<Rightarrow> find_name (rmem r) (snd (container r ! i)) n))"

definition rt_device_find :: "nat \<Rightarrow> registry \<Rightarrow> nat option res" where
  "rt_device_find name r =
     (case rt_object_get_information Class_Device (container r) of
        None \<Rightarrow> Inl AssertFailed
      | Some i \<Rightarrow> find_name (rmem r) (snd (container r ! i)) name)"

definition rt_device_register :: "nat option \<Rightarrow> nat \<Rightarrow> u16 \<Rightarrow> registry \<Rightarrow> (int \<times> registry) res" where
  "rt_device_register dev name flags r =
     (case dev of None \<Rightarrow> Inr (- RT_ERROR, r)
      | Some d \<Rightarrow>
          bind_res (rt_device_find name r) (\<lambda>found.
            if found \<noteq> None then Inr (- RT_ERROR, r)
            else bind_res (rt_object_init d Class_Device name r) (\<lambda>r.
              Inr (RT_EOK, r\<lparr>dev_flag := (dev_flag r)(d := flags), dev_ref_count := (dev_ref_count r)(d := 0),
                dev_open_flag := (dev_open_flag r)(d := 0)\<rparr>))))"

definition rt_device_unregister :: "nat option \<Rightarrow> registry \<Rightarrow> (int \<times> registry) res" where
  "rt_device_unregister dev r =
     bind_res (rt_object_get_type dev r) (\<lambda>ty. if ty \<noteq> Class_Device then Inl AssertFailed
     else bind_res (rt_object_is_systemobject dev r) (\<lambda>sys. if \<not> sys then Inl AssertFailed
     else bind_res (rt_object_detach dev r) (\<lambda>r. Inr (RT_EOK, r))))"

section \<open>Names\<close>

text \<open>The name in the \<open>n\<close> bytes at an address: up to the first NUL, all of them when there is none.\<close>

fun field :: "memory \<Rightarrow> nat \<Rightarrow> nat \<Rightarrow> u8 list" where
  "field m a 0 = []"
| "field m a (Suc n) = (case m a of None \<Rightarrow> [] | Some c \<Rightarrow> if c = 0 then [] else c # field m (a + 1) n)"

lemma field_cong: "(\<And>x. a \<le> x \<Longrightarrow> x < a + n \<Longrightarrow> m' x = m x) \<Longrightarrow> field m' a n = field m a n"
  by (induction n arbitrary: a) (auto split: option.splits)

lemma strncmp_field:
  "mapped m a n \<Longrightarrow> cstr m b u \<Longrightarrow> \<exists>r. str_ncompare m a b n = Inr r \<and> (r = 0 \<longleftrightarrow> field m a n = take n u)"
proof (induction n arbitrary: a b u)
  case (Suc n)
  then obtain c where c: "m a = Some c" using mappedD [of m a "Suc n" a] by auto
  have m: "mapped m (a + 1) n" using Suc.prems(1) by (auto intro: mapped_le)
  show ?case
  proof (cases u)
    case Nil
    then show ?thesis using Suc.prems c by (auto simp: sint_diff_zero)
  next
    case (Cons d v)
    then have "\<exists>r. str_ncompare m (a + 1) (b + 1) n = Inr r \<and> (r = 0 \<longleftrightarrow> field m (a + 1) n = take n v)"
      using Suc.IH [OF m] Suc.prems(2) by simp
    then show ?thesis using Suc.prems(2) c Cons by (auto simp: sint_diff_zero)
  qed
qed simp

lemma field_padded: "0 \<notin> set t \<Longrightarrow> field (padded d t n m) d n = take n t"
proof -
  have "field m' a k = take k (drop j t)"
    if "\<And>i. i < k \<Longrightarrow> m' (a + i) = Some (if j + i < length t then t ! (j + i) else 0)" "0 \<notin> set t" for m' a k j
    using that
  proof (induction k arbitrary: a j)
    case (Suc k)
    have "field m' (a + 1) k = take k (drop (Suc j) t)"
      by (rule Suc.IH) (use Suc.prems(1) [of "Suc _"] Suc.prems(2) in auto)
    moreover have "drop j t = t ! j # drop (Suc j) t" "t ! j \<noteq> 0" if "j < length t"
      using that Suc.prems(2) by (simp_all add: Cons_nth_drop_Suc) (metis nth_mem)
    ultimately show ?case using Suc.prems(1) [of 0] by (cases "j < length t") auto
  qed simp
  from this [of n "padded d t n m" d 0] show "0 \<notin> set t \<Longrightarrow> field (padded d t n m) d n = take n t"
    by (simp add: padded_def)
qed

lemma cstr_nonzero: "cstr m a t \<Longrightarrow> 0 \<notin> set t"
  by (induction t arbitrary: a) auto

section \<open>The registry is well formed\<close>

definition apart :: "nat \<Rightarrow> nat \<Rightarrow> bool" where
  "apart a b \<longleftrightarrow> a + 8 \<le> b \<or> b + 8 \<le> a"

definition objects :: "(u8 \<times> nat list) list \<Rightarrow> nat list" where
  "objects es = concat (map snd es)"

text \<open>
  Every object is in one list once, has the class of its list, and its name has eight bytes of its own; the name
  of a string in memory may lie anywhere.
\<close>

definition registry_ok :: "registry \<Rightarrow> bool" where
  "registry_ok r \<longleftrightarrow> map fst (container r) = map fst rt_object_container \<and> distinct (objects (container r)) \<and>
     (\<forall>(c, obs) \<in> set (container r). \<forall>ob \<in> set obs. otype r ob = c OR Class_Static) \<and>
     (\<forall>ob \<in> set (objects (container r)). mapped (rmem r) ob 8 \<and> (\<forall>ob' \<in> set (objects (container r)). ob \<noteq> ob' \<longrightarrow> apart ob ob'))"

text \<open>A place for a new object: eight bytes apart from every object.\<close>

definition fresh :: "nat \<Rightarrow> registry \<Rightarrow> bool" where
  "fresh ob r \<longleftrightarrow> mapped (rmem r) ob 8 \<and> (\<forall>ob' \<in> set (objects (container r)). apart ob ob')"

lemma get_information_cong:
  "map fst es = map fst es' \<Longrightarrow> rt_object_get_information ty es = rt_object_get_information ty es'"
proof (induction es arbitrary: es')
  case (Cons e es)
  then show ?case by (cases es') auto
qed simp

lemma get_information_Some:
  "rt_object_get_information ty es = Some i \<Longrightarrow> \<exists>xs obs ys. es = xs @ (ty, obs) # ys \<and> length xs = i"
proof (induction es arbitrary: i)
  case (Cons e es)
  show ?case
  proof (cases "fst e = ty")
    case True
    then show ?thesis using Cons.prems by (intro exI [of _ "[]"] exI [of _ "snd e"] exI [of _ es]) auto
  next
    case False
    then obtain j where j: "rt_object_get_information ty es = Some j" "i = Suc j" using Cons.prems by auto
    then obtain xs obs ys where "es = xs @ (ty, obs) # ys" "length xs = j" using Cons.IH by blast
    then show ?thesis using j(2) by (intro exI [of _ "e # xs"]) auto
  qed
qed simp

lemma dom_padded: "mapped m d n \<Longrightarrow> dom (padded d t n m) = dom m"
  by (auto simp: padded_def mapped_def split: if_splits)

lemma strncpy_name:
  assumes "cstr m name u" "mapped m ob 8" "ob + 8 \<le> name \<or> name + length u < ob"
  shows "rt_strncpy ob name RT_NAME_MAX m = Inr (padded ob u 8 m)"
  using str_ncopy_padded [OF assms(1,2)] assms(3) by (simp add: rt_strncpy_def RT_NAME_MAX_def)

lemma field_apart: "apart ob ob' \<Longrightarrow> field (padded ob u 8 m) ob' 8 = field m ob' 8"
  by (rule field_cong) (auto simp: padded_def apart_def)

text \<open>The new object is the first of its class; every other object keeps its name.\<close>

lemma rt_object_init_ok:
  assumes ok: "registry_ok r" and c: "rt_object_get_information ty (container r) = Some i"
    and fr: "fresh ob r" and name: "cstr (rmem r) name u" "ob + 8 \<le> name \<or> name + length u < ob"
  obtains r' where "rt_object_init ob ty name r = Inr r'" "registry_ok r'" "rmem r' = padded ob u 8 (rmem r)"
    "container r' = (container r)[i := (ty, ob # snd (container r ! i))]"
    "field (rmem r') ob 8 = take 8 u" "\<forall>ob' \<in> set (objects (container r)). field (rmem r') ob' 8 = field (rmem r) ob' 8"
proof -
  obtain xs obs ys where e: "container r = xs @ (ty, obs) # ys" "length xs = i" using get_information_Some [OF c] by blast
  have n: "container r ! i = (ty, obs)" "(container r)[i := v] = xs @ v # ys" for v
    using e by (auto simp: nth_append list_update_append)
  have new: "ob \<notin> set (objects (container r))" using fr by (auto simp: fresh_def apart_def)
  have obj: "set (objects (xs @ (ty, ob # obs) # ys)) = insert ob (set (objects (container r)))"
    using e by (auto simp: objects_def)
  have map: "mapped (rmem r) ob 8" using fr by (simp add: fresh_def)
  let ?m = "padded ob u 8 (rmem r)"
  let ?r = "r\<lparr>otype := (otype r)(ob := ty OR Class_Static), rmem := ?m, container := xs @ (ty, ob # obs) # ys\<rparr>"
  have "rt_object_init ob ty name r = Inr ?r"
    using c n new strncpy_name [OF name(1) map name(2)] e by (simp add: rt_object_init_def objects_def)
  moreover have "registry_ok ?r"
  proof -
    have "distinct (objects (xs @ (ty, ob # obs) # ys))"
      using ok new e by (auto simp: registry_ok_def objects_def)
    moreover have "\<forall>(c, os) \<in> set (xs @ (ty, ob # obs) # ys). \<forall>o' \<in> set os. otype ?r o' = c OR Class_Static"
      using ok new e by (fastforce simp: registry_ok_def objects_def)
    moreover have "map fst (xs @ (ty, ob # obs) # ys) = map fst rt_object_container"
      using ok e by (simp add: registry_ok_def)
    moreover have "\<forall>o1 \<in> insert ob (set (objects (container r))). mapped ?m o1 8 \<and>
        (\<forall>o2 \<in> insert ob (set (objects (container r))). o1 \<noteq> o2 \<longrightarrow> apart o1 o2)"
      using ok fr by (auto simp: registry_ok_def fresh_def mapped_dom [OF dom_padded] apart_def)
    ultimately show ?thesis unfolding registry_ok_def by (simp add: obj)
  qed
  moreover have "field ?m ob 8 = take 8 u" by (rule field_padded) (rule cstr_nonzero [OF name(1)])
  moreover have "\<forall>ob' \<in> set (objects (container r)). field ?m ob' 8 = field (rmem r) ob' 8"
    using fr field_apart by (auto simp: fresh_def)
  ultimately show ?thesis using n that [of ?r] by simp
qed

section \<open>The devices as a map\<close>

definition devices :: "registry \<Rightarrow> nat list" where
  "devices r = snd (container r ! 7)"

text \<open>The abstract registry: a finite map from names of at most eight characters to devices.\<close>

definition directory :: "registry \<Rightarrow> u8 list \<Rightarrow> nat option" where
  "directory r = map_of (map (\<lambda>d. (field (rmem r) d 8, d)) (devices r))"

definition device_registry_ok :: "registry \<Rightarrow> bool" where
  "device_registry_ok r \<longleftrightarrow> registry_ok r \<and> distinct (map (\<lambda>d. field (rmem r) d 8) (devices r))"

lemma device_information:
  assumes "registry_ok r"
  shows "rt_object_get_information Class_Device (container r) = Some 7" "7 < length (container r)"
    "(container r ! 7) = (Class_Device, devices r)" "set (devices r) \<subseteq> set (objects (container r))"
proof -
  have m: "map fst (container r) = map fst rt_object_container" using assms by (simp add: registry_ok_def)
  show "rt_object_get_information Class_Device (container r) = Some 7"
    unfolding get_information_cong [OF m] by (simp add: rt_object_container_def class_defs)
  then obtain xs obs ys where e: "container r = xs @ (Class_Device, obs) # ys" "length xs = 7" using get_information_Some by blast
  then show "7 < length (container r)" "(container r ! 7) = (Class_Device, devices r)"
    "set (devices r) \<subseteq> set (objects (container r))"
    by (auto simp: devices_def nth_append objects_def)
qed

lemma find_name_map_of:
  "\<forall>d \<in> set obs. mapped m d 8 \<Longrightarrow> cstr m name u \<Longrightarrow> find_name m obs name = Inr (map_of (map (\<lambda>d. (field m d 8, d)) obs) (take 8 u))"
proof (induction obs)
  case (Cons d obs)
  then obtain x where "rt_strncmp m d name RT_NAME_MAX = Inr x" "x = 0 \<longleftrightarrow> field m d 8 = take 8 u"
    using strncmp_field [of m d 8 name u] by (auto simp: rt_strncmp_def RT_NAME_MAX_def)
  then show ?case using Cons by auto
qed simp

lemma device_find_directory:
  assumes "registry_ok r" "cstr (rmem r) name u"
  shows "rt_device_find name r = Inr (directory r (take 8 u))"
proof -
  have "\<forall>d \<in> set (devices r). mapped (rmem r) d 8"
    using assms(1) device_information(4) [OF assms(1)] by (auto simp: registry_ok_def)
  then show ?thesis
    using device_information [OF assms(1)] find_name_map_of [OF _ assms(2)] by (simp add: rt_device_find_def directory_def)
qed

lemma map_of_remove1:
  "distinct (map f xs) \<Longrightarrow> map_of (map (\<lambda>d. (f d, d)) (remove1 e xs)) =
     (if e \<in> set xs then (map_of (map (\<lambda>d. (f d, d)) xs))(f e := None) else map_of (map (\<lambda>d. (f d, d)) xs))"
proof (induction xs)
  case (Cons x xs)
  have "map_of (map (\<lambda>d. (f d, d)) xs) (f x) = None" using Cons.prems by (auto simp: map_of_eq_None_iff)
  moreover have "f e \<noteq> f x" if "e \<in> set xs"
  proof -
    have "f x \<notin> f ` set xs" using Cons.prems by simp
    then show ?thesis using that by (metis imageI)
  qed
  ultimately show ?case using Cons by (auto simp: fun_eq_iff)
qed simp

lemma distinct_remove1_concat:
  "distinct (concat (map snd es)) \<Longrightarrow> distinct (concat (map (\<lambda>x. remove1 e (snd x)) es)) \<and>
     set (concat (map (\<lambda>x. remove1 e (snd x)) es)) = set (concat (map snd es)) - {e}"
  by (induction es) auto

lemma unregister_ok:
  assumes ok: "device_registry_ok r" and e: "e \<in> set (devices r)"
  obtains r' where "rt_device_unregister (Some e) r = Inr (RT_EOK, r')" "device_registry_ok r'"
    "directory r' = (directory r)(field (rmem r) e 8 := None)"
proof -
  have rok: "registry_ok r" using ok by (simp add: device_registry_ok_def)
  note dev = device_information [OF rok]
  let ?c = "map (\<lambda>(c, obs). (c, remove1 e obs)) (container r)"
  let ?r = "r\<lparr>otype := (otype r)(e := 0), container := ?c\<rparr>"
  have obs: "objects ?c = concat (map (\<lambda>x. remove1 e (snd x)) (container r))"
    by (simp add: objects_def case_prod_beta o_def)
  have d: "distinct (objects ?c)" "set (objects ?c) = set (objects (container r)) - {e}"
    using rok distinct_remove1_concat [of "container r" e] unfolding obs by (simp_all add: registry_ok_def objects_def)
  have "map fst ?c = map fst (container r)" by (simp add: case_prod_beta o_def)
  moreover have "\<forall>(c, os) \<in> set ?c. \<forall>ob \<in> set os. otype ?r ob = c OR Class_Static"
  proof (clarify)
    fix c os ob
    assume a: "(c, os) \<in> set ?c" "ob \<in> set os"
    then obtain os' where o: "(c, os') \<in> set (container r)" "os = remove1 e os'" by auto
    have "set os \<subseteq> set (objects ?c)" using a(1) unfolding objects_def by force
    then have "ob \<noteq> e" using a(2) d(2) by auto
    moreover have "ob \<in> set os'" using a(2) o(2) notin_set_remove1 by metis
    ultimately show "otype ?r ob = c OR Class_Static" using rok o(1) by (auto simp: registry_ok_def)
  qed
  ultimately have "registry_ok ?r" using rok d unfolding registry_ok_def by simp
  moreover have devs: "devices ?r = remove1 e (devices r)" using dev(2,3) by (simp add: devices_def case_prod_beta)
  moreover have "distinct (map (\<lambda>d. field (rmem r) d 8) (remove1 e (devices r)))"
  proof -
    have "distinct (map (\<lambda>d. field (rmem r) d 8) (devices r))" using ok by (simp add: device_registry_ok_def)
    then show ?thesis by (auto simp: distinct_map inj_on_diff)
  qed
  ultimately have "device_registry_ok ?r" unfolding device_registry_ok_def devs by simp
  moreover have "directory ?r = (directory r)(field (rmem r) e 8 := None)"
    using ok e unfolding directory_def devs by (simp add: map_of_remove1 device_registry_ok_def)
  moreover have "rt_device_unregister (Some e) r = Inr (RT_EOK, ?r)"
  proof -
    have "(Class_Device, devices r) \<in> set (container r)" using dev(2,3) nth_mem by metis
    then have "otype r e = Class_Device OR Class_Static" using rok e by (auto simp: registry_ok_def)
    then show ?thesis
      by (simp add: rt_device_unregister_def rt_object_get_type_def rt_object_is_systemobject_def rt_object_detach_def class_defs)
  qed
  ultimately show ?thesis using that by blast
qed

text \<open>
  C29. The registry of devices refines a finite map from the first eight characters of a name to the device: finding
  looks a name up; registering an unused place adds the name, unless it is taken, and then fails without
  a change; unregistering removes it.  All keep the registry well formed.
\<close>

theorem device_registry_map:
  assumes ok: "device_registry_ok r" and name: "cstr (rmem r) name u"
    and new: "fresh d r" "d + 8 \<le> name \<or> name + length u < d" and old: "e \<in> set (devices r)"
  shows "rt_device_find name r = Inr (directory r (take 8 u)) \<and>
    (\<exists>r'. rt_device_register (Some d) name flags r =
       Inr (if directory r (take 8 u) = None then (RT_EOK, r') else (- RT_ERROR, r)) \<and>
       device_registry_ok r' \<and> (directory r (take 8 u) = None \<longrightarrow> directory r' = (directory r)(take 8 u \<mapsto> d))) \<and>
    (\<exists>r'. rt_device_unregister (Some e) r = Inr (RT_EOK, r') \<and> device_registry_ok r' \<and>
       directory r' = (directory r)(field (rmem r) e 8 := None))"
proof (intro conjI)
  have rok: "registry_ok r" using ok by (simp add: device_registry_ok_def)
  note dev = device_information [OF rok]
  show find: "rt_device_find name r = Inr (directory r (take 8 u))" by (rule device_find_directory [OF rok name])
  show "\<exists>r'. rt_device_register (Some d) name flags r =
       Inr (if directory r (take 8 u) = None then (RT_EOK, r') else (- RT_ERROR, r)) \<and>
       device_registry_ok r' \<and> (directory r (take 8 u) = None \<longrightarrow> directory r' = (directory r)(take 8 u \<mapsto> d))"
  proof (cases "directory r (take 8 u) = None")
    case False
    then show ?thesis using find ok by (auto simp: rt_device_register_def)
  next
    case True
    obtain r1 where r1: "rt_object_init d Class_Device name r = Inr r1" "registry_ok r1" "rmem r1 = padded d u 8 (rmem r)"
      "container r1 = (container r)[7 := (Class_Device, d # snd (container r ! 7))]" "field (rmem r1) d 8 = take 8 u"
      "\<forall>ob \<in> set (objects (container r)). field (rmem r1) ob 8 = field (rmem r) ob 8"
      using rt_object_init_ok [OF rok dev(1) new(1) name new(2)] by blast
    let ?r = "r1\<lparr>dev_flag := (dev_flag r1)(d := flags), dev_ref_count := (dev_ref_count r1)(d := 0),
                dev_open_flag := (dev_open_flag r1)(d := 0)\<rparr>"
    have devs: "devices ?r = d # devices r" using r1(4) dev(2) by (simp add: devices_def)
    have same: "map (\<lambda>d. (field (rmem ?r) d 8, d)) (devices r) = map (\<lambda>d. (field (rmem r) d 8, d)) (devices r)"
      "map (\<lambda>d. field (rmem ?r) d 8) (devices r) = map (\<lambda>d. field (rmem r) d 8) (devices r)"
      using r1(6) dev(4) by auto
    have "registry_ok ?r" using r1(2) by (simp add: registry_ok_def)
    moreover have "take 8 u \<notin> (\<lambda>d. field (rmem r) d 8) ` set (devices r)"
      using True by (force simp: directory_def map_of_eq_None_iff)
    moreover have "directory ?r = (directory r)(take 8 u \<mapsto> d)"
      unfolding directory_def devs list.map same(1) using r1(5) by simp
    moreover have "rt_device_register (Some d) name flags r = Inr (RT_EOK, ?r)"
      using find True r1(1) by (simp add: rt_device_register_def)
    moreover have "distinct (map (\<lambda>d. field (rmem ?r) d 8) (devices ?r))"
      unfolding devs list.map same(2) using calculation(2) ok r1(5) by (simp add: device_registry_ok_def)
    ultimately show ?thesis using True unfolding device_registry_ok_def by auto
  qed
  show "\<exists>r'. rt_device_unregister (Some e) r = Inr (RT_EOK, r') \<and> device_registry_ok r' \<and>
       directory r' = (directory r)(field (rmem r) e 8 := None)"
    using unregister_ok [OF ok old] by blast
qed

text \<open>Two registered devices \<open>a\<close> and \<open>b\<close>, room for a third one at 120, and the name \<open>c\<close> at 136.\<close>

definition demo_registry :: registry where
  "demo_registry = \<lparr>rmem = (\<lambda>a. if 100 \<le> a \<and> a < 200 then Some 0 else None)(100 \<mapsto> 97, 108 \<mapsto> 98, 136 \<mapsto> 99),
     otype = (\<lambda>_. Class_Device OR Class_Static), container = rt_object_container[7 := (Class_Device, [100, 108])],
     dev_flag = (\<lambda>_. 0), dev_open_flag = (\<lambda>_. 0), dev_ref_count = (\<lambda>_. 0)\<rparr>"

lemma demo_devices: "devices demo_registry = [100, 108]" "objects (container demo_registry) = [100, 108]"
  "field (rmem demo_registry) 100 8 = [97]" "field (rmem demo_registry) 108 8 = [98]"
  by code_simp+

lemma demo_registry_ok: "device_registry_ok demo_registry"
proof -
  have "map fst (container demo_registry) = map fst rt_object_container"
    by (simp add: demo_registry_def rt_object_container_def class_defs)
  moreover have "\<forall>(c, obs) \<in> set (container demo_registry). \<forall>ob \<in> set obs. otype demo_registry ob = c OR Class_Static"
    by (simp add: demo_registry_def rt_object_container_def class_defs)
  moreover have "mapped (rmem demo_registry) a 8" if "100 \<le> a" "a \<le> 192" for a
    using that by (auto simp: mapped_def demo_registry_def)
  ultimately show ?thesis by (simp add: device_registry_ok_def registry_ok_def demo_devices apart_def)
qed

theorem device_registry_map_witness:
  "\<exists>r'. rt_device_register (Some 120) 136 0 demo_registry = Inr (RT_EOK, r') \<and> directory r' [97] = Some 100 \<and> directory r' [99] = Some 120"
proof -
  have d: "directory demo_registry = [[98] \<mapsto> 108, [97] \<mapsto> 100]" by (simp add: directory_def demo_devices)
  have "cstr (rmem demo_registry) 136 [99]" by (simp add: demo_registry_def)
  moreover have "fresh 120 demo_registry" by (auto simp: fresh_def demo_devices apart_def mapped_def) (auto simp: demo_registry_def)
  ultimately show ?thesis
    using device_registry_map [OF demo_registry_ok, of 136 "[99]" 120 100 0] by (auto simp: demo_devices d)
qed

end
