(* ===== verification/Spec2Isabelle.thy ===== *)
theory Spec2Isabelle
  imports System Wdt Ringbuffer Ipc_Queue Uart_Setup Heap_Alloc Soft_Timer Object_Registry
begin

text \<open>
  Verification of the control firmware of an unmanned surface vessel: an STM32F1 board with the RT-Thread
  kernel that drives two thrusters, a winch and a water sampler by a remote control, by commands of a server or by itself.

  \<^bold>\<open>The program.\<close>  \<^verbatim>\<open>applications/main.c\<close> sets up the pins and starts ten threads.  Five of them take single bytes from
  a UART and update shared variables: the remote control (\<^verbatim>\<open>lora.c\<close>), the server link (\<^verbatim>\<open>raspberry.c\<close>), the position
  receiver (\<^verbatim>\<open>gps.c\<close>), the radar (\<^verbatim>\<open>compass.c\<close>) and the water probe (\<^verbatim>\<open>water.c\<close>).  The control thread
  (\<^verbatim>\<open>manager.c\<close>, with \<^verbatim>\<open>auto_cruise.c\<close>) reads them every 40 ms, chooses who is in charge, and sets targets
  and pins; two output threads (\<^verbatim>\<open>motor_pwm.c\<close>, \<^verbatim>\<open>gear_pwm.c\<close>) move the pulse widths towards the targets; others report to
  the server and measure the battery (\<^verbatim>\<open>energy_adc.c\<close>).  A watchdog is refreshed by the control thread.

  \<^bold>\<open>The theories.\<close>
  \<^item> \<^verbatim>\<open>Usv_Prelude\<close>: machine integers, the error monad \<open>'a res\<close> with one error per kind of undefined behaviour,
    arrays with bounds, C division, error codes.  \<^verbatim>\<open>C_Float\<close>: float and double as real numbers with every rounding
    written (\<open>fl\<close>, \<open>db\<close>); infinities and NaN are errors.  \<^verbatim>\<open>C_String\<close>: \<open>atoi\<close>, \<open>itoa\<close>, \<open>sscanf\<close>, C strings.
  \<^item> \<^verbatim>\<open>Kprintf\<close>, \<^verbatim>\<open>Mem_String\<close>, \<^verbatim>\<open>Kernel_String\<close>: the formatter and the console output, the memory and the string functions of the
    kernel (\<^verbatim>\<open>kservice.c\<close>).  \<^verbatim>\<open>Object_Registry\<close>: the names of objects and devices (\<^verbatim>\<open>object.c\<close>, \<^verbatim>\<open>device.c\<close>).  \<^verbatim>\<open>Raspberry\<close> shows that the formatter prints the messages of the server link.
  \<^item> \<^verbatim>\<open>Usv_State\<close>: the shared variables of the application (record \<open>usv\<close>).  \<^verbatim>\<open>Drv_Pwm\<close>, \<^verbatim>\<open>Gpio\<close>: the device drivers
    down to registers and pins.  \<^verbatim>\<open>Ramp\<close>: the locale of an output that approaches a target, interpreted by
    \<^verbatim>\<open>Motor_Pwm\<close> and \<^verbatim>\<open>Gear_Pwm\<close>.
  \<^item> \<^verbatim>\<open>Auto_Cruise\<close>, \<^verbatim>\<open>Manager\<close>: the cruise controller and one iteration of the control thread in phases.
  \<^item> \<^verbatim>\<open>Receiver\<close>: the locales \<open>byte_receiver\<close> and \<open>total_receiver\<close> of a thread that takes bytes, interpreted by \<^verbatim>\<open>Lora\<close>,
    \<^verbatim>\<open>Raspberry\<close>, \<^verbatim>\<open>Gps\<close>, \<^verbatim>\<open>Compass\<close>, \<^verbatim>\<open>Water\<close> and by the whole system in \<^verbatim>\<open>System\<close>.
  \<^item> \<^verbatim>\<open>System\<close>: the threads together; an event is a turn of a thread, a run a list of events.
  \<^item> \<^verbatim>\<open>Energy\<close>, \<^verbatim>\<open>Wdt\<close>: battery monitor, watchdog driver and start.
  \<^item> \<^verbatim>\<open>Ringbuffer\<close>: the kernel's byte buffer, a refinement of a bounded queue (locale \<open>bounded_queue\<close>).
  \<^item> \<^verbatim>\<open>Scheduler\<close>, \<^verbatim>\<open>Thread_Timer\<close>, \<^verbatim>\<open>Soft_Timer\<close>, \<^verbatim>\<open>Ipc\<close>, \<^verbatim>\<open>Ipc_Queue\<close>: the kernel under the application (\<^verbatim>\<open>scheduler.c\<close>, \<^verbatim>\<open>thread.c\<close>,
    \<^verbatim>\<open>timer.c\<close>, \<^verbatim>\<open>clock.c\<close>, \<^verbatim>\<open>ipc.c\<close>), as operations on one record \<open>kernel\<close>; the locale \<open>message_queue\<close> is interpreted on mailboxes and
    on message queues.
  \<^item> \<^verbatim>\<open>Heap_Mem\<close>, \<^verbatim>\<open>Heap_Alloc\<close>: the kernel's heap (\<^verbatim>\<open>mem.c\<close>) on its block headers, and the locale \<open>allocator\<close> it interprets.
  \<^item> \<^verbatim>\<open>Serial\<close>: the serial device framework (\<^verbatim>\<open>serial.c\<close>) and the device calls on it (\<^verbatim>\<open>device.c\<close>), with the locale
    \<open>uart_driver\<close> of the driver below.  \<^verbatim>\<open>Usart\<close>: the STM32 driver (\<^verbatim>\<open>drv_usart.c\<close>), its interpretation.
    \<^verbatim>\<open>Serial_Link\<close>: a line from the interrupt through FIFO and semaphore to the reading thread, as a step relation.
    \<^verbatim>\<open>Uart_Setup\<close>: the set-up of the five lines, with bytes arriving between its calls.

  \<^bold>\<open>How the code is modelled.\<close>  A function that changes state takes the state and returns it; \<open>Inl e\<close> is undefined behaviour or a failed
  assertion, and theorems that say an operation completes show \<open>Inr\<close>.  Integers have their width: \<open>u8\<close>, \<open>u16\<close>,
  \<open>u32\<close> wrap; \<open>int\<close> of C is an integer whose overflow is an error (\<open>chk\<close>).  The endless loop of a thread is one
  definition per turn.  A kernel call that makes the thread wait is two definitions, the part before the switch and the part
  \<open>\<dots>_resumed\<close> after it.  Lists of the kernel are lists of thread or timer numbers; the links of a message queue are kept.

  \<^bold>\<open>Loops that might not end\<close> are \<^theory_text>\<open>partial_function (option)\<close>: waking all waiting threads, the expiry of timers, the reset of a
  message queue, the receive interrupt, the searches of the heap and the searches for the end of a string; it is proved that they return.  The check of the soft
  timers may not return, if a time-out function stops another timer; \<^verbatim>\<open>Soft_Timer\<close> proves when it does and when not.  No fuel is used.

  \<^bold>\<open>What is shown.\<close>  Safety of the whole boat under every interleaving of turns and every input; the choice of the control source; the
  functional behaviour of driving, cruising and sampling; the receivers' robustness and round trips; accuracy of the timer
  registers; for the kernel an invariant kept by every call, priority scheduling, wake-ups by time-out, semaphore, mutex, event and
  queue, and first-in first-out delivery.  Theorems named in the manifest as errors state where the code does not do what it
  means to.

  \<^bold>\<open>Not modelled.\<close>  The vendor's HAL, assembly and start-up code; DMA, clocks and pins of the UARTs; objects allocated on the heap; components the program does not use (network, file systems, USB, shell, signals, multi-core).  Turns of threads are atomic
  in \<^verbatim>\<open>System\<close>, and kernel calls are atomic where the code disables interrupts.
\<close>

end
